(* ===== verification/Prelude.thy ===== *)
theory Prelude
  imports Main "HOL-Library.Word" "HOL-Library.Product_Lexorder"
begin

text \<open>
  Shared vocabulary of the development: the machine integer types of
  include/order_book/core/types.hpp, the model of \<open>std::map\<close> and \<open>std::unordered_map\<close> as
  association lists kept in the order of a comparator, and the list lemmas the components share.

  A map is a list of key/value pairs. \<open>map_of\<close> is \<open>find\<close>, \<open>om_put\<close> is
  \<open>insert_or_assign\<close> (and \<open>try_emplace\<close> where the key is absent), \<open>om_erase\<close> is
  \<open>erase\<close> and \<open>om_update\<close> is a write through the reference an iterator gives. The laws are
  proved once in the locale \<open>key_order\<close>, for any strict total order of keys, and interpreted for
  \<open>std::less\<close> and \<open>std::greater\<close>.
\<close>

section \<open>Types and theorem collections\<close>

type_synonym u8 = "8 word"
type_synonym u16 = "16 word"
type_synonym u32 = "32 word"
type_synonym u64 = "64 word"

named_theorems om_simps \<open>rewriting of container operations under map_of\<close>
named_theorems om_intros \<open>preservation of the container order\<close>

section \<open>Containers\<close>

fun om_put :: "('k \<Rightarrow> 'k \<Rightarrow> bool) \<Rightarrow> 'k \<Rightarrow> 'v \<Rightarrow> ('k \<times> 'v) list \<Rightarrow> ('k \<times> 'v) list" where
  "om_put lt k v [] = [(k, v)]"
| "om_put lt k v ((k', v') # m) =
     (if k = k' then (k, v) # m
      else if lt k k' then (k, v) # (k', v') # m
      else (k', v') # om_put lt k v m)"

fun om_erase :: "'k \<Rightarrow> ('k \<times> 'v) list \<Rightarrow> ('k \<times> 'v) list" where
  "om_erase k [] = []"
| "om_erase k ((k', v') # m) = (if k = k' then om_erase k m else (k', v') # om_erase k m)"

fun om_update :: "'k \<Rightarrow> ('v \<Rightarrow> 'v) \<Rightarrow> ('k \<times> 'v) list \<Rightarrow> ('k \<times> 'v) list" where
  "om_update k f [] = []"
| "om_update k f ((k', v') # m) =
     (if k = k' then (k', f v') # om_update k f m else (k', v') # om_update k f m)"

definition om_sorted :: "('k \<Rightarrow> 'k \<Rightarrow> bool) \<Rightarrow> ('k \<times> 'v) list \<Rightarrow> bool" where
  "om_sorted lt m \<longleftrightarrow> sorted_wrt lt (map fst m)"

abbreviation om_contains :: "('k \<times> 'v) list \<Rightarrow> 'k \<Rightarrow> bool" where
  "om_contains m k \<equiv> map_of m k \<noteq> None"

subsection \<open>Laws that need no order\<close>

lemma map_of_om_put [simp, om_simps]: "map_of (om_put lt k v m) = (map_of m)(k \<mapsto> v)"
  by (induction m) (auto simp: fun_eq_iff)

lemma map_of_om_erase [simp, om_simps]: "map_of (om_erase k m) = (map_of m)(k := None)"
  by (induction m) (auto simp: fun_eq_iff)

lemma map_of_om_update [simp, om_simps]:
  "map_of (om_update k f m) = (map_of m)(k := map_option f (map_of m k))"
  by (induction m) (auto simp: fun_eq_iff)

lemma fst_om_update [simp]: "map fst (om_update k f m) = map fst m"
  by (induction m) auto

lemma set_fst_om_put: "fst ` set (om_put lt k v m) = insert k (fst ` set m)"
  by (simp flip: dom_map_of_conv_image_fst)

lemma set_fst_om_erase: "fst ` set (om_erase k m) = fst ` set m - {k}"
  by (simp flip: dom_map_of_conv_image_fst)

lemma om_erase_notin: "map_of m k = None \<Longrightarrow> om_erase k m = m"
  by (induction m) (auto split: if_splits)

lemma om_update_notin: "map_of m k = None \<Longrightarrow> om_update k f m = m"
  by (induction m) (auto split: if_splits)

lemma om_update_update: "om_update k f (om_update k g m) = om_update k (\<lambda>v. f (g v)) m"
  by (induction m) auto

lemma om_update_id [simp]: "om_update k id m = m"
  by (induction m) auto

lemma om_update_Nil_iff [simp]: "om_update k f m = [] \<longleftrightarrow> m = []"
  by (cases m) (auto split: if_splits)

lemma length_om_update [simp]: "length (om_update k f m) = length m"
  by (induction m) auto

lemma om_erase_update [simp]: "om_erase k (om_update k f m) = om_erase k m"
  by (induction m) auto

lemma om_erase_filter: "om_erase k m = filter (\<lambda>p. fst p \<noteq> k) m"
  by (induction m) auto

lemma om_put_Nil_iff [simp]: "om_put lt k v m \<noteq> []"
  by (cases m) (auto split: prod.splits if_splits)

lemma map_of_eq_Some_in_set: "map_of m k = Some v \<Longrightarrow> (k, v) \<in> set m"
  by (rule map_of_SomeD)

lemma map_of_not_empty: "m \<noteq> [] \<Longrightarrow> \<exists>k v. map_of m k = Some v"
  by (cases m) auto

lemma find_SomeD: "List.find P xs = Some x \<Longrightarrow> P x \<and> x \<in> set xs"
  by (induction xs) (auto split: if_splits)

text \<open>Sums over a map.\<close>

definition om_sum :: "('k \<Rightarrow> 'v \<Rightarrow> 'n::ab_group_add) \<Rightarrow> ('k \<times> 'v) list \<Rightarrow> 'n" where
  "om_sum f m = sum_list (map (\<lambda>(k, v). f k v) m)"

lemma om_sum_simps [simp]: "om_sum f [] = 0" "om_sum f ((k, v) # m) = f k v + om_sum f m"
  by (simp_all add: om_sum_def)

lemma om_sum_cong: "(\<And>k v. (k, v) \<in> set m \<Longrightarrow> f k v = g k v) \<Longrightarrow> om_sum f m = om_sum g m"
  by (induction m) (auto split: prod.splits)

text \<open>The part of a sum that a key contributes.\<close>

definition om_part :: "('k \<Rightarrow> 'v \<Rightarrow> 'n::ab_group_add) \<Rightarrow> 'k \<Rightarrow> ('k \<times> 'v) list \<Rightarrow> 'n" where
  "om_part f k m = (case map_of m k of None \<Rightarrow> 0 | Some v \<Rightarrow> f k v)"

lemma om_sum_erase:
  "distinct (map fst m) \<Longrightarrow> om_sum f (om_erase k m) = om_sum f m - om_part f k m"
proof (induction m)
  case (Cons p m)
  then show ?case
    by (cases p) (auto simp: om_part_def om_erase_notin map_of_eq_None_iff [THEN iffD2] split: option.splits)
qed (simp add: om_part_def)

subsection \<open>Laws of an ordered map\<close>

locale key_order =
  fixes lt :: "'k \<Rightarrow> 'k \<Rightarrow> bool"
  assumes lt_irrefl: "\<not> lt k k"
    and lt_trans: "lt a b \<Longrightarrow> lt b c \<Longrightarrow> lt a c"
    and lt_total: "a \<noteq> b \<Longrightarrow> lt a b \<or> lt b a"
begin

lemma lt_asym: "lt a b \<Longrightarrow> \<not> lt b a"
  using lt_trans lt_irrefl by blast

lemma sorted_distinct: "om_sorted lt m \<Longrightarrow> distinct (map fst m)"
  unfolding om_sorted_def
  by (induction m) (auto simp: lt_irrefl)

lemma sorted_put [om_intros]: "om_sorted lt m \<Longrightarrow> om_sorted lt (om_put lt k v m)"
  unfolding om_sorted_def
proof (induction m)
  case (Cons p m)
  obtain k' v' where p: "p = (k', v')" by force
  have tail: "\<And>x. x \<in> fst ` set m \<Longrightarrow> lt k' x"
    using Cons.prems p by auto
  have IH: "sorted_wrt lt (map fst (om_put lt k v m))"
    using Cons by (simp add: p)
  have "\<And>x. x \<in> fst ` set (om_put lt k v m) \<Longrightarrow> k \<noteq> k' \<Longrightarrow> \<not> lt k k' \<Longrightarrow> lt k' x"
    using tail lt_total by (auto simp: set_fst_om_put)
  then show ?case
    using Cons.prems tail IH lt_trans [of k k'] by (auto simp: p)
qed simp

lemma sorted_erase [om_intros]: "om_sorted lt m \<Longrightarrow> om_sorted lt (om_erase k m)"
  unfolding om_sorted_def om_erase_filter by (induction m) auto

lemma sorted_update [om_intros]: "om_sorted lt m \<Longrightarrow> om_sorted lt (om_update k f m)"
  by (simp add: om_sorted_def)

lemma sorted_Nil [om_intros]: "om_sorted lt []"
  by (simp add: om_sorted_def)

text \<open>An ordered map is determined by its lookups.\<close>

lemma sorted_ext:
  assumes "om_sorted lt m" "om_sorted lt n" "map_of m = map_of n"
  shows "m = n"
  using assms
proof (induction m arbitrary: n)
  case Nil
  then show ?case by (cases n) (auto simp: fun_eq_iff split: if_splits prod.splits)
next
  case (Cons p m)
  obtain k v where p: "p = (k, v)" by force
  from Cons.prems obtain q n' where n: "n = q # n'"
    by (cases n) (auto simp: p fun_eq_iff split: if_splits)
  obtain k' v' where q: "q = (k', v')" by force
  have m_gt: "\<And>x. x \<in> fst ` set m \<Longrightarrow> lt k x" and n_gt: "\<And>x. x \<in> fst ` set n' \<Longrightarrow> lt k' x"
    using Cons.prems by (auto simp: p q n om_sorted_def)
  have "dom (map_of (p # m)) = dom (map_of (q # n'))"
    using Cons.prems(3) n by (simp only:)
  then have doms: "insert k (fst ` set m) = insert k' (fst ` set n')"
    by (simp only: dom_map_of_conv_image_fst p q) simp
  have kk: "k = k'"
    using doms m_gt n_gt lt_asym by (metis insertE insertI1)
  have vv: "v = v'"
    using fun_cong [OF Cons.prems(3), of k] by (simp add: p q n kk)
  have notin: "k \<notin> fst ` set m" "k \<notin> fst ` set n'"
    using m_gt n_gt kk lt_irrefl by blast+
  have "map_of m x = map_of n' x" for x
    using fun_cong [OF Cons.prems(3), of x] notin
    by (cases "x = k") (auto simp: p q n kk map_of_eq_None_iff [THEN iffD2])
  then have "m = n'"
    using Cons.prems by (intro Cons.IH) (auto simp: n om_sorted_def)
  then show ?case by (simp add: n p q kk vv)
qed

lemma erase_put_undo: "om_sorted lt m \<Longrightarrow> map_of m k = None \<Longrightarrow> om_erase k (om_put lt k v m) = m"
  by (rule sorted_ext) (auto intro: om_intros simp: fun_eq_iff)

lemma put_same: "om_sorted lt m \<Longrightarrow> map_of m k = Some v \<Longrightarrow> om_put lt k v m = m"
  by (rule sorted_ext) (auto intro: om_intros simp: fun_eq_iff)

lemma update_as_put:
  "om_sorted lt m \<Longrightarrow> map_of m k = Some v \<Longrightarrow> om_update k f m = om_put lt k (f v) m"
  by (rule sorted_ext) (auto intro: om_intros simp: fun_eq_iff)

lemma update_put: "om_sorted lt m \<Longrightarrow> om_update k f (om_put lt k v m) = om_put lt k (f v) m"
  by (rule sorted_ext) (auto intro: om_intros simp: fun_eq_iff)

lemma put_put: "om_sorted lt m \<Longrightarrow> om_put lt k v (om_put lt k w m) = om_put lt k v m"
  by (rule sorted_ext) (auto intro: om_intros simp: fun_eq_iff)

lemma erase_put: "om_sorted lt m \<Longrightarrow> om_erase k (om_put lt k v m) = om_erase k m"
  by (rule sorted_ext) (auto intro: om_intros simp: fun_eq_iff)

lemma length_put: "om_sorted lt m \<Longrightarrow> map_of m k = None \<Longrightarrow> length (om_put lt k v m) = Suc (length m)"
  by (induction m) (auto simp: om_sorted_def split: if_splits)

lemma sum_erase: "om_sorted lt m \<Longrightarrow> om_sum f (om_erase k m) = om_sum f m - om_part f k m"
  by (simp add: om_sum_erase sorted_distinct)

lemma sum_put:
  assumes "om_sorted lt m"
  shows "om_sum f (om_put lt k v m) = om_sum f m - om_part f k m + f k v"
proof -
  have "om_sum f (om_erase k (om_put lt k v m)) = om_sum f (om_erase k m)"
    using assms by (simp add: erase_put)
  moreover have "om_sum f (om_erase k (om_put lt k v m)) = om_sum f (om_put lt k v m) - f k v"
    using sum_erase [OF sorted_put [OF assms, of k v], of f k] by (simp add: om_part_def)
  ultimately show ?thesis using sum_erase [OF assms, of f k] by (simp add: algebra_simps)
qed

text \<open>\<open>begin()\<close> is the entry no other key precedes.\<close>

lemma sorted_hd_least:
  "om_sorted lt ((k, v) # m) \<Longrightarrow> map_of ((k, v) # m) k' = Some v' \<Longrightarrow> k' = k \<or> lt k k'"
  by (auto simp: om_sorted_def split: if_splits dest!: map_of_SomeD)

end

interpretation om_less: key_order "(<) :: 'a::linorder \<Rightarrow> 'a \<Rightarrow> bool"
  by unfold_locales auto

interpretation om_greater: key_order "(>) :: 'a::linorder \<Rightarrow> 'a \<Rightarrow> bool"
  by unfold_locales auto

end
