(* ===== verification/Core_Types.thy ===== *)
theory Core_Types
  imports Prelude
begin

text \<open>
  include/order_book/core/types.hpp and events.hpp: identifiers, sides, results and market events.

  A C++ enumeration can hold a value outside its enumerators and the code tests for it. Each
  enumeration whose code does so has one more constructor (here \<open>Side_Other\<close>) that stands for every
  such value.
\<close>

type_synonym Sequence = u64
type_synonym OrderId = u64
type_synonym InstrumentId = u64
type_synonym Price = u32
type_synonym Quantity = u32

datatype Side = Bid | Ask | Side_Other

definition side_to_string :: "Side \<Rightarrow> string" where
  "side_to_string s = (if s = Bid then ''bid'' else ''ask'')"

datatype ApplyResult = Ok | DuplicateOrder | UnknownOrder | InvalidPrice | InvalidQuantity
  | UnknownInstrument | QuantityExceedsRemaining | ParseError | NotImplemented | AllocationFailed

fun result_to_string :: "ApplyResult \<Rightarrow> string" where
  "result_to_string Ok = ''ok''"
| "result_to_string DuplicateOrder = ''duplicate_order''"
| "result_to_string UnknownOrder = ''unknown_order''"
| "result_to_string InvalidPrice = ''invalid_price''"
| "result_to_string InvalidQuantity = ''invalid_quantity''"
| "result_to_string QuantityExceedsRemaining = ''quantity_exceeds_remaining''"
| "result_to_string ParseError = ''parse_error''"
| "result_to_string NotImplemented = ''not_implemented''"
| "result_to_string AllocationFailed = ''allocation_failed''"
| "result_to_string UnknownInstrument = ''unknown_instrument''"

text \<open>The variant \<open>EventPayload\<close>; the fields of each struct in declaration order.\<close>

datatype EventPayload =
    AddOrder OrderId Side Price Quantity
  | CancelOrder OrderId
  | ExecuteOrder OrderId Quantity

record MarketEvent =
  ev_sequence :: Sequence
  ev_instrument_id :: InstrumentId
  ev_payload :: EventPayload

text \<open>An event whose side, if it has one, is an enumerator.\<close>

definition event_ok :: "MarketEvent \<Rightarrow> bool" where
  "event_ok e \<longleftrightarrow> (case ev_payload e of AddOrder _ s _ _ \<Rightarrow> s = Bid \<or> s = Ask | _ \<Rightarrow> True)"

end
