(* ===== verification/Decimal.thy ===== *)
theory Decimal
  imports Prelude
begin

text \<open>
  Decimal text as \<open>std::to_string\<close>, \<open>operator<<\<close> and \<open>std::from_chars\<close> read and write
  unsigned integers. \<open>from_chars\<close> consumes the longest run of digits; it accepts no sign and no
  white space, and reports a value that does not fit the width.
\<close>

definition digit_char :: "nat \<Rightarrow> char" where
  "digit_char d = char_of (48 + d)"

definition is_digit :: "char \<Rightarrow> bool" where
  "is_digit c \<longleftrightarrow> 48 \<le> (of_char c :: nat) \<and> (of_char c :: nat) \<le> 57"

definition digit_value :: "char \<Rightarrow> nat" where
  "digit_value c = of_char c - 48"

fun to_string_nat :: "nat \<Rightarrow> string" where
  "to_string_nat n =
     (if n < 10 then [digit_char n] else to_string_nat (n div 10) @ [digit_char (n mod 10)])"

declare to_string_nat.simps [simp del]

definition digits_value :: "string \<Rightarrow> nat" where
  "digits_value cs = foldl (\<lambda>a c. 10 * a + digit_value c) 0 cs"

datatype errc = Invalid_Argument | Result_Out_Of_Range

text \<open>The result is the unread rest of the text and the value or the error code.\<close>

definition from_chars :: "nat \<Rightarrow> string \<Rightarrow> string \<times> (errc + nat)" where
  "from_chars width text =
     (let ds = takeWhile is_digit text; rest = dropWhile is_digit text in
      if ds = [] then (text, Inl Invalid_Argument)
      else if 2 ^ width \<le> digits_value ds then (rest, Inl Result_Out_Of_Range)
      else (rest, Inr (digits_value ds)))"

lemma is_digit_digit_char [simp]: "d < 10 \<Longrightarrow> is_digit (digit_char d)"
  by (simp add: is_digit_def digit_char_def)

lemma digit_value_digit_char [simp]: "d < 10 \<Longrightarrow> digit_value (digit_char d) = d"
  by (simp add: digit_value_def digit_char_def)

lemma digits_value_snoc [simp]: "digits_value (cs @ [c]) = 10 * digits_value cs + digit_value c"
  by (simp add: digits_value_def)

lemma to_string_nat_digits: "c \<in> set (to_string_nat n) \<Longrightarrow> is_digit c"
  by (induction n rule: to_string_nat.induct)
    (subst (asm) (2) to_string_nat.simps, auto split: if_splits)

lemma to_string_nat_nonempty [simp]: "to_string_nat n \<noteq> []"
  by (subst to_string_nat.simps) simp

lemma digits_value_to_string [simp]: "digits_value (to_string_nat n) = n"
proof (induction n rule: to_string_nat.induct)
  case (1 n)
  show ?case
  proof (cases "n < 10")
    case True
    then show ?thesis by (subst to_string_nat.simps) (simp add: digits_value_def)
  next
    case False
    with 1 show ?thesis by (subst to_string_nat.simps) simp
  qed
qed

lemma from_chars_to_string:
  "n < 2 ^ width \<Longrightarrow> from_chars width (to_string_nat n) = ([], Inr n)"
  by (simp add: from_chars_def takeWhile_eq_all_conv [THEN iffD2]
      dropWhile_eq_Nil_conv [THEN iffD2] to_string_nat_digits)

end
