(* ===== verification/Slot_Pool.thy ===== *)
theory Slot_Pool
  imports Prelude
begin

text \<open>
  include/order_book/memory/fixed_slot_pool.hpp and allocator_adaptor.hpp. A pool carves one
  upstream block into equal slots on first use, hands them out from a stack of free slots and takes
  them back. Addresses and sizes are natural numbers below \<open>2 ^ 64\<close>; address 0 is
  \<open>nullptr\<close>. What the environment decides is an argument: the block the upstream allocator
  returns, and whether the pool's own vectors get their memory (\<open>reserve_ok\<close>).

  The locale \<open>slot_allocator\<close> states what a client may rely on; it is interpreted on the pool at
  the size of an order list node in the theory of the order book.
\<close>

section \<open>The pool\<close>

record FixedSlotPool =
  first_init :: bool
  storage :: nat
  capacity_bytes :: nat
  free_slots :: "nat list"
  in_uses :: "bool list"
  free_count :: nat
  slot_sz :: nat
  slot_alignment :: nat
  last_valid_start :: nat
  first_valid_start :: nat

datatype alloc_result = Bad_Alloc | Nullptr | Ptr nat

text \<open>The constructor: \<open>upstream\<close> is the block address, or \<open>None\<close> when \<open>allocate\<close> throws.\<close>

definition FixedSlotPool_new :: "nat option \<Rightarrow> nat \<Rightarrow> FixedSlotPool option" where
  "FixedSlotPool_new upstream capacity =
     (if capacity = 0 then None
      else case upstream of
        None \<Rightarrow> None
      | Some block \<Rightarrow> Some
          \<lparr>first_init = False, storage = block, capacity_bytes = capacity, free_slots = [],
           in_uses = [], free_count = 0, slot_sz = 0, slot_alignment = 0,
           last_valid_start = 0, first_valid_start = 0\<rparr>)"

text \<open>\<open>std::align\<close>: the adjusted pointer and the space left after it, or \<open>None\<close> for a null result.\<close>

definition std_align :: "nat \<Rightarrow> nat \<Rightarrow> nat \<Rightarrow> nat \<Rightarrow> (nat \<times> nat) option" where
  "std_align alignment sz ptr space =
     (let pad = (alignment - ptr mod alignment) mod alignment in
      if sz + pad \<le> space then Some (ptr + pad, space - pad) else None)"

text \<open>The first-use block shared by \<open>allocate\<close> and \<open>try_allocate\<close>; \<open>None\<close> where it fails.\<close>

definition pool_first_use :: "bool \<Rightarrow> nat \<Rightarrow> nat \<Rightarrow> FixedSlotPool \<Rightarrow> FixedSlotPool option" where
  "pool_first_use reserve_ok bytes alignment p =
     (case std_align alignment bytes (storage p) (capacity_bytes p) of
        None \<Rightarrow> None
      | Some (_, space) \<Rightarrow>
          (let count = space div bytes; padding = capacity_bytes p - space in
           if \<not> reserve_ok then None
           else Some (p\<lparr>free_count := count,
                        free_slots := map (\<lambda>i. padding + i * bytes) [0..<count],
                        in_uses := replicate count False,
                        slot_sz := bytes,
                        slot_alignment := alignment,
                        last_valid_start := padding + (count - 1) * bytes,
                        first_valid_start := padding,
                        first_init := True\<rparr>)))"

text \<open>Popping the last free slot: the common tail of both allocation functions.\<close>

definition pool_pop :: "nat \<Rightarrow> FixedSlotPool \<Rightarrow> nat \<times> FixedSlotPool" where
  "pool_pop bytes p =
     (let fc = free_count p - 1; start = free_slots p ! fc in
      (storage p + start,
       p\<lparr>free_count := fc,
         in_uses := (in_uses p)[(start - first_valid_start p) div bytes := True]\<rparr>))"

definition pool_allocate ::
    "bool \<Rightarrow> nat \<Rightarrow> nat \<Rightarrow> FixedSlotPool \<Rightarrow> alloc_result \<times> FixedSlotPool" where
  "pool_allocate reserve_ok bytes alignment p =
     (if bytes = 0 then (Nullptr, p)
      else case (if first_init p then Some p else pool_first_use reserve_ok bytes alignment p) of
        None \<Rightarrow> (Bad_Alloc, p)
      | Some p' \<Rightarrow>
          if free_count p' = 0 then (Bad_Alloc, p')
          else if slot_sz p' \<noteq> bytes \<or> slot_alignment p' \<noteq> alignment then (Bad_Alloc, p')
          else (case pool_pop bytes p' of (a, p'') \<Rightarrow> (Ptr a, p'')))"

definition pool_try_allocate ::
    "bool \<Rightarrow> nat \<Rightarrow> nat \<Rightarrow> FixedSlotPool \<Rightarrow> alloc_result \<times> FixedSlotPool" where
  "pool_try_allocate reserve_ok bytes alignment p =
     (if bytes = 0 then (Nullptr, p)
      else case (if first_init p then Some p else pool_first_use reserve_ok bytes alignment p) of
        None \<Rightarrow> (Nullptr, p)
      | Some p' \<Rightarrow>
          if free_count p' = 0 then (Nullptr, p')
          else if slot_sz p' \<noteq> bytes \<or> slot_alignment p' \<noteq> alignment then (Nullptr, p')
          else (case pool_pop bytes p' of (a, p'') \<Rightarrow> (Ptr a, p'')))"

text \<open>The pointer difference is a \<open>std::size_t\<close>: a pointer below the block wraps around.\<close>

definition pool_deallocate :: "nat \<Rightarrow> nat \<Rightarrow> FixedSlotPool \<Rightarrow> FixedSlotPool" where
  "pool_deallocate ptr bytes p =
     (if ptr = 0 \<or> bytes = 0 \<or> \<not> first_init p \<or> bytes \<noteq> slot_sz p then p
      else let start = (ptr + 2 ^ 64 - storage p) mod 2 ^ 64 in
        if last_valid_start p < start \<or> start < first_valid_start p then p
        else let offset = start - first_valid_start p in
          if offset mod slot_sz p \<noteq> 0 then p
          else if std_align (slot_alignment p) (slot_sz p) ptr (slot_sz p) = None then p
          else let idx = (start - first_valid_start p) div bytes in
            if \<not> in_uses p ! idx then p
            else p\<lparr>in_uses := (in_uses p)[idx := False],
                   free_slots := (free_slots p)[free_count p := start],
                   free_count := free_count p + 1\<rparr>)"

definition pool_count :: "FixedSlotPool \<Rightarrow> nat" where
  "pool_count p = free_count p * slot_sz p"

section \<open>The allocator adaptor\<close>

text \<open>\<open>AllocatorAdaptor<T, CAPACITY_BYTES>\<close> with \<open>sizeof(T)\<close> and \<open>alignof(T)\<close> as arguments.\<close>

definition adaptor_allocate ::
    "nat \<Rightarrow> nat \<Rightarrow> nat \<Rightarrow> bool \<Rightarrow> nat \<Rightarrow> FixedSlotPool \<Rightarrow> alloc_result \<times> FixedSlotPool" where
  "adaptor_allocate capacity sz al reserve_ok n p =
     (if capacity div sz < n then (Bad_Alloc, p)
      else if 1 < n then (Bad_Alloc, p)
      else pool_allocate reserve_ok (n * sz) al p)"

definition adaptor_try_allocate ::
    "nat \<Rightarrow> nat \<Rightarrow> nat \<Rightarrow> bool \<Rightarrow> nat \<Rightarrow> FixedSlotPool \<Rightarrow> alloc_result \<times> FixedSlotPool" where
  "adaptor_try_allocate capacity sz al reserve_ok n p =
     (if capacity div sz < n then (Nullptr, p)
      else if 1 < n then (Nullptr, p)
      else pool_try_allocate reserve_ok (n * sz) al p)"

definition adaptor_deallocate :: "nat \<Rightarrow> nat \<Rightarrow> nat \<Rightarrow> FixedSlotPool \<Rightarrow> FixedSlotPool" where
  "adaptor_deallocate sz ptr n p = (if 1 < n then p else pool_deallocate ptr (n * sz) p)"

section \<open>Well-formed pools\<close>

definition slot_addr :: "FixedSlotPool \<Rightarrow> nat \<Rightarrow> nat" where
  "slot_addr p i = storage p + first_valid_start p + i * slot_sz p"

definition pool_used :: "FixedSlotPool \<Rightarrow> nat set" where
  "pool_used p = {slot_addr p i | i. i < length (in_uses p) \<and> in_uses p ! i}"

definition wf_slots :: "FixedSlotPool \<Rightarrow> bool" where
  "wf_slots p \<longleftrightarrow>
     0 < slot_sz p \<and> 0 < slot_alignment p \<and> slot_alignment p dvd slot_sz p \<and>
     0 < length (in_uses p) \<and> length (free_slots p) = length (in_uses p) \<and>
     last_valid_start p = first_valid_start p + (length (in_uses p) - 1) * slot_sz p \<and>
     first_valid_start p + length (in_uses p) * slot_sz p \<le> capacity_bytes p \<and>
     slot_alignment p dvd storage p + first_valid_start p \<and>
     free_count p \<le> length (in_uses p) \<and>
     distinct (take (free_count p) (free_slots p)) \<and>
     set (take (free_count p) (free_slots p)) =
       {first_valid_start p + i * slot_sz p | i. i < length (in_uses p) \<and> \<not> in_uses p ! i}"

definition wf_pool :: "FixedSlotPool \<Rightarrow> bool" where
  "wf_pool p \<longleftrightarrow>
     0 < storage p \<and> 0 < capacity_bytes p \<and> storage p + capacity_bytes p \<le> 2 ^ 64 \<and>
     (if first_init p then wf_slots p
      else free_slots p = [] \<and> in_uses p = [] \<and> free_count p = 0 \<and> slot_sz p = 0)"

text \<open>How many slots a block of this size and position yields.\<close>

definition pool_slots :: "nat \<Rightarrow> nat \<Rightarrow> FixedSlotPool \<Rightarrow> nat" where
  "pool_slots bytes alignment p =
     (if first_init p then length (in_uses p)
      else case std_align alignment bytes (storage p) (capacity_bytes p) of
        None \<Rightarrow> 0 | Some (_, space) \<Rightarrow> space div bytes)"

section \<open>Proofs about the pool\<close>

lemma std_align_SomeD:
  assumes "std_align al sz ptr space = Some (q, sp)" "0 < al"
  shows "al dvd q" "q = ptr + (space - sp)" "sz \<le> sp" "sp \<le> space"
proof -
  have "(ptr + (al - ptr mod al) mod al) mod al = (ptr mod al + (al - ptr mod al)) mod al"
    by (simp add: mod_simps)
  also have "\<dots> = 0" using assms(2) by (simp add: mod_le_divisor)
  finally have "al dvd ptr + (al - ptr mod al) mod al" by (simp add: mod_eq_0_iff_dvd)
  then show "al dvd q" "q = ptr + (space - sp)" "sz \<le> sp" "sp \<le> space"
    using assms(1) by (auto simp: std_align_def Let_def split: if_splits)
qed

lemma std_align_exact: "0 < al \<Longrightarrow> al dvd ptr \<Longrightarrow> std_align al sz ptr sz = Some (ptr, sz)"
  by (simp add: std_align_def dvd_imp_mod_0)

lemma slot_starts_inj: "0 < sz \<Longrightarrow> f + i * sz = f + j * sz \<longleftrightarrow> i = (j::nat)"
  by simp

lemma wf_pool_slots: "wf_pool p \<Longrightarrow> first_init p \<Longrightarrow> wf_slots p"
  by (simp add: wf_pool_def)

lemma pool_used_uninit [simp]: "wf_pool p \<Longrightarrow> \<not> first_init p \<Longrightarrow> pool_used p = {}"
  by (simp add: wf_pool_def pool_used_def)

lemma wf_slotsD:
  assumes "wf_slots p"
  shows "0 < slot_sz p" "0 < slot_alignment p" "slot_alignment p dvd slot_sz p"
    "0 < length (in_uses p)" "length (free_slots p) = length (in_uses p)"
    "free_count p \<le> length (free_slots p)" "distinct (take (free_count p) (free_slots p))"
  using assms by (simp_all add: wf_slots_def)

lemma slot_addr_inj: "wf_slots p \<Longrightarrow> slot_addr p i = slot_addr p j \<longleftrightarrow> i = j"
  by (simp add: slot_addr_def wf_slots_def)

lemma finite_pool_used [simp]: "finite (pool_used p)"
  by (simp add: pool_used_def)

lemma slot_addr_in_used:
  "wf_slots p \<Longrightarrow> i < length (in_uses p) \<Longrightarrow> slot_addr p i \<in> pool_used p \<longleftrightarrow> in_uses p ! i"
  by (auto simp: pool_used_def slot_addr_inj)

text \<open>Every slot is either on the free stack or in use.\<close>

lemma free_count_card:
  assumes "wf_slots p"
  shows "free_count p = card {i. i < length (in_uses p) \<and> \<not> in_uses p ! i}"
proof -
  let ?I = "{i. i < length (in_uses p) \<and> \<not> in_uses p ! i}"
  have "free_count p = length (take (free_count p) (free_slots p))"
    using wf_slotsD [OF assms] by simp
  also have "\<dots> = card (set (take (free_count p) (free_slots p)))"
    by (simp only: distinct_card [OF wf_slotsD(7) [OF assms]])
  also have "set (take (free_count p) (free_slots p)) =
      (\<lambda>i. first_valid_start p + i * slot_sz p) ` ?I"
    using assms by (auto simp: wf_slots_def)
  also have "card \<dots> = card ?I"
    using assms by (intro card_image) (auto simp: inj_on_def wf_slots_def)
  finally show ?thesis .
qed

lemma used_card:
  assumes "wf_slots p"
  shows "card (pool_used p) = card {i. i < length (in_uses p) \<and> in_uses p ! i}"
proof -
  have "pool_used p = slot_addr p ` {i. i < length (in_uses p) \<and> in_uses p ! i}"
    by (auto simp: pool_used_def)
  then show ?thesis
    using assms by (simp add: card_image inj_on_def slot_addr_inj)
qed

lemma free_plus_used:
  assumes "wf_slots p"
  shows "free_count p + card (pool_used p) = length (in_uses p)"
proof -
  have "{..<length (in_uses p)} = {i. i < length (in_uses p) \<and> \<not> in_uses p ! i} \<union>
      {i. i < length (in_uses p) \<and> in_uses p ! i}" by auto
  then have "length (in_uses p) = card ({i. i < length (in_uses p) \<and> \<not> in_uses p ! i} \<union>
      {i. i < length (in_uses p) \<and> in_uses p ! i})" by (metis card_lessThan)
  also have "\<dots> = free_count p + card (pool_used p)"
    using assms by (subst card_Un_disjoint) (auto simp: free_count_card used_card)
  finally show ?thesis by simp
qed

lemma pool_first_use_wf:
  assumes "wf_pool p" "\<not> first_init p" "0 < bytes" "0 < al" "al dvd bytes"
    and "pool_first_use r bytes al p = Some p'"
  shows "wf_pool p' \<and> first_init p' \<and> pool_used p' = {} \<and> slot_sz p' = bytes \<and>
    slot_alignment p' = al \<and> length (in_uses p') = pool_slots bytes al p \<and>
    free_count p' = length (in_uses p') \<and> 0 < free_count p'"
proof -
  obtain q sp where al: "std_align al bytes (storage p) (capacity_bytes p) = Some (q, sp)"
    using assms by (auto simp: pool_first_use_def split: option.splits)
  note d = std_align_SomeD [OF al \<open>0 < al\<close>]
  let ?n = "sp div bytes" and ?pad = "capacity_bytes p - sp"
  have n: "0 < ?n" using d assms by (simp add: div_greater_zero_iff)
  have p': "p' = p\<lparr>free_count := ?n, free_slots := map (\<lambda>i. ?pad + i * bytes) [0..<?n],
      in_uses := replicate ?n False, slot_sz := bytes, slot_alignment := al,
      last_valid_start := ?pad + (?n - 1) * bytes, first_valid_start := ?pad,
      first_init := True\<rparr>"
    using assms al by (auto simp: pool_first_use_def Let_def split: if_splits)
  have cap: "?pad + ?n * bytes \<le> capacity_bytes p"
    using d div_times_less_eq_dividend [of sp bytes] by linarith
  have ds: "al dvd storage p + ?pad" using d by simp
  have "distinct (map (\<lambda>i. ?pad + i * bytes) [0..<?n])"
    using assms(3) by (simp add: distinct_map inj_on_def)
  then have "wf_slots p'"
    using n cap ds assms by (auto simp: p' wf_slots_def)
  then show ?thesis
    using n assms al by (auto simp: p' wf_pool_def pool_used_def pool_slots_def)
qed

lemma pool_pop_spec:
  assumes "wf_slots p" "0 < free_count p" "pool_pop (slot_sz p) p = (a, p')"
  obtains i where "i < length (in_uses p)" "\<not> in_uses p ! i" "a = slot_addr p i"
    "p' = p\<lparr>free_count := free_count p - 1, in_uses := (in_uses p)[i := True]\<rparr>"
    "free_slots p ! (free_count p - 1) = first_valid_start p + i * slot_sz p"
proof -
  let ?fc = "free_count p - 1"
  have "take (free_count p) (free_slots p) ! ?fc \<in> set (take (free_count p) (free_slots p))"
    using assms wf_slotsD(6) [OF assms(1)] by (intro nth_mem) simp
  then have "free_slots p ! ?fc \<in> set (take (free_count p) (free_slots p))"
    using assms(2) by simp
  then obtain i where i: "i < length (in_uses p)" "\<not> in_uses p ! i"
    "free_slots p ! ?fc = first_valid_start p + i * slot_sz p"
    using assms(1) by (auto simp: wf_slots_def)
  have "(first_valid_start p + i * slot_sz p - first_valid_start p) div slot_sz p = i"
    using assms(1) by (simp add: wf_slots_def)
  then have "a = slot_addr p i"
    "p' = p\<lparr>free_count := ?fc, in_uses := (in_uses p)[i := True]\<rparr>"
    using assms(3) i by (auto simp: pool_pop_def Let_def slot_addr_def)
  with i that show thesis by blast
qed

lemma take_pred_set:
  assumes "distinct (take n xs)" "0 < n" "n \<le> length xs"
  shows "set (take (n - 1) xs) = set (take n xs) - {xs ! (n - 1)}" "distinct (take (n - 1) xs)"
proof -
  obtain m where n: "n = Suc m" using assms by (cases n) auto
  have "take n xs = take m xs @ [xs ! m]"
    using assms by (simp add: n take_Suc_conv_app_nth)
  then show "set (take (n - 1) xs) = set (take n xs) - {xs ! (n - 1)}"
    "distinct (take (n - 1) xs)"
    using assms by (auto simp: n)
qed

lemma pool_pop_wf:
  assumes "wf_slots p" "0 < free_count p" "pool_pop (slot_sz p) p = (a, p')"
  shows "wf_slots p' \<and> a \<notin> pool_used p \<and> pool_used p' = insert a (pool_used p) \<and>
    length (in_uses p') = length (in_uses p)"
proof -
  obtain i where i: "i < length (in_uses p)" "\<not> in_uses p ! i" "a = slot_addr p i"
    and p': "p' = p\<lparr>free_count := free_count p - 1, in_uses := (in_uses p)[i := True]\<rparr>"
    and st: "free_slots p ! (free_count p - 1) = first_valid_start p + i * slot_sz p"
    using pool_pop_spec [OF assms] by blast
  have fc: "free_count p \<le> length (free_slots p)" using assms(1) by (simp add: wf_slots_def)
  have "set (take (free_count p - 1) (free_slots p)) =
      {first_valid_start p + j * slot_sz p | j.
         j < length (in_uses p) \<and> \<not> in_uses p ! j} - {first_valid_start p + i * slot_sz p}"
    using take_pred_set(1) [OF _ assms(2) fc] st assms(1) by (simp add: wf_slots_def)
  also have "\<dots> = {first_valid_start p + j * slot_sz p | j.
      j < length (in_uses p) \<and> \<not> (in_uses p)[i := True] ! j}"
    using assms(1) i by (auto simp: wf_slots_def nth_list_update)
  finally have "wf_slots p'"
    using assms(1) take_pred_set(2) [OF _ assms(2) fc] by (auto simp: p' wf_slots_def)
  moreover have "pool_used p' = insert a (pool_used p)"
    using i by (auto simp: p' pool_used_def slot_addr_def nth_list_update)
  moreover have "a \<notin> pool_used p"
    using i assms(1) by (simp add: slot_addr_in_used)
  ultimately show ?thesis by (simp add: p')
qed

lemma pool_slots_first_use:
  "\<not> first_init p \<Longrightarrow> pool_first_use r bytes al p = Some p' \<Longrightarrow>
   pool_slots bytes al p' = pool_slots bytes al p"
  by (auto simp: pool_first_use_def pool_slots_def Let_def split: option.splits if_splits)

lemma pool_first_use_storage:
  "pool_first_use r bytes al p = Some p' \<Longrightarrow>
   storage p' = storage p \<and> capacity_bytes p' = capacity_bytes p"
  by (auto simp: pool_first_use_def Let_def split: option.splits if_splits)

lemma pool_pop_frame:
  "pool_pop bytes p = (a, p') \<Longrightarrow> storage p' = storage p \<and> capacity_bytes p' = capacity_bytes p \<and>
   first_init p' = first_init p \<and> slot_sz p' = slot_sz p \<and> slot_alignment p' = slot_alignment p \<and>
   length (in_uses p') = length (in_uses p)"
  by (auto simp: pool_pop_def Let_def)

text \<open>The pool a request is served from: the pool itself, or the pool after its first use.\<close>

definition pool_ready :: "bool \<Rightarrow> nat \<Rightarrow> nat \<Rightarrow> FixedSlotPool \<Rightarrow> FixedSlotPool option" where
  "pool_ready r bytes al p = (if first_init p then Some p else pool_first_use r bytes al p)"

lemma pool_ready_wf:
  assumes "wf_pool p" "0 < bytes" "0 < al" "al dvd bytes" "pool_ready r bytes al p = Some p'"
  shows "wf_pool p' \<and> first_init p' \<and> pool_used p' = pool_used p \<and>
    pool_slots bytes al p' = pool_slots bytes al p"
proof (cases "first_init p")
  case True
  then show ?thesis using assms by (simp add: pool_ready_def)
next
  case False
  then show ?thesis
    using assms pool_first_use_wf [OF assms(1) False assms(2-4)]
    by (simp add: pool_ready_def pool_slots_first_use)
qed

lemma pool_allocate_alt:
  "0 < bytes \<Longrightarrow> pool_allocate r bytes al p =
     (case pool_ready r bytes al p of
        None \<Rightarrow> (Bad_Alloc, p)
      | Some p' \<Rightarrow>
          if free_count p' = 0 \<or> slot_sz p' \<noteq> bytes \<or> slot_alignment p' \<noteq> al then (Bad_Alloc, p')
          else apfst Ptr (pool_pop bytes p'))"
  by (simp add: pool_allocate_def pool_ready_def apfst_def map_prod_def split: option.splits)

lemma pool_allocate_Ptr:
  assumes "wf_pool p" "0 < bytes" "0 < al" "al dvd bytes"
    and "pool_allocate r bytes al p = (Ptr a, p')"
  shows "wf_pool p' \<and> a \<notin> pool_used p \<and> pool_used p' = insert a (pool_used p) \<and>
    pool_slots bytes al p' = pool_slots bytes al p \<and>
    first_init p' \<and> slot_sz p' = bytes \<and> slot_alignment p' = al"
proof -
  obtain q where q: "pool_ready r bytes al p = Some q" "0 < free_count q" "slot_sz q = bytes"
    "slot_alignment q = al" "pool_pop bytes q = (a, p')"
    using assms
    by (auto simp: pool_allocate_alt apfst_def map_prod_def split: option.splits if_splits prod.splits)
  note rd = pool_ready_wf [OF assms(1-4) q(1)]
  have wq: "wf_slots q" using rd by (auto intro: wf_pool_slots)
  note pop = pool_pop_wf [OF wq q(2), folded q(3), OF q(5) [folded q(3)]]
  show ?thesis
    using rd pop pool_pop_frame [OF q(5)] q
    by (auto simp: wf_pool_def pool_slots_def)
qed

lemma pool_allocate_fail:
  assumes "wf_pool p" "0 < bytes" "0 < al" "al dvd bytes"
    and "pool_allocate r bytes al p = (res, p')" "\<And>a. res \<noteq> Ptr a"
  shows "res = Bad_Alloc \<and> wf_pool p' \<and> pool_used p' = pool_used p \<and>
    pool_slots bytes al p' = pool_slots bytes al p"
  using assms pool_ready_wf [OF assms(1-4)]
  by (auto simp: pool_allocate_alt apfst_def map_prod_def split: option.splits if_splits prod.splits)

text \<open>With the vectors granted, a pool of this slot size refuses exactly when every slot is taken.\<close>

lemma pool_allocate_room:
  assumes "wf_pool p" "0 < bytes" "0 < al" "al dvd bytes"
    and "first_init p \<longrightarrow> slot_sz p = bytes \<and> slot_alignment p = al"
    and "card (pool_used p) < pool_slots bytes al p"
  shows "\<exists>a p'. pool_allocate True bytes al p = (Ptr a, p')"
proof (cases "first_init p")
  case True
  have "0 < free_count p"
    using free_plus_used [OF wf_pool_slots [OF assms(1) True]] assms True
    by (simp add: pool_slots_def)
  then show ?thesis
    using assms True
    by (auto simp: pool_allocate_alt pool_ready_def apfst_def map_prod_def split: prod.splits)
next
  case False
  then obtain q where q: "pool_first_use True bytes al p = Some q"
    using assms by (auto simp: pool_first_use_def pool_slots_def Let_def split: option.splits)
  show ?thesis
    using pool_first_use_wf [OF assms(1) False assms(2-4) q] q False assms(2)
    by (auto simp: pool_allocate_alt pool_ready_def apfst_def map_prod_def split: prod.splits)
qed

lemma pool_used_le_slots:
  "wf_pool p \<Longrightarrow> card (pool_used p) \<le> pool_slots bytes al p"
  using free_plus_used [OF wf_pool_slots] by (cases "first_init p") (fastforce simp: pool_slots_def)+

lemma pool_start_of_slot:
  assumes "wf_pool p" "first_init p" "i < length (in_uses p)"
  shows "(slot_addr p i + 2 ^ 64 - storage p) mod 2 ^ 64 = first_valid_start p + i * slot_sz p"
    "first_valid_start p + i * slot_sz p \<le> last_valid_start p"
proof -
  let ?n = "length (in_uses p)"
  have w: "first_valid_start p + ?n * slot_sz p \<le> capacity_bytes p" "0 < slot_sz p"
    "last_valid_start p = first_valid_start p + (?n - 1) * slot_sz p"
    "storage p + capacity_bytes p \<le> 2 ^ 64" "0 < storage p"
    using assms by (auto simp: wf_pool_def wf_slots_def)
  have le: "i * slot_sz p \<le> (?n - 1) * slot_sz p" "(?n - 1) * slot_sz p \<le> ?n * slot_sz p"
    using assms(3) by (auto intro!: mult_le_mono1)
  show "first_valid_start p + i * slot_sz p \<le> last_valid_start p" using le w by linarith
  have "first_valid_start p + i * slot_sz p < 2 ^ 64" using le w by linarith
  moreover have "slot_addr p i + 2 ^ 64 - storage p = first_valid_start p + i * slot_sz p + 2 ^ 64"
    by (simp add: slot_addr_def)
  ultimately show "(slot_addr p i + 2 ^ 64 - storage p) mod 2 ^ 64 =
      first_valid_start p + i * slot_sz p"
    by (simp only: mod_add_self2) simp
qed

lemma slot_addr_aligned: "wf_slots p \<Longrightarrow> slot_alignment p dvd slot_addr p i"
  using dvd_add [of "slot_alignment p" "storage p + first_valid_start p" "i * slot_sz p"]
  by (simp add: slot_addr_def wf_slots_def)

lemma pool_deallocate_slot:
  assumes "wf_pool p" "first_init p" "i < length (in_uses p)" "in_uses p ! i"
  shows "pool_deallocate (slot_addr p i) (slot_sz p) p =
    p\<lparr>in_uses := (in_uses p)[i := False],
      free_slots := (free_slots p)[free_count p := first_valid_start p + i * slot_sz p],
      free_count := free_count p + 1\<rparr>"
proof -
  have w: "wf_slots p" using assms by (simp add: wf_pool_slots)
  have "std_align (slot_alignment p) (slot_sz p) (slot_addr p i) (slot_sz p) =
      Some (slot_addr p i, slot_sz p)"
    using wf_slotsD [OF w] slot_addr_aligned [OF w] by (simp add: std_align_exact)
  moreover have "0 < slot_addr p i" using assms(1) by (simp add: wf_pool_def slot_addr_def)
  ultimately show ?thesis
    using assms pool_start_of_slot [OF assms(1-3)] wf_slotsD [OF w]
    unfolding pool_deallocate_def Let_def by simp
qed

lemma pool_deallocate_used:
  assumes "wf_pool p" "a \<in> pool_used p"
  shows "wf_pool (pool_deallocate a (slot_sz p) p) \<and>
    pool_used (pool_deallocate a (slot_sz p) p) = pool_used p - {a} \<and>
    pool_slots bytes al (pool_deallocate a (slot_sz p) p) = pool_slots bytes al p \<and>
    first_init p \<and> first_init (pool_deallocate a (slot_sz p) p) \<and>
    slot_sz (pool_deallocate a (slot_sz p) p) = slot_sz p \<and>
    slot_alignment (pool_deallocate a (slot_sz p) p) = slot_alignment p"
proof -
  have fi: "first_init p" using assms by (cases "first_init p") auto
  have w: "wf_slots p" using assms fi by (simp add: wf_pool_slots)
  obtain i where i: "i < length (in_uses p)" "in_uses p ! i" "a = slot_addr p i"
    using assms by (auto simp: pool_used_def)
  let ?s = "first_valid_start p + i * slot_sz p"
  let ?q = "p\<lparr>in_uses := (in_uses p)[i := False],
      free_slots := (free_slots p)[free_count p := ?s], free_count := free_count p + 1\<rparr>"
  have "0 < card (pool_used p)" using assms(2) by (auto simp: card_gt_0_iff)
  then have fc: "free_count p < length (free_slots p)"
    using free_plus_used [OF w] wf_slotsD(5) [OF w] by simp
  have tk: "take (free_count p + 1) ((free_slots p)[free_count p := ?s]) =
      take (free_count p) (free_slots p) @ [?s]"
    using fc by (simp add: take_Suc_conv_app_nth)
  have free: "set (take (free_count p) (free_slots p)) =
       {first_valid_start p + j * slot_sz p | j. j < length (in_uses p) \<and> \<not> in_uses p ! j}"
    using w by (simp add: wf_slots_def)
  have sz: "0 < slot_sz p" using wf_slotsD [OF w] by simp
  then have notin: "?s \<notin> set (take (free_count p) (free_slots p))"
    unfolding free using i by auto
  have "set (take (free_count p) (free_slots p) @ [?s]) =
       {first_valid_start p + j * slot_sz p | j.
          j < length (in_uses p) \<and> \<not> (in_uses p)[i := False] ! j}"
    using i by (auto simp: free nth_list_update)
  then have wq: "wf_slots ?q"
    using w fc tk notin by (auto simp: wf_slots_def)
  have "pool_used ?q = pool_used p - {a}"
    using i sz by (auto simp: pool_used_def slot_addr_def nth_list_update)
  then show ?thesis
    using wq assms fi i pool_deallocate_slot [OF assms(1) fi i(1,2)]
    by (simp add: wf_pool_def pool_slots_def)
qed

text \<open>Releasing an address that is no slot in use (a foreign pointer, a second release) does nothing.\<close>

lemma pool_deallocate_changesD:
  assumes "pool_deallocate a bytes p \<noteq> p" "start = (a + 2 ^ 64 - storage p) mod 2 ^ 64"
  shows "first_init p" "start \<le> last_valid_start p" "first_valid_start p \<le> start"
    "slot_sz p dvd start - first_valid_start p"
    "in_uses p ! ((start - first_valid_start p) div slot_sz p)"
  using assms(1) unfolding pool_deallocate_def Let_def assms(2) [symmetric]
  by (simp_all add: mod_eq_0_iff_dvd split: if_splits)

lemma wrapped_difference:
  fixes a b :: nat
  assumes "a < 2 ^ 64" "0 < b" "b + (a + 2 ^ 64 - b) mod 2 ^ 64 < 2 ^ 64"
  shows "a = b + (a + 2 ^ 64 - b) mod 2 ^ 64"
proof (cases "b \<le> a")
  case True
  then have "a + 2 ^ 64 - b = (a - b) + 2 ^ 64" by simp
  then show ?thesis using assms(1) True by (simp only: mod_add_self2) simp
next
  case False
  then have "(a + 2 ^ 64 - b) mod 2 ^ 64 = a + 2 ^ 64 - b" by (intro mod_less) simp
  then show ?thesis using assms False by linarith
qed

lemma pool_deallocate_foreign:
  assumes "wf_pool p" "a < 2 ^ 64" "a \<notin> pool_used p"
  shows "pool_deallocate a bytes p = p"
proof (rule ccontr)
  assume neq: "pool_deallocate a bytes p \<noteq> p"
  define start where "start = (a + 2 ^ 64 - storage p) mod 2 ^ 64"
  note c = pool_deallocate_changesD [OF neq start_def]
  define i where "i = (start - first_valid_start p) div slot_sz p"
  have w: "wf_slots p" using assms c by (simp add: wf_pool_slots)
  have d: "i * slot_sz p = start - first_valid_start p" using c by (simp add: i_def)
  have lv: "last_valid_start p = first_valid_start p + (length (in_uses p) - 1) * slot_sz p"
    "first_valid_start p + length (in_uses p) * slot_sz p \<le> capacity_bytes p"
    using w by (auto simp: wf_slots_def)
  have "i * slot_sz p \<le> (length (in_uses p) - 1) * slot_sz p" using d c lv by linarith
  then have "i \<le> length (in_uses p) - 1" using wf_slotsD(1) [OF w] by simp
  then have i: "i < length (in_uses p)" using wf_slotsD(4) [OF w] by linarith
  have "(length (in_uses p) - 1) * slot_sz p < length (in_uses p) * slot_sz p"
    using wf_slotsD(1,4) [OF w] by simp
  then have "storage p + start < 2 ^ 64" "0 < storage p"
    using c lv assms(1) unfolding wf_pool_def by linarith+
  then have "a = storage p + start"
    using wrapped_difference assms(2) unfolding start_def by blast
  then have "a = slot_addr p i" using d c by (simp add: slot_addr_def)
  then have "a \<in> pool_used p" using i c by (auto simp: pool_used_def i_def)
  with assms(3) show False ..
qed

section \<open>The interface of a slot allocator\<close>

text \<open>
  What a container relies on: an allocation returns an address that was not in use or reports
  \<open>bad_alloc\<close> and leaves the used set alone, a release of a used address removes exactly it, and an
  allocation the environment grants succeeds while a slot is free.
\<close>

locale slot_allocator =
  fixes alloc :: "'e \<Rightarrow> 'p \<Rightarrow> alloc_result \<times> 'p"
    and dealloc :: "nat \<Rightarrow> 'p \<Rightarrow> 'p"
    and used :: "'p \<Rightarrow> nat set"
    and slots :: "'p \<Rightarrow> nat"
    and inv :: "'p \<Rightarrow> bool"
    and granted :: "'e \<Rightarrow> bool"
  assumes alloc_Ptr: "inv p \<Longrightarrow> alloc e p = (Ptr a, p') \<Longrightarrow>
      inv p' \<and> a \<notin> used p \<and> used p' = insert a (used p) \<and> slots p' = slots p"
    and alloc_fail: "inv p \<Longrightarrow> alloc e p = (r, p') \<Longrightarrow> (\<And>a. r \<noteq> Ptr a) \<Longrightarrow>
      r = Bad_Alloc \<and> inv p' \<and> used p' = used p \<and> slots p' = slots p"
    and alloc_room: "inv p \<Longrightarrow> granted e \<Longrightarrow> card (used p) < slots p \<Longrightarrow>
      \<exists>a p'. alloc e p = (Ptr a, p')"
    and dealloc_used: "inv p \<Longrightarrow> a \<in> used p \<Longrightarrow>
      inv (dealloc a p) \<and> used (dealloc a p) = used p - {a} \<and> slots (dealloc a p) = slots p"
    and used_le: "inv p \<Longrightarrow> finite (used p) \<and> card (used p) \<le> slots p"
begin

lemma alloc_cases:
  assumes "inv p" "alloc e p = (r, p')"
  obtains a where "r = Ptr a" "a \<notin> used p" "used p' = insert a (used p)" "inv p'"
      "slots p' = slots p" "card (used p) < slots p"
  | "r = Bad_Alloc" "used p' = used p" "inv p'" "slots p' = slots p"
proof (cases "\<exists>a. r = Ptr a")
  case True
  then obtain a where a: "r = Ptr a" by blast
  note l = alloc_Ptr [OF assms(1), of e a p']
  have "card (insert a (used p)) = Suc (card (used p))"
    using l used_le [OF assms(1)] assms a by simp
  then have "card (used p) < slots p" using l used_le [of p'] assms a by simp
  with l assms a that(1) show thesis by blast
next
  case False
  with alloc_fail [OF assms] that(2) show thesis by blast
qed

lemma alloc_then_dealloc:
  assumes "inv p" "alloc e p = (Ptr a, p')"
  shows "inv (dealloc a p') \<and> used (dealloc a p') = used p \<and> slots (dealloc a p') = slots p"
  using alloc_Ptr [OF assms] dealloc_used [of p' a] by auto

lemma dealloc_all:
  assumes "inv p" "distinct as" "set as \<subseteq> used p"
  shows "inv (fold dealloc as p) \<and> used (fold dealloc as p) = used p - set as \<and>
    slots (fold dealloc as p) = slots p"
  using assms
proof (induction as arbitrary: p)
  case (Cons a as)
  then have "inv (dealloc a p)" "used (dealloc a p) = used p - {a}" "slots (dealloc a p) = slots p"
    using dealloc_used [of p a] by auto
  then show ?case using Cons.IH [of "dealloc a p"] Cons.prems by auto
qed simp

lemma alloc_succeeds_iff:
  assumes "inv p" "granted e"
  shows "(\<exists>a p'. alloc e p = (Ptr a, p')) \<longleftrightarrow> card (used p) < slots p"
proof
  assume "\<exists>a p'. alloc e p = (Ptr a, p')"
  then obtain a p' where "alloc e p = (Ptr a, p')" by blast
  with assms(1) show "card (used p) < slots p" by (rule alloc_cases) auto
qed (rule alloc_room [OF assms])

end

section \<open>Theorems\<close>

lemma used_slot_bounds:
  assumes "wf_pool p" "a \<in> pool_used p"
  shows "storage p \<le> a" "a + slot_sz p \<le> storage p + capacity_bytes p" "slot_alignment p dvd a"
proof -
  have w: "wf_slots p" using assms by (cases "first_init p") (auto simp: wf_pool_slots)
  obtain i where i: "i < length (in_uses p)" "a = slot_addr p i" using assms by (auto simp: pool_used_def)
  have "Suc i * slot_sz p \<le> length (in_uses p) * slot_sz p" using i by (intro mult_le_mono1) simp
  moreover have "first_valid_start p + length (in_uses p) * slot_sz p \<le> capacity_bytes p"
    using w by (simp add: wf_slots_def)
  ultimately show "a + slot_sz p \<le> storage p + capacity_bytes p" by (simp add: i slot_addr_def)
  show "storage p \<le> a" by (simp add: i slot_addr_def)
  show "slot_alignment p dvd a" using slot_addr_aligned [OF w] by (simp add: i)
qed

lemma used_slots_disjoint:
  assumes "a \<in> pool_used p" "b \<in> pool_used p" "a \<noteq> b"
  shows "a + slot_sz p \<le> b \<or> b + slot_sz p \<le> a"
proof -
  obtain i j where ij: "a = slot_addr p i" "b = slot_addr p j" "i \<noteq> j"
    using assms by (auto simp: pool_used_def)
  have "Suc i * slot_sz p \<le> j * slot_sz p \<or> Suc j * slot_sz p \<le> i * slot_sz p"
    using ij(3) by (cases "i < j") (auto intro!: mult_le_mono1 simp del: mult_Suc)
  then show ?thesis by (auto simp: ij slot_addr_def)
qed

lemma allocate_storage:
  assumes "pool_allocate r bytes al p = (res, p')"
  shows "storage p' = storage p \<and> capacity_bytes p' = capacity_bytes p"
  using assms pool_first_use_storage [of r bytes al p] pool_pop_frame [of bytes]
  by (auto simp: pool_allocate_def split: option.splits if_splits prod.splits)

text \<open>
  C28. An allocation of a fixed slot pool that returns a pointer returns memory inside the pool's block,
  aligned as asked, that overlaps no slot in use, and records exactly that slot as used; the pool is
  well-formed again.
\<close>

theorem pool_allocation_sound:
  assumes "wf_pool p" "0 < bytes" "0 < al" "al dvd bytes" "pool_allocate r bytes al p = (Ptr a, p')"
  shows "wf_pool p' \<and> pool_used p' = insert a (pool_used p) \<and> al dvd a \<and>
    storage p \<le> a \<and> a + bytes \<le> storage p + capacity_bytes p \<and>
    (\<forall>b \<in> pool_used p. a + bytes \<le> b \<or> b + bytes \<le> a)"
proof -
  note l = pool_allocate_Ptr [OF assms]
  have wf: "wf_pool p'" and a: "a \<in> pool_used p'" using l by auto
  have "a + bytes \<le> b \<or> b + bytes \<le> a" if "b \<in> pool_used p" for b
    using used_slots_disjoint [OF a, of b] that l by auto
  then show ?thesis
    using l used_slot_bounds [OF wf a] allocate_storage [OF assms(5)] by auto
qed

theorem pool_allocation_sound_witness:
  "\<exists>a p p'. wf_pool p \<and> pool_allocate True 32 8 p = (Ptr a, p') \<and> pool_used p' = insert a (pool_used p) \<and>
     8 dvd a \<and> storage p \<le> a \<and> a + 32 \<le> storage p + capacity_bytes p"
proof -
  define p where "p = \<lparr>first_init = False, storage = 4100, capacity_bytes = 100, free_slots = [],
    in_uses = [], free_count = 0, slot_sz = 0, slot_alignment = 0, last_valid_start = 0, first_valid_start = 0\<rparr>"
  have wf: "wf_pool p" by (simp add: wf_pool_def p_def)
  obtain a p' where "pool_allocate True 32 8 p = (Ptr a, p')"
    by (simp add: pool_allocate_def pool_first_use_def std_align_def pool_pop_def Let_def p_def)
  with pool_allocation_sound [OF wf, of 32 8 True a p'] wf show ?thesis by auto
qed

text \<open>
  Releasing is exact and safe against misuse: a slot in use becomes free and nothing else changes
  state, while a null or foreign pointer, a pointer into the middle of a slot, a slot that is already
  free and a wrong size are ignored.
\<close>

theorem pool_release_exact:
  assumes "wf_pool p" "a < 2 ^ 64"
  shows "wf_pool (pool_deallocate a bytes p) \<and>
    pool_used (pool_deallocate a bytes p) = (if bytes = slot_sz p then pool_used p - {a} else pool_used p) \<and>
    (a \<notin> pool_used p \<or> bytes \<noteq> slot_sz p \<longrightarrow> pool_deallocate a bytes p = p)"
proof (cases "a \<in> pool_used p \<and> bytes = slot_sz p")
  case True
  then show ?thesis using pool_deallocate_used [OF assms(1), of a bytes bytes] by simp
next
  case False
  have "pool_deallocate a bytes p = p"
  proof (cases "bytes = slot_sz p")
    case True
    then show ?thesis using pool_deallocate_foreign [OF assms] False by blast
  qed (simp add: pool_deallocate_def)
  then show ?thesis using assms(1) False by auto
qed

theorem pool_release_exact_witness:
  "\<exists>p a. wf_pool p \<and> a \<in> pool_used p \<and> pool_used (pool_deallocate a 32 p) = {} \<and>
     pool_deallocate (a + 1) 32 p = p"
proof -
  define p where "p = \<lparr>first_init = True, storage = 4096, capacity_bytes = 32, free_slots = [0],
    in_uses = [True], free_count = 0, slot_sz = 32, slot_alignment = 8, last_valid_start = 0, first_valid_start = 0\<rparr>"
  have wf: "wf_pool p" by (simp add: wf_pool_def wf_slots_def p_def)
  have used: "pool_used p = {4096}" by (auto simp: pool_used_def slot_addr_def p_def)
  show ?thesis
    using pool_release_exact [OF wf, of 4096 32] pool_release_exact [OF wf, of 4097 32] wf used
    by (intro exI [of _ p] exI [of _ 4096]) (simp add: p_def)
qed

end
