(* ===== verification/Order_Book.thy ===== *)
theory Order_Book
  imports Core_Types Decimal Slot_Pool
begin

text \<open>
  include/order_book/core/order_book.hpp and src/core/order_book.cpp: the limit order book.

  Price levels are \<open>std::map\<close>s ordered from the best price, each holding a FIFO
  \<open>std::list\<close> of orders; an \<open>unordered_map\<close> from order id to (side, price, list iterator)
  finds an order. The list nodes live in the book's slot pool, so an iterator is the address of a
  slot: \<open>nodes\<close> is the pool memory that holds live nodes and a level's queue is the list of their
  addresses. Reading through an iterator kept in the index is undefined behaviour when the node is
  gone; the operations return \<open>None\<close> there, and the development shows that they never do.

  The heap allocations that may throw \<open>bad_alloc\<close> (a map node, the pool's vectors, an index node)
  are decided by the environment, the argument \<open>heap_env\<close> of the two operations that allocate.
\<close>

section \<open>State\<close>

record OrderEntry =
  entry_order_id :: OrderId
  entry_remaining :: Quantity

record PriceLevel =
  level_orders :: "nat list"
  level_aggregate :: u64

record OrderLocation =
  loc_side :: Side
  loc_price :: Price
  loc_iterator :: nat

record OrderView =
  view_id :: OrderId
  view_side :: Side
  view_price :: Price
  view_quantity :: Quantity

record LevelView =
  lv_side :: Side
  lv_price :: Price
  lv_quantity :: u64
  lv_orders :: "OrderView list"

type_synonym price_levels = "(Price \<times> PriceLevel) list"

record OrderBook =
  pool :: "FixedSlotPool option"
  nodes :: "(nat \<times> OrderEntry) list"
  bids :: price_levels
  asks :: price_levels
  orders_by_id :: "(OrderId \<times> OrderLocation) list"

record heap_env =
  level_node_ok :: bool
  pool_vectors_ok :: bool
  index_node_ok :: bool

text \<open>
  \<open>sizeof(OrderEntry)\<close> and the size and alignment of a \<open>std::list\<close> node of it (two links and the
  entry) on a 64-bit target.
\<close>

definition sizeof_OrderEntry :: nat where "sizeof_OrderEntry = 16"
definition sizeof_list_node :: nat where "sizeof_list_node = 2 * 8 + sizeof_OrderEntry"
definition alignof_list_node :: nat where "alignof_list_node = 8"
definition CAPACITY_BYTES :: nat where "CAPACITY_BYTES = sizeof_OrderEntry * 1024"

definition node_allocate :: "bool \<Rightarrow> FixedSlotPool \<Rightarrow> alloc_result \<times> FixedSlotPool" where
  "node_allocate ok p =
     adaptor_allocate CAPACITY_BYTES sizeof_list_node alignof_list_node ok 1 p"

definition node_deallocate :: "nat \<Rightarrow> FixedSlotPool \<Rightarrow> FixedSlotPool" where
  "node_deallocate a p = adaptor_deallocate sizeof_list_node a 1 p"

section \<open>Construction and moves\<close>

text \<open>\<open>upstream\<close> is the pool block; the constructor throws where the pool's does.\<close>

definition OrderBook_new :: "nat option \<Rightarrow> nat \<Rightarrow> OrderBook option" where
  "OrderBook_new upstream pool_bytes =
     map_option (\<lambda>p. \<lparr>pool = Some p, nodes = [], bids = [], asks = [], orders_by_id = []\<rparr>)
       (FixedSlotPool_new upstream pool_bytes)"

definition OrderBook_default :: "nat option \<Rightarrow> OrderBook option" where
  "OrderBook_default upstream = OrderBook_new upstream CAPACITY_BYTES"

definition moved_from :: OrderBook where
  "moved_from = \<lparr>pool = None, nodes = [], bids = [], asks = [], orders_by_id = []\<rparr>"

text \<open>Every node of a cleared list goes back to the pool, level by level.\<close>

definition level_nodes :: "price_levels \<Rightarrow> nat list" where
  "level_nodes levels = concat (map (\<lambda>(_, l). level_orders l) levels)"

definition free_nodes :: "nat list \<Rightarrow> OrderBook \<Rightarrow> OrderBook" where
  "free_nodes as b = b\<lparr>nodes := fold om_erase as (nodes b),
     pool := map_option (fold node_deallocate as) (pool b)\<rparr>"

definition reset :: "OrderBook \<Rightarrow> OrderBook" where
  "reset b =
     (let b1 = (free_nodes (level_nodes (bids b)) b)\<lparr>bids := []\<rparr>;
          b2 = (free_nodes (level_nodes (asks b1)) b1)\<lparr>asks := []\<rparr>
      in b2\<lparr>orders_by_id := []\<rparr>)"

text \<open>The new object and what is left in the source of a move.\<close>

definition move_construct :: "OrderBook \<Rightarrow> OrderBook \<times> OrderBook" where
  "move_construct other = (other, moved_from)"

text \<open>
  Move assignment resets the target first, so its nodes return to its own pool before that pool is
  replaced. A self-move (\<open>None\<close> as the other object) does nothing.
\<close>

definition move_assign :: "OrderBook \<Rightarrow> OrderBook option \<Rightarrow> OrderBook \<times> OrderBook option" where
  "move_assign this other =
     (case other of None \<Rightarrow> (this, None)
      | Some o' \<Rightarrow>
          (let t = reset this in
           (t\<lparr>pool := pool o', nodes := nodes o', bids := bids o', asks := asks o',
              orders_by_id := orders_by_id o'\<rparr>, Some moved_from)))"

section \<open>Level access\<close>

definition side_lt :: "Side \<Rightarrow> Price \<Rightarrow> Price \<Rightarrow> bool" where
  "side_lt s = (if s = Bid then (>) else (<))"

definition levels_of :: "Side \<Rightarrow> OrderBook \<Rightarrow> price_levels" where
  "levels_of s b = (if s = Bid then bids b else asks b)"

definition set_levels :: "Side \<Rightarrow> price_levels \<Rightarrow> OrderBook \<Rightarrow> OrderBook" where
  "set_levels s ls b = (if s = Bid then b\<lparr>bids := ls\<rparr> else b\<lparr>asks := ls\<rparr>)"

definition adjust_aggregate :: "Side \<Rightarrow> Price \<Rightarrow> (u64 \<Rightarrow> u64) \<Rightarrow> OrderBook \<Rightarrow> OrderBook" where
  "adjust_aggregate s price f b =
     set_levels s (om_update price (\<lambda>l. l\<lparr>level_aggregate := f (level_aggregate l)\<rparr>) (levels_of s b)) b"

text \<open>\<open>emplace_back\<close> once the node is allocated, and \<open>erase(iterator)\<close>.\<close>

definition push_node :: "Side \<Rightarrow> Price \<Rightarrow> nat \<Rightarrow> OrderEntry \<Rightarrow> OrderBook \<Rightarrow> OrderBook" where
  "push_node s price a e b =
     set_levels s (om_update price (\<lambda>l. l\<lparr>level_orders := level_orders l @ [a]\<rparr>) (levels_of s b))
       (b\<lparr>nodes := om_put (<) a e (nodes b)\<rparr>)"

definition erase_node :: "Side \<Rightarrow> Price \<Rightarrow> nat \<Rightarrow> OrderBook \<Rightarrow> OrderBook" where
  "erase_node s price a b =
     set_levels s (om_update price (\<lambda>l. l\<lparr>level_orders := removeAll a (level_orders l)\<rparr>) (levels_of s b))
       (b\<lparr>nodes := om_erase a (nodes b), pool := map_option (node_deallocate a) (pool b)\<rparr>)"

definition write_remaining :: "nat \<Rightarrow> Quantity \<Rightarrow> OrderBook \<Rightarrow> OrderBook" where
  "write_remaining a q b = b\<lparr>nodes := om_update a (\<lambda>e. e\<lparr>entry_remaining := q\<rparr>) (nodes b)\<rparr>"

definition drop_if_empty :: "Side \<Rightarrow> Price \<Rightarrow> OrderBook \<Rightarrow> OrderBook" where
  "drop_if_empty s price b =
     (case map_of (levels_of s b) price of
        Some l \<Rightarrow> if level_orders l = [] then set_levels s (om_erase price (levels_of s b)) b else b
      | None \<Rightarrow> b)"

definition empty_level :: PriceLevel where
  "empty_level = \<lparr>level_orders = [], level_aggregate = 0\<rparr>"

section \<open>Mutating operations\<close>

text \<open>
  The lambda \<open>add_to\<close>: a level if there is none, a node at its back, an index entry, and the
  aggregate last. Each \<open>undo\<close> is a catch block.
\<close>

definition add_to ::
    "heap_env \<Rightarrow> OrderId \<Rightarrow> Side \<Rightarrow> Price \<Rightarrow> Quantity \<Rightarrow> FixedSlotPool \<Rightarrow> OrderBook \<Rightarrow>
     ApplyResult \<times> OrderBook" where
  "add_to h oid s price qty p b =
     (let created = (map_of (levels_of s b) price = None);
          undo_level = (\<lambda>b'. if created then set_levels s (om_erase price (levels_of s b')) b' else b')
      in if created \<and> \<not> level_node_ok h then (AllocationFailed, b)
         else
           let b1 = (if created then set_levels s (om_put (side_lt s) price empty_level (levels_of s b)) b
                     else b)
           in case node_allocate (pool_vectors_ok h) p of
             (Ptr a, p') \<Rightarrow>
               (let b2 = push_node s price a \<lparr>entry_order_id = oid, entry_remaining = qty\<rparr>
                           (b1\<lparr>pool := Some p'\<rparr>);
                    undo = (\<lambda>b'. undo_level (erase_node s price a b'))
                in if om_contains (orders_by_id b2) oid then (DuplicateOrder, undo b2)
                   else if \<not> index_node_ok h then (AllocationFailed, undo b2)
                   else (Ok, adjust_aggregate s price (\<lambda>g. g + ucast qty)
                          (b2\<lparr>orders_by_id := om_put (<) oid
                             \<lparr>loc_side = s, loc_price = price, loc_iterator = a\<rparr> (orders_by_id b2)\<rparr>)))
           | (_, p') \<Rightarrow> (AllocationFailed, undo_level (b1\<lparr>pool := Some p'\<rparr>)))"

definition apply_add ::
    "heap_env \<Rightarrow> OrderId \<Rightarrow> Side \<Rightarrow> Price \<Rightarrow> Quantity \<Rightarrow> OrderBook \<Rightarrow> ApplyResult \<times> OrderBook" where
  "apply_add h oid s price qty b =
     (if qty = 0 then (InvalidQuantity, b)
      else if price = 0 then (InvalidPrice, b)
      else if om_contains (orders_by_id b) oid then (DuplicateOrder, b)
      else if s \<noteq> Bid \<and> s \<noteq> Ask then (UnknownOrder, b)
      else case pool b of
        None \<Rightarrow> (AllocationFailed, b)
      | Some p \<Rightarrow> add_to h oid s price qty p b)"

text \<open>The body of \<open>apply(CancelOrder)\<close> for one side; the source writes it out for bids and asks.\<close>

definition cancel_at ::
    "Side \<Rightarrow> OrderId \<Rightarrow> OrderLocation \<Rightarrow> OrderBook \<Rightarrow> (ApplyResult \<times> OrderBook) option" where
  "cancel_at s oid loc b =
     (case map_of (levels_of s b) (loc_price loc) of
        None \<Rightarrow> Some (UnknownOrder, b)
      | Some _ \<Rightarrow>
          (case map_of (nodes b) (loc_iterator loc) of
             None \<Rightarrow> None
           | Some e \<Rightarrow>
               (let b1 = adjust_aggregate s (loc_price loc) (\<lambda>g. g - ucast (entry_remaining e)) b;
                    b2 = erase_node s (loc_price loc) (loc_iterator loc) b1;
                    b3 = drop_if_empty s (loc_price loc) b2
                in Some (Ok, b3\<lparr>orders_by_id := om_erase oid (orders_by_id b3)\<rparr>))))"

definition apply_cancel :: "OrderId \<Rightarrow> OrderBook \<Rightarrow> (ApplyResult \<times> OrderBook) option" where
  "apply_cancel oid b =
     (case map_of (orders_by_id b) oid of
        None \<Rightarrow> Some (UnknownOrder, b)
      | Some loc \<Rightarrow>
          if loc_side loc = Bid then cancel_at Bid oid loc b
          else if loc_side loc = Ask then cancel_at Ask oid loc b
          else Some (NotImplemented, b))"

definition execute_at ::
    "Side \<Rightarrow> OrderId \<Rightarrow> Quantity \<Rightarrow> OrderLocation \<Rightarrow> OrderEntry \<Rightarrow> OrderBook \<Rightarrow>
     ApplyResult \<times> OrderBook" where
  "execute_at s oid qty loc e b =
     (case map_of (levels_of s b) (loc_price loc) of
        None \<Rightarrow> (UnknownOrder, b)
      | Some _ \<Rightarrow>
          (let left = entry_remaining e - qty;
               b1 = adjust_aggregate s (loc_price loc) (\<lambda>g. g - ucast qty) b;
               b2 = write_remaining (loc_iterator loc) left b1
           in if left = 0
              then let b3 = drop_if_empty s (loc_price loc)
                              (erase_node s (loc_price loc) (loc_iterator loc) b2)
                   in (Ok, b3\<lparr>orders_by_id := om_erase oid (orders_by_id b3)\<rparr>)
              else (Ok, b2)))"

definition apply_execute :: "OrderId \<Rightarrow> Quantity \<Rightarrow> OrderBook \<Rightarrow> (ApplyResult \<times> OrderBook) option" where
  "apply_execute oid qty b =
     (case map_of (orders_by_id b) oid of
        None \<Rightarrow> Some (UnknownOrder, b)
      | Some loc \<Rightarrow>
          if qty = 0 then Some (InvalidQuantity, b)
          else (case map_of (nodes b) (loc_iterator loc) of
              None \<Rightarrow> None
            | Some e \<Rightarrow>
                if entry_remaining e < qty then Some (QuantityExceedsRemaining, b)
                else if loc_side loc = Bid then Some (execute_at Bid oid qty loc e b)
                else if loc_side loc = Ask then Some (execute_at Ask oid qty loc e b)
                else Some (NotImplemented, b)))"

definition apply_event :: "heap_env \<Rightarrow> EventPayload \<Rightarrow> OrderBook \<Rightarrow> (ApplyResult \<times> OrderBook) option" where
  "apply_event h ev b =
     (case ev of
        AddOrder oid s price qty \<Rightarrow> Some (apply_add h oid s price qty b)
      | CancelOrder oid \<Rightarrow> apply_cancel oid b
      | ExecuteOrder oid qty \<Rightarrow> apply_execute oid qty b)"

text \<open>
  \<open>replace\<close>. The lambda \<open>adjust\<close> rewrites the quantity in place; the lambda \<open>move_to\<close> takes
  all the storage it needs before it touches the old order.
\<close>

definition replace_adjust ::
    "Side \<Rightarrow> OrderLocation \<Rightarrow> Quantity \<Rightarrow> OrderBook \<Rightarrow> (ApplyResult \<times> OrderBook) option" where
  "replace_adjust s old qty b =
     (case (map_of (levels_of s b) (loc_price old), map_of (nodes b) (loc_iterator old)) of
        (Some _, Some e) \<Rightarrow>
          (let b1 = adjust_aggregate s (loc_price old) (\<lambda>g. g - ucast (entry_remaining e)) b;
               b2 = write_remaining (loc_iterator old) qty b1
           in Some (Ok, adjust_aggregate s (loc_price old) (\<lambda>g. g + ucast qty) b2))
      | _ \<Rightarrow> None)"

text \<open>The part of \<open>move_to\<close> after the last allocation: take the old order out, switch the index.\<close>

definition move_commit ::
    "Side \<Rightarrow> OrderId \<Rightarrow> OrderLocation \<Rightarrow> OrderId \<Rightarrow> OrderLocation \<Rightarrow> Quantity \<Rightarrow> OrderBook \<Rightarrow>
     (ApplyResult \<times> OrderBook) option" where
  "move_commit s old_id old new_id location qty b =
     (case (map_of (levels_of s b) (loc_price old), map_of (nodes b) (loc_iterator old)) of
        (Some _, Some e) \<Rightarrow>
          (let b1 = adjust_aggregate s (loc_price old) (\<lambda>g. g - ucast (entry_remaining e)) b;
               b2 = erase_node s (loc_price old) (loc_iterator old) b1;
               b3 = adjust_aggregate s (loc_price location) (\<lambda>g. g + ucast qty) b2;
               b4 = (if new_id = old_id
                     then b3\<lparr>orders_by_id := om_put (<) old_id location (orders_by_id b3)\<rparr>
                     else b3\<lparr>orders_by_id := om_erase old_id (orders_by_id b3)\<rparr>)
           in Some (Ok, drop_if_empty s (loc_price old) b4))
      | _ \<Rightarrow> None)"

definition move_to ::
    "heap_env \<Rightarrow> Side \<Rightarrow> OrderId \<Rightarrow> OrderLocation \<Rightarrow> OrderId \<Rightarrow> Price \<Rightarrow> Quantity \<Rightarrow>
     FixedSlotPool \<Rightarrow> OrderBook \<Rightarrow> (ApplyResult \<times> OrderBook) option" where
  "move_to h s old_id old new_id price qty p b =
     (let created = (map_of (levels_of s b) price = None);
          undo_level = (\<lambda>b'. if created then set_levels s (om_erase price (levels_of s b')) b' else b')
      in if created \<and> \<not> level_node_ok h then Some (AllocationFailed, b)
         else
           let b1 = (if created then set_levels s (om_put (side_lt s) price empty_level (levels_of s b)) b
                     else b)
           in case node_allocate (pool_vectors_ok h) p of
             (Ptr a, p') \<Rightarrow>
               (let b2 = push_node s price a \<lparr>entry_order_id = new_id, entry_remaining = qty\<rparr>
                           (b1\<lparr>pool := Some p'\<rparr>);
                    location = \<lparr>loc_side = s, loc_price = price, loc_iterator = a\<rparr>
                in if new_id \<noteq> old_id \<and> \<not> index_node_ok h
                   then Some (AllocationFailed, undo_level (erase_node s price a b2))
                   else let b3 = (if new_id \<noteq> old_id
                                  then b2\<lparr>orders_by_id := om_put (<) new_id location (orders_by_id b2)\<rparr>
                                  else b2)
                        in move_commit s old_id old new_id location qty b3)
           | (_, p') \<Rightarrow> Some (AllocationFailed, undo_level (b1\<lparr>pool := Some p'\<rparr>)))"

definition book_replace ::
    "heap_env \<Rightarrow> OrderId \<Rightarrow> OrderId \<Rightarrow> Side \<Rightarrow> Price \<Rightarrow> Quantity \<Rightarrow> bool \<Rightarrow> OrderBook \<Rightarrow>
     (ApplyResult \<times> OrderBook) option" where
  "book_replace h old_id new_id s price qty maintain_priority b =
     (case map_of (orders_by_id b) old_id of
        None \<Rightarrow> Some (UnknownOrder, b)
      | Some old \<Rightarrow>
          if qty = 0 then Some (InvalidQuantity, b)
          else if price = 0 then Some (InvalidPrice, b)
          else if s \<noteq> loc_side old then Some (UnknownOrder, b)
          else if new_id \<noteq> old_id \<and> om_contains (orders_by_id b) new_id
          then Some (DuplicateOrder, b)
          else if maintain_priority
          then (if price \<noteq> loc_price old \<or> new_id \<noteq> old_id then Some (InvalidPrice, b)
                else replace_adjust (loc_side old) old qty b)
          else (case pool b of
              None \<Rightarrow> None
            | Some p \<Rightarrow> move_to h (loc_side old) old_id old new_id price qty p b))"

section \<open>Queries\<close>

text \<open>
  The entry a list node holds. A queue owns its nodes, so walking a queue never meets an address
  that is not live; the invariant below says so.
\<close>

definition entry_at :: "OrderBook \<Rightarrow> nat \<Rightarrow> OrderEntry" where
  "entry_at b a =
     (case map_of (nodes b) a of Some e \<Rightarrow> e | None \<Rightarrow> \<lparr>entry_order_id = 0, entry_remaining = 0\<rparr>)"

definition order_view :: "OrderBook \<Rightarrow> Side \<Rightarrow> Price \<Rightarrow> nat \<Rightarrow> OrderView" where
  "order_view b s price a =
     \<lparr>view_id = entry_order_id (entry_at b a), view_side = s, view_price = price,
      view_quantity = entry_remaining (entry_at b a)\<rparr>"

definition best_quantity :: "Side \<Rightarrow> OrderBook \<Rightarrow> u64" where
  "best_quantity s b =
     (if s = Bid then (case bids b of [] \<Rightarrow> 0 | (_, l) # _ \<Rightarrow> level_aggregate l)
      else if s = Ask then (case asks b of [] \<Rightarrow> 0 | (_, l) # _ \<Rightarrow> level_aggregate l)
      else 0)"

definition best_bid :: "OrderBook \<Rightarrow> Price option" where
  "best_bid b = (case bids b of [] \<Rightarrow> None | (price, _) # _ \<Rightarrow> Some price)"

definition best_ask :: "OrderBook \<Rightarrow> Price option" where
  "best_ask b = (case asks b of [] \<Rightarrow> None | (price, _) # _ \<Rightarrow> Some price)"

text \<open>\<open>std::optional\<close> results that read through an index iterator; the outer \<open>None\<close> is a dangling read.\<close>

definition remaining_quantity :: "OrderId \<Rightarrow> OrderBook \<Rightarrow> Quantity option option" where
  "remaining_quantity oid b =
     (case map_of (orders_by_id b) oid of
        None \<Rightarrow> Some None
      | Some loc \<Rightarrow> map_option (\<lambda>e. Some (entry_remaining e)) (map_of (nodes b) (loc_iterator loc)))"

definition book_order :: "OrderId \<Rightarrow> OrderBook \<Rightarrow> OrderView option option" where
  "book_order oid b =
     (case map_of (orders_by_id b) oid of
        None \<Rightarrow> Some None
      | Some loc \<Rightarrow>
          map_option (\<lambda>e. Some \<lparr>view_id = oid, view_side = loc_side loc, view_price = loc_price loc,
              view_quantity = entry_remaining e\<rparr>) (map_of (nodes b) (loc_iterator loc)))"

definition front_of :: "price_levels \<Rightarrow> OrderBook \<Rightarrow> OrderView option option" where
  "front_of ls b =
     (case ls of
        [] \<Rightarrow> Some None
      | (_, l) # _ \<Rightarrow>
          (case level_orders l of [] \<Rightarrow> None | a # _ \<Rightarrow> book_order (entry_order_id (entry_at b a)) b))"

definition front :: "Side \<Rightarrow> OrderBook \<Rightarrow> OrderView option option" where
  "front s b =
     (if s = Bid \<and> bids b \<noteq> [] then front_of (bids b) b
      else if s = Ask \<and> asks b \<noteq> [] then front_of (asks b) b
      else Some None)"

definition append_levels :: "OrderBook \<Rightarrow> Side \<Rightarrow> price_levels \<Rightarrow> LevelView list" where
  "append_levels b s ls =
     map (\<lambda>(price, l). \<lparr>lv_side = s, lv_price = price, lv_quantity = level_aggregate l,
                         lv_orders = map (order_view b s price) (level_orders l)\<rparr>) ls"

definition book_snapshot :: "OrderBook \<Rightarrow> LevelView list" where
  "book_snapshot b = append_levels b Bid (bids b) @ append_levels b Ask (asks b)"

definition order_count :: "OrderBook \<Rightarrow> nat" where
  "order_count b = length (orders_by_id b)"

definition bid_level_count :: "OrderBook \<Rightarrow> nat" where
  "bid_level_count b = length (bids b)"

definition ask_level_count :: "OrderBook \<Rightarrow> nat" where
  "ask_level_count b = length (asks b)"

text \<open>
  \<open>for_each_order\<close>: the orders of a side in the order they are visited, and the visit itself, which
  stops at the first order for which the visitor returns false.
\<close>

definition visit_orders :: "OrderBook \<Rightarrow> Side \<Rightarrow> price_levels \<Rightarrow> OrderView list" where
  "visit_orders b s ls = concat (map (\<lambda>(price, l). map (order_view b s price) (level_orders l)) ls)"

definition book_orders :: "OrderBook \<Rightarrow> Side \<Rightarrow> OrderView list" where
  "book_orders b s =
     (if s = Bid then visit_orders b s (bids b)
      else if s = Ask then visit_orders b s (asks b)
      else [])"

fun visit_while :: "('s \<Rightarrow> OrderView \<Rightarrow> bool \<times> 's) \<Rightarrow> OrderView list \<Rightarrow> 's \<Rightarrow> 's" where
  "visit_while visitor [] st = st"
| "visit_while visitor (v # vs) st =
     (case visitor st v of (continue, st') \<Rightarrow> if continue then visit_while visitor vs st' else st')"

definition for_each_order :: "Side \<Rightarrow> ('s \<Rightarrow> OrderView \<Rightarrow> bool \<times> 's) \<Rightarrow> OrderBook \<Rightarrow> 's \<Rightarrow> 's" where
  "for_each_order s visitor b st = visit_while visitor (book_orders b s) st"

section \<open>The consistency check\<close>

text \<open>
  \<open>validate_invariants\<close>: \<open>Inl reason\<close> is a false result with its reason. The state of the walk is
  the set of ids seen and the number of orders counted.
\<close>

fun validate_orders ::
    "OrderBook \<Rightarrow> Side \<Rightarrow> Price \<Rightarrow> nat list \<Rightarrow> OrderId list \<times> nat \<times> u64 \<Rightarrow>
     string + OrderId list \<times> nat \<times> u64" where
  "validate_orders b s price [] st = Inr st"
| "validate_orders b s price (a # as) (seen, count, computed) =
     (let e = entry_at b a; oid = to_string_nat (unat (entry_order_id e)) in
      if entry_remaining e = 0 then Inl (''order '' @ oid @ '' has zero remaining quantity'')
      else if entry_order_id e \<in> set seen
      then Inl (''order '' @ oid @ '' appears in more than one price level'')
      else if - 1 - ucast (entry_remaining e) < computed
      then Inl (side_to_string s @ '' level '' @ to_string_nat (unat price) @
                '' aggregate quantity overflows'')
      else (case map_of (orders_by_id b) (entry_order_id e) of
          None \<Rightarrow> Inl (''order '' @ oid @ '' exists in a price level but not in the order index'')
        | Some loc \<Rightarrow>
            if loc_side loc \<noteq> s
            then Inl (''order '' @ oid @ '' has the wrong side in the order index'')
            else if loc_price loc \<noteq> price
            then Inl (''order '' @ oid @ '' has the wrong price in the order index'')
            else if loc_iterator loc \<noteq> a
            then Inl (''order '' @ oid @ '' has the wrong queue iterator in the order index'')
            else validate_orders b s price as
                   (entry_order_id e # seen, Suc count, computed + ucast (entry_remaining e))))"

fun validate_levels ::
    "OrderBook \<Rightarrow> Side \<Rightarrow> price_levels \<Rightarrow> OrderId list \<times> nat \<times> Price option \<Rightarrow>
     string + OrderId list \<times> nat \<times> Price option" where
  "validate_levels b s [] st = Inr st"
| "validate_levels b s ((price, l) # ls) (seen, count, expected_best) =
     (if price = 0 then Inl (side_to_string s @ '' level has an invalid zero price'')
      else if level_orders l = []
      then Inl (side_to_string s @ '' level '' @ to_string_nat (unat price) @ '' is empty'')
      else
        let best = (case expected_best of
              None \<Rightarrow> Some price
            | Some q \<Rightarrow> if (if s = Bid then q < price else price < q) then Some price else Some q)
        in case validate_orders b s price (level_orders l) (seen, count, 0) of
             Inl r \<Rightarrow> Inl r
           | Inr (seen', count', computed) \<Rightarrow>
               if computed \<noteq> level_aggregate l
               then Inl (side_to_string s @ '' level '' @ to_string_nat (unat price) @
                         '' aggregate quantity mismatch: stored='' @
                         to_string_nat (unat (level_aggregate l)) @ '', computed='' @
                         to_string_nat (unat computed))
               else validate_levels b s ls (seen', count', best))"

definition validate_invariants :: "OrderBook \<Rightarrow> string + unit" where
  "validate_invariants b =
     (case validate_levels b Bid (bids b) ([], 0, None) of
        Inl r \<Rightarrow> Inl r
      | Inr (seen1, count1, expected_best_bid) \<Rightarrow>
          (case validate_levels b Ask (asks b) (seen1, count1, None) of
             Inl r \<Rightarrow> Inl r
           | Inr (seen, count, expected_best_ask) \<Rightarrow>
               (case find (\<lambda>oid. oid \<notin> set seen) (map fst (orders_by_id b)) of
                  Some oid \<Rightarrow> Inl (''order '' @ to_string_nat (unat oid) @
                    '' exists in the order index but not in a price level'')
                | None \<Rightarrow>
                    if count \<noteq> length (orders_by_id b)
                    then Inl (''order count mismatch: levels='' @ to_string_nat count @ '', index='' @
                              to_string_nat (length (orders_by_id b)))
                    else if best_bid b \<noteq> expected_best_bid
                    then Inl ''best bid does not match the highest live bid level''
                    else if best_ask b \<noteq> expected_best_ask
                    then Inl ''best ask does not match the lowest live ask level''
                    else Inr ())))"

end
