(* ===== verification/Order_Book_Inv.thy ===== *)
theory Order_Book_Inv
  imports Order_Book
begin

text \<open>
  The data-structure invariant of the order book and its preservation. \<open>wf_core\<close> ties the level
  queues, the node memory and the index together; \<open>wf_book\<close> adds the pool: the slots in use are
  exactly the live nodes. Every successful mutation is one of three primitive changes (link an order
  at the back of a queue, unlink an order, rewrite its quantity), and each is shown to preserve the
  invariant once.
\<close>

section \<open>The pool at node size\<close>

definition node_inv :: "FixedSlotPool \<Rightarrow> bool" where
  "node_inv p \<longleftrightarrow> wf_pool p \<and>
     (first_init p \<longrightarrow> slot_sz p = sizeof_list_node \<and> slot_alignment p = alignof_list_node)"

definition node_slots :: "FixedSlotPool \<Rightarrow> nat" where
  "node_slots p = pool_slots sizeof_list_node alignof_list_node p"

lemmas node_sizes = sizeof_list_node_def sizeof_OrderEntry_def alignof_list_node_def CAPACITY_BYTES_def

lemma node_allocate_eq:
  "node_allocate ok p = pool_allocate ok sizeof_list_node alignof_list_node p"
  by (simp add: node_allocate_def adaptor_allocate_def node_sizes)

lemma node_deallocate_eq: "node_deallocate a p = pool_deallocate a sizeof_list_node p"
  by (simp add: node_deallocate_def adaptor_deallocate_def)

lemma node_size_facts:
  "0 < sizeof_list_node" "0 < alignof_list_node" "alignof_list_node dvd sizeof_list_node"
  by (simp_all add: node_sizes)

lemma node_invD: "node_inv p \<Longrightarrow> wf_pool p"
  by (simp add: node_inv_def)

lemma node_ready_inv:
  assumes "node_inv p" "pool_ready ok sizeof_list_node alignof_list_node p = Some p'"
  shows "node_inv p'"
  using assms pool_first_use_wf [OF _ _ node_size_facts, of p ok p']
  by (auto simp: node_inv_def pool_ready_def split: if_splits)

lemma node_allocate_Ptr:
  "node_inv p \<Longrightarrow> node_allocate ok p = (Ptr a, p') \<Longrightarrow>
   node_inv p' \<and> a \<notin> pool_used p \<and> pool_used p' = insert a (pool_used p) \<and> node_slots p' = node_slots p"
  using pool_allocate_Ptr [OF node_invD node_size_facts, of p ok a p']
  by (simp add: node_allocate_eq node_inv_def node_slots_def)

lemma node_allocate_fail:
  assumes "node_inv p" "node_allocate ok p = (r, p')" "\<And>a. r \<noteq> Ptr a"
  shows "r = Bad_Alloc \<and> node_inv p' \<and> pool_used p' = pool_used p \<and> node_slots p' = node_slots p"
proof -
  note alloc = assms(2) [unfolded node_allocate_eq]
  have "p' = p \<or> pool_ready ok sizeof_list_node alignof_list_node p = Some p'"
    using alloc assms(3) by (auto simp: pool_allocate_alt [OF node_size_facts(1)] apfst_def
        map_prod_def split: option.splits if_splits prod.splits)
  then have "node_inv p'" using assms(1) node_ready_inv by blast
  then show ?thesis
    using pool_allocate_fail [OF node_invD [OF assms(1)] node_size_facts alloc assms(3)]
    by (simp add: node_slots_def)
qed

lemma node_allocate_room:
  "node_inv p \<Longrightarrow> ok \<Longrightarrow> card (pool_used p) < node_slots p \<Longrightarrow>
   \<exists>a p'. node_allocate ok p = (Ptr a, p')"
  using pool_allocate_room [OF node_invD node_size_facts, of p]
  by (simp add: node_allocate_eq node_inv_def node_slots_def)

lemma node_deallocate_used:
  assumes "node_inv p" "a \<in> pool_used p"
  shows "node_inv (node_deallocate a p) \<and> pool_used (node_deallocate a p) = pool_used p - {a} \<and>
    node_slots (node_deallocate a p) = node_slots p"
proof -
  note d = pool_deallocate_used [OF node_invD [OF assms(1)] assms(2),
      of sizeof_list_node alignof_list_node]
  have "slot_sz p = sizeof_list_node" using d assms(1) by (simp add: node_inv_def)
  then show ?thesis using d assms(1) by (simp add: node_deallocate_eq node_inv_def node_slots_def)
qed

lemma node_used_le: "node_inv p \<Longrightarrow> finite (pool_used p) \<and> card (pool_used p) \<le> node_slots p"
  by (simp add: node_slots_def pool_used_le_slots node_invD)

interpretation node_pool: slot_allocator node_allocate node_deallocate pool_used node_slots node_inv "\<lambda>ok. ok"
  by (rule slot_allocator.intro)
    (fact node_allocate_Ptr node_allocate_fail node_allocate_room node_deallocate_used node_used_le)+

interpretation side_order: key_order "side_lt s" for s
  by unfold_locales (auto simp: side_lt_def split: if_splits)

section \<open>The invariant\<close>

definition level_sum :: "OrderBook \<Rightarrow> nat list \<Rightarrow> u64" where
  "level_sum b as = sum_list (map (\<lambda>a. ucast (entry_remaining (entry_at b a))) as)"

definition order_ok :: "OrderBook \<Rightarrow> Side \<Rightarrow> Price \<Rightarrow> nat \<Rightarrow> bool" where
  "order_ok b s price a \<longleftrightarrow>
     (case map_of (nodes b) a of
        None \<Rightarrow> False
      | Some e \<Rightarrow> entry_remaining e \<noteq> 0 \<and>
          map_of (orders_by_id b) (entry_order_id e) =
            Some \<lparr>loc_side = s, loc_price = price, loc_iterator = a\<rparr>)"

definition level_ok :: "OrderBook \<Rightarrow> Side \<Rightarrow> Price \<Rightarrow> PriceLevel \<Rightarrow> bool" where
  "level_ok b s price l \<longleftrightarrow>
     price \<noteq> 0 \<and> level_orders l \<noteq> [] \<and> distinct (level_orders l) \<and>
     level_aggregate l = level_sum b (level_orders l) \<and>
     (\<forall>a \<in> set (level_orders l). order_ok b s price a)"

definition index_ok :: "OrderBook \<Rightarrow> OrderId \<Rightarrow> OrderLocation \<Rightarrow> bool" where
  "index_ok b oid loc \<longleftrightarrow>
     loc_side loc \<noteq> Side_Other \<and>
     (\<exists>l e. map_of (levels_of (loc_side loc) b) (loc_price loc) = Some l \<and>
            loc_iterator loc \<in> set (level_orders l) \<and>
            map_of (nodes b) (loc_iterator loc) = Some e \<and> entry_order_id e = oid)"

definition node_ok :: "OrderBook \<Rightarrow> nat \<Rightarrow> OrderEntry \<Rightarrow> bool" where
  "node_ok b a e \<longleftrightarrow>
     (\<exists>loc. map_of (orders_by_id b) (entry_order_id e) = Some loc \<and> loc_iterator loc = a)"

definition wf_core :: "OrderBook \<Rightarrow> bool" where
  "wf_core b \<longleftrightarrow>
     om_sorted (side_lt Bid) (bids b) \<and> om_sorted (side_lt Ask) (asks b) \<and>
     om_sorted (<) (orders_by_id b) \<and> om_sorted (<) (nodes b) \<and>
     (\<forall>s price l. s \<noteq> Side_Other \<longrightarrow> map_of (levels_of s b) price = Some l \<longrightarrow> level_ok b s price l) \<and>
     (\<forall>oid loc. map_of (orders_by_id b) oid = Some loc \<longrightarrow> index_ok b oid loc) \<and>
     (\<forall>a e. map_of (nodes b) a = Some e \<longrightarrow> node_ok b a e)"

definition wf_book :: "OrderBook \<Rightarrow> bool" where
  "wf_book b \<longleftrightarrow> wf_core b \<and>
     (case pool b of
        None \<Rightarrow> nodes b = []
      | Some p \<Rightarrow> node_inv p \<and> pool_used p = dom (map_of (nodes b)))"

subsection \<open>Frame lemmas\<close>

lemma set_levels_frame [simp]:
  "nodes (set_levels s ls b) = nodes b" "orders_by_id (set_levels s ls b) = orders_by_id b"
  "pool (set_levels s ls b) = pool b"
  by (simp_all add: set_levels_def)

lemma levels_of_set_levels [simp]:
  "levels_of s (set_levels s' ls b) = (if (s = Bid) = (s' = Bid) then ls else levels_of s b)"
  by (auto simp: levels_of_def set_levels_def)

lemma set_levels_twice [simp]: "set_levels s ls (set_levels s ls' b) = set_levels s ls b"
  by (simp add: set_levels_def)

lemma set_levels_levels_of [simp]: "set_levels s (levels_of s b) b = b"
  by (simp add: set_levels_def levels_of_def)

lemma levels_of_frame [simp]:
  "levels_of s (b\<lparr>nodes := x\<rparr>) = levels_of s b" "levels_of s (b\<lparr>orders_by_id := y\<rparr>) = levels_of s b"
  "levels_of s (b\<lparr>pool := z\<rparr>) = levels_of s b"
  by (simp_all add: levels_of_def)

lemma set_levels_comm [simp]:
  "(set_levels s ls b)\<lparr>nodes := x\<rparr> = set_levels s ls (b\<lparr>nodes := x\<rparr>)"
  "(set_levels s ls b)\<lparr>orders_by_id := y\<rparr> = set_levels s ls (b\<lparr>orders_by_id := y\<rparr>)"
  "(set_levels s ls b)\<lparr>pool := z\<rparr> = set_levels s ls (b\<lparr>pool := z\<rparr>)"
  by (simp_all add: set_levels_def)

lemma levels_sorted: "wf_core b \<Longrightarrow> om_sorted (side_lt s) (levels_of s b)"
  by (cases s) (auto simp: wf_core_def levels_of_def side_lt_def)

lemma wf_levelD: "wf_core b \<Longrightarrow> s \<noteq> Side_Other \<Longrightarrow> map_of (levels_of s b) price = Some l \<Longrightarrow>
    level_ok b s price l"
  by (auto simp: wf_core_def)

lemma wf_indexD: "wf_core b \<Longrightarrow> map_of (orders_by_id b) oid = Some loc \<Longrightarrow> index_ok b oid loc"
  by (auto simp: wf_core_def)

lemma wf_nodeD: "wf_core b \<Longrightarrow> map_of (nodes b) a = Some e \<Longrightarrow> node_ok b a e"
  by (auto simp: wf_core_def)

lemma wf_core_pool [simp]: "wf_core (b\<lparr>pool := p\<rparr>) = wf_core b"
  by (simp add: wf_core_def level_ok_def index_ok_def node_ok_def order_ok_def level_sum_def
      entry_at_def cong: option.case_cong)

lemma order_okE:
  assumes "order_ok b s price a"
  obtains e where "map_of (nodes b) a = Some e" "entry_remaining e \<noteq> 0"
    "map_of (orders_by_id b) (entry_order_id e) =
       Some \<lparr>loc_side = s, loc_price = price, loc_iterator = a\<rparr>"
  using assms by (auto simp: order_ok_def split: option.splits)

lemma entry_at_Some: "map_of (nodes b) a = Some e \<Longrightarrow> entry_at b a = e"
  by (simp add: entry_at_def)

text \<open>An address in a queue identifies the queue and the order.\<close>

lemma order_ok_unique:
  "order_ok b s price a \<Longrightarrow> order_ok b s' price' a \<Longrightarrow> s = s' \<and> price = price'"
  by (auto elim!: order_okE)

lemma wf_coreI:
  assumes "\<And>s. s \<noteq> Side_Other \<Longrightarrow> om_sorted (side_lt s) (levels_of s b)"
    and "om_sorted (<) (orders_by_id b)" "om_sorted (<) (nodes b)"
    and "\<And>s price l. s \<noteq> Side_Other \<Longrightarrow> map_of (levels_of s b) price = Some l \<Longrightarrow> level_ok b s price l"
    and "\<And>oid loc. map_of (orders_by_id b) oid = Some loc \<Longrightarrow> index_ok b oid loc"
    and "\<And>a e. map_of (nodes b) a = Some e \<Longrightarrow> node_ok b a e"
  shows "wf_core b"
  using assms(1) [of Bid] assms(1) [of Ask] assms(2-) by (auto simp: wf_core_def levels_of_def)

section \<open>The three primitive changes\<close>

definition level_or_empty :: "Side \<Rightarrow> Price \<Rightarrow> OrderBook \<Rightarrow> PriceLevel" where
  "level_or_empty s price b =
     (case map_of (levels_of s b) price of Some l \<Rightarrow> l | None \<Rightarrow> empty_level)"

definition put_level :: "Side \<Rightarrow> Price \<Rightarrow> PriceLevel \<Rightarrow> OrderBook \<Rightarrow> OrderBook" where
  "put_level s price l b = set_levels s (om_put (side_lt s) price l (levels_of s b)) b"

definition link_order :: "Side \<Rightarrow> Price \<Rightarrow> OrderId \<Rightarrow> nat \<Rightarrow> Quantity \<Rightarrow> OrderBook \<Rightarrow> OrderBook" where
  "link_order s price oid a q b =
     (let l = level_or_empty s price b in
      put_level s price
        \<lparr>level_orders = level_orders l @ [a], level_aggregate = level_aggregate l + ucast q\<rparr>
        (b\<lparr>nodes := om_put (<) a \<lparr>entry_order_id = oid, entry_remaining = q\<rparr> (nodes b),
           orders_by_id := om_put (<) oid
             \<lparr>loc_side = s, loc_price = price, loc_iterator = a\<rparr> (orders_by_id b)\<rparr>))"

definition unlink_order :: "Side \<Rightarrow> Price \<Rightarrow> OrderId \<Rightarrow> nat \<Rightarrow> OrderBook \<Rightarrow> OrderBook" where
  "unlink_order s price oid a b =
     (let l = level_or_empty s price b; rest = removeAll a (level_orders l);
          b' = b\<lparr>nodes := om_erase a (nodes b), orders_by_id := om_erase oid (orders_by_id b)\<rparr>
      in if rest = [] then set_levels s (om_erase price (levels_of s b)) b'
         else put_level s price
           \<lparr>level_orders = rest,
            level_aggregate = level_aggregate l - ucast (entry_remaining (entry_at b a))\<rparr> b')"

definition requantify :: "Side \<Rightarrow> Price \<Rightarrow> nat \<Rightarrow> Quantity \<Rightarrow> OrderBook \<Rightarrow> OrderBook" where
  "requantify s price a q b =
     (let l = level_or_empty s price b in
      put_level s price
        (l\<lparr>level_aggregate :=
             level_aggregate l - ucast (entry_remaining (entry_at b a)) + ucast q\<rparr>)
        (b\<lparr>nodes := om_update a (\<lambda>e. e\<lparr>entry_remaining := q\<rparr>) (nodes b)\<rparr>))"

lemma level_sum_append [simp]: "level_sum b (xs @ ys) = level_sum b xs + level_sum b ys"
  by (simp add: level_sum_def)

lemma level_sum_cong:
  "(\<And>a. a \<in> set as \<Longrightarrow> map_of (nodes b') a = map_of (nodes b) a) \<Longrightarrow> level_sum b' as = level_sum b as"
  unfolding level_sum_def entry_at_def by (intro arg_cong [where f = sum_list] map_cong) simp_all

lemma level_sum_remove:
  assumes "distinct as" "a \<in> set as"
  shows "level_sum b as = level_sum b (removeAll a as) + ucast (entry_remaining (entry_at b a))"
  using assms by (induction as) (auto simp: level_sum_def algebra_simps)

lemma level_ok_cong:
  assumes "level_ok b s price l"
    and "\<And>a. a \<in> set (level_orders l) \<Longrightarrow> map_of (nodes b') a = map_of (nodes b) a"
    and "\<And>a. a \<in> set (level_orders l) \<Longrightarrow>
      map_of (orders_by_id b') (entry_order_id (entry_at b a)) =
      map_of (orders_by_id b) (entry_order_id (entry_at b a))"
  shows "level_ok b' s price l"
  using assms level_sum_cong [of "level_orders l" b' b]
  by (auto simp: level_ok_def order_ok_def entry_at_def split: option.splits) fastforce+

subsection \<open>Linking\<close>

lemma link_nodes [simp]: "nodes (link_order s price oid a q b) =
    om_put (<) a \<lparr>entry_order_id = oid, entry_remaining = q\<rparr> (nodes b)"
  by (simp add: link_order_def put_level_def Let_def)

lemma link_index [simp]: "orders_by_id (link_order s price oid a q b) =
    om_put (<) oid \<lparr>loc_side = s, loc_price = price, loc_iterator = a\<rparr> (orders_by_id b)"
  by (simp add: link_order_def put_level_def Let_def)

lemma link_pool [simp]: "pool (link_order s price oid a q b) = pool b"
  by (simp add: link_order_def put_level_def Let_def)

lemma link_levels: "levels_of s' (link_order s price oid a q b) =
    (if (s' = Bid) = (s = Bid)
     then om_put (side_lt s) price
            \<lparr>level_orders = level_orders (level_or_empty s price b) @ [a],
             level_aggregate = level_aggregate (level_or_empty s price b) + ucast q\<rparr> (levels_of s b)
     else levels_of s' b)"
  by (auto simp: link_order_def put_level_def Let_def)

lemma side_bid_eq: "s \<noteq> Side_Other \<Longrightarrow> s' \<noteq> Side_Other \<Longrightarrow> (s' = Bid) = (s = Bid) \<longleftrightarrow> s' = s"
  by (cases s; cases s') auto

lemma level_ok_linked:
  assumes wf: "wf_core b" and s: "s \<noteq> Side_Other" and new: "map_of (nodes b) a = None"
    "map_of (orders_by_id b) oid = None" and pq: "price \<noteq> 0" "q \<noteq> 0"
  shows "level_ok (link_order s price oid a q b) s price
    \<lparr>level_orders = level_orders (level_or_empty s price b) @ [a],
     level_aggregate = level_aggregate (level_or_empty s price b) + ucast q\<rparr>"
proof -
  let ?b = "link_order s price oid a q b" and ?l = "level_or_empty s price b"
  have old: "distinct (level_orders ?l)" "level_aggregate ?l = level_sum b (level_orders ?l)"
    "\<forall>a' \<in> set (level_orders ?l). order_ok b s price a'"
    using wf_levelD [OF wf s, of price]
    by (auto simp: level_or_empty_def level_ok_def empty_level_def level_sum_def split: option.splits)
  have fresh: "a \<notin> set (level_orders ?l)" using old(3) new by (auto elim!: order_okE)
  have "level_sum ?b (level_orders ?l) = level_sum b (level_orders ?l)"
    using fresh by (intro level_sum_cong) auto
  moreover have "level_sum ?b [a] = ucast q" by (simp add: level_sum_def entry_at_def)
  moreover have "order_ok ?b s price a'" if "a' \<in> set (level_orders ?l)" for a'
    using bspec [OF old(3) that] that fresh new by (auto simp: order_ok_def split: option.splits)
  moreover have "order_ok ?b s price a" using pq by (simp add: order_ok_def)
  ultimately show ?thesis using old fresh pq by (auto simp: level_ok_def)
qed

lemma link_wf:
  assumes wf: "wf_core b" and s: "s \<noteq> Side_Other" and new: "map_of (nodes b) a = None"
    "map_of (orders_by_id b) oid = None" and pq: "price \<noteq> 0" "q \<noteq> 0"
  shows "wf_core (link_order s price oid a q b)"
proof (rule wf_coreI)
  let ?b = "link_order s price oid a q b"
  show "om_sorted (side_lt s') (levels_of s' ?b)" if "s' \<noteq> Side_Other" for s'
    using levels_sorted [OF wf] that s
    by (auto simp: link_levels side_bid_eq intro: side_order.sorted_put)
  show "om_sorted (<) (orders_by_id ?b)" "om_sorted (<) (nodes ?b)"
    using wf by (auto simp: wf_core_def intro: om_less.sorted_put)
  show "level_ok ?b s' price' l" if s': "s' \<noteq> Side_Other" and l: "map_of (levels_of s' ?b) price' = Some l"
    for s' price' l
  proof (cases "s' = s \<and> price' = price")
    case True
    then show ?thesis using l level_ok_linked [OF assms] by (auto simp: link_levels)
  next
    case False
    then have "map_of (levels_of s' b) price' = Some l"
      using l s s' by (auto simp: link_levels side_bid_eq split: if_splits)
    then have ok: "level_ok b s' price' l" using wf s' by (simp add: wf_levelD)
    show ?thesis
      using ok new by (intro level_ok_cong [OF ok]) (auto simp: level_ok_def entry_at_def elim!: order_okE)
  qed
  show "index_ok ?b oid' loc" if "map_of (orders_by_id ?b) oid' = Some loc" for oid' loc
  proof (cases "oid' = oid")
    case True
    then show ?thesis using that s by (auto simp: index_ok_def link_levels)
  next
    case False
    then have ok: "index_ok b oid' loc" using that wf by (simp add: wf_indexD)
    then show ?thesis
      using new s
      by (auto simp: index_ok_def link_levels side_bid_eq level_or_empty_def split: if_splits option.splits)
  qed
  show "node_ok ?b a' e" if "map_of (nodes ?b) a' = Some e" for a' e
    using that new wf_nodeD [OF wf, of a' e] by (auto simp: node_ok_def split: if_splits)
qed

subsection \<open>Unlinking\<close>

text \<open>The location of an order: what the index says of it, and what that gives in a well-formed book.\<close>

definition located :: "OrderBook \<Rightarrow> Side \<Rightarrow> Price \<Rightarrow> OrderId \<Rightarrow> nat \<Rightarrow> Quantity \<Rightarrow> PriceLevel \<Rightarrow> bool" where
  "located b s price oid a q l \<longleftrightarrow>
     s \<noteq> Side_Other \<and>
     map_of (orders_by_id b) oid = Some \<lparr>loc_side = s, loc_price = price, loc_iterator = a\<rparr> \<and>
     map_of (nodes b) a = Some \<lparr>entry_order_id = oid, entry_remaining = q\<rparr> \<and>
     map_of (levels_of s b) price = Some l \<and> a \<in> set (level_orders l) \<and> q \<noteq> 0"

lemma index_located:
  assumes "wf_core b" "map_of (orders_by_id b) oid = Some loc"
  obtains q l where "located b (loc_side loc) (loc_price loc) oid (loc_iterator loc) q l"
    "loc = \<lparr>loc_side = loc_side loc, loc_price = loc_price loc, loc_iterator = loc_iterator loc\<rparr>"
proof -
  obtain l e where le: "loc_side loc \<noteq> Side_Other"
    "map_of (levels_of (loc_side loc) b) (loc_price loc) = Some l"
    "loc_iterator loc \<in> set (level_orders l)" "map_of (nodes b) (loc_iterator loc) = Some e"
    "entry_order_id e = oid"
    using wf_indexD [OF assms] by (auto simp: index_ok_def)
  then have "order_ok b (loc_side loc) (loc_price loc) (loc_iterator loc)"
    using wf_levelD [OF assms(1), of "loc_side loc" "loc_price loc" l] by (auto simp: level_ok_def)
  then have "entry_remaining e \<noteq> 0" using le by (auto elim!: order_okE)
  then have "located b (loc_side loc) (loc_price loc) oid (loc_iterator loc) (entry_remaining e) l"
    using le assms(2) by (auto simp: located_def)
  then show thesis using that by simp
qed

lemma located_ok: "wf_core b \<Longrightarrow> located b s price oid a q l \<Longrightarrow> level_ok b s price l"
  by (auto simp: located_def dest: wf_levelD)

lemma located_level: "located b s price oid a q l \<Longrightarrow> level_or_empty s price b = l"
  by (simp add: located_def level_or_empty_def)

lemma located_entry: "located b s price oid a q l \<Longrightarrow>
    entry_at b a = \<lparr>entry_order_id = oid, entry_remaining = q\<rparr>"
  by (simp add: located_def entry_at_def)

lemma unlink_nodes [simp]: "nodes (unlink_order s price oid a b) = om_erase a (nodes b)"
  by (simp add: unlink_order_def put_level_def Let_def)

lemma unlink_index [simp]: "orders_by_id (unlink_order s price oid a b) = om_erase oid (orders_by_id b)"
  by (simp add: unlink_order_def put_level_def Let_def)

lemma unlink_pool [simp]: "pool (unlink_order s price oid a b) = pool b"
  by (simp add: unlink_order_def put_level_def Let_def)

lemma unlink_levels:
  assumes "located b s price oid a q l"
  shows "levels_of s' (unlink_order s price oid a b) =
    (if (s' = Bid) = (s = Bid)
     then if removeAll a (level_orders l) = [] then om_erase price (levels_of s b)
          else om_put (side_lt s) price
            \<lparr>level_orders = removeAll a (level_orders l), level_aggregate = level_aggregate l - ucast q\<rparr>
            (levels_of s b)
     else levels_of s' b)"
  using located_level [OF assms] located_entry [OF assms]
  by (auto simp: unlink_order_def put_level_def Let_def)

text \<open>Another order of the book: its node and index entry are not those of the located one.\<close>

lemma other_order:
  assumes "wf_core b" "located b s price oid a q l" "order_ok b s' price' a'"
    "(s', price') \<noteq> (s, price) \<or> a' \<noteq> a"
  shows "a' \<noteq> a \<and> entry_order_id (entry_at b a') \<noteq> oid"
  using assms by (auto simp: located_def entry_at_def elim!: order_okE)

lemma unlink_wf:
  assumes wf: "wf_core b" and loc: "located b s price oid a q l"
  shows "wf_core (unlink_order s price oid a b)"
proof (rule wf_coreI)
  let ?b = "unlink_order s price oid a b"
  have s: "s \<noteq> Side_Other" using loc by (simp add: located_def)
  have lok: "level_ok b s price l" using wf loc by (rule located_ok)
  note lv = unlink_levels [OF loc]
  show "om_sorted (side_lt s') (levels_of s' ?b)" if "s' \<noteq> Side_Other" for s'
    using levels_sorted [OF wf] that s
    by (auto simp: lv side_bid_eq intro: side_order.sorted_put side_order.sorted_erase)
  show "om_sorted (<) (orders_by_id ?b)" "om_sorted (<) (nodes ?b)"
    using wf by (auto simp: wf_core_def intro: om_less.sorted_erase)
  have keep: "order_ok ?b s' price' a'"
    if "order_ok b s' price' a'" "(s', price') \<noteq> (s, price) \<or> a' \<noteq> a" for s' price' a'
    using that(1) other_order [OF wf loc that] by (auto simp: order_ok_def entry_at_def split: option.splits)
  show "level_ok ?b s' price' l'"
    if s': "s' \<noteq> Side_Other" and l': "map_of (levels_of s' ?b) price' = Some l'" for s' price' l'
  proof (cases "s' = s \<and> price' = price")
    case True
    let ?r = "removeAll a (level_orders l)"
    have l'_eq: "?r \<noteq> []" "l' = \<lparr>level_orders = ?r, level_aggregate = level_aggregate l - ucast q\<rparr>"
      using True l' by (auto simp: lv split: if_splits)
    have sum: "level_sum ?b ?r = level_sum b ?r" by (intro level_sum_cong) auto
    have "level_sum b (level_orders l) = level_sum b ?r + ucast q"
      using level_sum_remove [of "level_orders l" a b] lok loc located_entry [OF loc]
      by (auto simp: level_ok_def located_def)
    then show ?thesis using l'_eq lok sum True keep
      by (auto simp: level_ok_def distinct_removeAll)
  next
    case False
    then have "map_of (levels_of s' b) price' = Some l'"
      using l' s s' by (auto simp: lv side_bid_eq split: if_splits)
    then have ok: "level_ok b s' price' l'" using wf s' by (simp add: wf_levelD)
    have "a' \<noteq> a \<and> entry_order_id (entry_at b a') \<noteq> oid" if "a' \<in> set (level_orders l')" for a'
      using other_order [OF wf loc] ok that False by (auto simp: level_ok_def)
    then show ?thesis by (intro level_ok_cong [OF ok]) auto
  qed
  show "index_ok ?b oid' loc'" if "map_of (orders_by_id ?b) oid' = Some loc'" for oid' loc'
  proof -
    have oid': "oid' \<noteq> oid" and "map_of (orders_by_id b) oid' = Some loc'"
      using that by (auto split: if_splits)
    then obtain q' l' where loc': "located b (loc_side loc') (loc_price loc') oid' (loc_iterator loc') q' l'"
      using index_located [OF wf] by blast
    have it: "loc_iterator loc' \<noteq> a" using loc loc' oid' by (auto simp: located_def)
    then have "loc_iterator loc' \<in> set (removeAll a (level_orders l'))"
      using loc' by (simp add: located_def)
    then have "removeAll a (level_orders l') \<noteq> []" by force
    then show ?thesis
      using loc loc' s it by (auto simp: index_ok_def located_def lv side_bid_eq split: if_splits)
  qed
  show "node_ok ?b a' e" if "map_of (nodes ?b) a' = Some e" for a' e
    using that wf_nodeD [OF wf, of a' e] loc by (auto simp: node_ok_def located_def split: if_splits)
qed

subsection \<open>Changing a quantity\<close>

lemma requantify_nodes [simp]: "nodes (requantify s price a q b) =
    om_update a (\<lambda>e. e\<lparr>entry_remaining := q\<rparr>) (nodes b)"
  by (simp add: requantify_def put_level_def Let_def)

lemma requantify_index [simp]: "orders_by_id (requantify s price a q b) = orders_by_id b"
  by (simp add: requantify_def put_level_def Let_def)

lemma requantify_pool [simp]: "pool (requantify s price a q b) = pool b"
  by (simp add: requantify_def put_level_def Let_def)

lemma requantify_levels:
  assumes "located b s price oid a q l"
  shows "levels_of s' (requantify s price a q' b) =
    (if (s' = Bid) = (s = Bid)
     then om_put (side_lt s) price (l\<lparr>level_aggregate := level_aggregate l - ucast q + ucast q'\<rparr>)
            (levels_of s b)
     else levels_of s' b)"
  using located_level [OF assms] located_entry [OF assms]
  by (auto simp: requantify_def put_level_def Let_def)

lemma requantify_wf:
  assumes wf: "wf_core b" and loc: "located b s price oid a q l" and q': "q' \<noteq> 0"
  shows "wf_core (requantify s price a q' b)"
proof (rule wf_coreI)
  let ?b = "requantify s price a q' b"
  have s: "s \<noteq> Side_Other" using loc by (simp add: located_def)
  have lok: "level_ok b s price l" using wf loc by (rule located_ok)
  note lv = requantify_levels [OF loc]
  show "om_sorted (side_lt s') (levels_of s' ?b)" if "s' \<noteq> Side_Other" for s'
    using levels_sorted [OF wf] that s by (auto simp: lv side_bid_eq intro: side_order.sorted_put)
  show "om_sorted (<) (orders_by_id ?b)" "om_sorted (<) (nodes ?b)"
    using wf by (auto simp: wf_core_def intro: om_less.sorted_update)
  have keep: "order_ok ?b s' price' a'" if "order_ok b s' price' a'" for s' price' a'
    using that q' by (auto simp: order_ok_def split: option.splits)
  show "level_ok ?b s' price' l'"
    if s': "s' \<noteq> Side_Other" and l': "map_of (levels_of s' ?b) price' = Some l'" for s' price' l'
  proof (cases "s' = s \<and> price' = price")
    case True
    let ?r = "removeAll a (level_orders l)"
    have l'_eq: "l' = l\<lparr>level_aggregate := level_aggregate l - ucast q + ucast q'\<rparr>"
      using True l' by (auto simp: lv split: if_splits)
    have d: "distinct (level_orders l)" "a \<in> set (level_orders l)"
      using lok loc by (auto simp: level_ok_def located_def)
    have "level_sum ?b ?r = level_sum b ?r" by (intro level_sum_cong) auto
    then have "level_sum ?b (level_orders l) = level_sum b (level_orders l) - ucast q + ucast q'"
      using level_sum_remove [OF d, of b] level_sum_remove [OF d, of ?b] located_entry [OF loc] loc
      by (simp add: entry_at_def located_def)
    then show ?thesis using l'_eq lok True keep by (auto simp: level_ok_def)
  next
    case False
    then have "map_of (levels_of s' b) price' = Some l'"
      using l' s s' by (auto simp: lv side_bid_eq split: if_splits)
    then have ok: "level_ok b s' price' l'" using wf s' by (simp add: wf_levelD)
    have "a' \<noteq> a" if "a' \<in> set (level_orders l')" for a'
      using other_order [OF wf loc] ok that False by (auto simp: level_ok_def)
    then show ?thesis by (intro level_ok_cong [OF ok]) auto
  qed
  show "index_ok ?b oid' loc'" if "map_of (orders_by_id ?b) oid' = Some loc'" for oid' loc'
    using wf_indexD [OF wf, of oid' loc'] that loc s
    by (auto simp: index_ok_def located_def lv side_bid_eq split: if_splits)
  show "node_ok ?b a' e" if "map_of (nodes ?b) a' = Some e" for a' e
    using that wf_nodeD [OF wf, of a'] by (auto simp: node_ok_def split: if_splits)
qed

section \<open>Books as four finite maps\<close>

text \<open>
  Ordered books with the same lookups are equal, so an operation is compared with a primitive change
  through \<open>map_of\<close> only.
\<close>

definition ordered :: "OrderBook \<Rightarrow> bool" where
  "ordered b \<longleftrightarrow> om_sorted (side_lt Bid) (bids b) \<and> om_sorted (side_lt Ask) (asks b) \<and>
     om_sorted (<) (orders_by_id b) \<and> om_sorted (<) (nodes b)"

lemma wf_ordered: "wf_core b \<Longrightarrow> ordered b"
  by (simp add: wf_core_def ordered_def)

lemma ordered_levels: "ordered b \<Longrightarrow> om_sorted (side_lt s) (levels_of s b)"
  by (cases s) (auto simp: ordered_def levels_of_def side_lt_def)

lemma book_ext:
  assumes "ordered b" "ordered b'" "pool b = pool b'"
    and "map_of (nodes b) = map_of (nodes b')" "map_of (orders_by_id b) = map_of (orders_by_id b')"
    and "\<And>s. s \<noteq> Side_Other \<Longrightarrow> map_of (levels_of s b) = map_of (levels_of s b')"
  shows "b = b'"
proof -
  have "levels_of s b = levels_of s b'" if "s \<noteq> Side_Other" for s
    using side_order.sorted_ext [OF ordered_levels ordered_levels] assms that by blast
  from this [of Bid] this [of Ask] have "bids b = bids b'" "asks b = asks b'"
    by (simp_all add: levels_of_def)
  moreover have "nodes b = nodes b'" "orders_by_id b = orders_by_id b'"
    using assms by (auto simp: ordered_def intro: om_less.sorted_ext)
  ultimately show ?thesis using assms(3) by simp
qed

lemma ordered_set_levels:
  "ordered b \<Longrightarrow> om_sorted (side_lt s) ls \<Longrightarrow> ordered (set_levels s ls b)"
  by (cases s) (auto simp: ordered_def set_levels_def side_lt_def)

lemma ordered_fields [om_intros]:
  "ordered b \<Longrightarrow> ordered (b\<lparr>pool := p\<rparr>)"
  "ordered b \<Longrightarrow> om_sorted (<) ns \<Longrightarrow> ordered (b\<lparr>nodes := ns\<rparr>)"
  "ordered b \<Longrightarrow> om_sorted (<) ix \<Longrightarrow> ordered (b\<lparr>orders_by_id := ix\<rparr>)"
  by (simp_all add: ordered_def)

lemma ordered_nodes: "ordered b \<Longrightarrow> om_sorted (<) (nodes b)"
  and ordered_index: "ordered b \<Longrightarrow> om_sorted (<) (orders_by_id b)"
  by (simp_all add: ordered_def)

lemmas ordered_rules = ordered_set_levels ordered_fields ordered_levels ordered_nodes ordered_index
  side_order.sorted_put side_order.sorted_update side_order.sorted_erase
  om_less.sorted_put om_less.sorted_update om_less.sorted_erase

lemma ordered_ops:
  assumes "ordered b"
  shows "ordered (adjust_aggregate s price f b)" "ordered (push_node s price a e b)"
    "ordered (erase_node s price a b)" "ordered (write_remaining a q b)"
    "ordered (drop_if_empty s price b)" "ordered (put_level s price l b)"
  using assms
  by (auto simp: adjust_aggregate_def push_node_def erase_node_def write_remaining_def
      drop_if_empty_def put_level_def split: option.splits intro!: ordered_rules)

lemma ordered_primitives:
  assumes "ordered b"
  shows "ordered (link_order s price oid a q b)" "ordered (unlink_order s price oid a b)"
    "ordered (requantify s price a q b)"
  using assms
  by (auto simp: link_order_def unlink_order_def requantify_def Let_def
      intro!: ordered_ops(6) ordered_rules)

subsection \<open>Lookups after each step\<close>

lemma step_pool [simp]:
  "pool (adjust_aggregate s price f b) = pool b" "pool (push_node s price a e b) = pool b"
  "pool (erase_node s price a b) = map_option (node_deallocate a) (pool b)"
  "pool (write_remaining a q b) = pool b" "pool (drop_if_empty s price b) = pool b"
  by (simp_all add: adjust_aggregate_def push_node_def erase_node_def write_remaining_def
      drop_if_empty_def split: option.splits)

lemma step_index [simp]:
  "orders_by_id (adjust_aggregate s price f b) = orders_by_id b"
  "orders_by_id (push_node s price a e b) = orders_by_id b"
  "orders_by_id (erase_node s price a b) = orders_by_id b"
  "orders_by_id (write_remaining a q b) = orders_by_id b"
  "orders_by_id (drop_if_empty s price b) = orders_by_id b"
  by (simp_all add: adjust_aggregate_def push_node_def erase_node_def write_remaining_def
      drop_if_empty_def split: option.splits)

lemma step_nodes [simp]:
  "nodes (adjust_aggregate s price f b) = nodes b"
  "nodes (push_node s price a e b) = om_put (<) a e (nodes b)"
  "nodes (erase_node s price a b) = om_erase a (nodes b)"
  "nodes (write_remaining a q b) = om_update a (\<lambda>e. e\<lparr>entry_remaining := q\<rparr>) (nodes b)"
  "nodes (drop_if_empty s price b) = nodes b"
  by (simp_all add: adjust_aggregate_def push_node_def erase_node_def write_remaining_def
      drop_if_empty_def split: option.splits)

lemma step_levels [simp]:
  "levels_of s' (adjust_aggregate s price f b) =
     (if (s' = Bid) = (s = Bid)
      then om_update price (\<lambda>l. l\<lparr>level_aggregate := f (level_aggregate l)\<rparr>) (levels_of s b)
      else levels_of s' b)"
  "levels_of s' (push_node s price a e b) =
     (if (s' = Bid) = (s = Bid)
      then om_update price (\<lambda>l. l\<lparr>level_orders := level_orders l @ [a]\<rparr>) (levels_of s b)
      else levels_of s' b)"
  "levels_of s' (erase_node s price a b) =
     (if (s' = Bid) = (s = Bid)
      then om_update price (\<lambda>l. l\<lparr>level_orders := removeAll a (level_orders l)\<rparr>) (levels_of s b)
      else levels_of s' b)"
  "levels_of s' (write_remaining a q b) = levels_of s' b"
  by (simp_all add: adjust_aggregate_def push_node_def erase_node_def write_remaining_def)

lemma drop_levels:
  "levels_of s' (drop_if_empty s price b) =
     (if (s' = Bid) = (s = Bid) \<and>
         (\<exists>l. map_of (levels_of s b) price = Some l \<and> level_orders l = [])
      then om_erase price (levels_of s b) else levels_of s' b)"
  by (auto simp: drop_if_empty_def split: option.splits)

end
