(* ===== verification/Order_Book_Ops.thy ===== *)
theory Order_Book_Ops
  imports Order_Book_Inv
begin

text \<open>
  Each mutating operation of the order book, as one of the primitive changes or no change: from a
  well-formed book no operation reads through a dangling iterator, an operation that does not return
  \<open>Ok\<close> leaves levels, nodes and index as they were, and the result is well-formed again.
\<close>

section \<open>Adding\<close>

text \<open>A book after a failed allocation: only the pool may differ, and it holds the same slots.\<close>

definition same_but_pool :: "OrderBook \<Rightarrow> OrderBook \<Rightarrow> bool" where
  "same_but_pool b b' \<longleftrightarrow>
     (\<exists>p p'. pool b = Some p \<and> b' = b\<lparr>pool := Some p'\<rparr> \<and> node_inv p' \<and>
             pool_used p' = pool_used p \<and> node_slots p' = node_slots p)"

lemma wf_bookD: "wf_book b \<Longrightarrow> wf_core b"
  by (simp add: wf_book_def)

lemma wf_book_pool: "wf_book b \<Longrightarrow> pool b = Some p \<Longrightarrow> node_inv p \<and> pool_used p = dom (map_of (nodes b))"
  by (simp add: wf_book_def)

lemma same_but_pool_wf: "wf_book b \<Longrightarrow> same_but_pool b b' \<Longrightarrow> wf_book b'"
  by (auto simp: same_but_pool_def wf_book_def)

lemma same_but_pool_refl: "wf_book b \<Longrightarrow> pool b = Some p \<Longrightarrow> same_but_pool b b"
  by (cases b) (auto simp: same_but_pool_def wf_book_def)

text \<open>The level the source creates on demand.\<close>

definition with_level :: "Side \<Rightarrow> Price \<Rightarrow> OrderBook \<Rightarrow> OrderBook" where
  "with_level s price b =
     (if map_of (levels_of s b) price = None
      then set_levels s (om_put (side_lt s) price empty_level (levels_of s b)) b else b)"

lemma with_level_frame [simp]:
  "nodes (with_level s price b) = nodes b" "orders_by_id (with_level s price b) = orders_by_id b"
  "pool (with_level s price b) = pool b"
  by (simp_all add: with_level_def)

lemma levels_of_side: "(s' = Bid) = (s = Bid) \<Longrightarrow> levels_of s' b = levels_of s b"
  by (simp add: levels_of_def)

lemma with_level_levels:
  "map_of (levels_of s' (with_level s price b)) =
     (if (s' = Bid) = (s = Bid)
      then (map_of (levels_of s b))(price \<mapsto> level_or_empty s price b) else map_of (levels_of s' b))"
  using levels_of_side [of s' s b]
  by (auto simp: with_level_def level_or_empty_def fun_eq_iff split: option.splits)

lemma ordered_with_level: "ordered b \<Longrightarrow> ordered (with_level s price b)"
  by (auto simp: with_level_def intro!: ordered_rules)

lemma link_level_lookup:
  "map_of (levels_of s' (link_order s price oid a q b)) =
     (if (s' = Bid) = (s = Bid)
      then (map_of (levels_of s b))(price \<mapsto>
             \<lparr>level_orders = level_orders (level_or_empty s price b) @ [a],
              level_aggregate = level_aggregate (level_or_empty s price b) + ucast q\<rparr>)
      else map_of (levels_of s' b))"
  by (simp add: link_levels)

lemma add_commit_eq_link:
  assumes "ordered b"
  shows "adjust_aggregate s price (\<lambda>g. g + ucast q)
      ((push_node s price a \<lparr>entry_order_id = oid, entry_remaining = q\<rparr> (with_level s price b))
        \<lparr>orders_by_id := om_put (<) oid \<lparr>loc_side = s, loc_price = price, loc_iterator = a\<rparr>
           (orders_by_id b)\<rparr>) = link_order s price oid a q b"
proof (rule book_ext)
  show "map_of (levels_of s' (adjust_aggregate s price (\<lambda>g. g + ucast q)
      ((push_node s price a \<lparr>entry_order_id = oid, entry_remaining = q\<rparr> (with_level s price b))
        \<lparr>orders_by_id := om_put (<) oid \<lparr>loc_side = s, loc_price = price, loc_iterator = a\<rparr>
           (orders_by_id b)\<rparr>))) = map_of (levels_of s' (link_order s price oid a q b))" for s'
    by (auto simp: with_level_levels link_level_lookup fun_eq_iff)
qed (use assms in \<open>auto intro!: ordered_ops ordered_with_level ordered_primitives ordered_rules\<close>)

text \<open>The catch blocks undo exactly what was done.\<close>

lemma undo_level:
  assumes "ordered b"
  shows "(if map_of (levels_of s b) price = None
      then set_levels s (om_erase price (levels_of s (with_level s price b))) (with_level s price b)
      else with_level s price b) = b"
  using side_order.erase_put_undo [OF ordered_levels [OF assms], of s price empty_level]
  by (auto simp: with_level_def)

lemma undo_push:
  assumes "ordered b" "map_of (nodes b) a = None"
    and "\<And>l. map_of (levels_of s b) price = Some l \<Longrightarrow> a \<notin> set (level_orders l)"
  shows "erase_node s price a (push_node s price a e b) =
    b\<lparr>pool := map_option (node_deallocate a) (pool b)\<rparr>"
proof (rule book_ext)
  show "map_of (levels_of s' (erase_node s price a (push_node s price a e b))) =
      map_of (levels_of s' (b\<lparr>pool := map_option (node_deallocate a) (pool b)\<rparr>))"
    if "s' \<noteq> Side_Other" for s'
    using assms(3) levels_of_side [of s' s b]
    by (cases "map_of (levels_of s b) price") (auto simp: fun_eq_iff)
qed (use assms in \<open>auto intro!: ordered_ops ordered_rules simp: fun_eq_iff\<close>)

text \<open>What the allocation steps need, and what a success leaves behind.\<close>

definition level_granted :: "heap_env \<Rightarrow> Side \<Rightarrow> Price \<Rightarrow> OrderBook \<Rightarrow> bool" where
  "level_granted h s price b \<longleftrightarrow> om_contains (levels_of s b) price \<or> level_node_ok h"

lemma queue_fresh:
  assumes "wf_core b" "map_of (nodes b) a = None"
  shows "a \<notin> set (level_orders (level_or_empty s price b))"
proof (cases "map_of (levels_of s b) price")
  case (Some l)
  have "level_ok b (if s = Bid then Bid else Ask) price l"
    using Some assms(1) by (auto simp: levels_of_def wf_core_def split: if_splits)
  then show ?thesis using Some assms(2) by (auto simp: level_or_empty_def level_ok_def elim!: order_okE)
qed (simp add: level_or_empty_def empty_level_def)

lemma with_level_lookup_fresh:
  assumes "wf_core b" "map_of (nodes b) a = None" "map_of (levels_of s (with_level s price b)) price = Some l"
  shows "a \<notin> set (level_orders l)"
  using assms queue_fresh [OF assms(1,2), of s price] by (simp add: with_level_levels)

lemma free_slot_fresh:
  assumes "wf_book b" "pool b = Some p" "node_allocate ok p = (Ptr a, p')"
  shows "node_inv p'" "map_of (nodes b) a = None" "pool_used p' = insert a (dom (map_of (nodes b)))"
    "node_slots p' = node_slots p" "a \<in> pool_used p'"
  using node_allocate_Ptr [of p ok a p'] assms wf_book_pool [OF assms(1,2)] by auto

text \<open>A node pushed to a queue and taken out again leaves a pool with the same slots.\<close>

lemma alloc_undone:
  assumes "wf_book b" "pool b = Some p" "node_allocate ok p = (Ptr a, p')"
  shows "same_but_pool b (b\<lparr>pool := Some (node_deallocate a p')\<rparr>)"
  using node_deallocate_used [of p' a] free_slot_fresh [OF assms] wf_book_pool [OF assms(1,2)] assms(2)
  unfolding same_but_pool_def by (intro exI [of _ p] exI [of _ "node_deallocate a p'"]) (auto simp: dom_def)

lemma alloc_failed:
  assumes "wf_book b" "pool b = Some p" "node_allocate ok p = (r, p')" "\<And>a. r \<noteq> Ptr a"
  shows "same_but_pool b (b\<lparr>pool := Some p'\<rparr>)"
  using node_allocate_fail [of p ok r p'] wf_book_pool [OF assms(1,2)] assms(2-)
  by (auto simp: same_but_pool_def)

lemma with_level_pool_comm [simp]:
  "(with_level s price b)\<lparr>pool := p\<rparr> = with_level s price (b\<lparr>pool := p\<rparr>)"
  by (simp add: with_level_def)

lemma with_level_pool_levels [simp]:
  "levels_of s' (with_level s price (b\<lparr>pool := p\<rparr>)) = levels_of s' (with_level s price b)"
  by (simp add: with_level_def)

lemma undo_level_pushed:
  assumes "wf_core b" "map_of (nodes b) a = None"
  shows "erase_node s price a (push_node s price a e (with_level s price b)) =
    with_level s price (b\<lparr>pool := map_option (node_deallocate a) (pool b)\<rparr>)"
  using undo_push [of "with_level s price b" a s price e] with_level_lookup_fresh [OF assms]
    ordered_with_level [OF wf_ordered [OF assms(1)]] assms
  by simp

lemma add_to_with_level:
  "add_to h oid s price qty p b =
     (let created = (map_of (levels_of s b) price = None);
          undo_level = (\<lambda>b'. if created then set_levels s (om_erase price (levels_of s b')) b' else b')
      in if \<not> level_granted h s price b then (AllocationFailed, b)
         else case node_allocate (pool_vectors_ok h) p of
             (Ptr a, p') \<Rightarrow>
               (let b2 = push_node s price a \<lparr>entry_order_id = oid, entry_remaining = qty\<rparr>
                           (with_level s price (b\<lparr>pool := Some p'\<rparr>));
                    undo = (\<lambda>b'. undo_level (erase_node s price a b'))
                in if om_contains (orders_by_id b) oid then (DuplicateOrder, undo b2)
                   else if \<not> index_node_ok h then (AllocationFailed, undo b2)
                   else (Ok, adjust_aggregate s price (\<lambda>g. g + ucast qty)
                          (b2\<lparr>orders_by_id := om_put (<) oid
                             \<lparr>loc_side = s, loc_price = price, loc_iterator = a\<rparr> (orders_by_id b)\<rparr>)))
           | (_, p') \<Rightarrow> (AllocationFailed, undo_level (with_level s price (b\<lparr>pool := Some p'\<rparr>))))"
  by (auto simp: add_to_def level_granted_def with_level_def Let_def split: alloc_result.splits prod.splits)

lemma add_to_result:
  assumes wf: "wf_book b" and p: "pool b = Some p"
  shows "add_to h oid s price qty p b =
      (case node_allocate (pool_vectors_ok h) p of
         (Ptr a, p') \<Rightarrow>
           if \<not> level_granted h s price b then (AllocationFailed, b)
           else if om_contains (orders_by_id b) oid
           then (DuplicateOrder, b\<lparr>pool := Some (node_deallocate a p')\<rparr>)
           else if \<not> index_node_ok h
           then (AllocationFailed, b\<lparr>pool := Some (node_deallocate a p')\<rparr>)
           else (Ok, link_order s price oid a qty (b\<lparr>pool := Some p'\<rparr>))
       | (_, p') \<Rightarrow> (AllocationFailed, if level_granted h s price b then b\<lparr>pool := Some p'\<rparr> else b))"
proof -
  have ord: "ordered (b\<lparr>pool := x\<rparr>)" for x using wf by (simp add: wf_ordered wf_bookD)
  have core: "wf_core (b\<lparr>pool := x\<rparr>)" for x using wf by (simp add: wf_bookD)
  note undo = undo_level [OF ord, where s = s and price = price, simplified]
  show ?thesis
    using add_commit_eq_link [OF ord] undo free_slot_fresh(2) [OF wf p]
    by (auto simp: add_to_with_level Let_def undo_level_pushed [OF core]
        split: alloc_result.splits prod.splits)
qed

definition unchanged :: "OrderBook \<Rightarrow> OrderBook \<Rightarrow> bool" where
  "unchanged b b' \<longleftrightarrow> b' = b \<or> same_but_pool b b'"

lemma unchanged_wf: "wf_book b \<Longrightarrow> unchanged b b' \<Longrightarrow> wf_book b'"
  using same_but_pool_wf by (auto simp: unchanged_def)

lemma unchanged_fields:
  "unchanged b b' \<Longrightarrow> nodes b' = nodes b \<and> bids b' = bids b \<and> asks b' = asks b \<and>
     orders_by_id b' = orders_by_id b"
  by (auto simp: unchanged_def same_but_pool_def)

lemma unchanged_refl [simp]: "unchanged b b"
  by (simp add: unchanged_def)

text \<open>The link that uses a fresh slot of the pool.\<close>

definition linked :: "bool \<Rightarrow> Side \<Rightarrow> Price \<Rightarrow> OrderId \<Rightarrow> Quantity \<Rightarrow> OrderBook \<Rightarrow> OrderBook \<Rightarrow> bool" where
  "linked ok s price oid q b b' \<longleftrightarrow>
     (\<exists>p a p'. pool b = Some p \<and> node_allocate ok p = (Ptr a, p') \<and>
               b' = link_order s price oid a q (b\<lparr>pool := Some p'\<rparr>))"

lemma linked_wf:
  assumes "wf_book b" "linked ok s price oid q b b'" "s \<noteq> Side_Other" "price \<noteq> 0" "q \<noteq> 0"
    "map_of (orders_by_id b) oid = None"
  shows "wf_book b'"
proof -
  obtain p a p' where b': "pool b = Some p" "node_allocate ok p = (Ptr a, p')"
    "b' = link_order s price oid a q (b\<lparr>pool := Some p'\<rparr>)"
    using assms(2) by (auto simp: linked_def)
  note fresh = free_slot_fresh [OF assms(1) b'(1,2)]
  have "wf_core b'"
    using assms fresh by (simp add: b'(3) link_wf wf_bookD)
  then show ?thesis using fresh by (simp add: wf_book_def b'(3))
qed

lemma apply_add_cases:
  assumes wf: "wf_book b" and add: "apply_add h oid s price qty b = (r, b')"
  shows "(r = Ok \<and> s \<noteq> Side_Other \<and> price \<noteq> 0 \<and> qty \<noteq> 0 \<and> map_of (orders_by_id b) oid = None \<and>
           linked (pool_vectors_ok h) s price oid qty b b') \<or>
         (r \<noteq> Ok \<and> unchanged b b')"
proof (cases "r \<noteq> Ok \<and> b' = b")
  case False
  then obtain p where p: "pool b = Some p" and ok: "s \<noteq> Side_Other" "price \<noteq> 0" "qty \<noteq> 0"
    "map_of (orders_by_id b) oid = None" and add': "add_to h oid s price qty p b = (r, b')"
    using add by (cases s) (auto simp: apply_add_def split: if_splits option.splits)
  show ?thesis
    using add' ok p alloc_undone [OF wf p] alloc_failed [OF wf p]
    unfolding add_to_result [OF wf p]
    by (auto simp: linked_def unchanged_def split: alloc_result.splits prod.splits if_splits)
qed (auto simp: unchanged_def)

section \<open>Removing\<close>

text \<open>Unlinking an order gives its slot back to the pool.\<close>

definition release :: "Side \<Rightarrow> Price \<Rightarrow> OrderId \<Rightarrow> nat \<Rightarrow> OrderBook \<Rightarrow> OrderBook" where
  "release s price oid a b =
     (unlink_order s price oid a b)\<lparr>pool := map_option (node_deallocate a) (pool b)\<rparr>"

lemma release_wf:
  assumes wf: "wf_book b" and loc: "located b s price oid a q l"
  shows "wf_book (release s price oid a b)"
proof -
  have core: "wf_core (release s price oid a b)"
    using unlink_wf [OF wf_bookD [OF wf] loc] by (simp add: release_def)
  have "a \<in> dom (map_of (nodes b))" using loc by (auto simp: located_def)
  then obtain p where p: "pool b = Some p" using wf by (auto simp: wf_book_def split: option.splits)
  have "node_inv (node_deallocate a p) \<and> pool_used (node_deallocate a p) = dom (map_of (nodes b)) - {a}"
    using node_deallocate_used [of p a] wf_book_pool [OF wf p] \<open>a \<in> _\<close> by simp
  then show ?thesis using core p by (auto simp: wf_book_def release_def)
qed

lemma unlink_lookup:
  assumes "located b s price oid a q l"
  shows "map_of (levels_of s' (unlink_order s price oid a b)) =
    (if (s' = Bid) = (s = Bid)
     then (map_of (levels_of s b))(price :=
            if removeAll a (level_orders l) = [] then None
            else Some \<lparr>level_orders = removeAll a (level_orders l), level_aggregate = level_aggregate l - ucast q\<rparr>)
     else map_of (levels_of s' b))"
  by (simp add: unlink_levels [OF assms])

text \<open>Taking the order out of its queue, dropping the level if that emptied it, and erasing the index entry.\<close>

lemma remove_steps_eq_release:
  assumes ord: "ordered b" and loc: "located b s price oid a q l"
    and b1: "ordered b1" "nodes b1 = om_update a f (nodes b)" "pool b1 = pool b" "orders_by_id b1 = orders_by_id b"
    "\<And>s'. levels_of s' b1 = levels_of s' (adjust_aggregate s price (\<lambda>g. g - ucast q) b)"
  shows "(drop_if_empty s price (erase_node s price a b1))\<lparr>orders_by_id := om_erase oid (orders_by_id b)\<rparr> =
    release s price oid a b"
proof (rule book_ext)
  let ?x = "(drop_if_empty s price (erase_node s price a b1))\<lparr>orders_by_id := om_erase oid (orders_by_id b)\<rparr>"
  have l: "map_of (levels_of s b) price = Some l" using loc by (simp add: located_def)
  show "map_of (levels_of s' ?x) = map_of (levels_of s' (release s price oid a b))" for s'
    using l levels_of_side [of s' s b]
    by (auto simp: release_def unlink_lookup [OF loc] drop_levels b1(5) fun_eq_iff)
  show "ordered ?x" using ord b1(1) by (auto intro!: ordered_ops ordered_rules)
  show "ordered (release s price oid a b)"
    using ord by (auto simp: release_def intro!: ordered_primitives ordered_rules)
qed (auto simp: release_def b1 fun_eq_iff)

lemma cancel_at_eq_release:
  assumes "wf_core b" "located b s price oid a q l"
  shows "cancel_at s oid \<lparr>loc_side = s, loc_price = price, loc_iterator = a\<rparr> b =
    Some (Ok, release s price oid a b)"
  using remove_steps_eq_release [OF wf_ordered [OF assms(1)] assms(2),
      where ?b1.0 = "adjust_aggregate s price (\<lambda>g. g - ucast q) b" and f = id]
  assms ordered_ops(1) [OF wf_ordered [OF assms(1)]]
  by (auto simp: cancel_at_def located_def Let_def)

section \<open>Executing\<close>

text \<open>A quantity widened to the aggregate's type, subtracted without borrow.\<close>

lemma ucast_sub:
  assumes "y \<le> x"
  shows "(ucast (x - y) :: u64) = ucast (x :: u32) - ucast y"
proof (rule word_unat_eq_iff [THEN iffD2])
  have wide: "unat (ucast z :: u64) = unat z" for z :: u32
    using less_trans [OF unsigned_less [of z, where 'a = nat], of "2 ^ 64"]
    by (simp add: unsigned_ucast_eq take_bit_nat_eq_self)
  show "unat (ucast (x - y) :: u64) = unat (ucast x - ucast y :: u64)"
    using assms by (simp add: wide unat_sub word_le_nat_alt)
qed

lemma requantify_lookup:
  assumes "located b s price oid a q l"
  shows "map_of (levels_of s' (requantify s price a q' b)) =
    (if (s' = Bid) = (s = Bid)
     then (map_of (levels_of s b))(price \<mapsto> l\<lparr>level_aggregate := level_aggregate l - ucast q + ucast q'\<rparr>)
     else map_of (levels_of s' b))"
  by (simp add: requantify_levels [OF assms])

lemma quantity_steps_eq_requantify:
  assumes ord: "ordered b" and loc: "located b s price oid a q l"
    and x: "ordered x" "pool x = pool b" "orders_by_id x = orders_by_id b"
      "nodes x = om_update a (\<lambda>e. e\<lparr>entry_remaining := q'\<rparr>) (nodes b)"
      "\<And>s'. levels_of s' x = levels_of s' (adjust_aggregate s price f b)"
    and f: "f (level_aggregate l) = level_aggregate l - ucast q + ucast q'"
  shows "x = requantify s price a q' b"
proof (rule book_ext)
  have l: "map_of (levels_of s b) price = Some l" using loc by (simp add: located_def)
  show "map_of (levels_of s' x) = map_of (levels_of s' (requantify s price a q' b))" for s'
    using l f levels_of_side [of s' s b] by (auto simp: requantify_lookup [OF loc] x(5) fun_eq_iff)
qed (use ord x in \<open>auto intro!: ordered_primitives\<close>)

lemma requantify_book_wf:
  "wf_book b \<Longrightarrow> located b s price oid a q l \<Longrightarrow> q' \<noteq> 0 \<Longrightarrow> wf_book (requantify s price a q' b)"
  using requantify_wf [of b s price oid a q l q']
  by (auto simp: wf_book_def located_def dom_def split: option.splits)

lemma execute_at_eq:
  assumes wf: "wf_core b" and loc: "located b s price oid a q l" and le: "qty \<le> q"
  shows "execute_at s oid qty \<lparr>loc_side = s, loc_price = price, loc_iterator = a\<rparr>
      \<lparr>entry_order_id = oid, entry_remaining = q\<rparr> b =
    (Ok, if qty = q then release s price oid a b else requantify s price a (q - qty) b)"
proof -
  note ord = wf_ordered [OF wf]
  let ?b1 = "adjust_aggregate s price (\<lambda>g. g - ucast qty) b"
  have w: "ordered (write_remaining a x ?b1)" for x using ord by (intro ordered_ops)
  have "write_remaining a (q - qty) ?b1 = requantify s price a (q - qty) b"
    by (rule quantity_steps_eq_requantify [OF ord loc w])
      (simp_all add: ucast_sub [OF le])
  moreover have "(drop_if_empty s price (erase_node s price a (write_remaining a 0 ?b1)))
      \<lparr>orders_by_id := om_erase oid (orders_by_id b)\<rparr> = release s price oid a b" if "qty = q"
    using that by (intro remove_steps_eq_release [OF ord loc w]) simp_all
  moreover have "map_of (levels_of s b) price = Some l" using loc by (simp add: located_def)
  ultimately show ?thesis by (auto simp: execute_at_def Let_def)
qed

section \<open>Results of cancel and execute\<close>

lemma location_eta [simp]:
  "\<lparr>loc_side = loc_side loc, loc_price = loc_price loc, loc_iterator = loc_iterator loc\<rparr> = loc"
  by (cases loc) simp

lemma apply_cancel_cases:
  assumes wf: "wf_book b"
  shows "(map_of (orders_by_id b) oid = None \<and> apply_cancel oid b = Some (UnknownOrder, b)) \<or>
    (\<exists>s price a q l. located b s price oid a q l \<and>
       apply_cancel oid b = Some (Ok, release s price oid a b))"
proof (cases "map_of (orders_by_id b) oid")
  case (Some loc)
  then obtain q l where loc: "located b (loc_side loc) (loc_price loc) oid (loc_iterator loc) q l"
    by (elim index_located [OF wf_bookD [OF wf]])
  moreover have "loc_side loc = Bid \<or> loc_side loc = Ask"
    using loc by (cases "loc_side loc") (auto simp: located_def)
  moreover have "cancel_at (loc_side loc) oid loc b =
      Some (Ok, release (loc_side loc) (loc_price loc) oid (loc_iterator loc) b)"
    using cancel_at_eq_release [OF wf_bookD [OF wf] loc] by simp
  ultimately show ?thesis using Some by (auto simp: apply_cancel_def intro!: exI)
qed (simp add: apply_cancel_def)

lemma apply_execute_cases:
  assumes wf: "wf_book b"
  shows "(map_of (orders_by_id b) oid = None \<and> apply_execute oid qty b = Some (UnknownOrder, b)) \<or>
    (\<exists>s price a q l. located b s price oid a q l \<and>
       apply_execute oid qty b = Some
         (if qty = 0 then (InvalidQuantity, b)
          else if q < qty then (QuantityExceedsRemaining, b)
          else (Ok, if qty = q then release s price oid a b
                    else requantify s price a (q - qty) b)))"
proof (cases "map_of (orders_by_id b) oid")
  case (Some loc)
  then obtain q l where loc: "located b (loc_side loc) (loc_price loc) oid (loc_iterator loc) q l"
    by (elim index_located [OF wf_bookD [OF wf]])
  have "loc_side loc = Bid \<or> loc_side loc = Ask"
    using loc by (cases "loc_side loc") (auto simp: located_def)
  moreover have node: "map_of (nodes b) (loc_iterator loc) = Some \<lparr>entry_order_id = oid, entry_remaining = q\<rparr>"
    using loc by (simp add: located_def)
  moreover have "qty \<le> q \<Longrightarrow> execute_at (loc_side loc) oid qty loc
      \<lparr>entry_order_id = oid, entry_remaining = q\<rparr> b =
      (Ok, if qty = q then release (loc_side loc) (loc_price loc) oid (loc_iterator loc) b
           else requantify (loc_side loc) (loc_price loc) (loc_iterator loc) (q - qty) b)"
    using execute_at_eq [OF wf_bookD [OF wf] loc, of qty] by simp
  ultimately have "apply_execute oid qty b = Some
         (if qty = 0 then (InvalidQuantity, b)
          else if q < qty then (QuantityExceedsRemaining, b)
          else (Ok, if qty = q then release (loc_side loc) (loc_price loc) oid (loc_iterator loc) b
                    else requantify (loc_side loc) (loc_price loc) (loc_iterator loc) (q - qty) b))"
    using Some by (auto simp: apply_execute_def not_less)
  then show ?thesis using loc by blast
qed (simp add: apply_execute_def)

section \<open>Replacing\<close>

lemma replace_adjust_eq:
  assumes wf: "wf_core b" and loc: "located b s price oid a q l"
  shows "replace_adjust s \<lparr>loc_side = s, loc_price = price, loc_iterator = a\<rparr> qty b =
    Some (Ok, requantify s price a qty b)"
proof -
  note ord = wf_ordered [OF wf]
  let ?x = "adjust_aggregate s price (\<lambda>g. g + ucast qty) (write_remaining a qty
      (adjust_aggregate s price (\<lambda>g. g - ucast q) b))"
  have "?x = requantify s price a qty b"
    using ord by (intro quantity_steps_eq_requantify [OF ord loc, where f = "\<lambda>g. g - ucast q + ucast qty"])
      (auto simp: om_update_update intro: ordered_ops)
  then show ?thesis using loc by (simp add: replace_adjust_def located_def Let_def)
qed

text \<open>The new order at the back of its queue and the old one gone: unlink, then link.\<close>

definition relink :: "Side \<Rightarrow> Price \<Rightarrow> OrderId \<Rightarrow> nat \<Rightarrow> Price \<Rightarrow> OrderId \<Rightarrow> nat \<Rightarrow> Quantity \<Rightarrow> OrderBook \<Rightarrow> OrderBook" where
  "relink s old_price old_id old_a price oid a q b =
     link_order s price oid a q (unlink_order s old_price old_id old_a b)"

lemma last_in_level:
  assumes "wf_core b" "located b s price oid a q l" "removeAll a (level_orders l) = []"
  shows "level_aggregate l = ucast q"
proof -
  have "level_ok b s price l" using assms(1,2) by (rule located_ok)
  then show ?thesis
    using level_sum_remove [of "level_orders l" a b] assms located_entry [OF assms(2)]
    by (simp add: level_ok_def located_def level_sum_def)
qed

lemma relink_lookup:
  assumes wf: "wf_core b" and loc: "located b s old_price old_id old_a q l"
  shows "map_of (levels_of s' (relink s old_price old_id old_a price oid a qty b)) =
    (if (s' = Bid) = (s = Bid)
     then if price = old_price
          then (map_of (levels_of s b))(price \<mapsto>
                 \<lparr>level_orders = removeAll old_a (level_orders l) @ [a],
                  level_aggregate = level_aggregate l - ucast q + ucast qty\<rparr>)
          else (map_of (levels_of s b))
            (old_price := if removeAll old_a (level_orders l) = [] then None
               else Some \<lparr>level_orders = removeAll old_a (level_orders l),
                          level_aggregate = level_aggregate l - ucast q\<rparr>,
             price \<mapsto> \<lparr>level_orders = level_orders (level_or_empty s price b) @ [a],
                      level_aggregate = level_aggregate (level_or_empty s price b) + ucast qty\<rparr>)
     else map_of (levels_of s' b))"
  using last_in_level [OF wf loc] loc
  by (auto simp: relink_def link_level_lookup unlink_lookup [OF loc] level_or_empty_def empty_level_def
      located_def fun_eq_iff)

lemma move_commit_eq:
  assumes wf: "wf_core b" and loc: "located b s old_price old_id old_a q l"
    and new: "map_of (nodes b) a = None" "new_id \<noteq> old_id \<Longrightarrow> map_of (orders_by_id b) new_id = None"
    and location: "location = \<lparr>loc_side = s, loc_price = price, loc_iterator = a\<rparr>"
  shows "move_commit s old_id \<lparr>loc_side = s, loc_price = old_price, loc_iterator = old_a\<rparr>
      new_id location qty
      ((push_node s price a \<lparr>entry_order_id = new_id, entry_remaining = qty\<rparr> (with_level s price b))
        \<lparr>orders_by_id := (if new_id \<noteq> old_id then om_put (<) new_id location (orders_by_id b)
                           else orders_by_id b)\<rparr>) =
    Some (Ok, (relink s old_price old_id old_a price new_id a qty b)
                \<lparr>pool := map_option (node_deallocate old_a) (pool b)\<rparr>)"
proof -
  let ?pushed = "(push_node s price a \<lparr>entry_order_id = new_id, entry_remaining = qty\<rparr> (with_level s price b))
        \<lparr>orders_by_id := (if new_id \<noteq> old_id then om_put (<) new_id location (orders_by_id b)
                           else orders_by_id b)\<rparr>"
  let ?swap = "\<lambda>ix. if new_id = old_id then om_put (<) old_id location ix else om_erase old_id ix"
  let ?b3 = "adjust_aggregate s price (\<lambda>g. g + ucast qty) (erase_node s old_price old_a
      (adjust_aggregate s old_price (\<lambda>g. g - ucast q) ?pushed))"
  let ?x = "drop_if_empty s old_price (?b3\<lparr>orders_by_id := ?swap (orders_by_id ?b3)\<rparr>)"
  let ?r = "(relink s old_price old_id old_a price new_id a qty b)
                \<lparr>pool := map_option (node_deallocate old_a) (pool b)\<rparr>"
  note ord = wf_ordered [OF wf]
  have l: "map_of (levels_of s b) old_price = Some l" and old_a: "old_a \<noteq> a"
    and node: "map_of (nodes b) old_a = Some \<lparr>entry_order_id = old_id, entry_remaining = q\<rparr>"
    using loc new by (auto simp: located_def)
  have ordx: "ordered ?x" "ordered ?r"
    using ord by (auto simp: relink_def intro!: ordered_ops ordered_with_level ordered_primitives ordered_rules)
  have lv: "map_of (levels_of s' ?x) = map_of (levels_of s' ?r)" for s'
    using l old_a levels_of_side [of s' s b]
    by (auto simp: relink_lookup [OF wf loc] drop_levels with_level_levels level_or_empty_def fun_eq_iff)
  have "?x = ?r"
    by (rule book_ext [OF ordx _ _ _ lv])
      (use old_a in \<open>auto simp: relink_def location fun_eq_iff\<close>)
  moreover have "map_of (levels_of s ?pushed) old_price \<noteq> None"
    using l by (simp add: with_level_levels)
  ultimately show ?thesis
    using node old_a location unfolding move_commit_def by (auto simp: Let_def)
qed

definition moved :: "bool \<Rightarrow> Side \<Rightarrow> Price \<Rightarrow> OrderId \<Rightarrow> nat \<Rightarrow> Price \<Rightarrow> OrderId \<Rightarrow> Quantity \<Rightarrow>
    OrderBook \<Rightarrow> OrderBook \<Rightarrow> bool" where
  "moved ok s old_price old_id old_a price new_id qty b b' \<longleftrightarrow>
     (\<exists>p a p'. pool b = Some p \<and> node_allocate ok p = (Ptr a, p') \<and>
        b' = (relink s old_price old_id old_a price new_id a qty b)
               \<lparr>pool := Some (node_deallocate old_a p')\<rparr>)"

lemma relink_pool_comm [simp]:
  "(relink s old_price old_id old_a price new_id a qty (b\<lparr>pool := x\<rparr>))\<lparr>pool := y\<rparr> =
   (relink s old_price old_id old_a price new_id a qty b)\<lparr>pool := y\<rparr>"
  by (simp add: relink_def link_order_def unlink_order_def put_level_def level_or_empty_def entry_at_def
      Let_def cong: option.case_cong)

lemma index_self: "orders_by_id b = ix \<Longrightarrow> b\<lparr>orders_by_id := ix\<rparr> = b"
  by (cases b) simp

lemma move_to_with_level:
  "move_to h s old_id old new_id price qty p b =
     (let created = (map_of (levels_of s b) price = None);
          undo_level = (\<lambda>b'. if created then set_levels s (om_erase price (levels_of s b')) b' else b')
      in if \<not> level_granted h s price b then Some (AllocationFailed, b)
         else case node_allocate (pool_vectors_ok h) p of
             (Ptr a, p') \<Rightarrow>
               (let b2 = push_node s price a \<lparr>entry_order_id = new_id, entry_remaining = qty\<rparr>
                           (with_level s price (b\<lparr>pool := Some p'\<rparr>));
                    location = \<lparr>loc_side = s, loc_price = price, loc_iterator = a\<rparr>
                in if new_id \<noteq> old_id \<and> \<not> index_node_ok h
                   then Some (AllocationFailed, undo_level (erase_node s price a b2))
                   else move_commit s old_id old new_id location qty
                     (b2\<lparr>orders_by_id := (if new_id \<noteq> old_id then om_put (<) new_id location (orders_by_id b)
                                            else orders_by_id b)\<rparr>))
           | (_, p') \<Rightarrow> Some (AllocationFailed, undo_level (with_level s price (b\<lparr>pool := Some p'\<rparr>))))"
  by (auto simp: move_to_def level_granted_def with_level_def index_self Let_def
      split: alloc_result.splits prod.splits)

lemma move_to_cases:
  assumes wf: "wf_book b" and p: "pool b = Some p" and loc: "located b s old_price old_id old_a q l"
    and new: "new_id \<noteq> old_id \<Longrightarrow> map_of (orders_by_id b) new_id = None"
  shows "\<exists>r b'. move_to h s old_id \<lparr>loc_side = s, loc_price = old_price, loc_iterator = old_a\<rparr>
      new_id price qty p b = Some (r, b') \<and>
    (r = Ok \<and> moved (pool_vectors_ok h) s old_price old_id old_a price new_id qty b b' \<or>
     r = AllocationFailed \<and> unchanged b b')"
proof (cases "level_granted h s price b")
  case False
  then show ?thesis by (auto simp: move_to_def level_granted_def unchanged_def)
next
  case True
  have ord: "ordered (b\<lparr>pool := x\<rparr>)" and core: "wf_core (b\<lparr>pool := x\<rparr>)" for x
    using wf by (simp_all add: wf_ordered wf_bookD)
  have loc': "located (b\<lparr>pool := x\<rparr>) s old_price old_id old_a q l" for x
    using loc by (simp add: located_def)
  let ?old = "\<lparr>loc_side = s, loc_price = old_price, loc_iterator = old_a\<rparr>"
  have mv: "move_to h s old_id ?old new_id price qty p b =
     (case node_allocate (pool_vectors_ok h) p of
        (Ptr a, p') \<Rightarrow>
          if new_id \<noteq> old_id \<and> \<not> index_node_ok h
          then Some (AllocationFailed, b\<lparr>pool := Some (node_deallocate a p')\<rparr>)
          else move_commit s old_id ?old new_id \<lparr>loc_side = s, loc_price = price, loc_iterator = a\<rparr> qty
            ((push_node s price a \<lparr>entry_order_id = new_id, entry_remaining = qty\<rparr>
                (with_level s price (b\<lparr>pool := Some p'\<rparr>)))
             \<lparr>orders_by_id := (if new_id \<noteq> old_id
                  then om_put (<) new_id \<lparr>loc_side = s, loc_price = price, loc_iterator = a\<rparr> (orders_by_id b)
                  else orders_by_id b)\<rparr>)
      | (_, p') \<Rightarrow> Some (AllocationFailed, b\<lparr>pool := Some p'\<rparr>))"
    using True undo_level [OF ord, where s = s and price = price, simplified] free_slot_fresh(2) [OF wf p]
    by (auto simp: move_to_with_level Let_def undo_level_pushed [OF core]
        split: alloc_result.splits prod.splits)
  obtain res p' where alloc: "node_allocate (pool_vectors_ok h) p = (res, p')" by force
  show ?thesis
  proof (cases res)
    case (Ptr a)
    then have fresh: "map_of (nodes b) a = None" using free_slot_fresh(2) [OF wf p] alloc by blast
    show ?thesis
      using alloc_undone [OF wf p alloc [unfolded Ptr]] alloc p new fresh
        move_commit_eq [OF core loc', where a = a and new_id = new_id]
      by (auto simp: mv Ptr unchanged_def moved_def)
  qed (use alloc alloc_failed [OF wf p alloc] in \<open>auto simp: mv unchanged_def\<close>)
qed

lemma moved_wf:
  assumes wf: "wf_book b" and loc: "located b s old_price old_id old_a q l"
    and m: "moved ok s old_price old_id old_a price new_id qty b b'"
    and new: "new_id \<noteq> old_id \<Longrightarrow> map_of (orders_by_id b) new_id = None" and pq: "price \<noteq> 0" "qty \<noteq> 0"
  shows "wf_book b'"
proof -
  obtain p a p' where b': "pool b = Some p" "node_allocate ok p = (Ptr a, p')"
    "b' = (relink s old_price old_id old_a price new_id a qty b)\<lparr>pool := Some (node_deallocate old_a p')\<rparr>"
    using m by (auto simp: moved_def)
  note fresh = free_slot_fresh [OF wf b'(1,2)]
  have old: "map_of (nodes b) old_a \<noteq> None" "s \<noteq> Side_Other" "old_a \<noteq> a"
    using loc fresh by (auto simp: located_def)
  have "wf_core b'"
    using link_wf [OF unlink_wf [OF wf_bookD [OF wf] loc], of s a new_id price qty] fresh old new pq
    by (auto simp: b'(3) relink_def)
  moreover have "node_inv (node_deallocate old_a p') \<and>
      pool_used (node_deallocate old_a p') = insert a (dom (map_of (nodes b))) - {old_a}"
    using node_deallocate_used [of p' old_a] fresh old by auto
  ultimately show ?thesis using old by (auto simp: wf_book_def b'(3) relink_def)
qed

lemma book_replace_cases:
  assumes wf: "wf_book b"
  shows "\<exists>r b'. book_replace h old_id new_id s price qty keep b = Some (r, b') \<and>
    (r \<noteq> Ok \<and> unchanged b b' \<or>
     (\<exists>old_price a q l. r = Ok \<and> located b s old_price old_id a q l \<and> price \<noteq> 0 \<and> qty \<noteq> 0 \<and>
        (new_id \<noteq> old_id \<longrightarrow> map_of (orders_by_id b) new_id = None) \<and>
        (if keep then new_id = old_id \<and> price = old_price \<and> b' = requantify s price a qty b
         else moved (pool_vectors_ok h) s old_price old_id a price new_id qty b b')))"
proof (cases "map_of (orders_by_id b) old_id")
  case (Some old)
  then obtain q l where loc: "located b (loc_side old) (loc_price old) old_id (loc_iterator old) q l"
    by (elim index_located [OF wf_bookD [OF wf]])
  then obtain p where p: "pool b = Some p"
    using wf by (auto simp: wf_book_def located_def split: option.splits)
  note adj = replace_adjust_eq [OF wf_bookD [OF wf] loc, of qty, simplified]
  show ?thesis
  proof (cases "qty = 0 \<or> price = 0 \<or> s \<noteq> loc_side old \<or> new_id \<noteq> old_id \<and> om_contains (orders_by_id b) new_id")
    case True
    then show ?thesis using Some by (auto simp: book_replace_def)
  next
    case ok: False
    show ?thesis
    proof (cases keep)
      case True
      then show ?thesis using Some ok adj loc by (auto simp: book_replace_def)
    next
      case False
      have "book_replace h old_id new_id s price qty keep b =
          move_to h s old_id old new_id price qty p b"
        using False ok p Some by (auto simp: book_replace_def)
      then show ?thesis
        using move_to_cases [OF wf p loc, of new_id h price qty] ok loc False by auto blast+
    qed
  qed
qed (simp add: book_replace_def)

section \<open>Reset and moves\<close>

text \<open>The level queues hold every live node exactly once.\<close>

lemma level_nodes_set:
  assumes "om_sorted lt ls" "key_order lt"
  shows "set (level_nodes ls) = {a. \<exists>price l. map_of ls price = Some l \<and> a \<in> set (level_orders l)}"
proof -
  have "distinct (map fst ls)" using assms key_order.sorted_distinct by blast
  then show ?thesis unfolding level_nodes_def by (fastforce dest: map_of_SomeD)
qed

lemma level_nodes_distinct:
  assumes "distinct (map fst ls)" "\<And>price l. map_of ls price = Some l \<Longrightarrow> distinct (level_orders l)"
    and "\<And>price l price' l' a. map_of ls price = Some l \<Longrightarrow> map_of ls price' = Some l' \<Longrightarrow>
      a \<in> set (level_orders l) \<Longrightarrow> a \<in> set (level_orders l') \<Longrightarrow> price = price'"
  shows "distinct (level_nodes ls)"
  using assms
proof (induction ls)
  case (Cons x ls)
  obtain price l where x: "x = (price, l)" by force
  have tail: "map_of (x # ls) price' = Some l'" "price' \<noteq> price" if "map_of ls price' = Some l'" for price' l'
    using that Cons.prems(1) map_of_SomeD [OF that] by (force simp: x)+
  have "distinct (level_nodes ls)"
  proof (rule Cons.IH)
    show "distinct (map fst ls)" using Cons.prems(1) by simp
  qed (use Cons.prems(2,3) tail in blast)+
  moreover have "distinct (level_orders l)" using Cons.prems(2) [of price l] by (simp add: x)
  moreover have "a \<notin> set (level_orders l')" if "(price', l') \<in> set ls" "a \<in> set (level_orders l)" for price' l' a
    using that Cons.prems(1) Cons.prems(3) [of price' l' price l a] tail [of price' l']
    by (auto simp: x)
  ultimately show ?case unfolding level_nodes_def by (fastforce simp: x)
qed (simp add: level_nodes_def)

lemma queue_unique:
  assumes "wf_core b" "s \<noteq> Side_Other" "s' \<noteq> Side_Other"
    "map_of (levels_of s b) price = Some l" "map_of (levels_of s' b) price' = Some l'"
    "a \<in> set (level_orders l)" "a \<in> set (level_orders l')"
  shows "s = s' \<and> price = price'"
proof -
  have "level_ok b s price l" "level_ok b s' price' l'"
    using assms wf_levelD by blast+
  then have "order_ok b s price a" "order_ok b s' price' a"
    using assms(6,7) by (auto simp: level_ok_def)
  then show ?thesis by (rule order_ok_unique)
qed

lemma side_nodes_distinct:
  assumes "wf_core b" "s \<noteq> Side_Other"
  shows "distinct (level_nodes (levels_of s b))"
  using side_order.sorted_distinct [OF levels_sorted [OF assms(1), of s]] wf_levelD [OF assms]
    queue_unique [OF assms(1,2,2)]
  by (intro level_nodes_distinct) (auto simp: level_ok_def)

lemma side_nodes_set:
  assumes "wf_core b"
  shows "set (level_nodes (levels_of s b)) =
    {a. \<exists>price l. map_of (levels_of s b) price = Some l \<and> a \<in> set (level_orders l)}"
  using level_nodes_set [OF levels_sorted [OF assms]] side_order.key_order_axioms by blast

lemma live_nodes:
  assumes wf: "wf_core b"
  shows "distinct (level_nodes (bids b) @ level_nodes (asks b))"
    and "set (level_nodes (bids b) @ level_nodes (asks b)) = dom (map_of (nodes b))"
proof -
  have sides: "levels_of Bid b = bids b" "levels_of Ask b = asks b" by (simp_all add: levels_of_def)
  note st = side_nodes_set [OF wf, of Bid, unfolded sides] side_nodes_set [OF wf, of Ask, unfolded sides]
  have "set (level_nodes (bids b)) \<inter> set (level_nodes (asks b)) = {}"
    using queue_unique [OF wf, of Bid Ask] by (auto simp: st sides)
  then show "distinct (level_nodes (bids b) @ level_nodes (asks b))"
    using side_nodes_distinct [OF wf, of Bid] side_nodes_distinct [OF wf, of Ask] by (simp add: sides)
  have "a \<in> dom (map_of (nodes b))" if "map_of (levels_of s b) price = Some l" "a \<in> set (level_orders l)"
    "s \<noteq> Side_Other" for a s price l
    using wf_levelD [OF wf that(3,1)] that(2) by (auto simp: level_ok_def elim!: order_okE)
  from this [of Bid] this [of Ask]
  have "set (level_nodes (bids b)) \<union> set (level_nodes (asks b)) \<subseteq> dom (map_of (nodes b))"
    unfolding st sides by blast
  moreover have "a \<in> set (level_nodes (bids b)) \<union> set (level_nodes (asks b))"
    if node: "map_of (nodes b) a = Some e" for a e
  proof -
    obtain loc where "map_of (orders_by_id b) (entry_order_id e) = Some loc" "loc_iterator loc = a"
      using wf_nodeD [OF wf node] by (auto simp: node_ok_def)
    then obtain s price oid q l where "located b s price oid a q l"
      using index_located [OF wf] by metis
    then show ?thesis by (cases s) (auto simp: located_def st sides)
  qed
  ultimately show "set (level_nodes (bids b) @ level_nodes (asks b)) = dom (map_of (nodes b))"
    by auto
qed

lemma fold_erase_all: "dom (map_of m) \<subseteq> set ks \<Longrightarrow> fold om_erase ks m = []"
proof -
  assume sub: "dom (map_of m) \<subseteq> set ks"
  have "map_of (fold om_erase ks m) = (\<lambda>k. if k \<in> set ks then None else map_of m k)"
    by (induction ks arbitrary: m) (auto simp: fun_eq_iff)
  then have "map_of (fold om_erase ks m) = Map.empty" using sub by (auto simp: fun_eq_iff)
  then show ?thesis by simp
qed

lemma reset_wf:
  assumes wf: "wf_book b"
  shows "wf_book (reset b)" "nodes (reset b) = []" "bids (reset b) = []" "asks (reset b) = []"
    "orders_by_id (reset b) = []"
    "case pool b of None \<Rightarrow> pool (reset b) = None
     | Some p \<Rightarrow> \<exists>p'. pool (reset b) = Some p' \<and> node_slots p' = node_slots p \<and> pool_used p' = {}"
proof -
  let ?as = "level_nodes (bids b) @ level_nodes (asks b)"
  note live = live_nodes [OF wf_bookD [OF wf]]
  have "fold om_erase ?as (nodes b) = []" by (rule fold_erase_all) (simp only: live(2) order_refl)
  then have r: "reset b = \<lparr>pool = map_option (fold node_deallocate ?as) (pool b), nodes = [], bids = [],
      asks = [], orders_by_id = []\<rparr>"
    by (cases "pool b") (simp_all add: reset_def free_nodes_def Let_def)
  show "nodes (reset b) = []" "bids (reset b) = []" "asks (reset b) = []" "orders_by_id (reset b) = []"
    by (simp_all add: r)
  have pool: "node_inv (fold node_deallocate ?as p) \<and> pool_used (fold node_deallocate ?as p) = {} \<and>
      node_slots (fold node_deallocate ?as p) = node_slots p" if "pool b = Some p" for p
    using node_pool.dealloc_all [of p ?as] wf_book_pool [OF wf that] live by auto
  have empty: "wf_core \<lparr>pool = x, nodes = [], bids = [], asks = [], orders_by_id = []\<rparr>" for x
    by (simp add: wf_core_def om_sorted_def levels_of_def)
  show "wf_book (reset b)"
    using pool empty by (cases "pool b") (auto simp: wf_book_def r)
  show "case pool b of None \<Rightarrow> pool (reset b) = None
     | Some p \<Rightarrow> \<exists>p'. pool (reset b) = Some p' \<and> node_slots p' = node_slots p \<and> pool_used p' = {}"
    using pool by (cases "pool b") (auto simp: r)
qed

lemma moved_from_wf: "wf_book moved_from"
  by (simp add: moved_from_def wf_book_def wf_core_def om_sorted_def levels_of_def)

text \<open>Whatever the target held, it ends as the source was, and the source as an empty book without a pool.\<close>

lemma move_assign_eq:
  "move_assign this other = (case other of None \<Rightarrow> (this, None) | Some o' \<Rightarrow> (o', Some moved_from))"
  by (auto simp: move_assign_def Let_def split: option.splits)

lemma move_assign_wf:
  assumes "wf_book this" "\<And>o'. other = Some o' \<Longrightarrow> wf_book o'" "move_assign this other = (b, rest)"
  shows "wf_book b" "\<And>r. rest = Some r \<Longrightarrow> wf_book r"
  using assms moved_from_wf by (auto simp: move_assign_eq split: option.splits)

section \<open>Every operation\<close>

lemma apply_event_wf:
  assumes wf: "wf_book b"
  shows "\<exists>r b'. apply_event h ev b = Some (r, b') \<and> wf_book b' \<and> (r \<noteq> Ok \<longrightarrow> unchanged b b')"
proof (cases ev)
  case (AddOrder oid s price qty)
  obtain r b' where add: "apply_add h oid s price qty b = (r, b')" by force
  show ?thesis
    using apply_add_cases [OF wf add] linked_wf [OF wf] unchanged_wf [OF wf]
    by (auto simp: apply_event_def AddOrder add)
next
  case (CancelOrder oid)
  then show ?thesis
    using apply_cancel_cases [OF wf, of oid] release_wf [OF wf] wf by (auto simp: apply_event_def)
next
  case (ExecuteOrder oid qty)
  then show ?thesis
    using apply_execute_cases [OF wf, of oid qty] release_wf [OF wf] requantify_book_wf [OF wf] wf
    by (auto simp: apply_event_def)
qed

lemma book_replace_wf:
  assumes wf: "wf_book b"
  shows "\<exists>r b'. book_replace h old_id new_id s price qty keep b = Some (r, b') \<and> wf_book b' \<and>
    (r \<noteq> Ok \<longrightarrow> unchanged b b')"
proof -
  obtain r b' where res: "book_replace h old_id new_id s price qty keep b = Some (r, b')"
    and c: "r \<noteq> Ok \<and> unchanged b b' \<or>
     (\<exists>old_price a q l. r = Ok \<and> located b s old_price old_id a q l \<and> price \<noteq> 0 \<and> qty \<noteq> 0 \<and>
        (new_id \<noteq> old_id \<longrightarrow> map_of (orders_by_id b) new_id = None) \<and>
        (if keep then new_id = old_id \<and> price = old_price \<and> b' = requantify s price a qty b
         else moved (pool_vectors_ok h) s old_price old_id a price new_id qty b b'))"
    using book_replace_cases [OF wf, of h old_id new_id s price qty keep] by (elim exE conjE) (rule that)
  have "wf_book b'"
    using c unchanged_wf [OF wf] requantify_book_wf [OF wf] moved_wf [OF wf]
    by (auto split: if_splits)
  then show ?thesis using res c by blast
qed

lemma OrderBook_new_wf:
  assumes "OrderBook_new (Some block) bytes = Some b" "0 < block" "block + bytes \<le> 2 ^ 64"
  shows "wf_book b" "orders_by_id b = []" "nodes b = []" "bids b = []" "asks b = []"
  using assms
  by (auto simp: OrderBook_new_def FixedSlotPool_new_def wf_book_def wf_core_def om_sorted_def levels_of_def
      node_inv_def wf_pool_def pool_used_def split: if_splits)

end
