(* ===== verification/Order_Book_Spec.thy ===== *)
theory Order_Book_Spec
  imports Order_Book_Ops
begin

text \<open>
  What the order book means to a client: two lists of orders, each in price-time priority. A new order
  goes behind every order that is not strictly worse, a cancel deletes, an execution reduces. The
  operations of the detailed book refine these list operations, and the queries read them.
\<close>

section \<open>Price-time priority lists\<close>

type_synonym abs_book = "Side \<Rightarrow> OrderView list"

fun pt_insert :: "OrderView \<Rightarrow> OrderView list \<Rightarrow> OrderView list" where
  "pt_insert v [] = [v]"
| "pt_insert v (x # xs) =
     (if side_lt (view_side v) (view_price v) (view_price x) then v # x # xs else x # pt_insert v xs)"

definition spec_find :: "OrderId \<Rightarrow> abs_book \<Rightarrow> OrderView option" where
  "spec_find oid A = List.find (\<lambda>v. view_id v = oid) (A Bid @ A Ask)"

definition spec_insert :: "OrderView \<Rightarrow> abs_book \<Rightarrow> abs_book" where
  "spec_insert v A = A(view_side v := pt_insert v (A (view_side v)))"

definition spec_delete :: "OrderId \<Rightarrow> abs_book \<Rightarrow> abs_book" where
  "spec_delete oid A = (\<lambda>s. filter (\<lambda>v. view_id v \<noteq> oid) (A s))"

definition spec_set_quantity :: "OrderId \<Rightarrow> Quantity \<Rightarrow> abs_book \<Rightarrow> abs_book" where
  "spec_set_quantity oid q A =
     (\<lambda>s. map (\<lambda>v. if view_id v = oid then v\<lparr>view_quantity := q\<rparr> else v) (A s))"

text \<open>The operations; \<open>room\<close> says whether storage for one more order is available.\<close>

definition spec_apply :: "bool \<Rightarrow> EventPayload \<Rightarrow> abs_book \<Rightarrow> ApplyResult \<times> abs_book" where
  "spec_apply room ev A =
     (case ev of
        AddOrder oid s price qty \<Rightarrow>
          if qty = 0 then (InvalidQuantity, A)
          else if price = 0 then (InvalidPrice, A)
          else if spec_find oid A \<noteq> None then (DuplicateOrder, A)
          else if s = Side_Other then (UnknownOrder, A)
          else if \<not> room then (AllocationFailed, A)
          else (Ok, spec_insert \<lparr>view_id = oid, view_side = s, view_price = price, view_quantity = qty\<rparr> A)
      | CancelOrder oid \<Rightarrow>
          (case spec_find oid A of None \<Rightarrow> (UnknownOrder, A) | Some _ \<Rightarrow> (Ok, spec_delete oid A))
      | ExecuteOrder oid qty \<Rightarrow>
          (case spec_find oid A of
             None \<Rightarrow> (UnknownOrder, A)
           | Some v \<Rightarrow>
               if qty = 0 then (InvalidQuantity, A)
               else if view_quantity v < qty then (QuantityExceedsRemaining, A)
               else if qty = view_quantity v then (Ok, spec_delete oid A)
               else (Ok, spec_set_quantity oid (view_quantity v - qty) A)))"

definition spec_replace ::
    "bool \<Rightarrow> OrderId \<Rightarrow> OrderId \<Rightarrow> Side \<Rightarrow> Price \<Rightarrow> Quantity \<Rightarrow> bool \<Rightarrow> abs_book \<Rightarrow> ApplyResult \<times> abs_book" where
  "spec_replace room old_id new_id s price qty keep A =
     (case spec_find old_id A of
        None \<Rightarrow> (UnknownOrder, A)
      | Some v \<Rightarrow>
          if qty = 0 then (InvalidQuantity, A)
          else if price = 0 then (InvalidPrice, A)
          else if s \<noteq> view_side v then (UnknownOrder, A)
          else if new_id \<noteq> old_id \<and> spec_find new_id A \<noteq> None then (DuplicateOrder, A)
          else if keep
          then (if price \<noteq> view_price v \<or> new_id \<noteq> old_id then (InvalidPrice, A)
                else (Ok, spec_set_quantity old_id qty A))
          else if \<not> room then (AllocationFailed, A)
          else (Ok, spec_insert \<lparr>view_id = new_id, view_side = s, view_price = price, view_quantity = qty\<rparr>
                      (spec_delete old_id A)))"

lemma spec_apply_failed: "(r, A') = spec_apply room ev A \<Longrightarrow> r \<noteq> Ok \<Longrightarrow> A' = A"
  by (cases ev) (auto simp: spec_apply_def split: option.splits if_splits)

lemma spec_replace_failed:
  "(r, A') = spec_replace room old_id new_id s price qty keep A \<Longrightarrow> r \<noteq> Ok \<Longrightarrow> A' = A"
  by (auto simp: spec_replace_def split: option.splits if_splits)

subsection \<open>Lookups\<close>

lemma find_pt_insert: "\<not> P v \<Longrightarrow> List.find P (pt_insert v xs) = List.find P xs"
  by (induction xs) auto

lemma find_filter: "(\<And>x. P x \<Longrightarrow> Q x) \<Longrightarrow> List.find P (filter Q xs) = List.find P xs"
  by (induction xs) auto

lemma find_map_id: "(\<And>x. P (f x) = P x) \<Longrightarrow> List.find P (map f xs) = map_option f (List.find P xs)"
  by (induction xs) auto

lemma find_append: "List.find P (xs @ ys) = (case List.find P xs of None \<Rightarrow> List.find P ys | Some x \<Rightarrow> Some x)"
  by (induction xs) auto

lemma find_pt_insert_self:
  "List.find (\<lambda>w. view_id w = view_id v) xs = None \<Longrightarrow> List.find (\<lambda>w. view_id w = view_id v) (pt_insert v xs) = Some v"
  by (induction xs) (auto split: if_splits)

lemma spec_find_insert:
  assumes "view_side v \<noteq> Side_Other" "spec_find (view_id v) A = None"
  shows "spec_find oid (spec_insert v A) = (if oid = view_id v then Some v else spec_find oid A)"
  using assms find_pt_insert_self [of v "A (view_side v)"]
  by (cases "view_side v") (auto simp: spec_find_def spec_insert_def find_append find_pt_insert split: option.splits)

lemma find_filter_none: "List.find (\<lambda>v. view_id v = oid) (filter (\<lambda>v. view_id v \<noteq> oid) xs) = None"
  by (simp add: find_None_iff)

lemma spec_find_delete: "spec_find oid (spec_delete oid' A) = (if oid = oid' then None else spec_find oid A)"
  by (auto simp: spec_find_def spec_delete_def find_append find_filter find_filter_none split: option.splits)

lemma spec_find_set_quantity:
  "spec_find oid (spec_set_quantity oid' q A) =
     (if oid = oid' then map_option (\<lambda>v. v\<lparr>view_quantity := q\<rparr>) (spec_find oid A) else spec_find oid A)"
proof -
  let ?f = "\<lambda>v. if view_id v = oid' then v\<lparr>view_quantity := q\<rparr> else v"
  have "List.find (\<lambda>v. view_id v = oid) (map ?f xs) = map_option ?f (List.find (\<lambda>v. view_id v = oid) xs)" for xs
    by (rule find_map_id) auto
  then have "spec_find oid (spec_set_quantity oid' q A) = map_option ?f (spec_find oid A)"
    by (simp add: spec_find_def spec_set_quantity_def flip: map_append)
  moreover have "view_id v = oid" if "spec_find oid A = Some v" for v
    using that by (auto simp: spec_find_def dest!: find_SomeD)
  ultimately show ?thesis by (cases "spec_find oid A") auto
qed

subsection \<open>Inserting\<close>

lemma pt_insert_skip:
  "(\<And>x. x \<in> set xs \<Longrightarrow> \<not> side_lt (view_side v) (view_price v) (view_price x)) \<Longrightarrow>
   pt_insert v (xs @ ys) = xs @ pt_insert v ys"
  by (induction xs) auto

lemma pt_insert_front:
  "(\<And>x. x \<in> set xs \<Longrightarrow> side_lt (view_side v) (view_price v) (view_price x)) \<Longrightarrow> pt_insert v xs = v # xs"
  by (cases xs) auto

lemma visit_Nil [simp]: "visit_orders b s [] = []"
  by (simp add: visit_orders_def)

lemma visit_Cons [simp]:
  "visit_orders b s ((price, l) # ls) = map (order_view b s price) (level_orders l) @ visit_orders b s ls"
  by (simp add: visit_orders_def)

lemma order_view_sel [simp]:
  "view_id (order_view b s price a) = entry_order_id (entry_at b a)" "view_side (order_view b s price a) = s"
  "view_price (order_view b s price a) = price"
  "view_quantity (order_view b s price a) = entry_remaining (entry_at b a)"
  by (simp_all add: order_view_def)

lemma visit_prices: "x \<in> set (visit_orders b s ls) \<Longrightarrow> view_side x = s \<and> view_price x \<in> fst ` set ls"
  by (induction ls) auto

lemma visit_put:
  assumes "om_sorted (side_lt s) ls"
    and "l = (case map_of ls price of Some l \<Rightarrow> l | None \<Rightarrow> empty_level)"
  shows "visit_orders b s (om_put (side_lt s) price \<lparr>level_orders = level_orders l @ [a], level_aggregate = g\<rparr> ls) =
    pt_insert (order_view b s price a) (visit_orders b s ls)"
  using assms
proof (induction ls)
  case Nil
  then show ?case by (simp add: empty_level_def)
next
  case (Cons y ls)
  obtain p x where y: "y = (p, x)" by force
  have tail: "om_sorted (side_lt s) ls" and gt: "\<And>p'. p' \<in> fst ` set ls \<Longrightarrow> side_lt s p p'"
    using Cons.prems(1) by (auto simp: y om_sorted_def)
  consider "price = p" | "price \<noteq> p" "side_lt s price p" | "price \<noteq> p" "\<not> side_lt s price p" by blast
  then show ?case
  proof cases
    case 1
    have "pt_insert (order_view b s price a) (visit_orders b s ls) =
        order_view b s price a # visit_orders b s ls"
      using gt visit_prices 1 by (intro pt_insert_front) fastforce
    then have "pt_insert (order_view b s price a)
        (map (order_view b s price) (level_orders x) @ visit_orders b s ls) =
        map (order_view b s price) (level_orders x) @ order_view b s price a # visit_orders b s ls"
      by (subst pt_insert_skip) (auto simp: side_order.lt_irrefl)
    then show ?thesis using Cons.prems(2) 1 by (simp add: y)
  next
    case 2
    have worse: "side_lt s price p'" if "p' \<in> fst ` set (y # ls)" for p'
      using that 2 gt [of p'] side_order.lt_trans [of s price p p'] y by force
    have "map_of (y # ls) price = None"
      using worse side_order.lt_irrefl by (metis map_of_eq_None_iff)
    then have "level_orders l = []" using Cons.prems(2) by (simp add: empty_level_def)
    moreover have "pt_insert (order_view b s price a) (visit_orders b s (y # ls)) =
        order_view b s price a # visit_orders b s (y # ls)"
      using worse visit_prices by (intro pt_insert_front) fastforce
    ultimately show ?thesis using 2 by (simp add: y)
  next
    case 3
    then show ?thesis using Cons.IH [OF tail] Cons.prems(2)
      by (simp add: y) (subst pt_insert_skip, auto)
  qed
qed

lemma visit_cong:
  "(\<And>price l a. (price, l) \<in> set ls \<Longrightarrow> a \<in> set (level_orders l) \<Longrightarrow> map_of (nodes b') a = map_of (nodes b) a) \<Longrightarrow>
   visit_orders b' s ls = visit_orders b s ls"
  unfolding visit_orders_def order_view_def entry_at_def
  by (intro arg_cong [where f = concat] map_cong) auto

lemma book_orders_levels: "s \<noteq> Side_Other \<Longrightarrow> book_orders b s = visit_orders b s (levels_of s b)"
  by (cases s) (auto simp: book_orders_def levels_of_def)

lemma book_orders_other [simp]: "book_orders b Side_Other = []"
  by (simp add: book_orders_def)

lemma level_entry:
  assumes "wf_core b" "s \<noteq> Side_Other" "(price, l) \<in> set (levels_of s b)"
  shows "level_ok b s price l"
  using assms wf_levelD [OF assms(1,2)] side_order.sorted_distinct [OF levels_sorted [OF assms(1), of s]]
  by simp

lemma queued_order:
  "wf_core b \<Longrightarrow> s \<noteq> Side_Other \<Longrightarrow> (price, l) \<in> set (levels_of s b) \<Longrightarrow> a \<in> set (level_orders l) \<Longrightarrow>
   order_ok b s price a"
  using level_entry [of b s price l] by (simp add: level_ok_def)

lemma book_orders_link:
  assumes wf: "wf_core b" and s: "s \<noteq> Side_Other" and new: "map_of (nodes b) a = None"
  shows "book_orders (link_order s price oid a q b) =
    spec_insert \<lparr>view_id = oid, view_side = s, view_price = price, view_quantity = q\<rparr> (book_orders b)"
proof
  fix s'
  let ?b = "link_order s price oid a q b"
  have same: "visit_orders ?b t (levels_of t b) = visit_orders b t (levels_of t b)" if "t \<noteq> Side_Other" for t
    using queued_order [OF wf that] new by (intro visit_cong) (fastforce elim: order_okE)
  have v: "order_view ?b s price a = \<lparr>view_id = oid, view_side = s, view_price = price, view_quantity = q\<rparr>"
    by (simp add: order_view_def entry_at_def)
  have ins: "visit_orders ?b s (levels_of s ?b) = pt_insert (order_view ?b s price a) (visit_orders ?b s (levels_of s b))"
    unfolding link_levels
    using visit_put [OF levels_sorted [OF wf], of "level_or_empty s price b" s price ?b a]
    by (simp add: level_or_empty_def)
  show "book_orders ?b s' = spec_insert
      \<lparr>view_id = oid, view_side = s, view_price = price, view_quantity = q\<rparr> (book_orders b) s'"
  proof (cases "s' = Side_Other")
    case False
    then show ?thesis
      using ins v same s False by (cases "s' = s")
        (auto simp: spec_insert_def book_orders_levels link_levels side_bid_eq)
  qed (use s in \<open>auto simp: spec_insert_def\<close>)
qed

subsection \<open>Deleting and changing\<close>

text \<open>An order is the only one with its id, so the level it sits in is the only one a filter touches.\<close>

lemma filter_visit:
  assumes "\<And>p x a'. (p, x) \<in> set ls \<Longrightarrow> a' \<in> set (level_orders x) \<Longrightarrow>
      entry_order_id (entry_at b a') = oid \<longleftrightarrow> p = price \<and> a' = a"
  shows "filter (\<lambda>v. view_id v \<noteq> oid) (visit_orders b s ls) =
    concat (map (\<lambda>(p, x). map (order_view b s p)
      (if p = price then removeAll a (level_orders x) else level_orders x)) ls)"
  using assms
proof (induction ls)
  case (Cons y ls)
  obtain p x where y: "y = (p, x)" by force
  have "filter (\<lambda>a'. entry_order_id (entry_at b a') \<noteq> oid) (level_orders x) =
      (if p = price then removeAll a (level_orders x) else level_orders x)"
    using Cons.prems [of p x] by (auto simp: y removeAll_filter_not_eq intro!: filter_cong)
  moreover have "filter (\<lambda>v. view_id v \<noteq> oid) (visit_orders b s ls) =
      concat (map (\<lambda>(p, x). map (order_view b s p)
        (if p = price then removeAll a (level_orders x) else level_orders x)) ls)"
    by (rule Cons.IH, rule Cons.prems) auto
  ultimately show ?case by (simp add: y filter_map o_def)
qed simp

lemma visit_removed:
  assumes "om_sorted (side_lt s) ls" "map_of ls price = Some l"
    and "r = removeAll a (level_orders l)"
  shows "visit_orders b s (if r = [] then om_erase price ls
       else om_put (side_lt s) price \<lparr>level_orders = r, level_aggregate = g\<rparr> ls) =
    concat (map (\<lambda>(p, x). map (order_view b s p)
      (if p = price then removeAll a (level_orders x) else level_orders x)) ls)"
  using assms
proof (induction ls)
  case (Cons y ls)
  obtain p x where y: "y = (p, x)" by force
  have tail: "om_sorted (side_lt s) ls" and gt: "\<And>p' x'. (p', x') \<in> set ls \<Longrightarrow> side_lt s p p'"
    using Cons.prems(1) by (auto simp: y om_sorted_def)
  show ?case
  proof (cases "price = p")
    case True
    then have notin: "p' \<noteq> price" if "(p', x') \<in> set ls" for p' x'
      using gt that side_order.lt_irrefl by auto
    then have "map_of ls price = None" by (cases "map_of ls price") (auto dest: map_of_SomeD)
    moreover have "concat (map (\<lambda>(p, x). map (order_view b s p)
        (if p = price then removeAll a (level_orders x) else level_orders x)) ls) = visit_orders b s ls"
      unfolding visit_orders_def using notin
      by (intro arg_cong [where f = concat] map_cong) (auto split: prod.splits)
    ultimately show ?thesis using Cons.prems(2,3) True by (simp add: y om_erase_notin)
  next
    case False
    moreover have "\<not> side_lt s price p"
      using gt False Cons.prems(2) side_order.lt_asym by (auto simp: y dest!: map_of_SomeD)
    ultimately show ?thesis using Cons.IH [OF tail] Cons.prems(2,3) by (auto simp: y)
  qed
qed simp

lemma only_order:
  assumes wf: "wf_core b" and loc: "located b s price oid a q l"
    and x: "s' \<noteq> Side_Other" "(p, x) \<in> set (levels_of s' b)" "a' \<in> set (level_orders x)"
  shows "entry_order_id (entry_at b a') = oid \<longleftrightarrow> s' = s \<and> p = price \<and> a' = a"
  using queued_order [OF wf x] loc by (auto simp: located_def entry_at_def elim!: order_okE)

lemma other_side_ids:
  assumes wf: "wf_core b" and loc: "located b s price oid a q l" and s': "s' \<noteq> s" "s' \<noteq> Side_Other"
    and v: "v \<in> set (book_orders b s')"
  shows "view_id v \<noteq> oid"
proof -
  obtain p x a' where "(p, x) \<in> set (levels_of s' b)" "a' \<in> set (level_orders x)" "v = order_view b s' p a'"
    using v s' by (auto simp: book_orders_levels visit_orders_def)
  then show ?thesis using only_order [OF wf loc s'(2)] s'(1) by simp
qed

lemma book_orders_unlink:
  assumes wf: "wf_core b" and loc: "located b s price oid a q l"
  shows "book_orders (unlink_order s price oid a b) = spec_delete oid (book_orders b)"
proof
  fix s'
  let ?b = "unlink_order s price oid a b"
  have s: "s \<noteq> Side_Other" and l: "map_of (levels_of s b) price = Some l" using loc by (auto simp: located_def)
  show "book_orders ?b s' = spec_delete oid (book_orders b) s'"
  proof (cases "s' = Side_Other")
    case s': False
    have cong: "visit_orders ?b s' (levels_of s' ?b) = visit_orders b s' (levels_of s' ?b)"
    proof (rule visit_cong)
      fix p x a' assume "(p, x) \<in> set (levels_of s' ?b)" "a' \<in> set (level_orders x)"
      then have "order_ok ?b s' p a'" using queued_order [OF unlink_wf [OF wf loc] s'] by blast
      then show "map_of (nodes ?b) a' = map_of (nodes b) a'" by (auto elim!: order_okE split: if_splits)
    qed
    show ?thesis
    proof (cases "s' = s")
      case True
      show ?thesis
        using cong filter_visit [of "levels_of s b" b oid price a s] only_order [OF wf loc s]
          visit_removed [OF levels_sorted [OF wf, of s] l refl, of b a]
        by (simp add: True spec_delete_def book_orders_levels [OF s] unlink_levels [OF loc])
    next
      case False
      then have "filter (\<lambda>v. view_id v \<noteq> oid) (book_orders b s') = book_orders b s'"
        using other_side_ids [OF wf loc _ s'] by (auto simp: filter_id_conv)
      then show ?thesis
        using cong False s s' by (simp add: spec_delete_def book_orders_levels unlink_levels [OF loc] side_bid_eq)
    qed
  qed (simp add: spec_delete_def)
qed

lemma visit_put_same_orders:
  assumes "om_sorted (side_lt s) ls" "map_of ls price = Some l" "level_orders l' = level_orders l"
  shows "visit_orders b s (om_put (side_lt s) price l' ls) = visit_orders b s ls"
  using assms
proof (induction ls)
  case (Cons y ls)
  obtain p x where y: "y = (p, x)" by force
  then show ?case
    using Cons by (auto simp: om_sorted_def side_order.lt_asym dest!: map_of_SomeD split: if_splits)
qed simp

lemma visit_requantified:
  assumes "\<And>p x a'. (p, x) \<in> set ls \<Longrightarrow> a' \<in> set (level_orders x) \<Longrightarrow>
      map_of (nodes b) a' \<noteq> None \<and> (entry_order_id (entry_at b a') = oid \<longleftrightarrow> a' = a)"
    and "nodes b' = om_update a (\<lambda>e. e\<lparr>entry_remaining := q\<rparr>) (nodes b)"
  shows "visit_orders b' s ls =
    map (\<lambda>v. if view_id v = oid then v\<lparr>view_quantity := q\<rparr> else v) (visit_orders b s ls)"
  using assms(1)
proof (induction ls)
  case (Cons y ls)
  obtain p x where y: "y = (p, x)" by force
  have "order_view b' s p a' = (if entry_order_id (entry_at b a') = oid
      then (order_view b s p a')\<lparr>view_quantity := q\<rparr> else order_view b s p a')"
    if "a' \<in> set (level_orders x)" for a'
    using Cons.prems [of p x a'] that
    by (auto simp: y assms(2) order_view_def entry_at_def split: option.splits)
  moreover have "visit_orders b' s ls =
      map (\<lambda>v. if view_id v = oid then v\<lparr>view_quantity := q\<rparr> else v) (visit_orders b s ls)"
    by (rule Cons.IH, rule Cons.prems) auto
  ultimately show ?case by (simp add: y)
qed simp

lemma book_orders_requantify:
  assumes wf: "wf_core b" and loc: "located b s price oid a q l"
  shows "book_orders (requantify s price a q' b) = spec_set_quantity oid q' (book_orders b)"
proof
  fix s'
  let ?b = "requantify s price a q' b"
  have s: "s \<noteq> Side_Other" and l: "map_of (levels_of s b) price = Some l" using loc by (auto simp: located_def)
  show "book_orders ?b s' = spec_set_quantity oid q' (book_orders b) s'"
  proof (cases "s' = Side_Other")
    case s': False
    have ids: "map_of (nodes b) a' \<noteq> None \<and> (entry_order_id (entry_at b a') = oid \<longleftrightarrow> a' = a)"
      if "(p, x) \<in> set (levels_of s' b)" "a' \<in> set (level_orders x)" for p x a'
      using queued_order [OF wf s' that] loc by (auto simp: located_def entry_at_def elim!: order_okE)
    have "visit_orders ?b s' (levels_of s' b) =
        map (\<lambda>v. if view_id v = oid then v\<lparr>view_quantity := q'\<rparr> else v) (visit_orders b s' (levels_of s' b))"
      by (rule visit_requantified [OF _ requantify_nodes]) (rule ids)
    moreover have "visit_orders ?b s' (levels_of s' ?b) = visit_orders ?b s' (levels_of s' b)"
      using visit_put_same_orders [OF levels_sorted [OF wf, of s] l] s s'
      by (simp add: requantify_levels [OF loc] side_bid_eq)
    ultimately show ?thesis using s' by (simp add: spec_set_quantity_def book_orders_levels)
  qed (simp add: spec_set_quantity_def)
qed

section \<open>The orders of a well-formed book\<close>

lemma order_view_pool [simp]: "order_view (b\<lparr>pool := x\<rparr>) = order_view b"
  by (simp add: fun_eq_iff order_view_def entry_at_def)

lemma book_orders_pool [simp]: "book_orders (b\<lparr>pool := x\<rparr>) = book_orders b"
  by (simp add: fun_eq_iff book_orders_def visit_orders_def)

lemma book_orders_unchanged: "unchanged b b' \<Longrightarrow> book_orders b' = book_orders b"
  by (auto simp: unchanged_def same_but_pool_def)

lemma in_book_orders:
  assumes wf: "wf_core b"
  shows "v \<in> set (book_orders b s) \<longleftrightarrow>
    (\<exists>a l. located b s (view_price v) (view_id v) a (view_quantity v) l \<and> view_side v = s)"
    (is "_ \<longleftrightarrow> ?R")
proof (cases "s = Side_Other")
  case s: False
  show ?thesis
  proof
    assume "v \<in> set (book_orders b s)"
    then obtain p x a where x: "(p, x) \<in> set (levels_of s b)" "a \<in> set (level_orders x)" "v = order_view b s p a"
      using s by (auto simp: book_orders_levels visit_orders_def)
    have "map_of (levels_of s b) p = Some x"
      using x(1) side_order.sorted_distinct [OF levels_sorted [OF wf, of s]] by simp
    then show ?R
      using queued_order [OF wf s x(1,2)] x s
      by (auto simp: located_def order_view_def entry_at_def elim!: order_okE)
  next
    assume ?R
    then obtain a l where loc: "located b s (view_price v) (view_id v) a (view_quantity v) l" "view_side v = s"
      by blast
    then have "v = order_view b s (view_price v) a"
      using located_entry [OF loc(1)] by (simp add: order_view_def)
    then show "v \<in> set (book_orders b s)"
      using loc by (auto simp: book_orders_levels [OF s] visit_orders_def located_def intro!: bexI dest!: map_of_SomeD)
  qed
qed (simp add: located_def)

lemma spec_find_book:
  assumes wf: "wf_core b"
  shows "spec_find oid (book_orders b) =
    map_option (\<lambda>loc. \<lparr>view_id = oid, view_side = loc_side loc, view_price = loc_price loc,
      view_quantity = entry_remaining (entry_at b (loc_iterator loc))\<rparr>) (map_of (orders_by_id b) oid)"
proof (cases "spec_find oid (book_orders b)")
  case None
  have "map_of (orders_by_id b) oid = None"
  proof (rule ccontr)
    assume "map_of (orders_by_id b) oid \<noteq> None"
    then obtain s price a q l where loc: "located b s price oid a q l"
      using index_located [OF wf] by (metis not_Some_eq)
    then have "\<lparr>view_id = oid, view_side = s, view_price = price, view_quantity = q\<rparr> \<in> set (book_orders b s)"
      by (auto simp: in_book_orders [OF wf])
    moreover have "s = Bid \<or> s = Ask" using loc by (cases s) (auto simp: located_def)
    ultimately show False using None by (force simp: spec_find_def find_None_iff)
  qed
  then show ?thesis using None by simp
next
  case (Some v)
  then have "view_id v = oid" "v \<in> set (book_orders b Bid) \<or> v \<in> set (book_orders b Ask)"
    by (auto simp: spec_find_def dest!: find_SomeD)
  then show ?thesis using Some by (auto simp: in_book_orders [OF wf] located_def entry_at_def)
qed

lemma spec_find_located:
  "wf_core b \<Longrightarrow> located b s price oid a q l \<Longrightarrow> spec_find oid (book_orders b) =
     Some \<lparr>view_id = oid, view_side = s, view_price = price, view_quantity = q\<rparr>"
  by (simp add: spec_find_book located_def entry_at_def)

lemma spec_find_absent:
  "wf_core b \<Longrightarrow> spec_find oid (book_orders b) = None \<longleftrightarrow> map_of (orders_by_id b) oid = None"
  by (simp add: spec_find_book)

subsection \<open>Counting\<close>

lemma card_nodes:
  assumes wf: "wf_core b"
  shows "card (dom (map_of (nodes b))) = order_count b"
    and "length (book_orders b Bid) + length (book_orders b Ask) = order_count b"
proof -
  have "bij_betw (\<lambda>oid. loc_iterator (the (map_of (orders_by_id b) oid)))
      (dom (map_of (orders_by_id b))) (dom (map_of (nodes b)))" (is "bij_betw ?f _ _")
  proof (rule bij_betw_imageI)
    show "inj_on ?f (dom (map_of (orders_by_id b)))"
    proof (rule inj_onI)
      fix x y assume "x \<in> dom (map_of (orders_by_id b))" "y \<in> dom (map_of (orders_by_id b))" "?f x = ?f y"
      then obtain lx ly where "map_of (orders_by_id b) x = Some lx" "map_of (orders_by_id b) y = Some ly"
        "loc_iterator lx = loc_iterator ly" by auto
      then show "x = y" using wf_indexD [OF wf, of x lx] wf_indexD [OF wf, of y ly] by (auto simp: index_ok_def)
    qed
    show "?f ` dom (map_of (orders_by_id b)) = dom (map_of (nodes b))"
      using wf_indexD [OF wf] wf_nodeD [OF wf] by (force simp: index_ok_def node_ok_def image_iff)
  qed
  moreover have "card (dom (map_of (orders_by_id b))) = order_count b"
    using om_less.sorted_distinct [of "orders_by_id b"] wf
    by (simp add: wf_core_def order_count_def dom_map_of_conv_image_fst distinct_card flip: set_map)
  ultimately show card: "card (dom (map_of (nodes b))) = order_count b" by (simp add: bij_betw_same_card)
  have len: "length (visit_orders b s ls) = length (level_nodes ls)" for s ls
    by (induction ls) (auto simp: level_nodes_def visit_orders_def)
  show "length (book_orders b Bid) + length (book_orders b Ask) = order_count b"
    using distinct_card [OF live_nodes(1) [OF wf]] live_nodes(2) [OF wf] card
    by (simp add: book_orders_def len)
qed

text \<open>How many orders the book has storage for.\<close>

definition book_capacity :: "OrderBook \<Rightarrow> nat" where
  "book_capacity b = (case pool b of None \<Rightarrow> 0 | Some p \<Rightarrow> node_slots p)"

definition heap_grants :: "heap_env \<Rightarrow> bool" where
  "heap_grants h \<longleftrightarrow> level_node_ok h \<and> pool_vectors_ok h \<and> index_node_ok h"

lemma capacity_bound: "wf_book b \<Longrightarrow> order_count b \<le> book_capacity b"
  using card_nodes(1) [of b] node_used_le
  by (fastforce simp: wf_book_def book_capacity_def order_count_def wf_core_def node_ok_def split: option.splits)

section \<open>Refinement\<close>

text \<open>\<open>room\<close> is what the heap and the pool decide; it needs a free slot, and a granting heap with a free slot gives it.\<close>

definition room_ok :: "heap_env \<Rightarrow> OrderBook \<Rightarrow> bool \<Rightarrow> bool" where
  "room_ok h b room \<longleftrightarrow> (room \<longrightarrow> order_count b < book_capacity b) \<and>
     (heap_grants h \<and> order_count b < book_capacity b \<longrightarrow> room)"

lemma room_ok_ex: "room_ok h b (heap_grants h \<and> order_count b < book_capacity b)"
  by (simp add: room_ok_def)

lemma alloc_needs_room:
  assumes "wf_book b" "pool b = Some p" "node_allocate ok p = (Ptr a, p')"
  shows "order_count b < book_capacity b"
proof -
  have "card (pool_used p) < node_slots p"
    using assms(3) node_allocate_Ptr [of p ok a p'] node_used_le [of p'] wf_book_pool [OF assms(1,2)]
    by (auto simp: card_insert_if finite_dom_map_of)
  then show ?thesis
    using wf_book_pool [OF assms(1,2)] card_nodes(1) [OF wf_bookD [OF assms(1)]] assms(2)
    by (simp add: book_capacity_def)
qed

lemma room_gives_alloc:
  assumes "wf_book b" "order_count b < book_capacity b" "pool_vectors_ok h"
  obtains p a p' where "pool b = Some p" "node_allocate (pool_vectors_ok h) p = (Ptr a, p')"
proof -
  obtain p where p: "pool b = Some p" using assms(2) by (auto simp: book_capacity_def split: option.splits)
  have "card (pool_used p) < node_slots p"
    using assms(2) card_nodes(1) [OF wf_bookD [OF assms(1)]] wf_book_pool [OF assms(1) p] p
    by (simp add: book_capacity_def)
  then show thesis
    using node_allocate_room [of p "pool_vectors_ok h"] wf_book_pool [OF assms(1) p] assms(3) that p by blast
qed

lemma book_orders_linked:
  assumes "wf_book b" "linked ok s price oid q b b'" "s \<noteq> Side_Other"
  shows "book_orders b' = spec_insert
    \<lparr>view_id = oid, view_side = s, view_price = price, view_quantity = q\<rparr> (book_orders b)"
proof -
  obtain p a p' where b': "pool b = Some p" "node_allocate ok p = (Ptr a, p')"
    "b' = link_order s price oid a q (b\<lparr>pool := Some p'\<rparr>)"
    using assms(2) by (auto simp: linked_def)
  show ?thesis
    using book_orders_link [of "b\<lparr>pool := Some p'\<rparr>" s a price oid q] assms
      free_slot_fresh(2) [OF assms(1) b'(1,2)] by (simp add: b'(3) wf_bookD)
qed

lemma book_orders_release:
  "wf_core b \<Longrightarrow> located b s price oid a q l \<Longrightarrow>
   book_orders (release s price oid a b) = spec_delete oid (book_orders b)"
  by (simp add: release_def book_orders_unlink)

lemma add_AllocationFailed:
  assumes wf: "wf_book b" and add: "apply_add h oid s price qty b = (r, b')"
    and ok: "qty \<noteq> 0" "price \<noteq> 0" "map_of (orders_by_id b) oid = None" "s \<noteq> Side_Other"
  shows "r = Ok \<or> r = AllocationFailed"
    and "r = Ok \<Longrightarrow> order_count b < book_capacity b"
    and "r = AllocationFailed \<Longrightarrow> \<not> (heap_grants h \<and> order_count b < book_capacity b)"
proof -
  have s: "s = Bid \<or> s = Ask" using ok(4) by (cases s) auto
  have r: "apply_add h oid s price qty b =
      (case pool b of None \<Rightarrow> (AllocationFailed, b) | Some p \<Rightarrow> add_to h oid s price qty p b)"
    using ok s by (auto simp: apply_add_def)
  show "r = Ok \<or> r = AllocationFailed"
    using add ok unfolding r
    by (auto simp: add_to_result [OF wf] split: option.splits alloc_result.splits prod.splits if_splits)
  show "order_count b < book_capacity b" if "r = Ok"
    using add that alloc_needs_room [OF wf] unfolding r
    by (auto simp: add_to_result [OF wf] split: option.splits alloc_result.splits prod.splits if_splits)
  show "\<not> (heap_grants h \<and> order_count b < book_capacity b)" if "r = AllocationFailed"
  proof
    assume g: "heap_grants h \<and> order_count b < book_capacity b"
    then obtain p a p' where "pool b = Some p" "node_allocate (pool_vectors_ok h) p = (Ptr a, p')"
      using room_gives_alloc [OF wf, of h] by (auto simp: heap_grants_def)
    then show False using add that g ok unfolding r
      by (auto simp: add_to_result [OF wf] heap_grants_def level_granted_def)
  qed
qed

lemma apply_add_refines:
  assumes wf: "wf_book b" and add: "apply_add h oid s price qty b = (r, b')"
  shows "\<exists>room. room_ok h b room \<and> (r, book_orders b') = spec_apply room (AddOrder oid s price qty) (book_orders b)"
proof (cases "qty = 0 \<or> price = 0 \<or> map_of (orders_by_id b) oid \<noteq> None \<or> s = Side_Other")
  case True
  have "apply_add h oid s price qty b = (fst (spec_apply room (AddOrder oid s price qty) (book_orders b)), b)"
    "snd (spec_apply room (AddOrder oid s price qty) (book_orders b)) = book_orders b" for room
    using True by (auto simp: apply_add_def spec_apply_def spec_find_book [OF wf_bookD [OF wf]])
  then show ?thesis using add room_ok_ex [of h b] by (metis Pair_inject prod.collapse)
next
  case False
  then have ok: "qty \<noteq> 0" "price \<noteq> 0" "map_of (orders_by_id b) oid = None" "s \<noteq> Side_Other" by auto
  note rs = add_AllocationFailed [OF wf add ok]
  have "room_ok h b (r = Ok)" using rs by (auto simp: room_ok_def)
  moreover have "(r, book_orders b') = spec_apply (r = Ok) (AddOrder oid s price qty) (book_orders b)"
  proof -
    have find: "spec_find oid (book_orders b) = None"
      using spec_find_absent [OF wf_bookD [OF wf]] ok(3) by simp
    consider "r = Ok" "linked (pool_vectors_ok h) s price oid qty b b'" | "r = AllocationFailed" "unchanged b b'"
      using apply_add_cases [OF wf add] rs(1) by blast
    then show ?thesis
      by cases (simp_all add: spec_apply_def ok find book_orders_linked [OF wf] book_orders_unchanged)
  qed
  ultimately show ?thesis by blast
qed

lemma apply_event_refines_spec:
  assumes wf: "wf_book b" and ev: "apply_event h ev b = Some (r, b')"
  shows "\<exists>room. room_ok h b room \<and> (r, book_orders b') = spec_apply room ev (book_orders b)"
proof (cases ev)
  case (AddOrder oid s price qty)
  then show ?thesis using apply_add_refines [OF wf, of h oid s price qty r b'] ev by (simp add: apply_event_def)
next
  case (CancelOrder oid)
  have "(r, book_orders b') = spec_apply room ev (book_orders b)" for room
    using apply_cancel_cases [OF wf, of oid] ev spec_find_absent [OF wf_bookD [OF wf], of oid]
      spec_find_located [OF wf_bookD [OF wf]] book_orders_release [OF wf_bookD [OF wf]]
    by (auto simp: apply_event_def spec_apply_def CancelOrder)
  then show ?thesis using room_ok_ex by blast
next
  case (ExecuteOrder oid qty)
  have "(r, book_orders b') = spec_apply room ev (book_orders b)" for room
    using apply_execute_cases [OF wf, of oid qty] ev spec_find_absent [OF wf_bookD [OF wf], of oid]
      spec_find_located [OF wf_bookD [OF wf]] book_orders_release [OF wf_bookD [OF wf]]
      book_orders_requantify [OF wf_bookD [OF wf]]
    by (auto simp: apply_event_def spec_apply_def ExecuteOrder split: if_splits)
  then show ?thesis using room_ok_ex by blast
qed

subsection \<open>Replace\<close>

lemma book_orders_moved:
  assumes wf: "wf_book b" and loc: "located b s old_price old_id old_a q l"
    and m: "moved ok s old_price old_id old_a price new_id qty b b'"
  shows "book_orders b' = spec_insert
    \<lparr>view_id = new_id, view_side = s, view_price = price, view_quantity = qty\<rparr>
    (spec_delete old_id (book_orders b))"
proof -
  obtain p a p' where b': "pool b = Some p" "node_allocate ok p = (Ptr a, p')"
    "b' = (relink s old_price old_id old_a price new_id a qty b)\<lparr>pool := Some (node_deallocate old_a p')\<rparr>"
    using m by (auto simp: moved_def)
  show ?thesis
    using book_orders_link [OF unlink_wf [OF wf_bookD [OF wf] loc], of s a price new_id qty]
      book_orders_unlink [OF wf_bookD [OF wf] loc] free_slot_fresh(2) [OF wf b'(1,2)] loc
    by (simp add: b'(3) relink_def located_def)
qed

lemma move_to_room:
  assumes wf: "wf_book b" and p: "pool b = Some p" and loc: "located b s old_price old_id old_a q l"
    and mv: "move_to h s old_id \<lparr>loc_side = s, loc_price = old_price, loc_iterator = old_a\<rparr>
      new_id price qty p b = Some (r, b')"
    and new: "new_id \<noteq> old_id \<Longrightarrow> map_of (orders_by_id b) new_id = None"
  shows "room_ok h b (r = Ok)"
proof -
  have c: "r = Ok \<and> moved (pool_vectors_ok h) s old_price old_id old_a price new_id qty b b' \<or>
     r = AllocationFailed \<and> unchanged b b'"
    using move_to_cases [OF wf p loc new, of h price qty] mv by auto
  have "order_count b < book_capacity b" if "r = Ok"
    using c that alloc_needs_room [OF wf] by (auto simp: moved_def)
  moreover have "r = Ok" if g: "heap_grants h" "order_count b < book_capacity b"
  proof -
    obtain a p' where alloc: "node_allocate (pool_vectors_ok h) p = (Ptr a, p')"
      using room_gives_alloc [OF wf g(2), of h] g(1) p by (metis heap_grants_def option.inject)
    have "move_commit s old_id old new_id location qty x = Some (r', y) \<Longrightarrow> r' = Ok"
      for old location x r' y by (auto simp: move_commit_def Let_def split: option.splits)
    then show ?thesis using mv g alloc
      by (auto simp: move_to_with_level heap_grants_def level_granted_def Let_def)
  qed
  ultimately show ?thesis by (auto simp: room_ok_def)
qed

lemma book_replace_refines_spec:
  assumes wf: "wf_book b" and rep: "book_replace h old_id new_id s price qty keep b = Some (r, b')"
  shows "\<exists>room. room_ok h b room \<and>
    (r, book_orders b') = spec_replace room old_id new_id s price qty keep (book_orders b)"
proof (cases "map_of (orders_by_id b) old_id")
  case None
  then show ?thesis
    using rep room_ok_ex [of h b] spec_find_absent [OF wf_bookD [OF wf], of old_id]
    by (auto simp: book_replace_def spec_replace_def)
next
  case (Some old)
  then obtain q l where loc: "located b (loc_side old) (loc_price old) old_id (loc_iterator old) q l"
    by (elim index_located [OF wf_bookD [OF wf]])
  then obtain p where p: "pool b = Some p"
    using wf by (auto simp: wf_book_def located_def split: option.splits)
  note core = wf_bookD [OF wf]
  have sp: "spec_replace room old_id new_id s price qty keep (book_orders b) =
      (if qty = 0 then (InvalidQuantity, book_orders b)
       else if price = 0 then (InvalidPrice, book_orders b)
       else if s \<noteq> loc_side old then (UnknownOrder, book_orders b)
       else if new_id \<noteq> old_id \<and> om_contains (orders_by_id b) new_id then (DuplicateOrder, book_orders b)
       else if keep
       then (if price \<noteq> loc_price old \<or> new_id \<noteq> old_id then (InvalidPrice, book_orders b)
             else (Ok, spec_set_quantity old_id qty (book_orders b)))
       else if \<not> room then (AllocationFailed, book_orders b)
       else (Ok, spec_insert \<lparr>view_id = new_id, view_side = s, view_price = price, view_quantity = qty\<rparr>
                   (spec_delete old_id (book_orders b))))" for room
    by (simp add: spec_replace_def spec_find_located [OF core loc] spec_find_absent [OF core])
  show ?thesis
  proof (cases "qty = 0 \<or> price = 0 \<or> s \<noteq> loc_side old \<or>
      new_id \<noteq> old_id \<and> om_contains (orders_by_id b) new_id \<or> keep")
    case True
    have "(r, book_orders b') = spec_replace room old_id new_id s price qty keep (book_orders b)" for room
      using True rep Some replace_adjust_eq [OF core loc, of qty] book_orders_requantify [OF core loc, of qty]
      unfolding sp by (auto simp: book_replace_def split: if_splits)
    then show ?thesis using room_ok_ex by blast
  next
    case False
    then have mv: "move_to h (loc_side old) old_id old new_id price qty p b = Some (r, b')"
      using rep Some p by (auto simp: book_replace_def)
    have new: "new_id \<noteq> old_id \<Longrightarrow> map_of (orders_by_id b) new_id = None" using False by auto
    have c: "r = Ok \<and> moved (pool_vectors_ok h) (loc_side old) (loc_price old) old_id (loc_iterator old)
          price new_id qty b b' \<or> r = AllocationFailed \<and> unchanged b b'"
      using move_to_cases [OF wf p loc new, of h price qty] mv by auto
    have "(r, book_orders b') = spec_replace (r = Ok) old_id new_id s price qty keep (book_orders b)"
      using c False book_orders_moved [OF wf loc] book_orders_unchanged unfolding sp by auto
    moreover have "room_ok h b (r = Ok)"
      using move_to_room [OF wf p loc _ new] mv by simp
    ultimately show ?thesis by blast
  qed
qed

section \<open>Priority and queries\<close>

text \<open>Best price first; equal prices in queue order; live orders have a price and a quantity.\<close>

definition abs_ok :: "abs_book \<Rightarrow> bool" where
  "abs_ok A \<longleftrightarrow>
     (\<forall>s \<in> {Bid, Ask}. sorted_wrt (\<lambda>v w. \<not> side_lt s (view_price w) (view_price v)) (A s) \<and>
        (\<forall>v \<in> set (A s). view_side v = s \<and> view_price v \<noteq> 0 \<and> view_quantity v \<noteq> 0)) \<and>
     distinct (map view_id (A Bid @ A Ask))"

lemma visit_sorted:
  assumes "om_sorted (side_lt s) ls"
  shows "sorted_wrt (\<lambda>v w. \<not> side_lt s (view_price w) (view_price v)) (visit_orders b s ls)"
  using assms
proof (induction ls)
  case (Cons y ls)
  obtain p x where y: "y = (p, x)" by force
  have "side_lt s p (view_price w)" if "w \<in> set (visit_orders b s ls)" for w
    using visit_prices [OF that] Cons.prems by (auto simp: y om_sorted_def)
  moreover have "sorted_wrt (\<lambda>v w. \<not> side_lt s (view_price w) (view_price v)) (map (order_view b s p) as)" for as
    by (induction as) (auto simp: side_order.lt_irrefl)
  ultimately show ?case
    using Cons side_order.lt_asym by (auto simp: y om_sorted_def sorted_wrt_append)
qed simp

lemma inj_view_ids:
  assumes wf: "wf_core b"
  shows "distinct (map view_id (book_orders b Bid @ book_orders b Ask))"
proof -
  let ?as = "level_nodes (bids b) @ level_nodes (asks b)"
  have ids: "map view_id (visit_orders b s ls) = map (\<lambda>a. entry_order_id (entry_at b a)) (level_nodes ls)" for s ls
    by (induction ls) (auto simp: level_nodes_def)
  have "inj_on (\<lambda>a. entry_order_id (entry_at b a)) (dom (map_of (nodes b)))"
  proof (rule inj_onI)
    fix x y assume "x \<in> dom (map_of (nodes b))" "y \<in> dom (map_of (nodes b))"
      and eq: "entry_order_id (entry_at b x) = entry_order_id (entry_at b y)"
    then obtain e e' where "map_of (nodes b) x = Some e" "map_of (nodes b) y = Some e'" by auto
    then show "x = y"
      using eq wf_nodeD [OF wf, of x e] wf_nodeD [OF wf, of y e'] by (auto simp: node_ok_def entry_at_def)
  qed
  then have "distinct (map (\<lambda>a. entry_order_id (entry_at b a)) ?as)"
    using live_nodes [OF wf] by (simp only: distinct_map)
  then show ?thesis by (simp add: book_orders_def ids)
qed

lemma book_orders_ok:
  assumes wf: "wf_core b"
  shows "abs_ok (book_orders b)"
proof -
  have "view_side v = s \<and> view_price v \<noteq> 0 \<and> view_quantity v \<noteq> 0" if "v \<in> set (book_orders b s)" for v s
    using that in_book_orders [OF wf, of v s] wf_levelD [OF wf] by (auto simp: located_def level_ok_def)
  moreover have "sorted_wrt (\<lambda>v w. \<not> side_lt s (view_price w) (view_price v)) (book_orders b s)"
    if "s \<in> {Bid, Ask}" for s
    using visit_sorted [OF levels_sorted [OF wf, of s], of b] that by (auto simp: book_orders_levels)
  ultimately show ?thesis using inj_view_ids [OF wf] by (simp add: abs_ok_def)
qed

text \<open>The head of a list, as \<open>begin()\<close> gives it.\<close>

definition head :: "'a list \<Rightarrow> 'a option" where
  "head xs = (case xs of [] \<Rightarrow> None | x # _ \<Rightarrow> Some x)"

lemma first_level:
  assumes wf: "wf_core b" and s: "s \<noteq> Side_Other"
  shows "map_option view_price (head (book_orders b s)) = map_option fst (head (levels_of s b))"
proof (cases "levels_of s b")
  case (Cons y ls)
  obtain p x where y: "y = (p, x)" by force
  have "level_ok b s p x" using level_entry [OF wf s] Cons y by auto
  then show ?thesis using Cons s by (auto simp: level_ok_def head_def book_orders_levels y neq_Nil_conv)
qed (use s in \<open>simp add: head_def book_orders_levels\<close>)

lemma best_prices:
  assumes "wf_core b"
  shows "best_bid b = map_option view_price (head (book_orders b Bid))"
    and "best_ask b = map_option view_price (head (book_orders b Ask))"
  using first_level [OF assms, of Bid] first_level [OF assms, of Ask]
  by (auto simp: best_bid_def best_ask_def levels_of_def head_def split: list.splits)

lemma book_order_find:
  assumes wf: "wf_core b"
  shows "book_order oid b = Some (spec_find oid (book_orders b))"
    and "remaining_quantity oid b = Some (map_option view_quantity (spec_find oid (book_orders b)))"
proof -
  have "map_of (nodes b) (loc_iterator loc) \<noteq> None" if "map_of (orders_by_id b) oid = Some loc" for loc
    using wf_indexD [OF wf that] by (auto simp: index_ok_def)
  then show "book_order oid b = Some (spec_find oid (book_orders b))"
    "remaining_quantity oid b = Some (map_option view_quantity (spec_find oid (book_orders b)))"
    by (auto simp: book_order_def remaining_quantity_def spec_find_book [OF wf] entry_at_def split: option.splits)
qed

lemma front_head:
  assumes wf: "wf_core b"
  shows "front s b = Some (head (book_orders b s))"
proof (cases "s = Side_Other")
  case s: False
  show ?thesis
  proof (cases "levels_of s b")
    case Nil
    then show ?thesis using s by (cases s) (auto simp: front_def head_def book_orders_levels levels_of_def)
  next
    case (Cons y ls)
    obtain p x where y: "y = (p, x)" by force
    have "level_ok b s p x" using level_entry [OF wf s] Cons y by auto
    then obtain a as where as: "level_orders x = a # as" and ok: "order_ok b s p a"
      by (auto simp: level_ok_def neq_Nil_conv)
    have "front s b = book_order (entry_order_id (entry_at b a)) b"
      using Cons s as y by (cases s) (auto simp: front_def front_of_def levels_of_def)
    also have "\<dots> = Some (Some (order_view b s p a))"
      using ok by (auto simp: book_order_def order_view_def entry_at_def elim!: order_okE)
    finally show ?thesis using Cons s as by (simp add: head_def book_orders_levels y)
  qed
qed (simp add: front_def head_def)

subsection \<open>Aggregates\<close>

text \<open>A 64-bit sum of 32-bit quantities is exact as long as there are fewer than \<open>2 ^ 32\<close> of them.\<close>

lemma unat_ucast_u64 [simp]: "unat (ucast (q :: u32) :: u64) = unat q"
  using less_trans [OF unsigned_less [of q, where 'a = nat], of "2 ^ 64"]
  by (simp add: unsigned_ucast_eq take_bit_nat_eq_self)

lemma sum_le_bound: "(\<And>x. x \<in> set xs \<Longrightarrow> f x \<le> c) \<Longrightarrow> sum_list (map f xs) \<le> length xs * (c :: nat)"
  by (induction xs) (auto simp: add_mono)

lemma quantity_sum_bound:
  "length qs \<le> 2 ^ 32 \<Longrightarrow> (\<Sum>q \<leftarrow> qs. unat (q :: u32)) < 2 ^ 64"
proof -
  assume len: "length qs \<le> 2 ^ 32"
  have "(\<Sum>q \<leftarrow> qs. unat q) \<le> length qs * (2 ^ 32 - 1)"
  proof (rule sum_le_bound)
    show "unat q \<le> 2 ^ 32 - 1" for q :: u32 using unsigned_less [of q, where 'a = nat] by simp
  qed
  also have "\<dots> \<le> 2 ^ 32 * (2 ^ 32 - 1)" using len by (intro mult_le_mono1)
  also have "\<dots> < 2 ^ 64" by simp
  finally show ?thesis .
qed

lemma level_sum_exact:
  assumes "length as \<le> 2 ^ 32"
  shows "unat (level_sum b as) = (\<Sum>a \<leftarrow> as. unat (entry_remaining (entry_at b a)))"
  using assms
proof (induction as)
  case (Cons a as)
  have "(\<Sum>x \<leftarrow> a # as. unat (entry_remaining (entry_at b x))) < 2 ^ 64"
    using quantity_sum_bound [of "map (\<lambda>x. entry_remaining (entry_at b x)) (a # as)"] Cons.prems
    by (simp add: o_def)
  then show ?case using Cons by (simp add: level_sum_def unat_word_ariths)
qed (simp add: level_sum_def)

text \<open>The stored best quantity is the depth at the best price.\<close>

lemma takeWhile_first_level:
  assumes "om_sorted (side_lt s) ((p, x) # ls)"
  shows "takeWhile (\<lambda>v. view_price v = p) (visit_orders b s ((p, x) # ls)) =
    map (order_view b s p) (level_orders x)"
proof -
  have "view_price v \<noteq> p" if "v \<in> set (visit_orders b s ls)" for v
    using visit_prices [OF that] assms side_order.lt_irrefl by (force simp: om_sorted_def)
  then show ?thesis by (cases "visit_orders b s ls") (auto simp: takeWhile_append)
qed

lemma queue_length_le:
  assumes "wf_core b" "s \<noteq> Side_Other" "(p, x) \<in> set (levels_of s b)"
  shows "length (level_orders x) \<le> order_count b"
proof -
  have "set (level_orders x) \<subseteq> dom (map_of (nodes b))" "distinct (level_orders x)"
    using queued_order [OF assms] level_entry [OF assms] by (auto simp: level_ok_def elim!: order_okE)
  then show ?thesis
    using card_nodes(1) [OF assms(1)] card_mono [of "dom (map_of (nodes b))" "set (level_orders x)"]
    by (simp add: distinct_card finite_dom_map_of)
qed

lemma best_quantity_depth:
  assumes wf: "wf_core b" and few: "order_count b \<le> 2 ^ 32" and s: "s \<noteq> Side_Other"
  shows "unat (best_quantity s b) =
    (case head (book_orders b s) of None \<Rightarrow> 0
     | Some v \<Rightarrow> \<Sum>w \<leftarrow> takeWhile (\<lambda>w. view_price w = view_price v) (book_orders b s). unat (view_quantity w))"
proof (cases "levels_of s b")
  case Nil
  then show ?thesis using s by (cases s) (auto simp: best_quantity_def levels_of_def head_def book_orders_levels)
next
  case (Cons y ls)
  obtain p x where y: "y = (p, x)" by force
  have mem: "(p, x) \<in> set (levels_of s b)" using Cons y by simp
  have ok: "level_ok b s p x" by (rule level_entry [OF wf s mem])
  then obtain a as where as: "level_orders x = a # as" by (auto simp: level_ok_def neq_Nil_conv)
  have "best_quantity s b = level_aggregate x"
    using Cons y s by (cases s) (auto simp: best_quantity_def levels_of_def)
  then have "unat (best_quantity s b) = (\<Sum>a \<leftarrow> level_orders x. unat (entry_remaining (entry_at b a)))"
    using ok level_sum_exact [of "level_orders x" b] queue_length_le [OF wf s mem] few
    by (simp add: level_ok_def)
  moreover have "takeWhile (\<lambda>w. view_price w = p) (book_orders b s) = map (order_view b s p) (level_orders x)"
    using takeWhile_first_level [of s p x ls b] levels_sorted [OF wf, of s] Cons y s
    by (simp add: book_orders_levels)
  moreover have "head (book_orders b s) = Some (order_view b s p a)"
    using Cons y s as by (simp add: book_orders_levels head_def)
  ultimately show ?thesis by (simp add: o_def)
qed

section \<open>The contract of a book\<close>

lemma capacity_unchanged: "unchanged b b' \<Longrightarrow> book_capacity b' = book_capacity b"
  by (auto simp: unchanged_def same_but_pool_def book_capacity_def)

lemma capacity_linked: "wf_book b \<Longrightarrow> linked ok s price oid q b b' \<Longrightarrow> book_capacity b' = book_capacity b"
  by (auto simp: linked_def book_capacity_def dest: free_slot_fresh)

lemma capacity_release:
  "wf_book b \<Longrightarrow> located b s price oid a q l \<Longrightarrow> book_capacity (release s price oid a b) = book_capacity b"
  using node_deallocate_used [of _ a]
  by (auto simp: release_def book_capacity_def wf_book_def located_def split: option.splits)

lemma capacity_requantify: "book_capacity (requantify s price a q b) = book_capacity b"
  by (simp add: book_capacity_def)

lemma capacity_moved:
  assumes "wf_book b" "located b s old_price old_id old_a q l"
    "moved ok s old_price old_id old_a price new_id qty b b'"
  shows "book_capacity b' = book_capacity b"
proof -
  obtain p a p' where b': "pool b = Some p" "node_allocate ok p = (Ptr a, p')"
    "b' = (relink s old_price old_id old_a price new_id a qty b)\<lparr>pool := Some (node_deallocate old_a p')\<rparr>"
    using assms(3) by (auto simp: moved_def)
  show ?thesis
    using free_slot_fresh [OF assms(1) b'(1,2)] node_deallocate_used [of p' old_a] assms(2) b'
    by (auto simp: book_capacity_def located_def)
qed

lemma apply_event_capacity:
  assumes wf: "wf_book b" and ev: "apply_event h ev b = Some (r, b')"
  shows "book_capacity b' = book_capacity b"
proof (cases ev)
  case (AddOrder oid s price qty)
  then have "apply_add h oid s price qty b = (r, b')" using ev by (simp add: apply_event_def)
  from apply_add_cases [OF wf this] show ?thesis
    using capacity_unchanged capacity_linked [OF wf] by blast
next
  case (CancelOrder oid)
  then show ?thesis
    using apply_cancel_cases [OF wf, of oid] capacity_release [OF wf] ev by (auto simp: apply_event_def)
next
  case (ExecuteOrder oid qty)
  then show ?thesis
    using apply_execute_cases [OF wf, of oid qty] capacity_release [OF wf] ev
    by (auto simp: apply_event_def capacity_requantify split: if_splits)
qed

lemma book_replace_capacity:
  assumes wf: "wf_book b" and rep: "book_replace h old_id new_id s price qty keep b = Some (r, b')"
  shows "book_capacity b' = book_capacity b"
  using book_replace_cases [OF wf, of h old_id new_id s price qty keep] rep
    capacity_unchanged capacity_moved [OF wf] capacity_requantify
  by (auto split: if_splits)

text \<open>
  The laws a client of a book relies on: each operation returns, keeps the invariant and the capacity,
  and acts on the view as the list specification does.
\<close>

locale price_time_book =
  fixes inv :: "'b \<Rightarrow> bool" and view :: "'b \<Rightarrow> abs_book" and capacity :: "'b \<Rightarrow> nat"
    and apply_ev :: "heap_env \<Rightarrow> EventPayload \<Rightarrow> 'b \<Rightarrow> (ApplyResult \<times> 'b) option"
    and replace :: "heap_env \<Rightarrow> OrderId \<Rightarrow> OrderId \<Rightarrow> Side \<Rightarrow> Price \<Rightarrow> Quantity \<Rightarrow> bool \<Rightarrow> 'b \<Rightarrow>
      (ApplyResult \<times> 'b) option"
  assumes apply_law: "inv b \<Longrightarrow> \<exists>r b' room. apply_ev h ev b = Some (r, b') \<and> inv b' \<and>
      capacity b' = capacity b \<and> (r, view b') = spec_apply room ev (view b) \<and>
      (room \<longrightarrow> length (view b Bid) + length (view b Ask) < capacity b) \<and>
      (heap_grants h \<and> length (view b Bid) + length (view b Ask) < capacity b \<longrightarrow> room)"
    and replace_law: "inv b \<Longrightarrow> \<exists>r b' room. replace h old_id new_id s price qty keep b = Some (r, b') \<and> inv b' \<and>
      capacity b' = capacity b \<and> (r, view b') = spec_replace room old_id new_id s price qty keep (view b) \<and>
      (room \<longrightarrow> length (view b Bid) + length (view b Ask) < capacity b) \<and>
      (heap_grants h \<and> length (view b Bid) + length (view b Ask) < capacity b \<longrightarrow> room)"
    and view_ok: "inv b \<Longrightarrow> abs_ok (view b) \<and> length (view b Bid) + length (view b Ask) \<le> capacity b"
begin

lemma apply_cases:
  assumes "inv b"
  obtains r b' room where "apply_ev h ev b = Some (r, b')" "inv b'" "capacity b' = capacity b"
    "(r, view b') = spec_apply room ev (view b)"
    "heap_grants h \<Longrightarrow> length (view b Bid) + length (view b Ask) < capacity b \<Longrightarrow> room"
  using apply_law [OF assms, of h ev] by blast

lemma apply_defined:
  "inv b \<Longrightarrow> apply_ev h ev b = Some (r, b') \<Longrightarrow>
   inv b' \<and> capacity b' = capacity b \<and> (\<exists>room. (r, view b') = spec_apply room ev (view b))"
  using apply_law [of b h ev] by auto

lemma replace_defined:
  "inv b \<Longrightarrow> replace h old_id new_id s price qty keep b = Some (r, b') \<Longrightarrow>
   inv b' \<and> capacity b' = capacity b \<and>
   (\<exists>room. (r, view b') = spec_replace room old_id new_id s price qty keep (view b))"
  using replace_law [of b h old_id new_id s price qty keep] by auto

text \<open>A failed operation changes nothing a client can see.\<close>

lemma apply_failed:
  assumes "inv b" "apply_ev h ev b = Some (r, b')" "r \<noteq> Ok"
  shows "view b' = view b"
  using apply_defined [OF assms(1,2)] spec_apply_failed assms(3) by metis

lemma replace_failed:
  assumes "inv b" "replace h old_id new_id s price qty keep b = Some (r, b')" "r \<noteq> Ok"
  shows "view b' = view b"
  using replace_defined [OF assms(1,2)] spec_replace_failed assms(3) by metis

end

interpretation lob: price_time_book wf_book book_orders book_capacity apply_event book_replace
proof (rule price_time_book.intro)
  fix b h ev assume wf: "wf_book b"
  note count = card_nodes(2) [OF wf_bookD [OF wf]]
  show "\<exists>r b' room. apply_event h ev b = Some (r, b') \<and> wf_book b' \<and>
      book_capacity b' = book_capacity b \<and> (r, book_orders b') = spec_apply room ev (book_orders b) \<and>
      (room \<longrightarrow> length (book_orders b Bid) + length (book_orders b Ask) < book_capacity b) \<and>
      (heap_grants h \<and> length (book_orders b Bid) + length (book_orders b Ask) < book_capacity b \<longrightarrow> room)"
    using apply_event_wf [OF wf, of h ev] apply_event_refines_spec [OF wf, of h ev]
      apply_event_capacity [OF wf, of h ev]
    unfolding count room_ok_def by metis
next
  fix b h old_id new_id s price qty keep assume wf: "wf_book b"
  note count = card_nodes(2) [OF wf_bookD [OF wf]]
  show "\<exists>r b' room. book_replace h old_id new_id s price qty keep b = Some (r, b') \<and> wf_book b' \<and>
      book_capacity b' = book_capacity b \<and>
      (r, book_orders b') = spec_replace room old_id new_id s price qty keep (book_orders b) \<and>
      (room \<longrightarrow> length (book_orders b Bid) + length (book_orders b Ask) < book_capacity b) \<and>
      (heap_grants h \<and> length (book_orders b Bid) + length (book_orders b Ask) < book_capacity b \<longrightarrow> room)"
    using book_replace_wf [OF wf, of h old_id new_id s price qty keep]
      book_replace_refines_spec [OF wf, of h old_id new_id s price qty keep]
      book_replace_capacity [OF wf, of h old_id new_id s price qty keep]
    unfolding count room_ok_def by metis
next
  fix b assume wf: "wf_book b"
  show "abs_ok (book_orders b) \<and>
      length (book_orders b Bid) + length (book_orders b Ask) \<le> book_capacity b"
    using book_orders_ok [OF wf_bookD [OF wf]] card_nodes(2) [OF wf_bookD [OF wf]] capacity_bound [OF wf] by simp
qed

section \<open>A new book\<close>

definition empty_book :: abs_book where
  "empty_book = (\<lambda>_. [])"

text \<open>What \<open>operator new\<close> promises of the block it returns for a default-sized pool.\<close>

definition block_ok :: "nat option \<Rightarrow> bool" where
  "block_ok block \<longleftrightarrow> (\<forall>a. block = Some a \<longrightarrow> 0 < a \<and> a + CAPACITY_BYTES \<le> 2 ^ 64)"

lemma book_orders_new:
  assumes "OrderBook_default block = Some b" "block_ok block"
  shows "wf_book b" "book_orders b = empty_book"
proof -
  obtain a where a: "block = Some a"
    using assms(1) by (auto simp: OrderBook_default_def OrderBook_new_def FixedSlotPool_new_def
        split: option.splits if_splits)
  note new = OrderBook_new_wf [of a CAPACITY_BYTES b]
  show "wf_book b" using new assms a by (simp add: OrderBook_default_def block_ok_def)
  show "book_orders b = empty_book"
    using new assms a by (auto simp: OrderBook_default_def block_ok_def book_orders_def empty_book_def fun_eq_iff)
qed

end
