(* ===== verification/Order_Registry.thy ===== *)
theory Order_Registry
  imports Order_Book_Spec
begin

text \<open>
  include/order_book/core/order_registry.hpp: one book per instrument, created by the first add for it,
  and the sequence number of the last event that was applied. The registry only uses the contract
  \<open>price_time_book\<close> of a book, through its interpretation \<open>lob\<close>.
\<close>

section \<open>State and operations\<close>

text \<open>
  What the environment decides when a book is created: the node of \<open>books_\<close> and the block of the new
  book's pool. The calls of an attached logger are kept in order.
\<close>

record registry_env =
  books_node_ok :: bool
  book_block :: "nat option"
  book_heap :: heap_env

record OrderBookRegistry =
  reg_logged :: "(MarketEvent \<times> ApplyResult) list option"
  reg_sequence :: Sequence
  reg_books :: "(InstrumentId \<times> OrderBook) list"

definition OrderBookRegistry_new :: "bool \<Rightarrow> OrderBookRegistry" where
  "OrderBookRegistry_new with_logger =
     \<lparr>reg_logged = (if with_logger then Some [] else None), reg_sequence = 0, reg_books = []\<rparr>"

definition set_book :: "InstrumentId \<Rightarrow> OrderBook \<Rightarrow> OrderBookRegistry \<Rightarrow> OrderBookRegistry" where
  "set_book i b r = r\<lparr>reg_books := om_put (<) i b (reg_books r)\<rparr>"

text \<open>
  The private overloads. The inner \<open>None\<close> of an add is \<open>bad_alloc\<close>, thrown by \<open>try_emplace\<close> before the map
  changes; the outer one is a dangling read.
\<close>

definition registry_add ::
    "registry_env \<Rightarrow> EventPayload \<Rightarrow> InstrumentId \<Rightarrow> OrderBookRegistry \<Rightarrow>
     (ApplyResult \<times> OrderBookRegistry) option option" where
  "registry_add env ev i r =
     (case map_of (reg_books r) i of
        Some b \<Rightarrow> map_option (\<lambda>(res, b'). Some (res, set_book i b' r)) (apply_event (book_heap env) ev b)
      | None \<Rightarrow>
          if \<not> books_node_ok env then Some None
          else (case OrderBook_default (book_block env) of
              None \<Rightarrow> Some None
            | Some b \<Rightarrow>
                map_option (\<lambda>(res, b'). Some (res,
                    if res \<noteq> Ok then r\<lparr>reg_books := om_erase i (reg_books (set_book i b' r))\<rparr>
                    else set_book i b' r)) (apply_event (book_heap env) ev b)))"

definition registry_update ::
    "registry_env \<Rightarrow> EventPayload \<Rightarrow> InstrumentId \<Rightarrow> OrderBookRegistry \<Rightarrow>
     (ApplyResult \<times> OrderBookRegistry) option" where
  "registry_update env ev i r =
     (case map_of (reg_books r) i of
        None \<Rightarrow> Some (UnknownInstrument, r)
      | Some b \<Rightarrow> map_option (\<lambda>(res, b'). (res, set_book i b' r)) (apply_event (book_heap env) ev b))"

definition registry_visit ::
    "registry_env \<Rightarrow> MarketEvent \<Rightarrow> OrderBookRegistry \<Rightarrow> (ApplyResult \<times> OrderBookRegistry) option option" where
  "registry_visit env ev r =
     (case ev_payload ev of
        AddOrder _ _ _ _ \<Rightarrow> registry_add env (ev_payload ev) (ev_instrument_id ev) r
      | CancelOrder _ \<Rightarrow> map_option Some (registry_update env (ev_payload ev) (ev_instrument_id ev) r)
      | ExecuteOrder _ _ \<Rightarrow> map_option Some (registry_update env (ev_payload ev) (ev_instrument_id ev) r))"

definition registry_apply ::
    "registry_env \<Rightarrow> MarketEvent \<Rightarrow> OrderBookRegistry \<Rightarrow> (ApplyResult \<times> OrderBookRegistry) option" where
  "registry_apply env ev r =
     map_option (\<lambda>visited.
         let (res, r1) = (case visited of None \<Rightarrow> (AllocationFailed, r) | Some x \<Rightarrow> x);
             r2 = (if res = Ok then r1\<lparr>reg_sequence := ev_sequence ev\<rparr> else r1)
         in (res, r2\<lparr>reg_logged := map_option (\<lambda>l. l @ [(ev, res)]) (reg_logged r2)\<rparr>))
       (registry_visit env ev r)"

definition seq_valid :: "Sequence \<Rightarrow> OrderBookRegistry \<Rightarrow> bool" where
  "seq_valid sq r \<longleftrightarrow> reg_sequence r < sq \<and> sq - reg_sequence r = 1"

text \<open>The walks over all books; only the order in which a failing book is met is left to the hash map.\<close>

fun validate_books :: "(InstrumentId \<times> OrderBook) list \<Rightarrow> string + unit" where
  "validate_books [] = Inr ()"
| "validate_books ((_, b) # bs) =
     (case validate_invariants b of Inl reason \<Rightarrow> Inl reason | Inr _ \<Rightarrow> validate_books bs)"

definition registry_validate :: "OrderBookRegistry \<Rightarrow> string + unit" where
  "registry_validate r = validate_books (reg_books r)"

definition registry_order_count :: "OrderBookRegistry \<Rightarrow> nat" where
  "registry_order_count r = sum_list (map (\<lambda>(_, b). order_count b) (reg_books r))"

definition registry_bid_level_count :: "OrderBookRegistry \<Rightarrow> nat" where
  "registry_bid_level_count r = sum_list (map (\<lambda>(_, b). bid_level_count b) (reg_books r))"

definition registry_ask_level_count :: "OrderBookRegistry \<Rightarrow> nat" where
  "registry_ask_level_count r = sum_list (map (\<lambda>(_, b). ask_level_count b) (reg_books r))"

definition instrument_count :: "OrderBookRegistry \<Rightarrow> nat" where
  "instrument_count r = length (reg_books r)"

section \<open>The invariant and the view\<close>

definition wf_registry :: "OrderBookRegistry \<Rightarrow> bool" where
  "wf_registry r \<longleftrightarrow> om_sorted (<) (reg_books r) \<and>
     (\<forall>i b. map_of (reg_books r) i = Some b \<longrightarrow> wf_book b)"

definition registry_view :: "OrderBookRegistry \<Rightarrow> InstrumentId \<Rightarrow> abs_book" where
  "registry_view r i = (case map_of (reg_books r) i of None \<Rightarrow> empty_book | Some b \<Rightarrow> book_orders b)"

text \<open>The registry as independent books; \<open>room\<close> and \<open>created\<close> are decided by the storage.\<close>

definition spec_registry ::
    "bool \<Rightarrow> bool \<Rightarrow> bool \<Rightarrow> MarketEvent \<Rightarrow> (InstrumentId \<Rightarrow> abs_book) \<Rightarrow>
     ApplyResult \<times> (InstrumentId \<Rightarrow> abs_book)" where
  "spec_registry known created room ev R =
     (let i = ev_instrument_id ev in
      if \<not> known \<and> (case ev_payload ev of AddOrder _ _ _ _ \<Rightarrow> False | _ \<Rightarrow> True) then (UnknownInstrument, R)
      else if \<not> known \<and> \<not> created then (AllocationFailed, R)
      else case spec_apply room (ev_payload ev) (R i) of (res, A) \<Rightarrow> (res, R(i := A)))"

lemma view_set_book [simp]: "registry_view (set_book i b r) = (registry_view r)(i := book_orders b)"
  by (auto simp: registry_view_def set_book_def fun_eq_iff)

lemma wf_set_book: "wf_registry r \<Longrightarrow> wf_book b \<Longrightarrow> wf_registry (set_book i b r)"
  by (auto simp: wf_registry_def set_book_def intro: om_less.sorted_put)

lemma registry_view_same [simp]:
  "registry_view (r\<lparr>reg_sequence := x\<rparr>) = registry_view r" "registry_view (r\<lparr>reg_logged := y\<rparr>) = registry_view r"
  by (auto simp: registry_view_def fun_eq_iff)

lemma wf_registry_same [simp]:
  "wf_registry (r\<lparr>reg_sequence := x\<rparr>) = wf_registry r" "wf_registry (r\<lparr>reg_logged := y\<rparr>) = wf_registry r"
  by (auto simp: wf_registry_def)

lemma erase_new_book:
  assumes "wf_registry r" "map_of (reg_books r) i = None"
  shows "r\<lparr>reg_books := om_erase i (reg_books (set_book i b r))\<rparr> = r"
  using om_less.erase_put_undo [of "reg_books r" i b] assms by (simp add: set_book_def wf_registry_def)

text \<open>The overload that runs, in terms of one book.\<close>

lemma registry_visit_refines:
  assumes wf: "wf_registry r" and blk: "block_ok (book_block env)"
  shows "\<exists>visited. registry_visit env ev r = Some visited \<and>
    (let (res, r1) = (case visited of None \<Rightarrow> (AllocationFailed, r) | Some x \<Rightarrow> x) in
     wf_registry r1 \<and> reg_sequence r1 = reg_sequence r \<and> reg_logged r1 = reg_logged r \<and>
     (\<exists>created room. (res, registry_view r1) =
        spec_registry (om_contains (reg_books r) (ev_instrument_id ev)) created room ev (registry_view r)))"
proof (cases "map_of (reg_books r) (ev_instrument_id ev)")
  case (Some b)
  let ?i = "ev_instrument_id ev"
  have b: "wf_book b" using wf Some by (auto simp: wf_registry_def)
  obtain res b' room where step: "apply_event (book_heap env) (ev_payload ev) b = Some (res, b')" "wf_book b'"
    "(res, book_orders b') = spec_apply room (ev_payload ev) (book_orders b)"
    using lob.apply_cases [OF b] by metis
  have v: "registry_visit env ev r = Some (Some (res, set_book ?i b' r))"
    using Some step by (auto simp: registry_visit_def registry_add_def registry_update_def split: EventPayload.splits)
  have "registry_view r ?i = book_orders b" using Some by (simp add: registry_view_def)
  then have "(res, registry_view (set_book ?i b' r)) = spec_registry True created room ev (registry_view r)" for created
    using step(3) by (auto simp: spec_registry_def Let_def split: prod.splits)
  moreover have "reg_sequence (set_book ?i b' r) = reg_sequence r" "reg_logged (set_book ?i b' r) = reg_logged r"
    by (simp_all add: set_book_def)
  ultimately show ?thesis using v Some wf_set_book [OF wf step(2)] by auto
next
  case None
  let ?i = "ev_instrument_id ev"
  have emp: "registry_view r ?i = empty_book" using None by (simp add: registry_view_def)
  show ?thesis
  proof (cases "(case ev_payload ev of AddOrder _ _ _ _ \<Rightarrow> False | _ \<Rightarrow> True) \<or> \<not> books_node_ok env \<or>
      OrderBook_default (book_block env) = None")
    case True
    then have "registry_visit env ev r = Some None \<and> (case ev_payload ev of AddOrder _ _ _ _ \<Rightarrow> True | _ \<Rightarrow> False) \<or>
        registry_visit env ev r = Some (Some (UnknownInstrument, r)) \<and>
        (case ev_payload ev of AddOrder _ _ _ _ \<Rightarrow> False | _ \<Rightarrow> True)"
      using None by (auto simp: registry_visit_def registry_add_def registry_update_def split: EventPayload.splits)
    then show ?thesis
      using None wf by (cases "ev_payload ev") (auto simp: spec_registry_def Let_def intro: exI [of _ False])
  next
    case False
    then obtain b where b: "OrderBook_default (book_block env) = Some b" "books_node_ok env"
      and add: "case ev_payload ev of AddOrder _ _ _ _ \<Rightarrow> True | _ \<Rightarrow> False"
      by (auto split: EventPayload.splits)
    note new = book_orders_new [OF b(1) blk]
    obtain res b' room where step: "apply_event (book_heap env) (ev_payload ev) b = Some (res, b')" "wf_book b'"
      "(res, book_orders b') = spec_apply room (ev_payload ev) (book_orders b)"
      using lob.apply_cases [OF new(1)] by metis
    have v: "registry_visit env ev r = Some (Some (res, if res \<noteq> Ok then r else set_book ?i b' r))"
      using None b step add erase_new_book [OF wf None]
      by (auto simp: registry_visit_def registry_add_def split: EventPayload.splits)
    have "res \<noteq> Ok \<Longrightarrow> book_orders b' = empty_book"
      using step(3) new(2) spec_apply_failed by metis
    then have "(res, registry_view (if res \<noteq> Ok then r else set_book ?i b' r)) =
        spec_registry False True room ev (registry_view r)"
      using step(3) new(2) emp add
      by (auto simp: spec_registry_def Let_def fun_upd_idem split: prod.splits EventPayload.splits)
    moreover have "reg_sequence (set_book ?i b' r) = reg_sequence r" "reg_logged (set_book ?i b' r) = reg_logged r"
      by (simp_all add: set_book_def)
    ultimately show ?thesis using v None wf wf_set_book [OF wf step(2)] by (auto split: if_splits)
  qed
qed

lemma registry_apply_refines:
  assumes wf: "wf_registry r" and blk: "block_ok (book_block env)"
  shows "\<exists>res r'. registry_apply env ev r = Some (res, r') \<and> wf_registry r' \<and>
    reg_sequence r' = (if res = Ok then ev_sequence ev else reg_sequence r) \<and>
    reg_logged r' = map_option (\<lambda>l. l @ [(ev, res)]) (reg_logged r) \<and>
    (\<exists>created room. (res, registry_view r') =
       spec_registry (om_contains (reg_books r) (ev_instrument_id ev)) created room ev (registry_view r))"
proof -
  obtain visited where vis: "registry_visit env ev r = Some visited"
    "let (res, r1) = (case visited of None \<Rightarrow> (AllocationFailed, r) | Some x \<Rightarrow> x) in
     wf_registry r1 \<and> reg_sequence r1 = reg_sequence r \<and> reg_logged r1 = reg_logged r \<and>
     (\<exists>created room. (res, registry_view r1) =
        spec_registry (om_contains (reg_books r) (ev_instrument_id ev)) created room ev (registry_view r))"
    using registry_visit_refines [OF wf blk, of ev] by blast
  obtain res r1 where "(case visited of None \<Rightarrow> (AllocationFailed, r) | Some x \<Rightarrow> x) = (res, r1)" by force
  with vis show ?thesis by (auto simp: registry_apply_def Let_def)
qed

lemma seq_valid_next: "seq_valid sq r \<longleftrightarrow> unat sq = Suc (unat (reg_sequence r))"
proof -
  have "sq - reg_sequence r = 1 \<longleftrightarrow> unat sq - unat (reg_sequence r) = 1" if "reg_sequence r < sq"
    using that unat_sub [of "reg_sequence r" sq] by (auto simp: word_unat_eq_iff)
  then show ?thesis
    by (auto simp: seq_valid_def word_less_nat_alt)
qed

section \<open>Theorems\<close>

inductive registry_reachable :: "OrderBookRegistry \<Rightarrow> bool" where
  registry_new: "registry_reachable (OrderBookRegistry_new with_logger)"
| registry_step: "registry_reachable r \<Longrightarrow> block_ok (book_block env) \<Longrightarrow> registry_apply env ev r = Some (res, r') \<Longrightarrow>
    registry_reachable r'"

lemma registry_reachable_wf: "registry_reachable r \<Longrightarrow> wf_registry r"
proof (induction rule: registry_reachable.induct)
  case (registry_new with_logger)
  then show ?case by (simp add: OrderBookRegistry_new_def wf_registry_def om_sorted_def)
next
  case (registry_step r env ev res r')
  then show ?case using registry_apply_refines [of r env ev] by auto
qed


definition demo_env :: registry_env where
  "demo_env = \<lparr>books_node_ok = True, book_block = Some 65536,
     book_heap = \<lparr>level_node_ok = True, pool_vectors_ok = True, index_node_ok = True\<rparr>\<rparr>"


text \<open>
  The sequence check accepts exactly the successor of the last committed number; at the largest
  64-bit number it accepts nothing, so a sequence never wraps to zero.
\<close>

theorem seq_valid_is_successor:
  "seq_valid sq r \<longleftrightarrow> unat sq = Suc (unat (reg_sequence r))"
  by (rule seq_valid_next)

end
