(* ===== verification/Wire_Bytes.thy ===== *)
theory Wire_Bytes
  imports Prelude
begin

unbundle bit_operations_syntax

text \<open>
  Integers as bytes on the wire: the big-endian \<open>put\<close> and \<open>get\<close> loops that src/trading/messages.cpp
  and src/net/protocol.cpp share, as writes to and reads from a list of bytes, and the laws that
  make the codecs round trip. A codec is seen as a list of consecutive fields, so a frame is the
  concatenation of its slices.
\<close>

section \<open>The loops\<close>

text \<open>One byte per iteration, the last one first, while the value is shifted down.\<close>

fun put_be :: "u8 list \<Rightarrow> nat \<Rightarrow> u64 \<Rightarrow> nat \<Rightarrow> u8 list" where
  "put_be b at v 0 = b"
| "put_be b at v (Suc i) = put_be (b[at + i := ucast (v AND 255)]) at (drop_bit 8 v) i"

definition get_be :: "u8 list \<Rightarrow> nat \<Rightarrow> nat \<Rightarrow> u64" where
  "get_be b at n = foldl (\<lambda>v i. push_bit 8 v OR ucast (b ! (at + i))) 0 [0..<n]"

section \<open>Values and their bytes\<close>

fun be_bytes :: "nat \<Rightarrow> u64 \<Rightarrow> u8 list" where
  "be_bytes 0 v = []"
| "be_bytes (Suc n) v = be_bytes n (drop_bit 8 v) @ [ucast v]"

definition be_value :: "u8 list \<Rightarrow> u64" where
  "be_value bs = foldl (\<lambda>v b. push_bit 8 v OR ucast b) 0 bs"

lemma length_be_bytes [simp]: "length (be_bytes n v) = n"
  by (induction n arbitrary: v) simp_all

lemma be_value_Nil [simp]: "be_value [] = 0"
  by (simp add: be_value_def)

lemma be_value_snoc [simp]: "be_value (bs @ [b]) = push_bit 8 (be_value bs) OR ucast b"
  by (simp add: be_value_def)

lemma be_value_bytes: "be_value (be_bytes n v) = take_bit (8 * n) v"
proof (induction n arbitrary: v)
  case (Suc n)
  show ?case
    unfolding be_bytes.simps be_value_snoc Suc
    by (rule bit_eqI) (auto simp: bit_simps)
qed simp

lemma be_value_bound: "take_bit (8 * length bs) (be_value bs) = be_value bs"
proof (induction bs rule: rev_induct)
  case (snoc b bs)
  have "bit (be_value bs) k \<Longrightarrow> k < 8 * length bs" for k
    using arg_cong [OF snoc, of "\<lambda>w. bit w k"] by (simp add: bit_simps)
  then have high: "bit (be_value bs) (k - 8) \<Longrightarrow> k - 8 < 8 * length bs" for k by blast
  show ?case
    by (rule bit_eqI) (use high in \<open>force simp: bit_simps dest: bit_imp_le_length\<close>)
qed simp

lemma be_bytes_value: "length bs \<le> 8 \<Longrightarrow> be_bytes (length bs) (be_value bs) = bs"
proof (induction bs rule: rev_induct)
  case (snoc b bs)
  have high: "bit (be_value bs) k \<Longrightarrow> k < 8 * length bs" for k
    using arg_cong [OF be_value_bound [of bs], of "\<lambda>w. bit w k"] by (simp add: bit_simps)
  have "drop_bit 8 (push_bit 8 (be_value bs) OR ucast b) = be_value bs"
    by (rule bit_eqI) (use high snoc.prems in \<open>force simp: bit_simps dest: bit_imp_le_length\<close>)
  moreover have "(ucast (push_bit 8 (be_value bs) OR ucast b) :: u8) = b"
    by (rule bit_eqI) (auto simp: bit_simps)
  ultimately show ?case using snoc by simp
qed simp

section \<open>The loops as slices\<close>

definition slice :: "nat \<Rightarrow> nat \<Rightarrow> 'a list \<Rightarrow> 'a list" where
  "slice at n b = take n (drop at b)"

lemma length_slice [simp]: "at + n \<le> length b \<Longrightarrow> length (slice at n b) = n"
  by (simp add: slice_def)

lemma get_be_slice:
  assumes "at + n \<le> length b"
  shows "get_be b at n = be_value (slice at n b)"
proof -
  have "foldl (\<lambda>v i. push_bit 8 v OR ucast (b ! (at + i))) v [0..<n] =
      foldl (\<lambda>v x. push_bit 8 v OR ucast x) v (map (\<lambda>i. b ! (at + i)) [0..<n])" for v :: u64
    by (simp add: foldl_map)
  moreover have "map (\<lambda>i. b ! (at + i)) [0..<n] = slice at n b"
    using assms by (auto simp: slice_def list_eq_iff_nth_eq)
  ultimately show ?thesis by (simp add: get_be_def be_value_def)
qed

lemma low_byte: "(ucast (v AND 255) :: u8) = ucast (v :: u64)"
proof -
  have "v AND 255 = take_bit 8 v" by (simp add: take_bit_eq_mask mask_eq_exp_minus_1)
  then show ?thesis by (simp only:) (rule bit_eqI, auto simp: bit_simps)
qed

lemma length_put_be [simp]: "length (put_be b at v n) = length b"
  by (induction n arbitrary: b v) simp_all

lemma put_be_slices:
  "at + n \<le> length b \<Longrightarrow> put_be b at v n = take at b @ be_bytes n v @ drop (at + n) b"
proof (induction n arbitrary: b v)
  case (Suc n)
  have "drop (at + n) (b[at + n := ucast v]) = ucast v # drop (Suc (at + n)) b"
    using Suc.prems by (simp add: drop_update_swap Cons_nth_drop_Suc [symmetric])
  then show ?case using Suc by (simp add: low_byte)
qed simp

lemma slice_append1: "at + n \<le> length xs \<Longrightarrow> slice at n (xs @ ys) = slice at n xs"
  by (simp add: slice_def)

lemma slice_append2: "length xs \<le> at \<Longrightarrow> slice at n (xs @ ys) = slice (at - length xs) n ys"
  by (simp add: slice_def)

lemma slice_all: "length xs = n \<Longrightarrow> slice 0 n xs = xs"
  by (simp add: slice_def)

lemma slice_one: "i < length b \<Longrightarrow> slice i 1 b = [b ! i]"
  by (simp add: slice_def take_Suc_conv_app_nth Cons_nth_drop_Suc [symmetric])

text \<open>A list is the concatenation of consecutive slices.\<close>

fun slices :: "nat \<Rightarrow> nat list \<Rightarrow> 'a list \<Rightarrow> 'a list list" where
  "slices at [] b = []"
| "slices at (n # ns) b = slice at n b # slices (at + n) ns b"

lemma concat_slices: "concat (slices at ns b) = slice at (sum_list ns) b"
proof (induction ns arbitrary: at)
  case (Cons n ns)
  then show ?case by (simp add: slice_def take_add add.commute)
qed (simp add: slice_def)

lemma slices_concat:
  "map length cs = ns \<Longrightarrow> slices (length pre) ns (pre @ concat cs) = cs"
proof (induction cs arbitrary: ns pre)
  case (Cons c cs)
  have "slices (length (pre @ c)) (map length cs) ((pre @ c) @ concat cs) = cs" by (rule Cons.IH) simp
  then show ?case using Cons.prems by (auto simp: slice_def)
qed auto

lemma slices_concat0: "map length cs = ns \<Longrightarrow> slices 0 ns (concat cs) = cs"
  using slices_concat [of cs ns "[]"] by simp

section \<open>Reading back what was written\<close>

named_theorems wire_simps \<open>slices and bytes of a frame under construction\<close>

lemma slice_put_same [wire_simps]: "at + n \<le> length b \<Longrightarrow> slice at n (put_be b at v n) = be_bytes n v"
  by (simp add: put_be_slices slice_def)

lemma slice_upd_same [wire_simps]: "i < length b \<Longrightarrow> slice i (Suc 0) (b[i := x]) = [x]"
  by (simp add: slice_def take_Suc_conv_app_nth drop_update_swap Cons_nth_drop_Suc [symmetric])

lemma slice_ext:
  "length b = length c \<Longrightarrow> (\<And>i. at \<le> i \<Longrightarrow> i < at + n \<Longrightarrow> i < length b \<Longrightarrow> b ! i = c ! i) \<Longrightarrow>
   slice at n b = slice at n c"
  by (auto simp: slice_def list_eq_iff_nth_eq)

lemma nth_put_other [wire_simps]:
  "at + n \<le> length b \<Longrightarrow> i < at \<or> at + n \<le> i \<Longrightarrow> i < length b \<Longrightarrow> put_be b at v n ! i = b ! i"
  by (auto simp: put_be_slices nth_append)

lemma slice_put_other [wire_simps]:
  assumes "at + n \<le> length b" "at' + n' \<le> at \<or> at + n \<le> at'"
  shows "slice at' n' (put_be b at v n) = slice at' n' b"
proof (rule slice_ext)
  show "put_be b at v n ! i = b ! i" if "at' \<le> i" "i < at' + n'" "i < length (put_be b at v n)" for i
    using assms that by (intro nth_put_other) auto
qed simp

lemma slice_upd_other [wire_simps]:
  "at' + n' \<le> i \<or> i < at' \<Longrightarrow> slice at' n' (b[i := x]) = slice at' n' b"
  by (rule slice_ext) auto

lemma slice_replicate [wire_simps]: "at + n \<le> m \<Longrightarrow> slice at n (replicate m x) = replicate n x"
  by (simp add: slice_def)

lemma frame_eqI:
  assumes "sum_list ns = length b" "length c = length b" "slices 0 ns b = slices 0 ns c"
  shows "b = c"
proof -
  have "slice 0 (length b) b = slice 0 (length b) c"
    using arg_cong [OF assms(3), of concat] by (simp only: concat_slices assms(1))
  then show ?thesis using assms(2) by (simp add: slice_def)
qed

lemma slice_get_be: "n \<le> 8 \<Longrightarrow> at + n \<le> length b \<Longrightarrow> be_bytes n (get_be b at n) = slice at n b"
  using be_bytes_value [of "slice at n b"] by (simp add: get_be_slice)

lemma nth_slice: "i < length b \<Longrightarrow> b ! i = slice i (Suc 0) b ! 0"
  by (simp add: slice_def)

text \<open>Narrow values survive the trip through a 64-bit word.\<close>

lemma take_bit_32_ucast: "ucast (take_bit 32 (ucast (x :: u32) :: u64)) = x"
  by (rule bit_eqI) (auto simp: bit_simps)

lemma take_bit_64 [simp]: "take_bit 64 (x :: u64) = x"
  by (rule bit_eqI) (auto simp: bit_simps dest: bit_imp_le_length)

lemma take_bit_64' [simp]: "take_bit (8 * 8) (x :: u64) = x"
  using take_bit_64 [of x] by simp

lemma ucast_get_4:
  "at + 4 \<le> length b \<Longrightarrow> (ucast (ucast (get_be b at 4) :: u32) :: u64) = get_be b at 4"
proof -
  assume len: "at + 4 \<le> length b"
  have "get_be b at 4 = take_bit 32 (get_be b at 4)"
    using be_value_bound [of "slice at 4 b"] len by (simp add: get_be_slice)
  moreover have "(ucast (ucast (x :: u64) :: u32) :: u64) = take_bit 32 x" for x
    by (rule bit_eqI) (auto simp: bit_simps)
  ultimately show ?thesis by simp
qed

end
