(* ===== verification/Messages.thy ===== *)
theory Messages
  imports Core_Types Wire_Bytes
begin

text \<open>
  include/order_book/trading/messages.hpp and src/trading/messages.cpp: the one message type of the
  trading system and its 96-byte wire frame. A frame is a list of 96 bytes, \<open>encode\<close> returns \<open>None\<close>
  where the source throws \<open>invalid_argument\<close>.
\<close>

section \<open>The message\<close>

type_synonym ClientId = u32

datatype Kind = Command | Report | Delta | Heartbeat | SnapshotBegin | SnapshotOrder | SnapshotEnd | Kind_Other
datatype Action = Act_New | Act_Cancel | Act_Replace | Act_CancelAll | Act_Snapshot | Act_Status | Act_Other
datatype OrderType = Limit | Market | OrderType_Other
datatype TimeInForce = GTC | IOC | FOK | Tif_Other
datatype ReportType = Rpt_Accepted | Rpt_Rejected | Rpt_Fill | Rpt_Cancelled | Rpt_Replaced | Rpt_Complete
  | Rpt_Status | Rpt_Other
datatype UpdateType = Upd_Add | Upd_Cancel | Upd_Execute | Upd_Reduce | Upd_Trade | Upd_Other
datatype Reject = Rej_None | Rej_InvalidCommand | Rej_UnknownInstrument | Rej_InvalidPrice
  | Rej_InvalidQuantity | Rej_DuplicateOrder | Rej_UnknownOrder | Rej_Sequence | Rej_PostOnly | Rej_Fok
  | Rej_SelfTrade | Rej_RiskQuantity | Rej_RiskNotional | Rej_RiskPosition | Rej_RiskOpenOrders
  | Rej_Capacity | Rej_SessionBusy | Rej_KillSwitch | Rej_Other

record Message =
  m_kind :: Kind
  m_action :: Action
  m_side :: Side
  m_order_type :: OrderType
  m_tif :: TimeInForce
  m_report :: ReportType
  m_reject :: Reject
  m_update :: UpdateType
  m_post_only :: bool
  m_epoch :: u64
  m_sequence :: Sequence
  m_client_id :: ClientId
  m_price :: Price
  m_request_id :: u64
  m_order_id :: OrderId
  m_exchange_id :: OrderId
  m_instrument_id :: InstrumentId
  m_quantity :: Quantity
  m_remaining :: Quantity
  m_trade_id :: u64

definition default_message :: Message where
  "default_message = \<lparr>m_kind = Command, m_action = Act_New, m_side = Bid, m_order_type = Limit, m_tif = GTC,
     m_report = Rpt_Accepted, m_reject = Rej_None, m_update = Upd_Add, m_post_only = False, m_epoch = 0,
     m_sequence = 0, m_client_id = 0, m_price = 0, m_request_id = 0, m_order_id = 0, m_exchange_id = 0,
     m_instrument_id = 0, m_quantity = 0, m_remaining = 0, m_trade_id = 0\<rparr>"

section \<open>Enumerators on the wire\<close>

text \<open>
  \<open>static_cast\<close> to and from the underlying byte. The value of an \<open>_Other\<close> constructor is one outside the
  enumerators; the decoder refuses every such byte.
\<close>

fun kind_byte :: "Kind \<Rightarrow> u8" where
  "kind_byte Command = 1" | "kind_byte Report = 2" | "kind_byte Delta = 3" | "kind_byte Heartbeat = 4"
| "kind_byte SnapshotBegin = 5" | "kind_byte SnapshotOrder = 6" | "kind_byte SnapshotEnd = 7"
| "kind_byte Kind_Other = 0"

fun action_byte :: "Action \<Rightarrow> u8" where
  "action_byte Act_New = 1" | "action_byte Act_Cancel = 2" | "action_byte Act_Replace = 3"
| "action_byte Act_CancelAll = 4" | "action_byte Act_Snapshot = 5" | "action_byte Act_Status = 6"
| "action_byte Act_Other = 0"

fun order_type_byte :: "OrderType \<Rightarrow> u8" where
  "order_type_byte Limit = 1" | "order_type_byte Market = 2" | "order_type_byte OrderType_Other = 0"

fun tif_byte :: "TimeInForce \<Rightarrow> u8" where
  "tif_byte GTC = 1" | "tif_byte IOC = 2" | "tif_byte FOK = 3" | "tif_byte Tif_Other = 0"

fun report_byte :: "ReportType \<Rightarrow> u8" where
  "report_byte Rpt_Accepted = 1" | "report_byte Rpt_Rejected = 2" | "report_byte Rpt_Fill = 3"
| "report_byte Rpt_Cancelled = 4" | "report_byte Rpt_Replaced = 5" | "report_byte Rpt_Complete = 6"
| "report_byte Rpt_Status = 7" | "report_byte Rpt_Other = 0"

fun update_byte :: "UpdateType \<Rightarrow> u8" where
  "update_byte Upd_Add = 1" | "update_byte Upd_Cancel = 2" | "update_byte Upd_Execute = 3"
| "update_byte Upd_Reduce = 4" | "update_byte Upd_Trade = 5" | "update_byte Upd_Other = 0"

fun reject_byte :: "Reject \<Rightarrow> u8" where
  "reject_byte Rej_None = 0" | "reject_byte Rej_InvalidCommand = 1" | "reject_byte Rej_UnknownInstrument = 2"
| "reject_byte Rej_InvalidPrice = 3" | "reject_byte Rej_InvalidQuantity = 4" | "reject_byte Rej_DuplicateOrder = 5"
| "reject_byte Rej_UnknownOrder = 6" | "reject_byte Rej_Sequence = 7" | "reject_byte Rej_PostOnly = 8"
| "reject_byte Rej_Fok = 9" | "reject_byte Rej_SelfTrade = 10" | "reject_byte Rej_RiskQuantity = 11"
| "reject_byte Rej_RiskNotional = 12" | "reject_byte Rej_RiskPosition = 13" | "reject_byte Rej_RiskOpenOrders = 14"
| "reject_byte Rej_Capacity = 15" | "reject_byte Rej_SessionBusy = 16" | "reject_byte Rej_KillSwitch = 17"
| "reject_byte Rej_Other = 18"

text \<open>The enumerator whose byte this is, from the list of them all.\<close>

definition enum_of :: "('e \<Rightarrow> u8) \<Rightarrow> 'e \<Rightarrow> 'e list \<Rightarrow> u8 \<Rightarrow> 'e" where
  "enum_of to_byte other es b = (case List.find (\<lambda>e. to_byte e = b) es of Some e \<Rightarrow> e | None \<Rightarrow> other)"

definition kind_of :: "u8 \<Rightarrow> Kind" where
  "kind_of = enum_of kind_byte Kind_Other
     [Command, Report, Delta, Heartbeat, SnapshotBegin, SnapshotOrder, SnapshotEnd]"

definition action_of :: "u8 \<Rightarrow> Action" where
  "action_of = enum_of action_byte Act_Other
     [Act_New, Act_Cancel, Act_Replace, Act_CancelAll, Act_Snapshot, Act_Status]"

definition order_type_of :: "u8 \<Rightarrow> OrderType" where
  "order_type_of = enum_of order_type_byte OrderType_Other [Limit, Market]"

definition tif_of :: "u8 \<Rightarrow> TimeInForce" where
  "tif_of = enum_of tif_byte Tif_Other [GTC, IOC, FOK]"

definition report_of :: "u8 \<Rightarrow> ReportType" where
  "report_of = enum_of report_byte Rpt_Other
     [Rpt_Accepted, Rpt_Rejected, Rpt_Fill, Rpt_Cancelled, Rpt_Replaced, Rpt_Complete, Rpt_Status]"

definition update_of :: "u8 \<Rightarrow> UpdateType" where
  "update_of = enum_of update_byte Upd_Other [Upd_Add, Upd_Cancel, Upd_Execute, Upd_Reduce, Upd_Trade]"

definition reject_of :: "u8 \<Rightarrow> Reject" where
  "reject_of = enum_of reject_byte Rej_Other
     [Rej_None, Rej_InvalidCommand, Rej_UnknownInstrument, Rej_InvalidPrice, Rej_InvalidQuantity,
      Rej_DuplicateOrder, Rej_UnknownOrder, Rej_Sequence, Rej_PostOnly, Rej_Fok, Rej_SelfTrade,
      Rej_RiskQuantity, Rej_RiskNotional, Rej_RiskPosition, Rej_RiskOpenOrders, Rej_Capacity,
      Rej_SessionBusy, Rej_KillSwitch]"

section \<open>Encoding and decoding\<close>

definition frame_size :: nat where "frame_size = 96"

definition decode :: "u8 list \<Rightarrow> Message option" where
  "decode b =
     (if get_be b 0 4 \<noteq> 0x4c545231 \<or> b ! 4 \<noteq> 1 \<or> b ! 5 < 1 \<or> 7 < b ! 5 \<or> b ! 6 < 1 \<or> 6 < b ! 6 \<or>
         1 < b ! 7 \<or> b ! 8 < 1 \<or> 2 < b ! 8 \<or> b ! 9 < 1 \<or> 3 < b ! 9 \<or> b ! 10 < 1 \<or> 7 < b ! 10 \<or>
         17 < b ! 11 \<or> 1 < b ! 12 \<or> b ! 13 < 1 \<or> 5 < b ! 13 \<or> b ! 14 \<noteq> 0 \<or> b ! 15 \<noteq> 0 \<or>
         list_ex (\<lambda>byte. byte \<noteq> 0) (drop 88 b)
      then None
      else Some \<lparr>m_kind = kind_of (b ! 5), m_action = action_of (b ! 6),
        m_side = (if b ! 7 = 0 then Bid else Ask), m_order_type = order_type_of (b ! 8),
        m_tif = tif_of (b ! 9), m_report = report_of (b ! 10), m_reject = reject_of (b ! 11),
        m_update = update_of (b ! 13), m_post_only = (b ! 12 \<noteq> 0),
        m_epoch = get_be b 16 8, m_sequence = get_be b 24 8, m_client_id = ucast (get_be b 32 4),
        m_price = ucast (get_be b 36 4), m_request_id = get_be b 40 8, m_order_id = get_be b 48 8,
        m_exchange_id = get_be b 56 8, m_instrument_id = get_be b 64 8, m_quantity = ucast (get_be b 72 4),
        m_remaining = ucast (get_be b 76 4), m_trade_id = get_be b 80 8\<rparr>)"

text \<open>The frame \<open>encode\<close> fills before it checks it.\<close>

definition encode_frame :: "Message \<Rightarrow> u8 list" where
  "encode_frame m =
     (let b = replicate frame_size 0;
          b = put_be b 0 0x4c545231 4;
          b = b[4 := 1];
          b = b[5 := kind_byte (m_kind m)];
          b = b[6 := action_byte (m_action m)];
          b = b[7 := (if m_side m = Bid then 0 else 1)];
          b = b[8 := order_type_byte (m_order_type m)];
          b = b[9 := tif_byte (m_tif m)];
          b = b[10 := report_byte (m_report m)];
          b = b[11 := reject_byte (m_reject m)];
          b = b[12 := (if m_post_only m then 1 else 0)];
          b = b[13 := update_byte (m_update m)];
          b = put_be b 16 (m_epoch m) 8;
          b = put_be b 24 (m_sequence m) 8;
          b = put_be b 32 (ucast (m_client_id m)) 4;
          b = put_be b 36 (ucast (m_price m)) 4;
          b = put_be b 40 (m_request_id m) 8;
          b = put_be b 48 (m_order_id m) 8;
          b = put_be b 56 (m_exchange_id m) 8;
          b = put_be b 64 (m_instrument_id m) 8;
          b = put_be b 72 (ucast (m_quantity m)) 4;
          b = put_be b 76 (ucast (m_remaining m)) 4
      in put_be b 80 (m_trade_id m) 8)"

definition encode :: "Message \<Rightarrow> u8 list option" where
  "encode m =
     (let b = encode_frame m in
      if decode b = None \<or> (m_side m \<noteq> Bid \<and> m_side m \<noteq> Ask) then None else Some b)"

text \<open>The names used in logs and by the tools; the array index is the enumerator's byte.\<close>

definition reject_to_string :: "Reject \<Rightarrow> string" where
  "reject_to_string r =
     (let names = [''none'', ''invalid_command'', ''unknown_instrument'', ''invalid_price'', ''invalid_quantity'',
        ''duplicate_order'', ''unknown_order'', ''sequence'', ''post_only'', ''fok'', ''self_trade'',
        ''risk_quantity'', ''risk_notional'', ''risk_position'', ''risk_open_orders'', ''capacity'',
        ''session_busy'', ''kill_switch''];
          i = unat (reject_byte r)
      in if i < length names then names ! i else ''unknown'')"

definition report_to_string :: "ReportType \<Rightarrow> string" where
  "report_to_string r =
     (let names = [''unknown'', ''accepted'', ''rejected'', ''fill'', ''cancelled'', ''replaced'', ''complete'',
        ''status''];
          i = unat (report_byte r)
      in if i < length names then names ! i else ''unknown'')"

section \<open>Enumerators round trip\<close>

definition message_ok :: "Message \<Rightarrow> bool" where
  "message_ok m \<longleftrightarrow> m_kind m \<noteq> Kind_Other \<and> m_action m \<noteq> Act_Other \<and> m_side m \<noteq> Side_Other \<and>
     m_order_type m \<noteq> OrderType_Other \<and> m_tif m \<noteq> Tif_Other \<and> m_report m \<noteq> Rpt_Other \<and>
     m_reject m \<noteq> Rej_Other \<and> m_update m \<noteq> Upd_Other"

lemmas enum_defs = kind_of_def action_of_def order_type_of_def tif_of_def report_of_def update_of_def
  reject_of_def enum_of_def

lemma kind_of_byte [simp]: "kind_of (kind_byte k) = k" by (cases k) (simp_all add: enum_defs)
lemma action_of_byte [simp]: "action_of (action_byte a) = a" by (cases a) (simp_all add: enum_defs)
lemma order_type_of_byte [simp]: "order_type_of (order_type_byte t) = t" by (cases t) (simp_all add: enum_defs)
lemma tif_of_byte [simp]: "tif_of (tif_byte f) = f" by (cases f) (simp_all add: enum_defs)
lemma report_of_byte [simp]: "report_of (report_byte r) = r" by (cases r) (simp_all add: enum_defs)
lemma update_of_byte [simp]: "update_of (update_byte u) = u" by (cases u) (simp_all add: enum_defs)
lemma reject_of_byte [simp]: "reject_of (reject_byte j) = j" by (cases j) (simp_all add: enum_defs)

text \<open>The range checks of \<open>decode\<close> accept exactly the bytes of enumerators.\<close>

lemma byte_range:
  fixes b :: u8
  assumes "n < 256" "b \<le> of_nat n"
  obtains i where "i \<le> n" "b = of_nat i"
proof
  show "unat b \<le> n" using assms by (simp add: word_le_nat_alt unat_of_nat)
qed simp

lemma kind_byte_of: "\<not> b < 1 \<Longrightarrow> \<not> 7 < b \<Longrightarrow> kind_byte (kind_of b) = b \<and> kind_of b \<noteq> Kind_Other"
  by (rule byte_range [of 7 b]) (auto simp: enum_defs le_Suc_eq numeral_eq_Suc)

lemma action_byte_of: "\<not> b < 1 \<Longrightarrow> \<not> 6 < b \<Longrightarrow> action_byte (action_of b) = b \<and> action_of b \<noteq> Act_Other"
  by (rule byte_range [of 6 b]) (auto simp: enum_defs le_Suc_eq numeral_eq_Suc)

lemma order_type_byte_of: "\<not> b < 1 \<Longrightarrow> \<not> 2 < b \<Longrightarrow> order_type_byte (order_type_of b) = b \<and> order_type_of b \<noteq> OrderType_Other"
  by (rule byte_range [of 2 b]) (auto simp: enum_defs le_Suc_eq numeral_eq_Suc)

lemma tif_byte_of: "\<not> b < 1 \<Longrightarrow> \<not> 3 < b \<Longrightarrow> tif_byte (tif_of b) = b \<and> tif_of b \<noteq> Tif_Other"
  by (rule byte_range [of 3 b]) (auto simp: enum_defs le_Suc_eq numeral_eq_Suc)

lemma report_byte_of: "\<not> b < 1 \<Longrightarrow> \<not> 7 < b \<Longrightarrow> report_byte (report_of b) = b \<and> report_of b \<noteq> Rpt_Other"
  by (rule byte_range [of 7 b]) (auto simp: enum_defs le_Suc_eq numeral_eq_Suc)

lemma update_byte_of: "\<not> b < 1 \<Longrightarrow> \<not> 5 < b \<Longrightarrow> update_byte (update_of b) = b \<and> update_of b \<noteq> Upd_Other"
  by (rule byte_range [of 5 b]) (auto simp: enum_defs le_Suc_eq numeral_eq_Suc)

lemma reject_byte_of: "\<not> 17 < b \<Longrightarrow> reject_byte (reject_of b) = b \<and> reject_of b \<noteq> Rej_Other"
  by (rule byte_range [of 17 b]) (auto simp: enum_defs le_Suc_eq numeral_eq_Suc)

lemma byte_ok_iff:
  "kind_byte k < 1 \<or> 7 < kind_byte k \<longleftrightarrow> k = Kind_Other"
  "action_byte a < 1 \<or> 6 < action_byte a \<longleftrightarrow> a = Act_Other"
  "order_type_byte t < 1 \<or> 2 < order_type_byte t \<longleftrightarrow> t = OrderType_Other"
  "tif_byte f < 1 \<or> 3 < tif_byte f \<longleftrightarrow> f = Tif_Other"
  "report_byte r < 1 \<or> 7 < report_byte r \<longleftrightarrow> r = Rpt_Other"
  "update_byte u < 1 \<or> 5 < update_byte u \<longleftrightarrow> u = Upd_Other"
  "17 < reject_byte j \<longleftrightarrow> j = Rej_Other"
  subgoal by (cases k) simp_all
  subgoal by (cases a) simp_all
  subgoal by (cases t) simp_all
  subgoal by (cases f) simp_all
  subgoal by (cases r) simp_all
  subgoal by (cases u) simp_all
  subgoal by (cases j) simp_all
  done

section \<open>Frames round trip\<close>

definition frame_layout :: "nat list" where
  "frame_layout = [4, 1, 1, 1, 1, 1, 1, 1, 1, 1, 1, 1, 1, 8, 8, 4, 4, 8, 8, 8, 8, 4, 4, 8, 8]"

lemma length_encode_frame [simp]: "length (encode_frame m) = 96"
  by (simp add: encode_frame_def frame_size_def Let_def)

lemma encode_slices:
  "slices 0 frame_layout (encode_frame m) =
     [be_bytes 4 0x4c545231, [1], [kind_byte (m_kind m)], [action_byte (m_action m)],
      [if m_side m = Bid then 0 else 1], [order_type_byte (m_order_type m)], [tif_byte (m_tif m)],
      [report_byte (m_report m)], [reject_byte (m_reject m)], [if m_post_only m then 1 else 0],
      [update_byte (m_update m)], [0], [0], be_bytes 8 (m_epoch m), be_bytes 8 (m_sequence m),
      be_bytes 4 (ucast (m_client_id m)), be_bytes 4 (ucast (m_price m)), be_bytes 8 (m_request_id m),
      be_bytes 8 (m_order_id m), be_bytes 8 (m_exchange_id m), be_bytes 8 (m_instrument_id m),
      be_bytes 4 (ucast (m_quantity m)), be_bytes 4 (ucast (m_remaining m)), be_bytes 8 (m_trade_id m),
      replicate 8 0]"
  unfolding encode_frame_def frame_layout_def frame_size_def Let_def slices.simps
  by (simp add: wire_simps)

lemmas encode_slice = encode_slices [unfolded frame_layout_def slices.simps, simplified]

lemma drop_slice: "length b = 96 \<Longrightarrow> drop 88 b = slice 88 8 b"
  by (simp add: slice_def)

lemma decode_encode_frame:
  "decode (encode_frame m) =
     (if m_kind m = Kind_Other \<or> m_action m = Act_Other \<or> m_order_type m = OrderType_Other \<or>
         m_tif m = Tif_Other \<or> m_report m = Rpt_Other \<or> m_reject m = Rej_Other \<or> m_update m = Upd_Other
      then None else Some (m\<lparr>m_side := (if m_side m = Bid then Bid else Ask)\<rparr>))"
proof -
  let ?b = "encode_frame m"
  note sl = encode_slice [of m]
  have bytes: "?b ! 4 = 1" "?b ! 5 = kind_byte (m_kind m)" "?b ! 6 = action_byte (m_action m)"
    "?b ! 7 = (if m_side m = Bid then 0 else 1)" "?b ! 8 = order_type_byte (m_order_type m)"
    "?b ! 9 = tif_byte (m_tif m)" "?b ! 10 = report_byte (m_report m)" "?b ! 11 = reject_byte (m_reject m)"
    "?b ! 12 = (if m_post_only m then 1 else 0)" "?b ! 13 = update_byte (m_update m)"
    "?b ! 14 = 0" "?b ! 15 = 0"
    using sl by (simp_all add: nth_slice)
  have words: "get_be ?b 0 4 = 0x4c545231" "get_be ?b 16 8 = m_epoch m" "get_be ?b 24 8 = m_sequence m"
    "ucast (get_be ?b 32 4) = m_client_id m" "ucast (get_be ?b 36 4) = m_price m"
    "get_be ?b 40 8 = m_request_id m" "get_be ?b 48 8 = m_order_id m" "get_be ?b 56 8 = m_exchange_id m"
    "get_be ?b 64 8 = m_instrument_id m" "ucast (get_be ?b 72 4) = m_quantity m"
    "ucast (get_be ?b 76 4) = m_remaining m" "get_be ?b 80 8 = m_trade_id m"
    using sl by (simp_all add: get_be_slice be_value_bytes take_bit_32_ucast)
  have "drop 88 ?b = replicate 8 0" using sl by (simp add: drop_slice)
  then have pad: "\<not> list_ex (\<lambda>x. x \<noteq> 0) (drop 88 ?b)" by (simp add: list_ex_iff)
  show ?thesis
    using byte_ok_iff(1) [of "m_kind m"] byte_ok_iff(2) [of "m_action m"] byte_ok_iff(3) [of "m_order_type m"]
      byte_ok_iff(4) [of "m_tif m"] byte_ok_iff(5) [of "m_report m"] byte_ok_iff(6) [of "m_update m"]
      byte_ok_iff(7) [of "m_reject m"]
    unfolding decode_def bytes words by (auto simp: pad)
qed

lemma encode_ok: "message_ok m \<Longrightarrow> encode m = Some (encode_frame m)"
  by (cases "m_side m") (auto simp: encode_def Let_def decode_encode_frame message_ok_def)

lemma encode_throws: "\<not> message_ok m \<Longrightarrow> encode m = None"
  by (cases "m_side m") (auto simp: encode_def Let_def decode_encode_frame message_ok_def)

lemma decode_encode_ok: "message_ok m \<Longrightarrow> decode (encode_frame m) = Some m"
  by (cases "m_side m") (auto simp: decode_encode_frame message_ok_def)

lemma decode_canonical:
  assumes len: "length b = 96" and dec: "decode b = Some m"
  shows "message_ok m \<and> encode_frame m = b"
proof -
  have ok: "get_be b 0 4 = 0x4c545231" "b ! 4 = 1" "\<not> b ! 5 < 1" "\<not> 7 < b ! 5" "\<not> b ! 6 < 1" "\<not> 6 < b ! 6"
    "\<not> 1 < b ! 7" "\<not> b ! 8 < 1" "\<not> 2 < b ! 8" "\<not> b ! 9 < 1" "\<not> 3 < b ! 9" "\<not> b ! 10 < 1" "\<not> 7 < b ! 10"
    "\<not> 17 < b ! 11" "\<not> 1 < b ! 12" "\<not> b ! 13 < 1" "\<not> 5 < b ! 13" "b ! 14 = 0" "b ! 15 = 0"
    "\<not> list_ex (\<lambda>x. x \<noteq> 0) (drop 88 b)"
    and m: "m = \<lparr>m_kind = kind_of (b ! 5), m_action = action_of (b ! 6),
        m_side = (if b ! 7 = 0 then Bid else Ask), m_order_type = order_type_of (b ! 8),
        m_tif = tif_of (b ! 9), m_report = report_of (b ! 10), m_reject = reject_of (b ! 11),
        m_update = update_of (b ! 13), m_post_only = (b ! 12 \<noteq> 0),
        m_epoch = get_be b 16 8, m_sequence = get_be b 24 8, m_client_id = ucast (get_be b 32 4),
        m_price = ucast (get_be b 36 4), m_request_id = get_be b 40 8, m_order_id = get_be b 48 8,
        m_exchange_id = get_be b 56 8, m_instrument_id = get_be b 64 8, m_quantity = ucast (get_be b 72 4),
        m_remaining = ucast (get_be b 76 4), m_trade_id = get_be b 80 8\<rparr>"
    using dec unfolding decode_def by (simp_all split: if_splits)
  note enums = kind_byte_of [OF ok(3,4)] action_byte_of [OF ok(5,6)] order_type_byte_of [OF ok(8,9)]
    tif_byte_of [OF ok(10,11)] report_byte_of [OF ok(12,13)] reject_byte_of [OF ok(14)] update_byte_of [OF ok(16,17)]
  have bit01: "x = 0 \<or> x = 1" if "\<not> 1 < x" for x :: u8
    using that by (auto simp: word_unat_eq_iff word_less_nat_alt)
  have flags: "(if b ! 7 = 0 then 0 else 1) = b ! 7" "(if b ! 12 \<noteq> 0 then 1 else 0) = b ! 12"
    using bit01 [OF ok(7)] bit01 [OF ok(15)] by auto
  have "drop 88 b = replicate (length (drop 88 b)) 0"
    using ok(20) by (intro replicate_length_same [symmetric]) (simp add: list_ex_iff)
  then have pad: "slice 88 8 b = replicate 8 0" using len by (simp add: drop_slice)
  have sl: "slices 0 frame_layout (encode_frame m) = slices 0 frame_layout b"
    unfolding encode_slices unfolding frame_layout_def slices.simps
    using enums flags len ok(1,2,18,19) slice_get_be [of 4 0 b]
    by (simp add: m slice_get_be ucast_get_4 slice_one [simplified] pad) (use bit01 [OF ok(7)] in blast)
  have total: "sum_list frame_layout = length (encode_frame m)" by (simp add: frame_layout_def)
  have "length b = length (encode_frame m)" using len by simp
  from total this sl have "encode_frame m = b" by (rule frame_eqI)
  moreover have "message_ok m" using enums by (simp add: message_ok_def m)
  ultimately show ?thesis by blast
qed

section \<open>Theorems\<close>

text \<open>
  C24. The 96-byte wire format of trading messages is exact: encoding succeeds for exactly the messages
  whose enumerations hold enumerators (anything else throws), and decoding what was encoded gives the
  message back.
\<close>

theorem message_roundtrip:
  "(message_ok m \<longleftrightarrow> encode m \<noteq> None) \<and> (\<forall>b. encode m = Some b \<longrightarrow> length b = frame_size \<and> decode b = Some m)"
  using encode_ok [of m] encode_throws [of m] decode_encode_ok [of m]
  by (cases "message_ok m") (auto simp: frame_size_def)

theorem message_roundtrip_witness:
  "\<exists>b. encode default_message = Some b \<and> length b = frame_size \<and> decode b = Some default_message"
proof -
  have "message_ok default_message" by (simp add: message_ok_def default_message_def)
  then show ?thesis using message_roundtrip [of default_message] by auto
qed

text \<open>
  The wire format is canonical: a 96-byte frame that decodes is the encoding of the message it
  decodes to, so no two frames mean the same message and reserved bytes cannot carry data.
\<close>

theorem message_canonical:
  assumes "length b = frame_size" "decode b = Some m"
  shows "encode m = Some b"
  using decode_canonical [of b m] encode_ok [of m] assms by (simp add: frame_size_def)

theorem message_canonical_witness:
  "\<exists>b. length b = frame_size \<and> decode b = Some default_message \<and> encode default_message = Some b"
proof -
  have "message_ok default_message" by (simp add: message_ok_def default_message_def)
  then have "decode (encode_frame default_message) = Some default_message" by (rule decode_encode_ok)
  then show ?thesis using message_canonical [of "encode_frame default_message"] by (auto simp: frame_size_def)
qed

end
