(* ===== verification/Journal.thy ===== *)
theory Journal
  imports Messages
begin

unbundle bit_operations_syntax

text \<open>
  src/trading/journal.cpp: the durable command journal. A file is its bytes. What the system calls do
  is decided by a schedule: a call may be interrupted, move fewer bytes than asked, or fail; calls
  after the end of the schedule move all they can, so that every schedule is fair. Opening reads the
  header and every record; the file position is then the end of the file, where records are appended.
\<close>

section \<open>System calls\<close>

datatype io_call = Interrupted | Transfer nat | Failed

datatype journal_error = Io_Failed | No_Progress | Torn_Record | Header_Mismatch | Missing_Checksum | Corrupt_Record
  | Invalid_Message

text \<open>\<open>read\<close> returns 0 only at the end of the file; the state of the loop is the schedule, the size left, what was read, and the rest of the file.\<close>

function read_loop ::
    "io_call list \<Rightarrow> nat \<Rightarrow> nat \<Rightarrow> u8 list \<Rightarrow> u8 list \<Rightarrow> journal_error + u8 list option \<times> u8 list \<times> io_call list" where
  "read_loop sched asked sz acc rest =
     (if sz = 0 then Inr (Some acc, rest, sched)
      else case sched of
        Interrupted # calls \<Rightarrow> read_loop calls asked sz acc rest
      | Failed # calls \<Rightarrow> Inl Io_Failed
      | _ \<Rightarrow>
          let k = (case sched of Transfer k # _ \<Rightarrow> max 1 k | _ \<Rightarrow> sz);
              n = min (min k sz) (length rest)
          in if n = 0 then (if sz \<noteq> asked then Inl Torn_Record else Inr (None, rest, tl sched))
             else read_loop (tl sched) asked (sz - n) (acc @ take n rest) (drop n rest))"
  by pat_completeness auto
termination
  by (relation "measure (\<lambda>(sched, asked, sz, acc, rest). length sched + sz)") auto

declare read_loop.simps [simp del]

definition read_all :: "io_call list \<Rightarrow> nat \<Rightarrow> u8 list \<Rightarrow> journal_error + u8 list option \<times> u8 list \<times> io_call list" where
  "read_all sched sz rest = read_loop sched sz sz [] rest"

text \<open>The writing loop; the file it leaves also when it fails.\<close>

function write_all :: "io_call list \<Rightarrow> u8 list \<Rightarrow> u8 list \<Rightarrow> journal_error option \<times> u8 list" where
  "write_all sched data disk =
     (if data = [] then (None, disk)
      else case sched of
        Interrupted # calls \<Rightarrow> write_all calls data disk
      | Failed # calls \<Rightarrow> (Some Io_Failed, disk)
      | _ \<Rightarrow>
          let k = (case sched of Transfer k # _ \<Rightarrow> k | _ \<Rightarrow> length data); n = min k (length data)
          in if n = 0 then (Some No_Progress, disk)
             else write_all (tl sched) (drop n data) (disk @ take n data))"
  by pat_completeness auto
termination
  by (relation "measure (\<lambda>(sched, data, disk). length sched + length data)") auto

declare write_all.simps [simp del]

section \<open>Records\<close>

definition checksum :: "u8 list \<Rightarrow> u32" where
  "checksum bytes = foldl (\<lambda>hash b. (hash XOR ucast b) * 16777619) 2166136261 bytes"

definition expected_header :: "u64 \<Rightarrow> u8 list" where
  "expected_header config_hash =
     foldl (\<lambda>e i. e[15 - i := ucast (drop_bit (8 * i) config_hash AND 255)])
       ([76, 74, 82, 49, 1, 0, 0, 0] @ replicate 8 0) [0..<8]"

definition stored_checksum :: "u8 list \<Rightarrow> u32" where
  "stored_checksum crc = foldl (\<lambda>stored b. push_bit 8 stored OR ucast b) 0 crc"

definition journal_record :: "u8 list \<Rightarrow> u8 list" where
  "journal_record bytes =
     (let hash = checksum bytes in
      foldl (\<lambda>r i. r[frame_size + i := ucast (drop_bit (24 - 8 * i) hash AND 255)])
        (bytes @ replicate 4 0) [0..<4])"

definition record_message :: "u8 list \<Rightarrow> u8 list \<Rightarrow> journal_error + Message" where
  "record_message bytes crc =
     (case decode bytes of
        None \<Rightarrow> Inl Corrupt_Record
      | Some m \<Rightarrow>
          if stored_checksum crc \<noteq> checksum bytes \<or> m_kind m \<noteq> Command \<or> m_action m = Act_Status \<or>
             m_action m = Act_Snapshot
          then Inl Corrupt_Record else Inr m)"

section \<open>What the reading loop reads\<close>

definition granted :: "io_call list \<Rightarrow> bool" where
  "granted sched \<longleftrightarrow> Failed \<notin> set sched"

definition reads_as :: "nat \<Rightarrow> nat \<Rightarrow> u8 list \<Rightarrow> u8 list \<Rightarrow> journal_error + u8 list option \<times> u8 list \<times> io_call list \<Rightarrow> bool" where
  "reads_as asked sz acc rest r \<longleftrightarrow>
     (\<exists>calls. granted calls \<and> r = Inr (Some (acc @ take sz rest), drop sz rest, calls) \<and> sz \<le> length rest) \<or>
     (\<exists>calls. granted calls \<and> r = Inr (None, [], calls) \<and> rest = [] \<and> sz = asked \<and> sz \<noteq> 0) \<or>
     (r = Inl Torn_Record \<and> length rest < sz \<and> (sz \<noteq> asked \<or> rest \<noteq> []))"

text \<open>How many bytes a call moves.\<close>

definition moves :: "io_call list \<Rightarrow> nat \<Rightarrow> nat" where
  "moves sched sz = (case sched of Transfer k # _ \<Rightarrow> max 1 k | _ \<Rightarrow> sz)"

lemma read_loop_done: "read_loop sched asked 0 acc rest = Inr (Some acc, rest, sched)"
  by (simp add: read_loop.simps)

lemma read_loop_interrupted:
  "sz \<noteq> 0 \<Longrightarrow> read_loop (Interrupted # calls) asked sz acc rest = read_loop calls asked sz acc rest"
  by (subst read_loop.simps) simp

lemma read_loop_moves:
  assumes "sz \<noteq> 0" "sched = [] \<or> (\<exists>k calls. sched = Transfer k # calls)"
  shows "read_loop sched asked sz acc rest =
    (let n = min (min (moves sched sz) sz) (length rest) in
     if rest = [] then (if sz \<noteq> asked then Inl Torn_Record else Inr (None, rest, tl sched))
     else read_loop (tl sched) asked (sz - n) (acc @ take n rest) (drop n rest))"
  using assms by (subst read_loop.simps) (auto simp: moves_def Let_def min_def max_def split: if_splits)

lemma read_loop_granted:
  "granted sched \<Longrightarrow> sz \<le> asked \<Longrightarrow> reads_as asked sz acc rest (read_loop sched asked sz acc rest)"
proof (induction "length sched + sz" arbitrary: sched sz acc rest rule: less_induct)
  case less
  consider "sz = 0" | calls where "sz \<noteq> 0" "sched = Interrupted # calls"
    | "sz \<noteq> 0" "sched = [] \<or> (\<exists>k calls. sched = Transfer k # calls)"
    using less.prems(1) by (cases sched; cases "hd sched") (auto simp: granted_def)
  then show ?case
  proof cases
    case 1
    then show ?thesis using less.prems by (simp add: read_loop_done reads_as_def)
  next
    case 2
    then show ?thesis using less.hyps [of calls sz acc rest] less.prems by (simp add: read_loop_interrupted granted_def)
  next
    case 3
    let ?n = "min (min (moves sched sz) sz) (length rest)"
    have tl: "granted (tl sched)" using less.prems(1) by (cases sched) (auto simp: granted_def)
    show ?thesis
    proof (cases "rest = []")
      case True
      then show ?thesis using 3 less.prems(2) tl by (simp add: read_loop_moves reads_as_def)
    next
      case False
      then have n: "0 < ?n" "?n \<le> sz" "?n \<le> length rest" using 3 by (auto simp: moves_def)
      have "length (tl sched) + (sz - ?n) < length sched + sz" using n by (cases sched) auto
      from less.hyps [OF this tl, of "acc @ take ?n rest" "drop ?n rest"] less.prems(2)
      have "reads_as asked (sz - ?n) (acc @ take ?n rest) (drop ?n rest)
          (read_loop (tl sched) asked (sz - ?n) (acc @ take ?n rest) (drop ?n rest))" by simp
      moreover have "read_loop sched asked sz acc rest =
          read_loop (tl sched) asked (sz - ?n) (acc @ take ?n rest) (drop ?n rest)"
        using 3 False by (simp add: read_loop_moves Let_def)
      moreover have "take ?n rest @ take (sz - ?n) (drop ?n rest) = take sz rest"
        using n(2) take_add [of ?n "sz - ?n" rest] by simp
      moreover have "drop (sz - ?n) (drop ?n rest) = drop sz rest" using n(2) by simp
      moreover have "sz - ?n \<le> length (drop ?n rest) \<longleftrightarrow> sz \<le> length rest" using n(2,3) by auto
      moreover have "sz - ?n \<noteq> asked" using n(1,2) less.prems(2) by linarith
      ultimately show ?thesis using False unfolding reads_as_def by (metis append_assoc not_le)
    qed
  qed
qed

lemma read_all_granted:
  assumes "granted sched" "sz \<noteq> 0"
  shows "(length rest = 0 \<longrightarrow> (\<exists>calls. granted calls \<and> read_all sched sz rest = Inr (None, [], calls))) \<and>
    (0 < length rest \<and> length rest < sz \<longrightarrow> read_all sched sz rest = Inl Torn_Record) \<and>
    (sz \<le> length rest \<longrightarrow>
      (\<exists>calls. granted calls \<and> read_all sched sz rest = Inr (Some (take sz rest), drop sz rest, calls)))"
  using read_loop_granted [OF assms(1) order_refl, of sz "[]" rest] assms(2)
  unfolding reads_as_def read_all_def by auto

lemma read_all_length:
  assumes "read_all sched sz rest = Inr (Some data, rest', calls)"
  shows "length rest' + sz = length rest"
proof -
  have "length rest' + sz' = length rest"
    if "read_loop sched asked sz' acc rest = Inr (Some data, rest', calls)" for sched asked sz' acc rest
    using that
  proof (induction "length sched + sz'" arbitrary: sched sz' acc rest rule: less_induct)
    case less
    consider "sz' = 0" | c where "sz' \<noteq> 0" "sched = Interrupted # c" | c where "sz' \<noteq> 0" "sched = Failed # c"
      | "sz' \<noteq> 0" "sched = [] \<or> (\<exists>k calls. sched = Transfer k # calls)"
      by (cases sched; cases "hd sched") auto
    then show ?case
    proof cases
      case 1
      then show ?thesis using less.prems by (simp add: read_loop_done)
    next
      case 2
      then show ?thesis using less.hyps [of c sz' acc rest] less.prems by (simp add: read_loop_interrupted)
    next
      case 3
      then show ?thesis using less.prems by (simp add: read_loop.simps)
    next
      case 4
      let ?n = "min (min (moves sched sz') sz') (length rest)"
      have ne: "rest \<noteq> []" using less.prems 4 by (auto simp: read_loop_moves split: if_splits)
      then have n: "0 < ?n" "?n \<le> sz'" "?n \<le> length rest" using 4 by (auto simp: moves_def)
      have "length (tl sched) + (sz' - ?n) < length sched + sz'" using n by (cases sched) auto
      from less.hyps [OF this, of "acc @ take ?n rest" "drop ?n rest"] less.prems 4 ne n
      show ?thesis by (simp add: read_loop_moves Let_def)
    qed
  qed
  then show ?thesis using assms by (simp add: read_all_def)
qed

section \<open>Opening and appending\<close>

text \<open>The loop over the records.\<close>

function read_records :: "io_call list \<Rightarrow> u8 list \<Rightarrow> Message list \<Rightarrow> journal_error + Message list" where
  "read_records sched rest recovered =
     (case read_all sched frame_size rest of
        Inl err \<Rightarrow> Inl err
      | Inr (None, _, _) \<Rightarrow> Inr recovered
      | Inr (Some bytes, rest1, calls1) \<Rightarrow>
          (case read_all calls1 4 rest1 of
             Inl err \<Rightarrow> Inl err
           | Inr (None, _, _) \<Rightarrow> Inl Missing_Checksum
           | Inr (Some crc, rest2, calls2) \<Rightarrow>
               (case record_message bytes crc of
                  Inl err \<Rightarrow> Inl err
                | Inr m \<Rightarrow> read_records calls2 rest2 (recovered @ [m]))))"
  by pat_completeness auto
termination
  by (relation "measure (\<lambda>(sched, rest, recovered). length rest)")
    (auto dest!: read_all_length simp: frame_size_def)

declare read_records.simps [simp del]

text \<open>
  What the environment decides when a journal is opened: the results of \<open>open\<close>, \<open>flock\<close>, \<open>fdatasync\<close>,
  and of opening and syncing the directory, and the schedules of the reads and of the header write.
  The result is the error or the recovered commands, and the file.
\<close>

record journal_env =
  open_ok :: bool
  lock_ok :: bool
  sync_ok :: bool
  directory_ok :: bool
  reads :: "io_call list"
  writes :: "io_call list"

definition Journal_new :: "journal_env \<Rightarrow> u64 \<Rightarrow> u8 list \<Rightarrow> (journal_error + Message list) \<times> u8 list" where
  "Journal_new env config_hash disk =
     (if \<not> open_ok env \<or> \<not> lock_ok env then (Inl Io_Failed, disk)
      else
        let expected = expected_header config_hash in
        case read_all (reads env) 16 disk of
          Inl err \<Rightarrow> (Inl err, disk)
        | Inr (None, rest, calls) \<Rightarrow>
            (case write_all (writes env) expected disk of
               (Some err, disk') \<Rightarrow> (Inl err, disk')
             | (None, disk') \<Rightarrow>
                 if \<not> sync_ok env \<or> \<not> directory_ok env then (Inl Io_Failed, disk')
                 else (read_records calls [] [], disk'))
        | Inr (Some header, rest, calls) \<Rightarrow>
            if header \<noteq> expected then (Inl Header_Mismatch, disk)
            else (read_records calls rest [], disk))"

definition journal_append ::
    "io_call list \<Rightarrow> bool \<Rightarrow> Message \<Rightarrow> u8 list \<Rightarrow> journal_error option \<times> u8 list" where
  "journal_append sched synced command disk =
     (case encode command of
        None \<Rightarrow> (Some Invalid_Message, disk)
      | Some bytes \<Rightarrow>
          (case write_all sched (journal_record bytes) disk of
             (Some err, disk') \<Rightarrow> (Some err, disk')
           | (None, disk') \<Rightarrow> if synced then (None, disk') else (Some Io_Failed, disk')))"

section \<open>The layout of a journal\<close>

definition puts :: "io_call list \<Rightarrow> nat \<Rightarrow> nat" where
  "puts sched sz = (case sched of Transfer k # _ \<Rightarrow> k | _ \<Rightarrow> sz)"

lemma write_all_done: "write_all sched [] disk = (None, disk)"
  by (simp add: write_all.simps)

lemma write_all_interrupted: "data \<noteq> [] \<Longrightarrow> write_all (Interrupted # calls) data disk = write_all calls data disk"
  by (subst write_all.simps) simp

lemma write_all_failed: "data \<noteq> [] \<Longrightarrow> write_all (Failed # calls) data disk = (Some Io_Failed, disk)"
  by (subst write_all.simps) simp

lemma write_all_moves:
  assumes "data \<noteq> []" "sched = [] \<or> (\<exists>k calls. sched = Transfer k # calls)"
    and "n = min (puts sched (length data)) (length data)"
  shows "write_all sched data disk =
    (if n = 0 then (Some No_Progress, disk) else write_all (tl sched) (drop n data) (disk @ take n data))"
  using assms(2)
proof (elim disjE exE)
  show ?thesis if "sched = []"
    using assms(1,3) that by (subst write_all.simps) (simp add: puts_def)
  show ?thesis if "sched = Transfer k # calls" for k calls
    using assms(1,3) that by (subst write_all.simps) (simp add: puts_def Let_def, simp add: min_def)
qed

lemma write_all_prefix:
  "\<exists>n. snd (write_all sched data disk) = disk @ take n data \<and> n \<le> length data \<and>
     (fst (write_all sched data disk) = None \<longrightarrow> n = length data)"
proof (induction "length sched + length data" arbitrary: sched data disk rule: less_induct)
  case less
  have "sched = [] \<or> (\<exists>k calls. sched = Transfer k # calls) \<or> (\<exists>c. sched = Interrupted # c) \<or> (\<exists>c. sched = Failed # c)"
    by (cases sched; cases "hd sched") auto
  then consider "data = []" | c where "data \<noteq> []" "sched = Interrupted # c" | c where "data \<noteq> []" "sched = Failed # c"
    | "data \<noteq> []" "sched = [] \<or> (\<exists>k calls. sched = Transfer k # calls)"
    by blast
  then show ?case
  proof cases
    case 1
    then show ?thesis by (simp add: write_all_done)
  next
    case 2
    then show ?thesis using less.hyps [of c data disk] by (simp add: write_all_interrupted)
  next
    case 3
    then show ?thesis by (intro exI [of _ 0]) (simp add: write_all_failed)
  next
    case 4
    define n where "n = min (puts sched (length data)) (length data)"
    note step = write_all_moves [OF 4 n_def, of disk]
    show ?thesis
    proof (cases "n = 0")
      case True
      then show ?thesis unfolding step by (intro exI [of _ 0]) simp
    next
      case False
      have n: "n \<le> length data" by (simp add: n_def)
      have "length (tl sched) + length (drop n data) < length sched + length data"
        using False n 4(1) by (cases sched) auto
      from less.hyps [OF this, of "disk @ take n data"] obtain m where
        m: "snd (write_all (tl sched) (drop n data) (disk @ take n data)) = (disk @ take n data) @ take m (drop n data)"
        "m \<le> length (drop n data)"
        "fst (write_all (tl sched) (drop n data) (disk @ take n data)) = None \<longrightarrow> m = length (drop n data)"
        by (elim exE conjE)
      have step': "write_all sched data disk = write_all (tl sched) (drop n data) (disk @ take n data)"
        using step False by (simp only: if_False)
      show ?thesis
      proof (intro exI [of _ "n + m"] conjI impI)
        show "snd (write_all sched data disk) = disk @ take (n + m) data" unfolding step' m(1) by (simp add: take_add)
        show "n + m \<le> length data" using m(2) n by simp
        show "n + m = length data" if "fst (write_all sched data disk) = None"
          using m(3) n that unfolding step' by simp
      qed
    qed
  qed
qed

lemma header_eq: "expected_header hash = [76, 74, 82, 49, 1, 0, 0, 0] @ be_bytes 8 hash"
proof -
  have "[0..<8] = [0, 1, 2, 3, 4, 5, 6, 7]" by (simp add: upt_conv_Cons eval_nat_numeral)
  then show ?thesis by (simp add: expected_header_def low_byte numeral_eq_Suc)
qed

lemma length_header [simp]: "length (expected_header hash) = 16"
  by (simp add: header_eq)

definition crc_bytes :: "u32 \<Rightarrow> u8 list" where
  "crc_bytes hash = [ucast (drop_bit 24 hash), ucast (drop_bit 16 hash), ucast (drop_bit 8 hash), ucast hash]"

lemma low_byte32: "(ucast (v AND 255) :: u8) = ucast (v :: u32)"
proof -
  have "v AND 255 = take_bit 8 v" by (simp add: take_bit_eq_mask mask_eq_exp_minus_1)
  then show ?thesis by (simp only:) (rule bit_eqI, auto simp: bit_simps)
qed

lemma record_eq: "length bytes = frame_size \<Longrightarrow> journal_record bytes = bytes @ crc_bytes (checksum bytes)"
proof -
  assume len: "length bytes = frame_size"
  have "[0..<4] = [0, 1, 2, 3]" by (simp add: upt_conv_Cons eval_nat_numeral)
  then show ?thesis
    using len by (simp add: journal_record_def Let_def low_byte32 crc_bytes_def list_update_append frame_size_def numeral_eq_Suc)
qed

lemma stored_crc: "stored_checksum (crc_bytes hash) = hash"
  unfolding stored_checksum_def crc_bytes_def foldl.simps
proof (rule bit_eqI, goal_cases)
  case (1 n)
  then show ?case by (cases "n < 8"; cases "n < 16"; cases "n < 24") (auto simp: bit_simps)
qed

lemma crc_stored:
  assumes "length crc = 4"
  shows "crc_bytes (stored_checksum crc) = crc"
proof -
  obtain a b c d where crc: "crc = [a, b, c, d]"
    using assms by (auto simp: numeral_eq_Suc length_Suc_conv)
  have "(ucast (drop_bit 24 (stored_checksum crc)) :: u8) = a" "(ucast (drop_bit 16 (stored_checksum crc)) :: u8) = b"
    "(ucast (drop_bit 8 (stored_checksum crc)) :: u8) = c" "(ucast (stored_checksum crc) :: u8) = d"
    by (rule bit_eqI, force simp: crc stored_checksum_def bit_simps dest: bit_imp_le_length)+
  then show ?thesis by (simp add: crc_bytes_def crc)
qed

section \<open>The checksum detects a changed byte\<close>

lemma fnv_step_inj: "(x XOR b) * 16777619 = (y XOR b) * 16777619 \<Longrightarrow> x = (y :: u32)"
proof -
  assume eq: "(x XOR b) * 16777619 = (y XOR b) * 16777619"
  have inverse: "(16777619 :: u32) * 899433627 = 1" by simp
  have "x XOR b = y XOR b"
    using arg_cong [OF eq, of "\<lambda>u. u * 899433627"] unfolding mult.assoc inverse by (simp only: mult_1_right)
  then have "(x XOR b) XOR b = (y XOR b) XOR b" by simp
  then show ?thesis by (simp add: xor.assoc)
qed

definition fnv :: "u32 \<Rightarrow> u8 list \<Rightarrow> u32" where
  "fnv hash bytes = foldl (\<lambda>hash b. (hash XOR ucast b) * 16777619) hash bytes"

lemma fnv_inj: "fnv x bytes = fnv y bytes \<Longrightarrow> x = y"
  by (induction bytes arbitrary: x y) (auto simp: fnv_def dest: fnv_step_inj)

lemma fnv_byte_inj:
  fixes a b :: u8
  assumes "(x XOR ucast a) * 16777619 = (x XOR ucast b :: u32) * 16777619"
  shows "a = b"
proof -
  have "(ucast a :: u32) = ucast b" using fnv_step_inj [of "ucast a" x "ucast b"] assms by (simp add: xor.commute)
  then have "(ucast (ucast a :: u32) :: u8) = ucast (ucast b :: u32)" by simp
  moreover have "(ucast (ucast c :: u32) :: u8) = c" for c :: u8 by (rule bit_eqI) (auto simp: bit_simps)
  ultimately show ?thesis by simp
qed

lemma checksum_changed:
  assumes "q < length bytes" "b \<noteq> bytes ! q"
  shows "checksum (bytes[q := b]) \<noteq> checksum bytes"
proof
  assume eq: "checksum (bytes[q := b]) = checksum bytes"
  have split: "bytes = take q bytes @ bytes ! q # drop (Suc q) bytes" "bytes[q := b] = take q bytes @ b # drop (Suc q) bytes"
    using assms(1) by (auto simp: id_take_nth_drop upd_conv_take_nth_drop)
  let ?x = "fnv 2166136261 (take q bytes)"
  have "fnv ((?x XOR ucast b) * 16777619) (drop (Suc q) bytes) = fnv ((?x XOR ucast (bytes ! q)) * 16777619) (drop (Suc q) bytes)"
    using eq arg_cong [OF split(1), of "fnv 2166136261"] arg_cong [OF split(2), of "fnv 2166136261"]
    by (simp add: checksum_def fnv_def)
  then show False using fnv_inj fnv_byte_inj assms(2) by blast
qed

section \<open>Reading a journal back\<close>

definition journaled :: "Message \<Rightarrow> bool" where
  "journaled m \<longleftrightarrow> message_ok m \<and> m_kind m = Command \<and> m_action m \<noteq> Act_Status \<and> m_action m \<noteq> Act_Snapshot"

definition records :: "Message list \<Rightarrow> u8 list" where
  "records ms = concat (map (\<lambda>m. journal_record (encode_frame m)) ms)"

definition journal_layout :: "u64 \<Rightarrow> Message list \<Rightarrow> u8 list" where
  "journal_layout hash ms = expected_header hash @ records ms"

lemma frame_record: "journal_record (encode_frame m) = encode_frame m @ crc_bytes (checksum (encode_frame m))"
  by (simp add: record_eq frame_size_def)

lemma length_record [simp]: "length (journal_record (encode_frame m)) = 100"
  by (simp add: frame_record crc_bytes_def)

lemma records_simps [simp]:
  "records [] = []" "records (m # ms) = journal_record (encode_frame m) @ records ms"
  "records (ms @ [m]) = records ms @ journal_record (encode_frame m)"
  by (simp_all add: records_def)

lemma length_records [simp]: "length (records ms) = 100 * length ms"
  by (induction ms) simp_all

lemma record_message_ok:
  "journaled m \<Longrightarrow> record_message (encode_frame m) (crc_bytes (checksum (encode_frame m))) = Inr m"
  by (simp add: record_message_def journaled_def decode_encode_ok stored_crc)

lemma record_message_changed:
  assumes "q < 100" "b \<noteq> journal_record (encode_frame m) ! q"
  shows "record_message (take 96 ((journal_record (encode_frame m))[q := b])) (drop 96 ((journal_record (encode_frame m))[q := b])) =
    Inl Corrupt_Record"
proof -
  let ?f = "encode_frame m" and ?c = "crc_bytes (checksum (encode_frame m))"
  have r: "journal_record ?f = ?f @ ?c" "length ?f = 96" "length ?c = 4" by (simp_all add: frame_record crc_bytes_def)
  show ?thesis
  proof (cases "q < 96")
    case True
    then have "checksum (?f[q := b]) \<noteq> checksum ?f" using assms(2) r by (intro checksum_changed) (auto simp: nth_append)
    then show ?thesis using True r by (simp add: record_message_def list_update_append stored_crc split: option.splits)
  next
    case False
    then have "q - 96 < 4" "b \<noteq> ?c ! (q - 96)" using assms r by (auto simp: nth_append)
    then have "?c[q - 96 := b] \<noteq> ?c" using r(3) by (metis nth_list_update_eq)
    then have "stored_checksum (?c[q - 96 := b]) \<noteq> checksum ?f" using crc_stored [of "?c[q - 96 := b]"] r(3) by auto
    then show ?thesis using False r by (simp add: record_message_def list_update_append split: option.splits)
  qed
qed

text \<open>One record at the front of what is left of the file.\<close>

lemma read_record:
  assumes "granted sched" "length r = 100"
  shows "\<exists>calls. granted calls \<and> read_records sched (r @ rest) acc =
    (case record_message (take 96 r) (drop 96 r) of Inl err \<Rightarrow> Inl err | Inr m \<Rightarrow> read_records calls rest (acc @ [m]))"
proof -
  obtain c1 where c1: "granted c1" "read_all sched frame_size (r @ rest) = Inr (Some (take 96 r), drop 96 r @ rest, c1)"
    using read_all_granted [OF assms(1), of frame_size "r @ rest"] assms(2) by (auto simp: frame_size_def)
  obtain c2 where c2: "granted c2" "read_all c1 4 (drop 96 r @ rest) = Inr (Some (drop 96 r), rest, c2)"
    using read_all_granted [OF c1(1), of 4 "drop 96 r @ rest"] assms(2) by auto
  show ?thesis using c1 c2 by (intro exI [of _ c2]) (simp add: read_records.simps [of sched])
qed

lemma read_records_end: "granted sched \<Longrightarrow> read_records sched [] acc = Inr acc"
  using read_all_granted [of sched frame_size "[]"] by (subst read_records.simps) (auto simp: frame_size_def)

lemma read_records_ok:
  "granted sched \<Longrightarrow> list_all journaled ms \<Longrightarrow> read_records sched (records ms) acc = Inr (acc @ ms)"
proof (induction ms arbitrary: sched acc)
  case Nil
  then show ?case by (simp add: read_records_end)
next
  case (Cons m ms)
  have "record_message (take 96 (journal_record (encode_frame m))) (drop 96 (journal_record (encode_frame m))) = Inr m"
    using Cons.prems(2) record_message_ok by (simp add: frame_record)
  then show ?case
    using read_record [OF Cons.prems(1), of "journal_record (encode_frame m)" "records ms" acc] Cons by auto
qed

lemma read_records_cut:
  assumes "granted sched" "list_all journaled ms" "k \<le> length (records ms)"
  shows "read_records sched (take k (records ms)) acc =
    (if k mod 100 = 0 then Inr (acc @ take (k div 100) ms)
     else if k mod 100 = 96 then Inl Missing_Checksum else Inl Torn_Record)"
  using assms
proof (induction ms arbitrary: sched acc k)
  case Nil
  then show ?case by (simp add: read_records_end)
next
  case (Cons m ms)
  let ?r = "journal_record (encode_frame m)"
  show ?case
  proof (cases "100 \<le> k")
    case True
    have ok: "record_message (take 96 ?r) (drop 96 ?r) = Inr m"
      using Cons.prems(2) record_message_ok by (simp add: frame_record)
    have "take k (records (m # ms)) = ?r @ take (k - 100) (records ms)" using True by simp
    moreover obtain calls where "granted calls" "read_records sched (?r @ take (k - 100) (records ms)) acc =
        read_records calls (take (k - 100) (records ms)) (acc @ [m])"
      using read_record [OF Cons.prems(1), of ?r "take (k - 100) (records ms)" acc] ok by auto
    ultimately show ?thesis
      using Cons.IH [of calls "k - 100" "acc @ [m]"] Cons.prems True
      by (simp add: le_mod_geq le_div_geq)
  next
    case False
    have len: "length (take k (records (m # ms))) = k" using Cons.prems(3) by simp
    consider "k = 0" | "0 < k" "k < 96" | "k = 96" | "96 < k" using False by linarith
    then show ?thesis
    proof cases
      case 1
      then show ?thesis using Cons.prems(1) by (simp add: read_records_end)
    next
      case 2
      then have "read_all sched frame_size (take k (records (m # ms))) = Inl Torn_Record"
        using read_all_granted [OF Cons.prems(1), of frame_size "take k (records (m # ms))"] len by (auto simp: frame_size_def)
      then show ?thesis using 2 by (subst read_records.simps) simp
    next
      case 3
      obtain c1 where c1: "granted c1" "read_all sched frame_size (take k (records (m # ms))) = Inr (Some (take k (records (m # ms))), [], c1)"
        using read_all_granted [OF Cons.prems(1), of frame_size "take k (records (m # ms))"] len 3 by (auto simp: frame_size_def)
      then show ?thesis
        using read_all_granted [OF c1(1), of 4 "[]"] 3 by (subst read_records.simps) auto
    next
      case 4
      obtain c1 where c1: "granted c1" "read_all sched frame_size (take k (records (m # ms))) =
          Inr (Some (take 96 (take k (records (m # ms)))), drop 96 (take k (records (m # ms))), c1)"
        using read_all_granted [OF Cons.prems(1), of frame_size "take k (records (m # ms))"] len 4 by (auto simp: frame_size_def)
      then have "read_all c1 4 (drop 96 (take k (records (m # ms)))) = Inl Torn_Record"
        using read_all_granted [OF c1(1), of 4 "drop 96 (take k (records (m # ms)))"] len 4 False by auto
      then show ?thesis using c1 4 False by (subst read_records.simps) simp
    qed
  qed
qed

lemma read_records_changed:
  assumes "granted sched" "list_all journaled ms" "q < length (records ms)" "b \<noteq> records ms ! q"
  shows "read_records sched ((records ms)[q := b]) acc = Inl Corrupt_Record"
  using assms
proof (induction ms arbitrary: sched acc q)
  case (Cons m ms)
  let ?r = "journal_record (encode_frame m)"
  show ?case
  proof (cases "q < 100")
    case True
    then have "record_message (take 96 (?r[q := b])) (drop 96 (?r[q := b])) = Inl Corrupt_Record"
      using Cons.prems(4) by (intro record_message_changed) (auto simp: nth_append)
    then show ?thesis
      using True read_record [OF Cons.prems(1), of "?r[q := b]" "records ms" acc] by (auto simp: list_update_append)
  next
    case False
    have ok: "record_message (take 96 ?r) (drop 96 ?r) = Inr m"
      using Cons.prems(2) record_message_ok by (simp add: frame_record)
    obtain calls where "granted calls" "read_records sched (?r @ (records ms)[q - 100 := b]) acc =
        read_records calls ((records ms)[q - 100 := b]) (acc @ [m])"
      using read_record [OF Cons.prems(1), of ?r "(records ms)[q - 100 := b]" acc] ok by auto
    then show ?thesis
      using False Cons.IH [of calls "q - 100" "acc @ [m]"] Cons.prems by (auto simp: list_update_append nth_append)
  qed
qed simp

section \<open>Theorems\<close>

definition env_granted :: "journal_env \<Rightarrow> bool" where
  "env_granted env \<longleftrightarrow> open_ok env \<and> lock_ok env \<and> sync_ok env \<and> directory_ok env \<and> granted (reads env) \<and>
     granted (writes env) \<and> Transfer 0 \<notin> set (writes env)"

lemma write_all_granted:
  assumes "granted sched" "Transfer 0 \<notin> set sched"
  shows "write_all sched data disk = (None, disk @ data)"
  using assms
proof (induction "length sched + length data" arbitrary: sched data disk rule: less_induct)
  case less
  consider "data = []" | c where "data \<noteq> []" "sched = Interrupted # c" | "data \<noteq> []" "sched = []"
    | k c where "data \<noteq> []" "sched = Transfer k # c" "k \<noteq> 0"
    using less.prems by (cases sched; cases "hd sched") (auto simp: granted_def)
  then show ?case
  proof cases
    case 1
    then show ?thesis by (simp add: write_all.simps)
  next
    case 2
    then show ?thesis using less.hyps [of c data disk] less.prems by (subst write_all.simps) (simp add: granted_def)
  next
    case 3
    then show ?thesis by (subst write_all.simps) (simp add: write_all.simps)
  next
    case 4
    have "write_all sched data disk = write_all c (drop (min k (length data)) data) (disk @ take (min k (length data)) data)"
      using 4 by (subst write_all.simps) (simp add: Let_def, simp add: min_def)
    also have "\<dots> = (None, (disk @ take (min k (length data)) data) @ drop (min k (length data)) data)"
      using 4 less.prems by (intro less.hyps) (auto simp: granted_def)
    finally show ?thesis by simp
  qed
qed

lemma open_layout:
  assumes "env_granted env" "length header = 16"
  shows "\<exists>calls. granted calls \<and> Journal_new env hash (header @ rest) =
    (if header \<noteq> expected_header hash then (Inl Header_Mismatch, header @ rest)
     else (read_records calls rest [], header @ rest))"
proof -
  obtain calls where "granted calls" "read_all (reads env) 16 (header @ rest) = Inr (Some header, rest, calls)"
    using read_all_granted [of "reads env" 16 "header @ rest"] assms by (auto simp: env_granted_def)
  then show ?thesis using assms(1) by (intro exI [of _ calls]) (simp add: Journal_new_def env_granted_def)
qed

lemma open_cut:
  assumes "env_granted env" "list_all journaled ms" "0 < k" "k \<le> length (journal_layout hash ms)"
  shows "Journal_new env hash (take k (journal_layout hash ms)) =
    (if k < 16 then Inl Torn_Record
     else if (k - 16) mod 100 = 0 then Inr (take ((k - 16) div 100) ms)
     else if (k - 16) mod 100 = 96 then Inl Missing_Checksum else Inl Torn_Record,
     take k (journal_layout hash ms))"
proof (cases "k < 16")
  case True
  have len: "length (take k (journal_layout hash ms)) = k" using assms(4) by simp
  have "read_all (reads env) 16 (take k (journal_layout hash ms)) = Inl Torn_Record"
    using read_all_granted [of "reads env" 16 "take k (journal_layout hash ms)"] assms(1,3) True
    unfolding len by (auto simp: env_granted_def)
  then show ?thesis using True assms(1) by (simp add: Journal_new_def env_granted_def)
next
  case False
  have "take k (journal_layout hash ms) = expected_header hash @ take (k - 16) (records ms)"
    using False by (simp add: journal_layout_def)
  moreover obtain calls where "granted calls" "Journal_new env hash (expected_header hash @ take (k - 16) (records ms)) =
      (read_records calls (take (k - 16) (records ms)) [], expected_header hash @ take (k - 16) (records ms))"
    using open_layout [OF assms(1), of "expected_header hash" hash] by auto
  ultimately show ?thesis
    using read_records_cut [of calls ms "k - 16" "[]"] assms(2,4) False by (auto simp: journal_layout_def)
qed

fun journal_session :: "(io_call list \<times> Message) list \<Rightarrow> u8 list \<Rightarrow> journal_error option \<times> u8 list" where
  "journal_session [] disk = (None, disk)"
| "journal_session ((sched, m) # ms) disk =
     (case journal_append sched True m disk of
        (Some err, disk') \<Rightarrow> (Some err, disk')
      | (None, disk') \<Rightarrow> journal_session ms disk')"

lemma journal_session_layout:
  assumes "\<forall>(sched, m) \<in> set ms. granted sched \<and> Transfer 0 \<notin> set sched \<and> journaled m"
  shows "journal_session ms disk = (None, disk @ records (map snd ms))"
  using assms
proof (induction ms arbitrary: disk)
  case (Cons x ms)
  obtain sched m where x: "x = (sched, m)" by force
  then have m: "granted sched" "Transfer 0 \<notin> set sched" "journaled m" using Cons.prems by auto
  have "journal_append sched True m disk = (None, disk @ journal_record (encode_frame m))"
    using m by (simp add: journal_append_def encode_ok journaled_def write_all_granted)
  then show ?case using Cons by (simp add: x)
qed simp

text \<open>
  C30. What is appended is what is recovered: a new journal accepts any commands, whatever short writes and
  interrupts the system calls make, and opening the file again with the same configuration, under any
  schedule of short reads, gives back exactly those commands in order and leaves the file as it is.
\<close>

theorem journal_roundtrip:
  assumes "env_granted env" "env_granted env'"
    and "\<forall>(sched, m) \<in> set ms. granted sched \<and> Transfer 0 \<notin> set sched \<and> journaled m"
  shows "\<exists>created written. Journal_new env hash [] = (Inr [], created) \<and>
    journal_session ms created = (None, written) \<and> Journal_new env' hash written = (Inr (map snd ms), written)"
proof -
  obtain calls where c: "granted calls" "read_all (reads env) 16 [] = Inr (None, [], calls)"
    using read_all_granted [of "reads env" 16 "[]"] assms(1) by (auto simp: env_granted_def)
  have new: "Journal_new env hash [] = (Inr [], expected_header hash)"
    using assms(1) c write_all_granted [of "writes env" "expected_header hash" "[]"]
    by (simp add: Journal_new_def env_granted_def read_records_end)
  have "list_all journaled (map snd ms)" using assms(3) by (auto simp: list_all_iff)
  then have "Journal_new env' hash (expected_header hash @ records (map snd ms)) =
      (Inr (map snd ms), expected_header hash @ records (map snd ms))"
    using open_layout [OF assms(2), of "expected_header hash" hash "records (map snd ms)"] read_records_ok by force
  then show ?thesis using new journal_session_layout [OF assms(3)] by blast
qed

definition demo_journal_env :: journal_env where
  "demo_journal_env = \<lparr>open_ok = True, lock_ok = True, sync_ok = True, directory_ok = True,
     reads = [Interrupted, Transfer 7], writes = [Transfer 3, Interrupted]\<rparr>"

theorem journal_roundtrip_witness:
  "\<exists>created written. Journal_new demo_journal_env 5 [] = (Inr [], created) \<and>
    journal_session [([Transfer 40], default_message)] created = (None, written) \<and>
    Journal_new demo_journal_env 5 written = (Inr [default_message], written)"
  using journal_roundtrip [of demo_journal_env demo_journal_env "[([Transfer 40], default_message)]" 5]
  by (simp add: demo_journal_env_def env_granted_def granted_def journaled_def message_ok_def default_message_def)

text \<open>
  A journal cut anywhere is never misread: opening a proper prefix of a journal recovers exactly the
  commands whose records are complete when the cut falls between two records, and fails otherwise, so
  that a torn tail is rejected and no command is invented or reordered.
\<close>

theorem journal_torn_tail:
  assumes "env_granted env" "list_all journaled ms" "0 < k" "k \<le> length (journal_layout hash ms)"
  shows "Journal_new env hash (take k (journal_layout hash ms)) =
    (if k < 16 then Inl Torn_Record
     else if (k - 16) mod 100 = 0 then Inr (take ((k - 16) div 100) ms)
     else if (k - 16) mod 100 = 96 then Inl Missing_Checksum else Inl Torn_Record,
     take k (journal_layout hash ms))"
  by (rule open_cut [OF assms])

theorem journal_torn_tail_witness:
  "fst (Journal_new demo_journal_env 5 (take 200 (journal_layout 5 [default_message, default_message]))) = Inl Torn_Record"
  using journal_torn_tail [of demo_journal_env "[default_message, default_message]" 200 5]
  by (simp add: demo_journal_env_def env_granted_def granted_def journaled_def message_ok_def default_message_def
      journal_layout_def)

text \<open>
  C31. A crash while appending loses at most the command being appended: whatever the writes do, the file
  afterwards opens to the earlier commands, or to those and the new one, or is refused as torn; and if the
  append reported success it opens to all of them.
\<close>

theorem journal_crash_safe:
  assumes "env_granted env" "list_all journaled ms" "journaled m"
  shows "case journal_append sched synced m (journal_layout hash ms) of (failure, disk) \<Rightarrow>
    fst (Journal_new env hash disk) \<in> {Inr ms, Inr (ms @ [m]), Inl Torn_Record, Inl Missing_Checksum} \<and>
    (failure = None \<longrightarrow> fst (Journal_new env hash disk) = Inr (ms @ [m]))"
proof -
  let ?r = "journal_record (encode_frame m)" and ?l = "journal_layout hash ms"
  obtain n where n: "snd (write_all sched ?r ?l) = ?l @ take n ?r" "n \<le> 100"
    "fst (write_all sched ?r ?l) = None \<longrightarrow> n = 100"
    using write_all_prefix [of sched ?r ?l] unfolding length_record by (elim exE conjE)
  have app: "journal_append sched synced m ?l =
      ((if fst (write_all sched ?r ?l) = None \<and> \<not> synced then Some Io_Failed else fst (write_all sched ?r ?l)), ?l @ take n ?r)"
    using n(1) assms(3) by (auto simp: journal_append_def encode_ok journaled_def split: prod.splits option.splits)
  have cut: "?l @ take n ?r = take (16 + (100 * length ms + n)) (journal_layout hash (ms @ [m]))"
    by (simp add: journal_layout_def)
  have all: "list_all journaled (ms @ [m])" using assms(2,3) by simp
  have "fst (Journal_new env hash (?l @ take n ?r)) =
      (if (100 * length ms + n) mod 100 = 0 then Inr (take ((100 * length ms + n) div 100) (ms @ [m]))
       else if (100 * length ms + n) mod 100 = 96 then Inl Missing_Checksum else Inl Torn_Record)"
    unfolding cut using open_cut [OF assms(1) all, of "16 + (100 * length ms + n)" hash] n(2)
    by (simp add: journal_layout_def)
  moreover have "(100 * length ms + n) mod 100 = n mod 100" "(100 * length ms + n) div 100 = length ms + n div 100" by auto
  moreover have "n mod 100 = 0 \<Longrightarrow> n = 0 \<or> n = 100" using n(2) by (cases "n = 100") auto
  ultimately show ?thesis using n(3) unfolding app by auto
qed

theorem journal_crash_safe_witness:
  "case journal_append [Transfer 10, Failed] True default_message (journal_layout 5 []) of (failure, disk) \<Rightarrow>
    fst (Journal_new demo_journal_env 5 disk) \<in> {Inr [], Inr [default_message], Inl Torn_Record, Inl Missing_Checksum}"
  using journal_crash_safe [where env = demo_journal_env and ms = "[]" and m = default_message and sched = "[Transfer 10, Failed]" and synced = True and hash = 5]
  by (auto simp: demo_journal_env_def env_granted_def granted_def journaled_def message_ok_def default_message_def)

text \<open>
  Any single changed byte of a journal is detected: whichever byte of the header, of a record or of
  a checksum is replaced by another value, opening the file fails.
\<close>

theorem journal_detects_change:
  assumes "env_granted env" "list_all journaled ms" "q < length (journal_layout hash ms)"
    and "b \<noteq> journal_layout hash ms ! q"
  shows "fst (Journal_new env hash ((journal_layout hash ms)[q := b])) \<in> {Inl Header_Mismatch, Inl Corrupt_Record}"
proof (cases "q < 16")
  case True
  have "(expected_header hash)[q := b] \<noteq> expected_header hash"
    using True assms(4) length_header [of hash] unfolding journal_layout_def by (metis nth_append nth_list_update_eq)
  moreover have "(journal_layout hash ms)[q := b] = (expected_header hash)[q := b] @ records ms"
    using True by (simp add: journal_layout_def list_update_append)
  ultimately show ?thesis
    using open_layout [OF assms(1), of "(expected_header hash)[q := b]" hash "records ms"] by auto
next
  case False
  have "(journal_layout hash ms)[q := b] = expected_header hash @ (records ms)[q - 16 := b]"
    using False by (simp add: journal_layout_def list_update_append)
  moreover obtain calls where "granted calls" "fst (Journal_new env hash (expected_header hash @ (records ms)[q - 16 := b])) =
      read_records calls ((records ms)[q - 16 := b]) []"
    using open_layout [OF assms(1), of "expected_header hash" hash "(records ms)[q - 16 := b]"] by auto
  moreover have "q - 16 < length (records ms)" "b \<noteq> records ms ! (q - 16)"
    using False assms(3,4) by (auto simp: journal_layout_def nth_append)
  ultimately show ?thesis using read_records_changed [of calls ms "q - 16" b "[]"] assms(2) by simp
qed

theorem journal_detects_change_witness:
  "fst (Journal_new demo_journal_env 5 ((journal_layout 5 [])[0 := 0])) \<in> {Inl Header_Mismatch, Inl Corrupt_Record}"
  by (rule journal_detects_change)
    (simp_all add: demo_journal_env_def env_granted_def granted_def journal_layout_def header_eq)

end
