(* ===== verification/Net_Protocol.thy ===== *)
theory Net_Protocol
  imports Core_Types Wire_Bytes
begin

text \<open>
  src/net/protocol.cpp: the fixed-size frames of the market data transports. An event takes 40 bytes, an
  acknowledgement 16; both start with the magic number, the version, a kind byte, a detail byte and a zero
  byte. The decoders refuse every frame the encoders do not produce, so that events and acknowledgements
  correspond one to one to the accepted frames.
\<close>

section \<open>Frames\<close>

definition lob_magic :: u64 where "lob_magic = 0x4c4f4231"

text \<open>The stable wire mapping of the results, independent of the order of the enumerators.\<close>

definition results :: "ApplyResult list" where
  "results = [Ok, DuplicateOrder, UnknownOrder, InvalidPrice, InvalidQuantity, UnknownInstrument,
     QuantityExceedsRemaining, ParseError, NotImplemented, AllocationFailed]"

definition valid_header :: "u8 list \<Rightarrow> bool" where
  "valid_header frame \<longleftrightarrow> get_be frame 0 4 = lob_magic \<and> frame ! 4 = 1 \<and> frame ! 7 = 0"

text \<open>\<open>None\<close> is the exception for a side outside the enumerators.\<close>

definition encode_event :: "MarketEvent \<Rightarrow> u8 list option" where
  "encode_event event =
     (let frame = replicate 40 0;
          frame = put_be frame 0 lob_magic 4;
          frame = frame[4 := 1];
          frame = put_be frame 8 (ev_sequence event) 8;
          frame = put_be frame 16 (ev_instrument_id event) 8
      in case ev_payload event of
           AddOrder order_id side price quantity \<Rightarrow>
             if side \<noteq> Bid \<and> side \<noteq> Ask then None
             else
               let frame = frame[5 := 1];
                   frame = frame[6 := (if side = Bid then 1 else 2)];
                   frame = put_be frame 24 order_id 8;
                   frame = put_be frame 32 (ucast price) 4
               in Some (put_be frame 36 (ucast quantity) 4)
         | CancelOrder order_id \<Rightarrow>
             let frame = frame[5 := 2] in Some (put_be frame 24 order_id 8)
         | ExecuteOrder order_id quantity \<Rightarrow>
             let frame = frame[5 := 3];
                 frame = put_be frame 24 order_id 8
             in Some (put_be frame 36 (ucast quantity) 4))"

definition decode_event :: "u8 list \<Rightarrow> MarketEvent option" where
  "decode_event frame =
     (if \<not> valid_header frame then None
      else
        let sequence = get_be frame 8 8; instrument = get_be frame 16 8; order = get_be frame 24 8;
            price = ucast (get_be frame 32 4); quantity = ucast (get_be frame 36 4);
            event = (\<lambda>p. Some \<lparr>ev_sequence = sequence, ev_instrument_id = instrument, ev_payload = p\<rparr>)
        in if frame ! 5 = 1 then
             if frame ! 6 \<noteq> 1 \<and> frame ! 6 \<noteq> 2 then None
             else event (AddOrder order (if frame ! 6 = 1 then Bid else Ask) price quantity)
           else if frame ! 5 = 2 then
             if frame ! 6 \<noteq> 0 \<or> price \<noteq> (0 :: Price) \<or> quantity \<noteq> 0 then None else event (CancelOrder order)
           else if frame ! 5 = 3 then
             if frame ! 6 \<noteq> 0 \<or> price \<noteq> 0 then None else event (ExecuteOrder order quantity)
           else None)"

definition encode_received_ack :: "Sequence \<Rightarrow> u8 list" where
  "encode_received_ack sequence =
     (let frame = replicate 16 0;
          frame = put_be frame 0 lob_magic 4;
          frame = frame[4 := 1];
          frame = frame[5 := 128]
      in put_be frame 8 sequence 8)"

definition decode_received_ack :: "u8 list \<Rightarrow> Sequence option" where
  "decode_received_ack frame =
     (if \<not> valid_header frame \<or> frame ! 5 \<noteq> 128 \<or> frame ! 6 \<noteq> 0 then None else Some (get_be frame 8 8))"

record ApplyAck =
  ack_sequence :: Sequence
  ack_result :: ApplyResult

text \<open>The search loop of \<open>encode_apply_ack\<close>: the first index of the result in the table.\<close>

fun result_index :: "ApplyResult list \<Rightarrow> ApplyResult \<Rightarrow> nat \<Rightarrow> nat option" where
  "result_index [] r i = None"
| "result_index (x # xs) r i = (if x = r then Some i else result_index xs r (Suc i))"

definition encode_apply_ack :: "ApplyAck \<Rightarrow> u8 list option" where
  "encode_apply_ack ack =
     (let frame = (encode_received_ack (ack_sequence ack))[5 := 129] in
      map_option (\<lambda>i. frame[6 := of_nat i]) (result_index results (ack_result ack) 0))"

definition decode_apply_ack :: "u8 list \<Rightarrow> ApplyAck option" where
  "decode_apply_ack frame =
     (if \<not> valid_header frame \<or> frame ! 5 \<noteq> 129 \<or> length results \<le> unat (frame ! 6) then None
      else Some \<lparr>ack_sequence = get_be frame 8 8, ack_result = results ! unat (frame ! 6)\<rparr>)"

section \<open>Slices of the frames\<close>

definition event_layout :: "nat list" where
  "event_layout = [4, 1, 1, 1, 1, 8, 8, 8, 4, 4]"

definition ack_layout :: "nat list" where
  "ack_layout = [4, 1, 1, 1, 1, 8]"

definition kind_tag :: "EventPayload \<Rightarrow> u8" where
  "kind_tag p = (case p of AddOrder _ _ _ _ \<Rightarrow> 1 | CancelOrder _ \<Rightarrow> 2 | ExecuteOrder _ _ \<Rightarrow> 3)"

definition side_tag :: "EventPayload \<Rightarrow> u8" where
  "side_tag p = (case p of AddOrder _ s _ _ \<Rightarrow> if s = Bid then 1 else 2 | _ \<Rightarrow> 0)"

definition payload_order :: "EventPayload \<Rightarrow> OrderId" where
  "payload_order p = (case p of AddOrder i _ _ _ \<Rightarrow> i | CancelOrder i \<Rightarrow> i | ExecuteOrder i _ \<Rightarrow> i)"

definition payload_price :: "EventPayload \<Rightarrow> Price" where
  "payload_price p = (case p of AddOrder _ _ x _ \<Rightarrow> x | _ \<Rightarrow> 0)"

definition payload_quantity :: "EventPayload \<Rightarrow> Quantity" where
  "payload_quantity p = (case p of AddOrder _ _ _ q \<Rightarrow> q | CancelOrder _ \<Rightarrow> 0 | ExecuteOrder _ q \<Rightarrow> q)"

lemmas payload_defs = kind_tag_def side_tag_def payload_order_def payload_price_def payload_quantity_def

lemma be_bytes_zero: "be_bytes n 0 = replicate n 0"
  by (induction n) (simp_all add: replicate_append_same)

lemma encode_event_slices:
  assumes "encode_event e = Some b"
  shows "length b = 40 \<and> event_ok e \<and> slices 0 event_layout b =
    [be_bytes 4 lob_magic, [1], [kind_tag (ev_payload e)], [side_tag (ev_payload e)], [0],
     be_bytes 8 (ev_sequence e), be_bytes 8 (ev_instrument_id e), be_bytes 8 (payload_order (ev_payload e)),
     be_bytes 4 (ucast (payload_price (ev_payload e))), be_bytes 4 (ucast (payload_quantity (ev_payload e)))]"
  using assms unfolding encode_event_def event_layout_def Let_def slices.simps event_ok_def
  by (cases "ev_payload e") (auto simp: wire_simps payload_defs be_bytes_zero split: if_splits)

lemma encode_event_ok: "event_ok e \<Longrightarrow> \<exists>b. encode_event e = Some b"
  by (cases "ev_payload e") (auto simp: event_ok_def encode_event_def Let_def)

lemma decode_encode_event:
  assumes "encode_event e = Some b"
  shows "decode_event b = Some e"
proof -
  have len: "length b = 40" and ok: "event_ok e" and
    "slices 0 event_layout b = [be_bytes 4 lob_magic, [1], [kind_tag (ev_payload e)], [side_tag (ev_payload e)], [0],
     be_bytes 8 (ev_sequence e), be_bytes 8 (ev_instrument_id e), be_bytes 8 (payload_order (ev_payload e)),
     be_bytes 4 (ucast (payload_price (ev_payload e))), be_bytes 4 (ucast (payload_quantity (ev_payload e)))]"
    using encode_event_slices [OF assms] by blast+
  note sl = this(3) [unfolded event_layout_def slices.simps, simplified]
  have bytes: "b ! 4 = 1" "b ! 5 = kind_tag (ev_payload e)" "b ! 6 = side_tag (ev_payload e)" "b ! 7 = 0"
    using sl len by (simp_all add: nth_slice)
  have words: "get_be b 0 4 = lob_magic" "get_be b 8 8 = ev_sequence e" "get_be b 16 8 = ev_instrument_id e"
    "get_be b 24 8 = payload_order (ev_payload e)" "ucast (get_be b 32 4) = payload_price (ev_payload e)"
    "ucast (get_be b 36 4) = payload_quantity (ev_payload e)"
    using sl len by (simp_all add: get_be_slice be_value_bytes take_bit_32_ucast lob_magic_def)
  show ?thesis
    unfolding decode_event_def valid_header_def bytes words Let_def
    using ok by (cases "ev_payload e") (auto simp: payload_defs event_ok_def)
qed

lemma decode_event_ok:
  assumes len: "length b = 40" and dec: "decode_event b = Some e"
  shows "event_ok e \<and> b ! 5 = kind_tag (ev_payload e) \<and> b ! 6 = side_tag (ev_payload e) \<and>
    get_be b 24 8 = payload_order (ev_payload e) \<and> get_be b 32 4 = ucast (payload_price (ev_payload e)) \<and>
    get_be b 36 4 = ucast (payload_quantity (ev_payload e)) \<and> get_be b 8 8 = ev_sequence e \<and>
    get_be b 16 8 = ev_instrument_id e \<and> get_be b 0 4 = lob_magic \<and> b ! 4 = 1 \<and> b ! 7 = 0"
proof -
  obtain p :: Price and q :: Quantity where pq: "get_be b 32 4 = ucast p" "get_be b 36 4 = ucast q"
  proof
    show "get_be b 32 4 = ucast (ucast (get_be b 32 4) :: u32)" "get_be b 36 4 = ucast (ucast (get_be b 36 4) :: u32)"
      using len by (simp_all only: ucast_get_4)
  qed
  have up: "(ucast (ucast x :: u64) :: u32) = x" for x by (rule bit_eqI) (auto simp: bit_simps)
  have dec': "valid_header b" "b ! 5 = 1 \<and> (b ! 6 = 1 \<or> b ! 6 = 2) \<and> e = \<lparr>ev_sequence = get_be b 8 8, ev_instrument_id = get_be b 16 8,
      ev_payload = AddOrder (get_be b 24 8) (if b ! 6 = 1 then Bid else Ask) p q\<rparr> \<or>
    b ! 5 = 2 \<and> b ! 6 = 0 \<and> p = 0 \<and> q = 0 \<and> e = \<lparr>ev_sequence = get_be b 8 8, ev_instrument_id = get_be b 16 8,
      ev_payload = CancelOrder (get_be b 24 8)\<rparr> \<or>
    b ! 5 = 3 \<and> b ! 6 = 0 \<and> p = 0 \<and> e = \<lparr>ev_sequence = get_be b 8 8, ev_instrument_id = get_be b 16 8,
      ev_payload = ExecuteOrder (get_be b 24 8) q\<rparr>"
    using dec unfolding decode_event_def Let_def pq up by (simp_all split: if_split_asm)
  from dec'(2) show ?thesis
    by (elim disjE conjE) (use dec'(1) pq in \<open>simp_all add: payload_defs event_ok_def valid_header_def\<close>)
qed

lemma field_slice: "get_be b at n = v \<Longrightarrow> n \<le> 8 \<Longrightarrow> at + n \<le> length b \<Longrightarrow> slice at n b = be_bytes n v"
  by (simp flip: slice_get_be)

lemma encode_decode_event:
  assumes len: "length b = 40" and dec: "decode_event b = Some e"
  shows "encode_event e = Some b"
proof -
  have d: "event_ok e" "b ! 5 = kind_tag (ev_payload e)" "b ! 6 = side_tag (ev_payload e)"
    "get_be b 24 8 = payload_order (ev_payload e)" "get_be b 32 4 = ucast (payload_price (ev_payload e))"
    "get_be b 36 4 = ucast (payload_quantity (ev_payload e))" "get_be b 8 8 = ev_sequence e"
    "get_be b 16 8 = ev_instrument_id e" "get_be b 0 4 = lob_magic" "b ! 4 = 1" "b ! 7 = 0"
    using decode_event_ok [OF assms] by blast+
  obtain c where c: "encode_event e = Some c" using d(1) encode_event_ok by blast
  have sl: "slices 0 event_layout b =
    [be_bytes 4 lob_magic, [1], [kind_tag (ev_payload e)], [side_tag (ev_payload e)], [0],
     be_bytes 8 (ev_sequence e), be_bytes 8 (ev_instrument_id e), be_bytes 8 (payload_order (ev_payload e)),
     be_bytes 4 (ucast (payload_price (ev_payload e))), be_bytes 4 (ucast (payload_quantity (ev_payload e)))]"
    using len d(2,3,10,11) field_slice [OF d(9)] field_slice [OF d(7)] field_slice [OF d(8)] field_slice [OF d(4)] field_slice [OF d(5)] field_slice [OF d(6)]
      slice_one [of 4 b] slice_one [of 5 b] slice_one [of 6 b] slice_one [of 7 b]
    unfolding event_layout_def slices.simps by simp
  have "b = c"
  proof (rule frame_eqI [of event_layout])
    show "sum_list event_layout = length b" by (simp add: event_layout_def len)
    show "length c = length b" using encode_event_slices [OF c] len by simp
    show "slices 0 event_layout b = slices 0 event_layout c"
      unfolding sl using encode_event_slices [OF c] by simp
  qed
  then show ?thesis using c by simp
qed

section \<open>Acknowledgements\<close>

definition ack_frame :: "u8 \<Rightarrow> u8 \<Rightarrow> Sequence \<Rightarrow> u8 list" where
  "ack_frame kind detail s = be_bytes 4 lob_magic @ [1, kind, detail, 0] @ be_bytes 8 s"

lemma ack_frame_slices:
  "slices 0 ack_layout (ack_frame k d s) = [be_bytes 4 lob_magic, [1], [k], [d], [0], be_bytes 8 s]"
  using slices_concat0 [of "[be_bytes 4 lob_magic, [1], [k], [d], [0], be_bytes 8 s]" ack_layout]
  by (simp add: ack_frame_def ack_layout_def)

lemma length_ack_frame [simp]: "length (ack_frame k d s) = 16"
  by (simp add: ack_frame_def)

lemma ack_frame_reads:
  "get_be (ack_frame k d s) 0 4 = lob_magic" "ack_frame k d s ! 4 = 1" "ack_frame k d s ! 5 = k"
  "ack_frame k d s ! 6 = d" "ack_frame k d s ! 7 = 0" "get_be (ack_frame k d s) 8 8 = s"
proof -
  note sl = ack_frame_slices [of k d s, unfolded ack_layout_def slices.simps, simplified]
  show "get_be (ack_frame k d s) 0 4 = lob_magic" "get_be (ack_frame k d s) 8 8 = s"
    using sl by (simp_all add: get_be_slice be_value_bytes lob_magic_def)
  show "ack_frame k d s ! 4 = 1" "ack_frame k d s ! 5 = k" "ack_frame k d s ! 6 = d" "ack_frame k d s ! 7 = 0"
    using sl by (simp_all add: nth_slice)
qed

lemma ack_frame_eqI:
  assumes "length b = 16" "get_be b 0 4 = lob_magic" "b ! 4 = 1" "b ! 7 = 0"
  shows "b = ack_frame (b ! 5) (b ! 6) (get_be b 8 8)"
proof (rule frame_eqI [of ack_layout])
  show "slices 0 ack_layout b = slices 0 ack_layout (ack_frame (b ! 5) (b ! 6) (get_be b 8 8))"
    unfolding ack_frame_slices
    using assms slice_get_be [of 4 0 b] slice_get_be [of 8 8 b] slice_one [of 4 b] slice_one [of 5 b] slice_one [of 6 b]
      slice_one [of 7 b] by (simp add: ack_layout_def)
qed (simp_all add: ack_layout_def assms)

lemma encode_received_frame: "encode_received_ack s = ack_frame 128 0 s"
proof (rule frame_eqI [of ack_layout])
  show "slices 0 ack_layout (encode_received_ack s) = slices 0 ack_layout (ack_frame 128 0 s)"
    unfolding ack_frame_slices
    unfolding encode_received_ack_def ack_layout_def Let_def slices.simps by (simp add: wire_simps)
qed (simp_all add: ack_layout_def encode_received_ack_def)

lemma ack_frame_update:
  "(ack_frame k d s)[5 := k'] = ack_frame k' d s" "(ack_frame k d s)[6 := d'] = ack_frame k d' s"
  by (simp_all add: ack_frame_def list_update_append)

lemma result_index_total: "\<exists>i < length results. result_index results r 0 = Some i \<and> results ! i = r"
  by (cases r) (simp_all add: results_def)

lemma result_index_nth: "i < length results \<Longrightarrow> result_index results (results ! i) 0 = Some i"
proof -
  assume "i < length results"
  then have "i \<in> {0, 1, 2, 3, 4, 5, 6, 7, 8, 9}" by (auto simp: results_def)
  then show ?thesis by (auto simp: results_def)
qed

lemma length_results [simp]: "length results = 10"
  by (simp add: results_def)

lemma encode_apply_frame:
  "encode_apply_ack a = Some (ack_frame 129 (of_nat (the (result_index results (ack_result a) 0))) (ack_sequence a))"
  using result_index_total [of "ack_result a"]
  by (auto simp: encode_apply_ack_def encode_received_frame ack_frame_update Let_def)

section \<open>Round trips\<close>

text \<open>
  Market events and frames correspond one to one: every event with a proper side encodes to a frame
  of 40 bytes that decodes to it, an event with any other side is refused, and a frame that decodes is the
  encoding of the event it decodes to.
\<close>

theorem event_frame_bijection:
  "(case encode_event e of
      None \<Rightarrow> (\<exists>i p q. ev_payload e = AddOrder i Side_Other p q)
    | Some b \<Rightarrow> length b = 40 \<and> decode_event b = Some e) \<and>
   (length f = 40 \<longrightarrow> (case decode_event f of None \<Rightarrow> True | Some d \<Rightarrow> encode_event d = Some f))"
proof (intro conjI impI)
  show "case encode_event e of None \<Rightarrow> (\<exists>i p q. ev_payload e = AddOrder i Side_Other p q)
      | Some b \<Rightarrow> length b = 40 \<and> decode_event b = Some e"
  proof (cases "encode_event e")
    case None
    then have "\<not> event_ok e" using encode_event_ok by fastforce
    then show ?thesis using None Side.exhaust by (auto simp: event_ok_def split: EventPayload.splits)
  next
    case (Some b)
    then show ?thesis using encode_event_slices decode_encode_event by simp
  qed
  show "case decode_event f of None \<Rightarrow> True | Some d \<Rightarrow> encode_event d = Some f" if "length f = 40"
    using encode_decode_event [OF that] by (simp split: option.splits)
qed

theorem event_frame_bijection_witness:
  "encode_event \<lparr>ev_sequence = 7, ev_instrument_id = 1, ev_payload = ExecuteOrder 9 3\<rparr> =
     Some [76, 79, 66, 49, 1, 3, 0, 0, 0, 0, 0, 0, 0, 0, 0, 7, 0, 0, 0, 0, 0, 0, 0, 1,
       0, 0, 0, 0, 0, 0, 0, 9, 0, 0, 0, 0, 0, 0, 0, 3]" (is "_ = Some ?f")
proof -
  have "decode_event ?f = Some \<lparr>ev_sequence = 7, ev_instrument_id = 1, ev_payload = ExecuteOrder 9 3\<rparr>"
    by (simp add: decode_event_def valid_header_def get_be_slice slice_def be_value_def lob_magic_def)
  then show ?thesis using event_frame_bijection [of undefined ?f] by simp
qed

text \<open>
  Acknowledgements and frames correspond one to one, for both kinds: every acknowledgement encodes and
  decodes back, a frame that decodes is the encoding of what it decodes to, and no frame is both a receipt
  and an application result.
\<close>

theorem ack_frame_bijection:
  "(\<exists>b. encode_apply_ack a = Some b \<and> length b = 16 \<and> decode_apply_ack b = Some a \<and> decode_received_ack b = None) \<and>
   (length (encode_received_ack s) = 16 \<and> decode_received_ack (encode_received_ack s) = Some s \<and>
    decode_apply_ack (encode_received_ack s) = None) \<and>
   (length f = 16 \<longrightarrow>
     (case decode_apply_ack f of None \<Rightarrow> True | Some r \<Rightarrow> encode_apply_ack r = Some f) \<and>
     (case decode_received_ack f of None \<Rightarrow> True | Some r \<Rightarrow> encode_received_ack r = f))"
proof (intro conjI impI)
  obtain i where i: "i < 10" "result_index results (ack_result a) 0 = Some i" "results ! i = ack_result a"
    using result_index_total [of "ack_result a"] by auto
  have "unat (of_nat i :: u8) = i" using i(1) by (simp add: unat_of_nat take_bit_nat_eq_self)
  then show "\<exists>b. encode_apply_ack a = Some b \<and> length b = 16 \<and> decode_apply_ack b = Some a \<and> decode_received_ack b = None"
    using i by (simp add: encode_apply_frame decode_apply_ack_def decode_received_ack_def valid_header_def ack_frame_reads)
  show "length (encode_received_ack s) = 16" "decode_received_ack (encode_received_ack s) = Some s"
    "decode_apply_ack (encode_received_ack s) = None"
    by (simp_all add: encode_received_frame decode_received_ack_def decode_apply_ack_def valid_header_def ack_frame_reads)
  assume len: "length f = 16"
  show "case decode_apply_ack f of None \<Rightarrow> True | Some r \<Rightarrow> encode_apply_ack r = Some f"
    using ack_frame_eqI [OF len] result_index_nth [of "unat (f ! 6)"]
    by (auto simp: decode_apply_ack_def valid_header_def encode_apply_frame)
  show "case decode_received_ack f of None \<Rightarrow> True | Some r \<Rightarrow> encode_received_ack r = f"
    using ack_frame_eqI [OF len] by (auto simp: decode_received_ack_def valid_header_def encode_received_frame)
qed

theorem ack_frame_bijection_witness:
  "encode_received_ack 7 = [76, 79, 66, 49, 1, 128, 0, 0, 0, 0, 0, 0, 0, 0, 0, 7]" (is "_ = ?f")
proof -
  have "decode_received_ack ?f = Some 7"
    by (simp add: decode_received_ack_def valid_header_def get_be_slice slice_def be_value_def lob_magic_def)
  then show ?thesis using ack_frame_bijection [of undefined 0 ?f] by simp
qed

end
