(* ===== verification/Engine.thy ===== *)
theory Engine
  imports Complex_Main Order_Book_Spec Messages "HOL-Library.Monad_Syntax"
begin

text \<open>
  include/order_book/trading/engine.hpp and src/trading/engine.cpp: the matching engine. A command is
  checked, planned against the opposite side of the book in price-time order, and then committed:
  the remainder rests, makers are filled, reports and book updates are emitted.

  A function returns \<open>None\<close> where an exception leaves it (\<open>logic_error\<close> from \<open>require\<close>,
  \<open>out_of_range\<close> from \<open>at\<close>, or a dangling read in the book). \<open>std::map\<close>s are ordered association
  lists. The memory of the engine's own maps and vectors is granted; the environment decides the
  allocations of the book. Signed 64-bit quantities are integers and the three \<open>long double\<close> fields of
  a position are exact rationals; the bounds proved below keep the integers within 64 bits.
\<close>

section \<open>Rules, positions and batches\<close>

record InstrumentRules =
  tick_size :: Price
  lot_size :: Quantity
  min_price :: Price
  max_price :: Price
  max_order_quantity :: Quantity
  max_notional :: u64
  max_position :: int
  max_open_orders :: nat

type_synonym Instruments = "(InstrumentId \<times> InstrumentRules) list"

definition default_rules :: InstrumentRules where
  "default_rules = \<lparr>tick_size = 1, lot_size = 1, min_price = 1, max_price = 1000000, max_order_quantity = 100000,
     max_notional = 10000000000, max_position = 1000000, max_open_orders = 128\<rparr>"

definition default_instruments :: Instruments where
  "default_instruments = [(1, default_rules), (2, default_rules)]"

record Position =
  pos_quantity :: int
  pos_volume :: u64
  pos_average_price :: rat
  pos_realized_pnl :: rat
  pos_cash :: rat

definition flat_position :: Position where
  "flat_position = \<lparr>pos_quantity = 0, pos_volume = 0, pos_average_price = 0, pos_realized_pnl = 0, pos_cash = 0\<rparr>"

definition position_fill :: "Side \<Rightarrow> Price \<Rightarrow> Quantity \<Rightarrow> Position \<Rightarrow> Position" where
  "position_fill s price sz p =
     (let signed_size = (if s = Bid then int (unat sz) else - int (unat sz));
          old = pos_quantity p;
          old_abs = \<bar>old\<bar>;
          next = old + signed_size;
          px = rat_of_nat (unat price);
          p1 = (if old = 0 \<or> (old > 0) = (signed_size > 0)
                then p\<lparr>pos_average_price :=
                        (pos_average_price p * rat_of_int old_abs + px * rat_of_nat (unat sz)) / rat_of_int \<bar>next\<bar>\<rparr>
                else let closed = min old_abs (int (unat sz));
                         p' = p\<lparr>pos_realized_pnl := pos_realized_pnl p +
                                  (px - pos_average_price p) * rat_of_int closed * (if old > 0 then 1 else - 1)\<rparr>
                     in if next = 0 then p'\<lparr>pos_average_price := 0\<rparr>
                        else if (next > 0) \<noteq> (old > 0) then p'\<lparr>pos_average_price := px\<rparr>
                        else p')
      in p1\<lparr>pos_quantity := next, pos_volume := pos_volume p + ucast sz,
            pos_cash := pos_cash p - px * rat_of_int signed_size\<rparr>)"

definition position_pnl :: "rat \<Rightarrow> Position \<Rightarrow> rat" where
  "position_pnl mark p = pos_cash p + rat_of_int (pos_quantity p) * mark"

record Batch =
  b_reports :: "Message list"
  b_updates :: "Message list"

record EngineStats =
  st_commands :: u64
  st_rejected :: u64
  st_trades :: u64
  st_volume :: u64

record ClientState =
  cs_last_request :: u64
  cs_max_order_id :: OrderId
  cs_last_command :: Message
  cs_cached :: "Message list"

definition new_client :: ClientState where
  "new_client = \<lparr>cs_last_request = 0, cs_max_order_id = 0, cs_last_command = default_message, cs_cached = []\<rparr>"

section \<open>The engine\<close>

record MatchingEngine =
  e_instruments :: Instruments
  e_books :: "(InstrumentId \<times> OrderBook) list"
  e_resting :: "(OrderId \<times> Message) list"
  e_by_client :: "((ClientId \<times> OrderId) \<times> OrderId) list"
  e_clients :: "(ClientId \<times> ClientState) list"
  e_positions :: "((ClientId \<times> InstrumentId) \<times> Position) list"
  e_epoch :: u64
  e_sequence :: Sequence
  e_response_sequence :: Sequence
  e_next_order :: OrderId
  e_next_trade :: u64
  e_stats :: EngineStats

definition rules_ok :: "InstrumentId \<Rightarrow> InstrumentRules \<Rightarrow> bool" where
  "rules_ok i r \<longleftrightarrow> \<not> (i = 0 \<or> tick_size r = 0 \<or> lot_size r = 0 \<or> min_price r = 0 \<or>
     max_price r < min_price r \<or> max_order_quantity r = 0 \<or> max_notional r = 0 \<or>
     max_position r \<le> 0 \<or> max_position r > 1000000000000 \<or> max_open_orders r = 0 \<or> max_open_orders r > 4096)"

text \<open>The pool blocks of the books come from the environment, one per instrument.\<close>

definition MatchingEngine_new ::
    "(InstrumentId \<Rightarrow> nat option) \<Rightarrow> Instruments \<Rightarrow> u64 \<Rightarrow> MatchingEngine option" where
  "MatchingEngine_new blocks instruments epoch =
     (if instruments = [] \<or> epoch = 0 \<or> \<not> list_all (\<lambda>(i, r). rules_ok i r) instruments then None
      else do {
        books \<leftarrow> those (map (\<lambda>(i, _). map_option (Pair i) (OrderBook_default (blocks i))) instruments);
        Some \<lparr>e_instruments = instruments, e_books = books, e_resting = [], e_by_client = [], e_clients = [],
              e_positions = [], e_epoch = epoch, e_sequence = 0, e_response_sequence = 0, e_next_order = 1,
              e_next_trade = 1, e_stats = \<lparr>st_commands = 0, st_rejected = 0, st_trades = 0, st_volume = 0\<rparr>\<rparr>
      })"

definition engine_book :: "InstrumentId \<Rightarrow> MatchingEngine \<Rightarrow> OrderBook option" where
  "engine_book i e = map_of (e_books e) i"

definition engine_position :: "ClientId \<Rightarrow> InstrumentId \<Rightarrow> MatchingEngine \<Rightarrow> Position" where
  "engine_position c i e = (case map_of (e_positions e) (c, i) of None \<Rightarrow> flat_position | Some p \<Rightarrow> p)"

definition engine_last_request :: "ClientId \<Rightarrow> MatchingEngine \<Rightarrow> u64" where
  "engine_last_request c e = (case map_of (e_clients e) c of None \<Rightarrow> 0 | Some s \<Rightarrow> cs_last_request s)"

text \<open>\<open>emplace\<close> and \<open>try_emplace\<close> of a \<open>std::map\<close> leave a present key alone.\<close>

definition om_emplace :: "'k::linorder \<Rightarrow> 'v \<Rightarrow> ('k \<times> 'v) list \<Rightarrow> ('k \<times> 'v) list" where
  "om_emplace k v m = (if om_contains m k then m else om_put (<) k v m)"

section \<open>Emitting messages\<close>

type_synonym work = "Batch \<times> MatchingEngine"

definition engine_report :: "Message \<Rightarrow> ReportType \<Rightarrow> Reject \<Rightarrow> work \<Rightarrow> work" where
  "engine_report m type reason w =
     (let (b, e) = w; sq = e_response_sequence e + 1 in
      (b\<lparr>b_reports := b_reports b @
          [m\<lparr>m_kind := Report, m_report := type, m_reject := reason, m_epoch := e_epoch e, m_sequence := sq\<rparr>]\<rparr>,
       e\<lparr>e_response_sequence := sq\<rparr>))"

definition engine_update :: "Message \<Rightarrow> UpdateType \<Rightarrow> work \<Rightarrow> work" where
  "engine_update m type w =
     (let (b, e) = w; sq = e_sequence e + 1 in
      (b\<lparr>b_updates := b_updates b @
          [m\<lparr>m_kind := Delta, m_update := type, m_epoch := e_epoch e, m_sequence := sq, m_client_id := 0,
             m_request_id := 0, m_order_id := 0\<rparr>]\<rparr>,
       e\<lparr>e_sequence := sq\<rparr>))"

definition engine_reject :: "Message \<Rightarrow> Reject \<Rightarrow> work \<Rightarrow> work" where
  "engine_reject c reason w =
     (let (b, e) = w; st = e_stats e in
      engine_report c Rpt_Rejected reason (b, e\<lparr>e_stats := st\<lparr>st_rejected := st_rejected st + 1\<rparr>\<rparr>))"

text \<open>\<open>require(book.apply(...) == Ok)\<close> on the book of an instrument.\<close>

definition book_apply ::
    "heap_env \<Rightarrow> InstrumentId \<Rightarrow> EventPayload \<Rightarrow> MatchingEngine \<Rightarrow> (ApplyResult \<times> MatchingEngine) option" where
  "book_apply h i ev e = do {
     bk \<leftarrow> map_of (e_books e) i;
     (r, bk') \<leftarrow> apply_event h ev bk;
     Some (r, e\<lparr>e_books := om_put (<) i bk' (e_books e)\<rparr>)
   }"

definition book_require :: "heap_env \<Rightarrow> InstrumentId \<Rightarrow> EventPayload \<Rightarrow> MatchingEngine \<Rightarrow> MatchingEngine option" where
  "book_require h i ev e = do {
     (r, e') \<leftarrow> book_apply h i ev e;
     if r = Ok then Some e' else None
   }"

definition engine_cancel :: "heap_env \<Rightarrow> OrderId \<Rightarrow> u64 \<Rightarrow> work \<Rightarrow> work option" where
  "engine_cancel h oid request w = do {
     let (b, e) = w;
     m0 \<leftarrow> map_of (e_resting e) oid;
     let m = m0\<lparr>m_request_id := request, m_remaining := 0\<rparr>;
     e1 \<leftarrow> book_require h (m_instrument_id m) (CancelOrder oid) e;
     let (b2, e2) = engine_report m Rpt_Cancelled Rej_None (engine_update m Upd_Cancel (b, e1));
     Some (b2, e2\<lparr>e_by_client := om_erase (m_client_id m, m_order_id m) (e_by_client e2),
                   e_resting := om_erase oid (e_resting e2)\<rparr>)
   }"

section \<open>Submitting an order\<close>

definition crosses :: "Message \<Rightarrow> Price \<Rightarrow> bool" where
  "crosses c price \<longleftrightarrow>
     m_order_type c = Market \<or> (if m_side c = Bid then price \<le> m_price c else m_price c \<le> price)"

text \<open>The validation and risk checks, in order; the outer \<open>None\<close> is the exception of \<open>clients_.at\<close>.\<close>

definition risk_scan :: "Message \<Rightarrow> OrderId \<Rightarrow> (OrderId \<times> Message) list \<Rightarrow> int \<times> nat" where
  "risk_scan c old_id resting =
     foldl (\<lambda>(reserved, open) (oid, order).
         if oid = old_id \<or> m_client_id order \<noteq> m_client_id c then (reserved, open)
         else (if m_instrument_id order = m_instrument_id c \<and> m_side order = m_side c
               then reserved + int (unat (m_quantity order)) else reserved, Suc open))
       (0, 0) resting"

definition submit_check :: "MatchingEngine \<Rightarrow> Message \<Rightarrow> OrderId \<Rightarrow> Reject option option" where
  "submit_check e c old_id =
     (case map_of (e_instruments e) (m_instrument_id c) of
        None \<Rightarrow> Some (Some Rej_UnknownInstrument)
      | Some r \<Rightarrow>
          if (m_side c \<noteq> Bid \<and> m_side c \<noteq> Ask) \<or> m_order_id c = 0 \<or>
             (m_order_type c \<noteq> Limit \<and> m_order_type c \<noteq> Market) \<or>
             (m_tif c \<noteq> GTC \<and> m_tif c \<noteq> IOC \<and> m_tif c \<noteq> FOK) \<or>
             (m_order_type c = Market \<and> (m_price c \<noteq> 0 \<or> m_tif c = GTC \<or> m_post_only c)) \<or>
             (m_post_only c \<and> m_tif c \<noteq> GTC) \<or>
             (old_id \<noteq> 0 \<and> (m_order_type c \<noteq> Limit \<or> m_tif c \<noteq> GTC))
          then Some (Some Rej_InvalidCommand)
          else if m_quantity c = 0 \<or> m_quantity c mod lot_size r \<noteq> 0 then Some (Some Rej_InvalidQuantity)
          else if m_order_type c = Limit \<and>
             (m_price c < min_price r \<or> max_price r < m_price c \<or> m_price c mod tick_size r \<noteq> 0)
          then Some (Some Rej_InvalidPrice)
          else if max_order_quantity r < m_quantity c then Some (Some Rej_RiskQuantity)
          else if max_notional r < ucast (if m_order_type c = Market then max_price r else m_price c) * ucast (m_quantity c)
          then Some (Some Rej_RiskNotional)
          else (case map_of (e_clients e) (m_client_id c) of
              None \<Rightarrow> None
            | Some state \<Rightarrow>
                if old_id = 0 \<and> m_order_id c \<le> cs_max_order_id state then Some (Some Rej_DuplicateOrder)
                else let (reserved, open) = risk_scan c old_id (e_resting e) in
                  if max_open_orders r \<le> open then Some (Some Rej_RiskOpenOrders)
                  else let worst = pos_quantity (engine_position (m_client_id c) (m_instrument_id c) e) +
                         (if m_side c = Bid then 1 else - 1) * (reserved + int (unat (m_quantity c)))
                    in if max_position r < \<bar>worst\<bar> then Some (Some Rej_RiskPosition) else Some None))"

text \<open>A replace that only reduces the quantity keeps its place in the queue.\<close>

definition submit_reduce ::
    "heap_env \<Rightarrow> Message \<Rightarrow> OrderId \<Rightarrow> Message \<Rightarrow> work \<Rightarrow> work option" where
  "submit_reduce h c old_id old w = do {
     let (b, e) = w;
     let reduction = m_quantity old - m_quantity c;
     let m = c\<lparr>m_exchange_id := old_id, m_remaining := m_quantity c\<rparr>;
     (b1, e1) \<leftarrow> (if reduction \<noteq> 0
        then do {
          e' \<leftarrow> book_require h (m_instrument_id c) (ExecuteOrder old_id reduction) e;
          Some (engine_update m Upd_Reduce (b, e'))
        }
        else Some (b, e));
     let e2 = e1\<lparr>e_resting := om_update old_id (\<lambda>o'. o'\<lparr>m_quantity := m_quantity c\<rparr>) (e_resting e1)\<rparr>;
     Some (engine_report m Rpt_Replaced Rej_None (b1, e2))
   }"

text \<open>The planning pass over the opposite side; \<open>None\<close> is the exception of \<open>resting_.at\<close> inside the visitor.\<close>

record fill =
  fill_id :: OrderId
  fill_price :: Price
  fill_size :: Quantity

type_synonym plan = "(fill list \<times> Quantity \<times> Reject) option"

definition plan_visit :: "MatchingEngine \<Rightarrow> Message \<Rightarrow> plan \<Rightarrow> OrderView \<Rightarrow> bool \<times> plan" where
  "plan_visit e c st order =
     (case st of
        None \<Rightarrow> (False, None)
      | Some (planned, leaves, rejection) \<Rightarrow>
          if leaves = 0 \<or> \<not> crosses c (view_price order) then (False, Some (planned, leaves, rejection))
          else if m_post_only c then (False, Some (planned, leaves, Rej_PostOnly))
          else (case map_of (e_resting e) (view_id order) of
              None \<Rightarrow> (False, None)
            | Some m \<Rightarrow>
                if m_client_id m = m_client_id c then (False, Some (planned, leaves, Rej_SelfTrade))
                else let sz = min leaves (view_quantity order) in
                  (leaves - sz \<noteq> 0,
                   Some (planned @ [\<lparr>fill_id = view_id order, fill_price = view_price order, fill_size = sz\<rparr>],
                         leaves - sz, rejection))))"

definition submit_plan :: "MatchingEngine \<Rightarrow> Message \<Rightarrow> plan" where
  "submit_plan e c =
     (case map_of (e_books e) (m_instrument_id c) of
        None \<Rightarrow> None
      | Some bk \<Rightarrow> for_each_order (if m_side c = Bid then Ask else Bid) (plan_visit e c) bk
                     (Some ([], m_quantity c, Rej_None)))"

text \<open>One planned fill: maker and taker are reported, the book updated, both positions moved.\<close>

definition fill_positions :: "Message \<Rightarrow> Message \<Rightarrow> fill \<Rightarrow> MatchingEngine \<Rightarrow> MatchingEngine option" where
  "fill_positions c maker f e = do {
     pm \<leftarrow> map_of (e_positions e) (m_client_id maker, m_instrument_id c);
     let ps = om_put (<) (m_client_id maker, m_instrument_id c)
                (position_fill (m_side maker) (fill_price f) (fill_size f) pm) (e_positions e);
     pt \<leftarrow> map_of ps (m_client_id c, m_instrument_id c);
     Some (e\<lparr>e_positions := om_put (<) (m_client_id c, m_instrument_id c)
               (position_fill (m_side c) (fill_price f) (fill_size f) pt) ps\<rparr>)
   }"

definition fill_one ::
    "heap_env \<Rightarrow> Message \<Rightarrow> Message \<Rightarrow> fill \<Rightarrow> Quantity \<times> work \<Rightarrow> (Quantity \<times> work) option" where
  "fill_one h c incoming f st = do {
     let (taker_leaves0, b, e) = st;
     maker0 \<leftarrow> map_of (e_resting e) (fill_id f);
     let maker = maker0\<lparr>m_quantity := m_quantity maker0 - fill_size f\<rparr>;
     let e1 = e\<lparr>e_resting := om_put (<) (fill_id f) maker (e_resting e)\<rparr>;
     let taker_leaves = taker_leaves0 - fill_size f;
     e2 \<leftarrow> book_require h (m_instrument_id c) (ExecuteOrder (fill_id f) (fill_size f)) e1;
     let execution = maker\<lparr>m_quantity := fill_size f, m_remaining := m_quantity maker,
                           m_trade_id := e_next_trade e2\<rparr>;
     let (b3, e3) = engine_update execution Upd_Execute (engine_report execution Rpt_Fill Rej_None (b, e2));
     let taker = incoming\<lparr>m_price := fill_price f, m_quantity := fill_size f, m_remaining := taker_leaves,
                          m_trade_id := e_next_trade e3\<rparr>;
     let e4 = e3\<lparr>e_next_trade := e_next_trade e3 + 1\<rparr>;
     let (b5, e5) = engine_update taker Upd_Trade (engine_report taker Rpt_Fill Rej_None (b3, e4));
     e6 \<leftarrow> fill_positions c maker f e5;
     let e7 = (if m_quantity maker = 0
               then e6\<lparr>e_by_client := om_erase (m_client_id maker, m_order_id maker) (e_by_client e6),
                       e_resting := om_erase (fill_id f) (e_resting e6)\<rparr>
               else e6);
     let stats = e_stats e7;
     Some (taker_leaves, b5, e7\<lparr>e_stats := stats\<lparr>st_trades := st_trades stats + 1,
                                          st_volume := st_volume stats + ucast (fill_size f)\<rparr>\<rparr>)
   }"

fun fill_all ::
    "heap_env \<Rightarrow> Message \<Rightarrow> Message \<Rightarrow> fill list \<Rightarrow> Quantity \<times> work \<Rightarrow> (Quantity \<times> work) option" where
  "fill_all h c incoming [] st = Some st"
| "fill_all h c incoming (f # fs) st = do { st' \<leftarrow> fill_one h c incoming f st; fill_all h c incoming fs st' }"

text \<open>
  Storage for the remainder is taken first: the order joins \<open>resting_\<close>, the client index and the book;
  when the book refuses, the two maps are restored. The result is \<open>Inl\<close> for that rejection.
\<close>

definition rest_remainder ::
    "heap_env \<Rightarrow> Message \<Rightarrow> OrderId \<Rightarrow> Message \<Rightarrow> Quantity \<Rightarrow> MatchingEngine \<Rightarrow>
     (MatchingEngine + MatchingEngine) option" where
  "rest_remainder h c old_id incoming leaves e = do {
     let new_id = e_next_order e;
     let e1 = e\<lparr>e_resting := om_emplace new_id (incoming\<lparr>m_quantity := leaves, m_remaining := leaves\<rparr>) (e_resting e)\<rparr>;
     let e2 = (if old_id = 0
               then e1\<lparr>e_by_client := om_emplace (m_client_id c, m_order_id c) new_id (e_by_client e1)\<rparr> else e1);
     (r, e3) \<leftarrow> book_apply h (m_instrument_id c) (AddOrder new_id (m_side c) (m_price c) leaves) e2;
     if r \<noteq> Ok
     then do {
       let e4 = e3\<lparr>e_resting := om_erase new_id (e_resting e3)\<rparr>;
       Some (Inl (if old_id = 0
                  then e4\<lparr>e_by_client := om_erase (m_client_id c, m_order_id c) (e_by_client e4)\<rparr> else e4))
     }
     else Some (Inr e3)
   }"

text \<open>The old order of a replace leaves the book and the client index points to the new one, if it rests.\<close>

definition retire_old ::
    "heap_env \<Rightarrow> Message \<Rightarrow> OrderId \<Rightarrow> OrderId \<Rightarrow> bool \<Rightarrow> work \<Rightarrow> work option" where
  "retire_old h c old_id new_id keep w = do {
     let (b, e) = w;
     old \<leftarrow> map_of (e_resting e) old_id;
     e1 \<leftarrow> book_require h (m_instrument_id c) (CancelOrder old_id) e;
     let (b2, e2) = engine_update old Upd_Cancel (b, e1);
     let e3 = e2\<lparr>e_resting := om_erase old_id (e_resting e2)\<rparr>;
     if keep
     then (if om_contains (e_by_client e3) (m_client_id c, m_order_id c)
           then Some (b2, e3\<lparr>e_by_client := om_put (<) (m_client_id c, m_order_id c) new_id (e_by_client e3)\<rparr>)
           else None)
     else Some (b2, e3\<lparr>e_by_client := om_erase (m_client_id c, m_order_id c) (e_by_client e3)\<rparr>)
   }"

text \<open>A limit order good till cancelled rests with what the plan leaves of it.\<close>

definition rests :: "Message \<Rightarrow> Quantity \<Rightarrow> bool" where
  "rests c leaves \<longleftrightarrow> leaves \<noteq> 0 \<and> m_tif c = GTC \<and> m_order_type c = Limit"

definition incoming_of :: "Message \<Rightarrow> OrderId \<Rightarrow> Message" where
  "incoming_of c new_id = c\<lparr>m_exchange_id := new_id, m_remaining := m_quantity c\<rparr>"

definition commit_close :: "Message \<Rightarrow> OrderId \<Rightarrow> Quantity \<Rightarrow> work \<Rightarrow> work" where
  "commit_close c new_id leaves w =
     (if rests c leaves
      then engine_update ((incoming_of c new_id)\<lparr>m_quantity := leaves, m_remaining := leaves\<rparr>) Upd_Add w
      else if leaves \<noteq> 0
      then engine_report ((incoming_of c new_id)\<lparr>m_quantity := leaves, m_remaining := 0\<rparr>) Rpt_Cancelled Rej_None w
      else w)"

definition submit_commit ::
    "heap_env \<Rightarrow> Message \<Rightarrow> OrderId \<Rightarrow> fill list \<Rightarrow> Quantity \<Rightarrow> work \<Rightarrow> work option" where
  "submit_commit h c old_id planned leaves w = do {
     let (b, e) = w;
     let e0 = e\<lparr>e_positions := om_emplace (m_client_id c, m_instrument_id c) flat_position (e_positions e)\<rparr>;
     let new_id = e_next_order e0;
     let incoming = incoming_of c new_id;
     rested \<leftarrow> (if rests c leaves then rest_remainder h c old_id incoming leaves e0 else Some (Inr e0));
     case rested of
       Inl e1 \<Rightarrow> Some (engine_reject c Rej_Capacity (b, e1))
     | Inr e1 \<Rightarrow> do {
         let e2 = e1\<lparr>e_next_order := e_next_order e1 + 1\<rparr>;
         (b3, e3) \<leftarrow> (if old_id \<noteq> 0 then retire_old h c old_id new_id (rests c leaves) (b, e2) else Some (b, e2));
         state \<leftarrow> map_of (e_clients e3) (m_client_id c);
         let e4 = e3\<lparr>e_clients := om_put (<) (m_client_id c)
                       (state\<lparr>cs_max_order_id := max (cs_max_order_id state) (m_order_id c)\<rparr>) (e_clients e3)\<rparr>;
         let w5 = engine_report incoming (if old_id = 0 then Rpt_Accepted else Rpt_Replaced) Rej_None (b3, e4);
         (_, w6) \<leftarrow> fill_all h c incoming planned (m_quantity c, w5);
         Some (commit_close c new_id leaves w6)
       }
   }"

definition submit_match :: "heap_env \<Rightarrow> Message \<Rightarrow> OrderId \<Rightarrow> work \<Rightarrow> work option" where
  "submit_match h c old_id w = do {
     (planned, leaves, rejection) \<leftarrow> submit_plan (snd w) c;
     if rejection \<noteq> Rej_None then Some (engine_reject c rejection w)
     else if m_tif c = FOK \<and> leaves \<noteq> 0 then Some (engine_reject c Rej_Fok w)
     else submit_commit h c old_id planned leaves w
   }"

definition engine_submit :: "heap_env \<Rightarrow> Message \<Rightarrow> OrderId \<Rightarrow> work \<Rightarrow> work option" where
  "engine_submit h c old_id w = do {
     checked \<leftarrow> submit_check (snd w) c old_id;
     case checked of
       Some reason \<Rightarrow> Some (engine_reject c reason w)
     | None \<Rightarrow>
         if map_of (e_books (snd w)) (m_instrument_id c) = None then None
         else if old_id \<noteq> 0
         then do {
           old \<leftarrow> map_of (e_resting (snd w)) old_id;
           if m_instrument_id old \<noteq> m_instrument_id c \<or> m_side old \<noteq> m_side c
           then Some (engine_reject c Rej_InvalidCommand w)
           else if m_price old = m_price c \<and> m_quantity c \<le> m_quantity old
           then submit_reduce h c old_id old w
           else submit_match h c old_id w
         }
         else submit_match h c old_id w
   }"

section \<open>Processing a command\<close>

fun cancel_all :: "heap_env \<Rightarrow> OrderId list \<Rightarrow> u64 \<Rightarrow> work \<Rightarrow> work option" where
  "cancel_all h [] request w = Some w"
| "cancel_all h (oid # ids) request w = do { w' \<leftarrow> engine_cancel h oid request w; cancel_all h ids request w' }"

definition client_orders :: "Message \<Rightarrow> MatchingEngine \<Rightarrow> OrderId list" where
  "client_orders c e =
     map fst (filter (\<lambda>(_, m). m_client_id m = m_client_id c \<and>
                        (m_instrument_id c = 0 \<or> m_instrument_id m = m_instrument_id c)) (e_resting e))"

text \<open>The dispatch on the action of an accepted request.\<close>

definition engine_dispatch :: "heap_env \<Rightarrow> Message \<Rightarrow> work \<Rightarrow> work option" where
  "engine_dispatch h c w =
     (if m_action c = Act_New then engine_submit h c 0 w
      else if m_action c = Act_Cancel \<or> m_action c = Act_Replace
      then (case map_of (e_by_client (snd w)) (m_client_id c, m_order_id c) of
          None \<Rightarrow> Some (engine_reject c Rej_UnknownOrder w)
        | Some oid \<Rightarrow> do {
            m \<leftarrow> map_of (e_resting (snd w)) oid;
            if m_instrument_id m \<noteq> m_instrument_id c then Some (engine_reject c Rej_UnknownOrder w)
            else if m_action c = Act_Cancel then engine_cancel h oid (m_request_id c) w
            else engine_submit h c oid w
          })
      else if m_action c = Act_CancelAll
      then cancel_all h (client_orders c (snd w)) (m_request_id c) w
      else Some (engine_reject c Rej_InvalidCommand w))"

text \<open>The completion report and the cache of the client's own reports.\<close>

definition engine_complete :: "Message \<Rightarrow> work \<Rightarrow> work option" where
  "engine_complete c w = do {
     complete \<leftarrow> (case map_of (e_by_client (snd w)) (m_client_id c, m_order_id c) of
         None \<Rightarrow> Some c
       | Some oid \<Rightarrow> do {
           m \<leftarrow> map_of (e_resting (snd w)) oid;
           Some (c\<lparr>m_remaining := m_quantity m, m_exchange_id := oid\<rparr>)
         });
     let (b, e) = engine_report complete Rpt_Complete Rej_None w;
     state \<leftarrow> map_of (e_clients e) (m_client_id c);
     Some (b, e\<lparr>e_clients := om_put (<) (m_client_id c)
        (state\<lparr>cs_last_request := m_request_id c, cs_last_command := c,
               cs_cached := filter (\<lambda>m. m_client_id m = m_client_id c) (b_reports b)\<rparr>) (e_clients e)\<rparr>)
   }"

definition engine_process :: "heap_env \<Rightarrow> Message \<Rightarrow> MatchingEngine \<Rightarrow> work option" where
  "engine_process h c e =
     (let w0 = (\<lparr>b_reports = [], b_updates = []\<rparr>, e) in
      if m_kind c \<noteq> Command \<or> m_action c = Act_Snapshot then Some (engine_reject c Rej_InvalidCommand w0)
      else if m_action c = Act_Status
      then Some (engine_report (c\<lparr>m_request_id := engine_last_request (m_client_id c) e\<rparr>) Rpt_Status Rej_None w0)
      else if m_client_id c = 0 \<or> m_request_id c = 0
      then Some (engine_report c Rpt_Complete Rej_None (engine_reject c Rej_InvalidCommand w0))
      else
        let e1 = e\<lparr>e_clients := om_emplace (m_client_id c) new_client (e_clients e)\<rparr> in
        case map_of (e_clients e1) (m_client_id c) of
          None \<Rightarrow> None
        | Some state \<Rightarrow>
            if m_request_id c = cs_last_request state \<and> c = cs_last_command state
            then Some (\<lparr>b_reports = cs_cached state, b_updates = []\<rparr>, e1)
            else if m_request_id c \<le> cs_last_request state \<or> m_request_id c - cs_last_request state \<noteq> 1
            then Some (engine_report c Rpt_Complete Rej_None
                         (engine_reject c Rej_Sequence (\<lparr>b_reports = [], b_updates = []\<rparr>, e1)))
            else do {
              let stats = e_stats e1;
              w2 \<leftarrow> engine_dispatch h c (\<lparr>b_reports = [], b_updates = []\<rparr>,
                       e1\<lparr>e_stats := stats\<lparr>st_commands := st_commands stats + 1\<rparr>\<rparr>);
              engine_complete c w2
            })"

section \<open>Snapshot and consistency check\<close>

definition snapshot_rows :: "MatchingEngine \<Rightarrow> Message list" where
  "snapshot_rows e =
     concat (map (\<lambda>(i, bk).
       concat (map (\<lambda>level. map (\<lambda>order. default_message\<lparr>m_kind := SnapshotOrder, m_epoch := e_epoch e,
            m_sequence := e_sequence e, m_instrument_id := i, m_exchange_id := view_id order,
            m_side := view_side order, m_price := view_price order, m_quantity := view_quantity order\<rparr>)
          (lv_orders level)) (book_snapshot bk))) (e_books e))"

definition engine_snapshot :: "MatchingEngine \<Rightarrow> Message list" where
  "engine_snapshot e =
     (let m = default_message\<lparr>m_kind := SnapshotBegin, m_epoch := e_epoch e, m_sequence := e_sequence e,
                m_quantity := of_nat (length (e_resting e))\<rparr>
      in m # snapshot_rows e @ [m\<lparr>m_kind := SnapshotEnd\<rparr>])"

definition order_owned :: "MatchingEngine \<Rightarrow> InstrumentId \<Rightarrow> OrderView \<Rightarrow> string option" where
  "order_owned e i order =
     (case map_of (e_resting e) (view_id order) of
        None \<Rightarrow> Some ''Missing owner metadata''
      | Some m \<Rightarrow>
          if m_instrument_id m \<noteq> i \<or> m_side m \<noteq> view_side order \<or> m_price m \<noteq> view_price order \<or>
             m_quantity m \<noteq> view_quantity order
          then Some ''Book/owner mismatch''
          else if map_of (e_by_client e) (m_client_id m, m_order_id m) \<noteq> Some (view_id order)
          then Some ''Client index mismatch''
          else None)"

fun first_failure :: "('a \<Rightarrow> string option) \<Rightarrow> 'a list \<Rightarrow> string option" where
  "first_failure check [] = None"
| "first_failure check (x # xs) = (case check x of Some r \<Rightarrow> Some r | None \<Rightarrow> first_failure check xs)"

definition book_consistent :: "MatchingEngine \<Rightarrow> InstrumentId \<times> OrderBook \<Rightarrow> string option" where
  "book_consistent e ib =
     (let (i, bk) = ib in
      case validate_invariants bk of
        Inl reason \<Rightarrow> Some reason
      | Inr _ \<Rightarrow>
          if (case (best_bid bk, best_ask bk) of (Some bid, Some ask) \<Rightarrow> ask \<le> bid | _ \<Rightarrow> False)
          then Some ''Crossed book''
          else first_failure (order_owned e i) (concat (map lv_orders (book_snapshot bk))))"

definition engine_validate :: "MatchingEngine \<Rightarrow> string + unit" where
  "engine_validate e =
     (case first_failure (book_consistent e) (e_books e) of
        Some reason \<Rightarrow> Inl reason
      | None \<Rightarrow>
          let count = sum_list (map (\<lambda>(_, bk). order_count bk) (e_books e)) in
          if count \<noteq> length (e_resting e) \<or> count \<noteq> length (e_by_client e) then Inl ''Order counts mismatch''
          else if list_ex (\<lambda>i.
                 (\<Sum>(k, p) \<leftarrow> e_positions e. if snd k = i then pos_quantity p else 0) \<noteq> 0 \<or>
                 (\<Sum>(k, p) \<leftarrow> e_positions e. if snd k = i then pos_cash p else 0) \<noteq> 0)
               (map (snd \<circ> fst) (e_positions e))
          then Inl ''Position/cash conservation''
          else Inr ())"

end
