(* ===== verification/Engine_Inv.thy ===== *)
theory Engine_Inv
  imports Engine
begin

text \<open>
  The books and the owner table of the matching engine agree: an order is live in the book of
  instrument \<open>i\<close> exactly when \<open>resting_\<close> holds it with that instrument, with the same side, price and
  quantity. The lemmas here say how an add, a cancel and an execution keep that agreement, using only
  the contract of a book.
\<close>

section \<open>Owner table and books\<close>

definition owner_view :: "OrderId \<Rightarrow> Message \<Rightarrow> OrderView" where
  "owner_view oid m = \<lparr>view_id = oid, view_side = m_side m, view_price = m_price m, view_quantity = m_quantity m\<rparr>"

lemma owner_view_sel [simp]:
  "view_id (owner_view oid m) = oid" "view_side (owner_view oid m) = m_side m"
  "view_price (owner_view oid m) = m_price m" "view_quantity (owner_view oid m) = m_quantity m"
  by (simp_all add: owner_view_def)

definition owner_in :: "(OrderId \<times> Message) list \<Rightarrow> InstrumentId \<Rightarrow> OrderId \<Rightarrow> OrderView option" where
  "owner_in rs i oid =
     (case map_of rs oid of
        Some m \<Rightarrow> if m_instrument_id m = i then Some (owner_view oid m) else None
      | None \<Rightarrow> None)"

definition owned_books :: "(InstrumentId \<times> OrderBook) list \<Rightarrow> (OrderId \<times> Message) list \<Rightarrow> bool" where
  "owned_books bs rs \<longleftrightarrow>
     om_sorted (<) bs \<and> om_sorted (<) rs \<and>
     (\<forall>i b. map_of bs i = Some b \<longrightarrow> wf_book b \<and> (\<forall>oid. spec_find oid (book_orders b) = owner_in rs i oid)) \<and>
     (\<forall>oid m. map_of rs oid = Some m \<longrightarrow> om_contains bs (m_instrument_id m))"

lemma owned_book:
  "owned_books bs rs \<Longrightarrow> map_of bs i = Some b \<Longrightarrow>
   wf_book b \<and> spec_find oid (book_orders b) = owner_in rs i oid"
  by (auto simp: owned_books_def)

lemma owned_sorted: "owned_books bs rs \<Longrightarrow> om_sorted (<) bs \<and> om_sorted (<) rs"
  by (simp add: owned_books_def)

lemma owned_contains: "owned_books bs rs \<Longrightarrow> map_of rs oid = Some m \<Longrightarrow> \<exists>b. map_of bs (m_instrument_id m) = Some b"
  by (auto simp: owned_books_def)

text \<open>A live order has a positive quantity and a price, and its side is one of the two.\<close>

lemma spec_find_ok:
  assumes "abs_ok A" "spec_find oid A = Some v"
  shows "view_id v = oid \<and> view_quantity v \<noteq> 0 \<and> view_price v \<noteq> 0 \<and> view_side v \<noteq> Side_Other \<and>
    v \<in> set (A (view_side v))"
proof -
  have "view_id v = oid" "v \<in> set (A Bid) \<or> v \<in> set (A Ask)"
    using assms(2) by (auto simp: spec_find_def dest!: find_SomeD)
  then show ?thesis using assms(1) by (auto simp: abs_ok_def)
qed

lemma owned_live:
  assumes "owned_books bs rs" "map_of rs oid = Some m"
  shows "m_quantity m \<noteq> 0 \<and> m_price m \<noteq> 0 \<and> m_side m \<noteq> Side_Other"
proof -
  obtain b where b: "map_of bs (m_instrument_id m) = Some b" using owned_contains [OF assms] by blast
  have "spec_find oid (book_orders b) = Some (owner_view oid m)"
    using owned_book [OF assms(1) b, of oid] assms(2) by (simp add: owner_in_def)
  then show ?thesis
    using spec_find_ok lob.view_ok owned_book [OF assms(1) b] by (fastforce simp: owner_view_def)
qed

text \<open>Replacing one book, when its lookups follow the owner table.\<close>

lemma owned_put:
  assumes ow: "owned_books bs rs" and bs: "map_of bs i = Some b" and b': "wf_book b'"
    and rs': "om_sorted (<) rs'" "\<And>oid m. map_of rs' oid = Some m \<Longrightarrow> om_contains bs (m_instrument_id m)"
    and find: "\<And>oid. spec_find oid (book_orders b') = owner_in rs' i oid"
    and other: "\<And>j oid. j \<noteq> i \<Longrightarrow> owner_in rs' j oid = owner_in rs j oid"
  shows "owned_books (om_put (<) i b' bs) rs'"
  using assms by (auto simp: owned_books_def intro: om_less.sorted_put)

lemma owner_in_erase:
  "owner_in (om_erase oid rs) i x = (if x = oid then None else owner_in rs i x)"
  by (simp add: owner_in_def)

lemma owner_in_put:
  "owner_in (om_put (<) oid m rs) i x =
     (if x = oid then if m_instrument_id m = i then Some (owner_view oid m) else None else owner_in rs i x)"
  by (simp add: owner_in_def)

lemma owner_in_other: "map_of rs oid = Some m \<Longrightarrow> m_instrument_id m \<noteq> j \<Longrightarrow> owner_in rs j oid = None"
  by (simp add: owner_in_def)

section \<open>Book operations of the engine\<close>

lemma book_require_cancel:
  assumes ow: "owned_books (e_books e) rs" and m: "map_of rs oid = Some m"
  shows "\<exists>bk. book_require h (m_instrument_id m) (CancelOrder oid) e =
      Some (e\<lparr>e_books := om_put (<) (m_instrument_id m) bk (e_books e)\<rparr>) \<and>
    owned_books (om_put (<) (m_instrument_id m) bk (e_books e)) (om_erase oid rs)"
proof -
  let ?i = "m_instrument_id m"
  obtain b where b: "map_of (e_books e) ?i = Some b" using owned_contains [OF ow m] by blast
  note wb = owned_book [OF ow b]
  obtain r b' where step: "apply_event h (CancelOrder oid) b = Some (r, b')" "wf_book b'"
    "\<exists>room. (r, book_orders b') = spec_apply room (CancelOrder oid) (book_orders b)"
    using wb lob.apply_cases [of b] by metis
  have "spec_find oid (book_orders b) = Some (owner_view oid m)" using wb m by (simp add: owner_in_def)
  then have r: "r = Ok" "book_orders b' = spec_delete oid (book_orders b)"
    using step(3) by (auto simp: spec_apply_def)
  have "owned_books (om_put (<) ?i b' (e_books e)) (om_erase oid rs)"
  proof (rule owned_put [OF ow b step(2)])
    show "om_sorted (<) (om_erase oid rs)" using ow by (simp add: owned_books_def om_less.sorted_erase)
    show "om_contains (e_books e) (m_instrument_id m')" if "map_of (om_erase oid rs) oid' = Some m'" for oid' m'
      using that owned_contains [OF ow, of oid' m'] by (auto split: if_splits)
    show "spec_find x (book_orders b') = owner_in (om_erase oid rs) ?i x" for x
      using wb by (simp add: r spec_find_delete owner_in_erase)
    show "owner_in (om_erase oid rs) j x = owner_in rs j x" if "j \<noteq> ?i" for j x
      using that m by (auto simp: owner_in_erase owner_in_def)
  qed
  then show ?thesis using b step(1) r by (auto simp: book_require_def book_apply_def)
qed

lemma book_require_execute:
  assumes ow: "owned_books (e_books e) rs" and m: "map_of rs oid = Some m" and sz: "sz \<noteq> 0" "sz \<le> m_quantity m"
  shows "\<exists>bk. book_require h (m_instrument_id m) (ExecuteOrder oid sz) e =
      Some (e\<lparr>e_books := om_put (<) (m_instrument_id m) bk (e_books e)\<rparr>) \<and>
    owned_books (om_put (<) (m_instrument_id m) bk (e_books e))
      (if sz = m_quantity m then om_erase oid rs
       else om_put (<) oid (m\<lparr>m_quantity := m_quantity m - sz\<rparr>) rs)"
proof -
  let ?i = "m_instrument_id m"
  let ?rs = "if sz = m_quantity m then om_erase oid rs
       else om_put (<) oid (m\<lparr>m_quantity := m_quantity m - sz\<rparr>) rs"
  obtain b where b: "map_of (e_books e) ?i = Some b" using owned_contains [OF ow m] by blast
  note wb = owned_book [OF ow b]
  obtain r b' where step: "apply_event h (ExecuteOrder oid sz) b = Some (r, b')" "wf_book b'"
    "\<exists>room. (r, book_orders b') = spec_apply room (ExecuteOrder oid sz) (book_orders b)"
    using wb lob.apply_cases [of b] by metis
  have found: "spec_find oid (book_orders b) = Some (owner_view oid m)" using wb m by (simp add: owner_in_def)
  then have r: "r = Ok" "book_orders b' = (if sz = m_quantity m then spec_delete oid (book_orders b)
      else spec_set_quantity oid (m_quantity m - sz) (book_orders b))"
    using step(3) sz by (auto simp: spec_apply_def owner_view_def not_less split: if_splits)
  have "owned_books (om_put (<) ?i b' (e_books e)) ?rs"
  proof (rule owned_put [OF ow b step(2)])
    show "om_sorted (<) ?rs" using ow by (simp add: owned_books_def om_less.sorted_erase om_less.sorted_put)
    show "om_contains (e_books e) (m_instrument_id m')" if "map_of ?rs oid' = Some m'" for oid' m'
      using that owned_contains [OF ow, of oid'] owned_contains [OF ow m] by (auto split: if_splits)
    show "spec_find x (book_orders b') = owner_in ?rs ?i x" for x
      using wb found by (simp add: r spec_find_delete spec_find_set_quantity owner_in_erase owner_in_put owner_view_def)
    show "owner_in ?rs j x = owner_in rs j x" if "j \<noteq> ?i" for j x
      using that m by (auto simp: owner_in_erase owner_in_put owner_in_def)
  qed
  then show ?thesis using b step(1) r by (auto simp: book_require_def book_apply_def)
qed

definition same_orders :: "(InstrumentId \<times> OrderBook) list \<Rightarrow> (InstrumentId \<times> OrderBook) list \<Rightarrow> bool" where
  "same_orders bs bs' \<longleftrightarrow> (\<forall>j. map_option book_orders (map_of bs j) = map_option book_orders (map_of bs' j))"

lemma book_apply_add:
  assumes ow: "owned_books (e_books e) rs" and i: "map_of (e_books e) i = Some b"
    and new: "map_of rs oid = None" and m: "m_instrument_id m = i" "m_side m = s" "m_price m = price" "m_quantity m = q"
    and ok: "s \<noteq> Side_Other" "price \<noteq> 0" "q \<noteq> 0"
  shows "\<exists>r bk. book_apply h i (AddOrder oid s price q) e =
      Some (r, e\<lparr>e_books := om_put (<) i bk (e_books e)\<rparr>) \<and>
    owned_books (om_put (<) i bk (e_books e)) (if r = Ok then om_put (<) oid m rs else rs) \<and>
    (r \<noteq> Ok \<longrightarrow> same_orders (om_put (<) i bk (e_books e)) (e_books e))"
proof -
  note wb = owned_book [OF ow i]
  obtain r b' where step: "apply_event h (AddOrder oid s price q) b = Some (r, b')" "wf_book b'"
    "\<exists>room. (r, book_orders b') = spec_apply room (AddOrder oid s price q) (book_orders b)"
    using wb lob.apply_cases [of b] by metis
  have fresh: "spec_find oid (book_orders b) = None" using wb new by (simp add: owner_in_def)
  let ?v = "\<lparr>view_id = oid, view_side = s, view_price = price, view_quantity = q\<rparr>"
  let ?rs = "if r = Ok then om_put (<) oid m rs else rs"
  have r: "book_orders b' = (if r = Ok then spec_insert ?v (book_orders b) else book_orders b)"
    using step(3) ok fresh spec_apply_failed by (auto simp: spec_apply_def split: if_splits)
  have "owned_books (om_put (<) i b' (e_books e)) ?rs"
  proof (rule owned_put [OF ow i step(2)])
    show "om_sorted (<) ?rs" using ow by (simp add: owned_books_def om_less.sorted_put)
    show "om_contains (e_books e) (m_instrument_id m')" if "map_of ?rs oid' = Some m'" for oid' m'
      using that owned_contains [OF ow, of oid'] i m by (auto split: if_splits)
    show "spec_find x (book_orders b') = owner_in ?rs i x" for x
      using wb fresh spec_find_insert [of ?v "book_orders b" x] m ok(1)
      by (auto simp: r owner_in_put owner_view_def)
    show "owner_in ?rs j x = owner_in rs j x" if "j \<noteq> i" for j x
      using that m new by (auto simp: owner_in_put owner_in_def)
  qed
  moreover have "same_orders (om_put (<) i b' (e_books e)) (e_books e)" if "r \<noteq> Ok"
    using that r i by (auto simp: same_orders_def)
  ultimately show ?thesis using i step(1) by (auto simp: book_apply_def)
qed

section \<open>The invariant of the engine\<close>

text \<open>The client index: one live order for each client order id, and nothing else.\<close>

definition indexed :: "((ClientId \<times> OrderId) \<times> OrderId) list \<Rightarrow> (OrderId \<times> Message) list \<Rightarrow> bool" where
  "indexed bc rs \<longleftrightarrow> om_sorted (<) bc \<and>
     (\<forall>cl o' oid. map_of bc (cl, o') = Some oid \<longleftrightarrow>
        (\<exists>m. map_of rs oid = Some m \<and> m_client_id m = cl \<and> m_order_id m = o'))"

text \<open>Every live order has an id below the counter, a registered client and a position.\<close>

definition orders_known ::
    "(OrderId \<times> Message) list \<Rightarrow> OrderId \<Rightarrow> (ClientId \<times> ClientState) list \<Rightarrow>
     ((ClientId \<times> InstrumentId) \<times> Position) list \<Rightarrow> bool" where
  "orders_known rs nxt cs ps \<longleftrightarrow> nxt \<noteq> 0 \<and>
     (\<forall>oid m. map_of rs oid = Some m \<longrightarrow> oid \<noteq> 0 \<and> oid < nxt \<and>
        (\<exists>st. map_of cs (m_client_id m) = Some st \<and> m_order_id m \<le> cs_max_order_id st) \<and>
        om_contains ps (m_client_id m, m_instrument_id m))"

definition uncrossed :: "(OrderId \<times> Message) list \<Rightarrow> bool" where
  "uncrossed rs \<longleftrightarrow>
     (\<forall>x m y n. map_of rs x = Some m \<longrightarrow> map_of rs y = Some n \<longrightarrow> m_instrument_id m = m_instrument_id n \<longrightarrow>
        m_side m = Bid \<longrightarrow> m_side n = Ask \<longrightarrow> m_price m < m_price n)"

text \<open>What a client has resting on one side of an instrument.\<close>

definition reserved_by :: "ClientId \<Rightarrow> InstrumentId \<Rightarrow> Side \<Rightarrow> Message \<Rightarrow> int" where
  "reserved_by c i s m =
     (if m_client_id m = c \<and> m_instrument_id m = i \<and> m_side m = s then int (unat (m_quantity m)) else 0)"

definition reserved :: "(OrderId \<times> Message) list \<Rightarrow> ClientId \<Rightarrow> InstrumentId \<Rightarrow> Side \<Rightarrow> int" where
  "reserved rs c i s = om_sum (\<lambda>_. reserved_by c i s) rs"

definition held :: "((ClientId \<times> InstrumentId) \<times> Position) list \<Rightarrow> ClientId \<Rightarrow> InstrumentId \<Rightarrow> int" where
  "held ps c i = (case map_of ps (c, i) of None \<Rightarrow> 0 | Some p \<Rightarrow> pos_quantity p)"

text \<open>
  If every resting order of a client traded, and a further \<open>slack\<close> in flight with it, the position would
  still be within the limit.
\<close>

definition limits ::
    "Instruments \<Rightarrow> ((ClientId \<times> InstrumentId) \<times> Position) list \<Rightarrow> (OrderId \<times> Message) list \<Rightarrow>
     (ClientId \<Rightarrow> InstrumentId \<Rightarrow> Side \<Rightarrow> int) \<Rightarrow> bool" where
  "limits ins ps rs slack \<longleftrightarrow>
     (\<forall>c i r. map_of ins i = Some r \<longrightarrow>
        held ps c i + reserved rs c i Bid + slack c i Bid \<le> max_position r \<and>
        - max_position r \<le> held ps c i - reserved rs c i Ask - slack c i Ask)"

text \<open>What one client gains another loses.\<close>

definition conserved :: "((ClientId \<times> InstrumentId) \<times> Position) list \<Rightarrow> bool" where
  "conserved ps \<longleftrightarrow> om_sorted (<) ps \<and>
     (\<forall>i. om_sum (\<lambda>k p. if snd k = i then pos_quantity p else 0) ps = 0 \<and>
          om_sum (\<lambda>k p. if snd k = i then pos_cash p else 0) ps = 0)"

definition eng_inv :: "MatchingEngine \<Rightarrow> bool" where
  "eng_inv e \<longleftrightarrow>
     owned_books (e_books e) (e_resting e) \<and>
     (\<forall>i. om_contains (e_books e) i \<longleftrightarrow> om_contains (e_instruments e) i) \<and>
     (\<forall>i r. map_of (e_instruments e) i = Some r \<longrightarrow> rules_ok i r) \<and>
     indexed (e_by_client e) (e_resting e) \<and>
     orders_known (e_resting e) (e_next_order e) (e_clients e) (e_positions e) \<and>
     om_sorted (<) (e_clients e) \<and> uncrossed (e_resting e) \<and>
     limits (e_instruments e) (e_positions e) (e_resting e) (\<lambda>_ _ _. 0) \<and> conserved (e_positions e)"

lemma eng_invD:
  assumes "eng_inv e"
  shows "owned_books (e_books e) (e_resting e)" "om_contains (e_books e) i \<longleftrightarrow> om_contains (e_instruments e) i"
    "map_of (e_instruments e) i = Some r \<Longrightarrow> rules_ok i r"
    "indexed (e_by_client e) (e_resting e)"
    "orders_known (e_resting e) (e_next_order e) (e_clients e) (e_positions e)"
    "om_sorted (<) (e_clients e)" "uncrossed (e_resting e)"
    "limits (e_instruments e) (e_positions e) (e_resting e) (\<lambda>_ _ _. 0)" "conserved (e_positions e)"
  using assms by (auto simp: eng_inv_def)

subsection \<open>Reserved quantities\<close>

lemma reserved_nonneg: "0 \<le> reserved rs c i s"
  unfolding reserved_def by (induction rs) (auto simp: reserved_by_def)

lemma reserved_erase:
  assumes "om_sorted (<) rs" "map_of rs oid = Some m"
  shows "reserved (om_erase oid rs) c i s = reserved rs c i s - reserved_by c i s m"
  using om_less.sum_erase [OF assms(1), of "\<lambda>_. reserved_by c i s" oid] assms(2)
  by (simp add: reserved_def om_part_def)

lemma reserved_put_new:
  assumes "om_sorted (<) rs" "map_of rs oid = None"
  shows "reserved (om_put (<) oid m rs) c i s = reserved rs c i s + reserved_by c i s m"
  using om_less.sum_put [OF assms(1), of "\<lambda>_. reserved_by c i s" oid m] assms(2)
  by (simp add: reserved_def om_part_def)

lemma reserved_put:
  assumes "om_sorted (<) rs" "map_of rs oid = Some m"
  shows "reserved (om_put (<) oid m' rs) c i s = reserved rs c i s - reserved_by c i s m + reserved_by c i s m'"
  using om_less.sum_put [OF assms(1), of "\<lambda>_. reserved_by c i s" oid m'] assms(2)
  by (simp add: reserved_def om_part_def)

subsection \<open>Removing an order\<close>

lemma indexed_erase:
  assumes "indexed bc rs" "map_of rs oid = Some m"
  shows "indexed (om_erase (m_client_id m, m_order_id m) bc) (om_erase oid rs)"
proof -
  have bc: "map_of bc (cl, o') = Some x \<longleftrightarrow>
      (\<exists>n. map_of rs x = Some n \<and> m_client_id n = cl \<and> m_order_id n = o')" for cl o' x
    using assms(1) by (simp add: indexed_def)
  have "map_of bc (m_client_id m, m_order_id m) = Some oid" using bc assms(2) by blast
  then have "map_of (om_erase (m_client_id m, m_order_id m) bc) (cl, o') = Some x \<longleftrightarrow>
      (\<exists>n. map_of (om_erase oid rs) x = Some n \<and> m_client_id n = cl \<and> m_order_id n = o')" for cl o' x
    using bc [of cl o' x] bc [of "m_client_id m" "m_order_id m" x] assms(2) by auto
  then show ?thesis using assms(1) by (simp add: indexed_def om_less.sorted_erase)
qed

lemma orders_known_erase: "orders_known rs nxt cs ps \<Longrightarrow> orders_known (om_erase oid rs) nxt cs ps"
  by (auto simp: orders_known_def)

lemma uncrossed_erase: "uncrossed rs \<Longrightarrow> uncrossed (om_erase oid rs)"
  unfolding uncrossed_def by (auto split: if_splits)

lemma limits_mono:
  assumes "limits ins ps rs slack" "\<And>c i s. reserved rs' c i s + slack' c i s \<le> reserved rs c i s + slack c i s"
  shows "limits ins ps rs' slack'"
  unfolding limits_def
proof (intro allI impI)
  fix c i r assume "map_of ins i = Some r"
  then show "held ps c i + reserved rs' c i Bid + slack' c i Bid \<le> max_position r \<and>
      - max_position r \<le> held ps c i - reserved rs' c i Ask - slack' c i Ask"
    using assms(1) [unfolded limits_def, rule_format, of i r c] assms(2) [of c i Bid] assms(2) [of c i Ask]
    by linarith
qed

lemma limits_erase:
  assumes "limits ins ps rs slack" "om_sorted (<) rs" "map_of rs oid = Some m"
  shows "limits ins ps (om_erase oid rs) slack"
  using assms(1)
proof (rule limits_mono)
  show "reserved (om_erase oid rs) c i s + slack c i s \<le> reserved rs c i s + slack c i s" for c i s
    using reserved_erase [OF assms(2,3), of c i s] by (simp add: reserved_by_def)
qed

section \<open>Cancelling\<close>

lemma report_snd [simp]: "snd (engine_report m t r w) = (snd w)\<lparr>e_response_sequence := e_response_sequence (snd w) + 1\<rparr>"
  by (simp add: engine_report_def Let_def split: prod.splits)

lemma update_snd [simp]: "snd (engine_update m t w) = (snd w)\<lparr>e_sequence := e_sequence (snd w) + 1\<rparr>"
  by (simp add: engine_update_def Let_def split: prod.splits)

lemma update_pair: "\<exists>b'. engine_update m t (b, e) = (b', e\<lparr>e_sequence := e_sequence e + 1\<rparr>)"
  by (simp add: engine_update_def Let_def)

lemma report_pair:
  "\<exists>b' x. engine_report m t r (b, e) = (b', e\<lparr>e_response_sequence := e_response_sequence e + 1\<rparr>) \<and>
    b_reports b' = b_reports b @ [x] \<and> m_report x = t"
  by (simp add: engine_report_def Let_def)

lemma eng_inv_counters [simp]:
  "eng_inv (e\<lparr>e_response_sequence := x\<rparr>) = eng_inv e" "eng_inv (e\<lparr>e_sequence := y\<rparr>) = eng_inv e"
  "eng_inv (e\<lparr>e_stats := z\<rparr>) = eng_inv e" "eng_inv (e\<lparr>e_next_trade := t\<rparr>) = eng_inv e"
  by (simp_all add: eng_inv_def)

lemma reject_snd_inv [simp]: "eng_inv (snd (engine_reject c r w)) = eng_inv (snd w)"
  by (simp add: engine_reject_def Let_def split: prod.splits)

lemma engine_cancel_inv:
  assumes inv: "eng_inv (snd w)" and m: "map_of (e_resting (snd w)) oid = Some m"
  shows "\<exists>w'. engine_cancel h oid request w = Some w' \<and> eng_inv (snd w') \<and>
    e_resting (snd w') = om_erase oid (e_resting (snd w)) \<and> e_clients (snd w') = e_clients (snd w) \<and>
    e_next_order (snd w') = e_next_order (snd w) \<and> e_instruments (snd w') = e_instruments (snd w)"
proof -
  obtain b e where w: "w = (b, e)" by force
  note I = eng_invD [OF inv [unfolded w snd_conv]] and m' = m [unfolded w snd_conv]
  obtain bk where bk: "book_require h (m_instrument_id m) (CancelOrder oid) e =
      Some (e\<lparr>e_books := om_put (<) (m_instrument_id m) bk (e_books e)\<rparr>)"
    "owned_books (om_put (<) (m_instrument_id m) bk (e_books e)) (om_erase oid (e_resting e))"
    using book_require_cancel [OF I(1) m'] by blast
  let ?m = "m\<lparr>m_request_id := request, m_remaining := 0\<rparr>"
  let ?w = "engine_report ?m Rpt_Cancelled Rej_None
      (engine_update ?m Upd_Cancel (b, e\<lparr>e_books := om_put (<) (m_instrument_id m) bk (e_books e)\<rparr>))"
  obtain b2 e2 where w2: "?w = (b2, e2)" by force
  have e2: "e2 = e\<lparr>e_books := om_put (<) (m_instrument_id m) bk (e_books e),
      e_sequence := e_sequence e + 1, e_response_sequence := e_response_sequence e + 1\<rparr>"
    using arg_cong [OF w2, of snd] by simp
  have res: "engine_cancel h oid request w = Some (b2,
      e2\<lparr>e_by_client := om_erase (m_client_id m, m_order_id m) (e_by_client e),
          e_resting := om_erase oid (e_resting e)\<rparr>)"
    using bk(1) w2 m' by (simp add: engine_cancel_def w e2)
  have "owned_books (om_put (<) (m_instrument_id m) bk (e_books e)) (om_erase oid (e_resting e))" by (fact bk(2))
  moreover have "om_contains (om_put (<) (m_instrument_id m) bk (e_books e)) i \<longleftrightarrow> om_contains (e_instruments e) i" for i
    using I(2) owned_contains [OF I(1) m'] by auto
  moreover have "limits (e_instruments e) (e_positions e) (om_erase oid (e_resting e)) (\<lambda>_ _ _. 0)"
    using limits_erase [OF I(8) _ m'] owned_sorted [OF I(1)] by simp
  ultimately have "eng_inv (e2\<lparr>e_by_client := om_erase (m_client_id m, m_order_id m) (e_by_client e),
          e_resting := om_erase oid (e_resting e)\<rparr>)"
    using I(3,6,9) indexed_erase [OF I(4) m'] orders_known_erase [OF I(5)] uncrossed_erase [OF I(7)]
    by (simp add: eng_inv_def e2)
  then show ?thesis using res w by (auto simp: e2)
qed

section \<open>Reducing an order in place\<close>

lemma indexed_requantify:
  "indexed bc rs \<Longrightarrow> map_of rs oid = Some m \<Longrightarrow> indexed bc (om_put (<) oid (m\<lparr>m_quantity := q\<rparr>) rs)"
  unfolding indexed_def by (auto split: if_splits)

lemma orders_known_requantify:
  "orders_known rs nxt cs ps \<Longrightarrow> map_of rs oid = Some m \<Longrightarrow>
   orders_known (om_put (<) oid (m\<lparr>m_quantity := q\<rparr>) rs) nxt cs ps"
  unfolding orders_known_def by (auto split: if_splits)

lemma uncrossed_requantify:
  "uncrossed rs \<Longrightarrow> map_of rs oid = Some m \<Longrightarrow> uncrossed (om_put (<) oid (m\<lparr>m_quantity := q\<rparr>) rs)"
  unfolding uncrossed_def by (auto split: if_splits)

lemma reserved_requantify:
  assumes "om_sorted (<) rs" "map_of rs oid = Some m"
  shows "reserved (om_put (<) oid (m\<lparr>m_quantity := q\<rparr>) rs) c i s = reserved rs c i s -
    (if m_client_id m = c \<and> m_instrument_id m = i \<and> m_side m = s then int (unat (m_quantity m)) - int (unat q) else 0)"
  using reserved_put [OF assms, of "m\<lparr>m_quantity := q\<rparr>" c i s] by (simp add: reserved_by_def)

lemma limits_requantify:
  assumes "limits ins ps rs slack" "om_sorted (<) rs" "map_of rs oid = Some m" "q \<le> m_quantity m"
  shows "limits ins ps (om_put (<) oid (m\<lparr>m_quantity := q\<rparr>) rs) slack"
  using assms(1)
proof (rule limits_mono)
  show "reserved (om_put (<) oid (m\<lparr>m_quantity := q\<rparr>) rs) c i s + slack c i s \<le> reserved rs c i s + slack c i s"
    for c i s
    using reserved_requantify [OF assms(2,3), of q c i s] assms(4) by (simp add: word_le_def)
qed

lemma submit_reduce_inv:
  assumes inv: "eng_inv (snd w)" and old: "map_of (e_resting (snd w)) old_id = Some old"
    and c: "m_instrument_id old = m_instrument_id c" "m_quantity c \<le> m_quantity old" "m_quantity c \<noteq> 0"
  shows "\<exists>w'. submit_reduce h c old_id old w = Some w' \<and> eng_inv (snd w') \<and>
    e_resting (snd w') = om_put (<) old_id (old\<lparr>m_quantity := m_quantity c\<rparr>) (e_resting (snd w)) \<and>
    e_clients (snd w') = e_clients (snd w) \<and> e_next_order (snd w') = e_next_order (snd w) \<and>
    e_instruments (snd w') = e_instruments (snd w)"
proof -
  obtain b e where w: "w = (b, e)" by force
  note I = eng_invD [OF inv [unfolded w snd_conv]] and old' = old [unfolded w snd_conv]
  let ?i = "m_instrument_id c" and ?red = "m_quantity old - m_quantity c"
  let ?rs = "om_put (<) old_id (old\<lparr>m_quantity := m_quantity c\<rparr>) (e_resting e)"
  have sorted: "om_sorted (<) (e_resting e)" using owned_sorted [OF I(1)] by simp
  have upd: "om_update old_id (\<lambda>o'. o'\<lparr>m_quantity := m_quantity c\<rparr>) (e_resting e) = ?rs"
    using om_less.update_as_put [OF sorted old'] by simp
  have keep: "eng_inv e'" if "e_books e' = bs" "owned_books bs ?rs" "e_resting e' = ?rs"
    "\<And>i. om_contains bs i = om_contains (e_books e) i" "e_instruments e' = e_instruments e"
    "e_by_client e' = e_by_client e" "e_clients e' = e_clients e" "e_positions e' = e_positions e"
    "e_next_order e' = e_next_order e" for e' bs
    using that I(2,3,6,9) indexed_requantify [OF I(4) old'] orders_known_requantify [OF I(5) old']
      uncrossed_requantify [OF I(7) old'] limits_requantify [OF I(8) sorted old' c(2)]
    by (simp add: eng_inv_def)
  show ?thesis
  proof (cases "?red = 0")
    case True
    then have "m_quantity c = m_quantity old" by simp
    then have "?rs = e_resting e"
      using om_less.put_same [OF sorted old'] by simp
    then show ?thesis
      using True upd I(1) by (auto simp: submit_reduce_def w intro!: keep)
  next
    case False
    have lt: "?red < m_quantity old" "m_quantity old - ?red = m_quantity c" "?red \<noteq> m_quantity old"
      using c False unat_sub [OF c(2)] by (auto simp: word_less_nat_alt word_le_nat_alt word_unat_eq_iff)
    obtain bk where bk: "book_require h ?i (ExecuteOrder old_id ?red) e =
        Some (e\<lparr>e_books := om_put (<) ?i bk (e_books e)\<rparr>)"
      "owned_books (om_put (<) ?i bk (e_books e)) ?rs"
      using book_require_execute [OF I(1) old' False less_imp_le [OF lt(1)], of h] lt c(1) by auto
    have cont: "om_contains (om_put (<) ?i bk (e_books e)) i = om_contains (e_books e) i" for i
      using owned_contains [OF I(1) old'] c(1) by auto
    let ?m = "c\<lparr>m_exchange_id := old_id, m_remaining := m_quantity c\<rparr>"
    obtain b1 where u: "engine_update ?m Upd_Reduce (b, e\<lparr>e_books := om_put (<) ?i bk (e_books e)\<rparr>) =
        (b1, e\<lparr>e_books := om_put (<) ?i bk (e_books e), e_sequence := e_sequence e + 1\<rparr>)"
      using update_pair [of ?m Upd_Reduce b "e\<lparr>e_books := om_put (<) ?i bk (e_books e)\<rparr>"] by auto
    have "eng_inv (e\<lparr>e_books := om_put (<) ?i bk (e_books e), e_sequence := e_sequence e + 1, e_resting := ?rs\<rparr>)"
      by (rule keep [OF _ bk(2) _ cont]) simp_all
    then show ?thesis
      using bk(1) False upd u by (simp add: submit_reduce_def w)
  qed
qed

end
