(* ===== verification/Engine_Fill.thy ===== *)
theory Engine_Fill
  imports Engine_Inv
begin

text \<open>
  Executing a plan. Each planned fill reduces or removes its maker, moves one position up and another
  down by the same size, and lowers what the taker still has in flight; so the invariant holds again
  when the last fill is done.
\<close>

section \<open>One fill on the owner table\<close>

definition fill_owner :: "fill \<Rightarrow> (OrderId \<times> Message) list \<Rightarrow> (OrderId \<times> Message) list" where
  "fill_owner f rs =
     (case map_of rs (fill_id f) of
        None \<Rightarrow> rs
      | Some m \<Rightarrow> if fill_size f = m_quantity m then om_erase (fill_id f) rs
                  else om_put (<) (fill_id f) (m\<lparr>m_quantity := m_quantity m - fill_size f\<rparr>) rs)"

definition opposite :: "Side \<Rightarrow> Side" where
  "opposite s = (if s = Bid then Ask else Bid)"

text \<open>What planning guarantees of a fill: a live maker of another client on the other side, of that price.\<close>

definition fill_ok :: "Message \<Rightarrow> (OrderId \<times> Message) list \<Rightarrow> fill \<Rightarrow> bool" where
  "fill_ok c rs f \<longleftrightarrow>
     (\<exists>m. map_of rs (fill_id f) = Some m \<and> m_instrument_id m = m_instrument_id c \<and>
          m_side m = opposite (m_side c) \<and> m_client_id m \<noteq> m_client_id c \<and> m_price m = fill_price f \<and>
          fill_size f \<noteq> 0 \<and> fill_size f \<le> m_quantity m)"

lemma fill_owner_other: "x \<noteq> fill_id f \<Longrightarrow> map_of (fill_owner f rs) x = map_of rs x"
  by (simp add: fill_owner_def split: option.splits)

lemma fill_ok_other: "fill_ok c rs g \<Longrightarrow> fill_id g \<noteq> fill_id f \<Longrightarrow> fill_ok c (fill_owner f rs) g"
  by (simp add: fill_ok_def fill_owner_other)

lemma fill_owner_sorted: "om_sorted (<) rs \<Longrightarrow> om_sorted (<) (fill_owner f rs)"
  by (auto simp: fill_owner_def intro: om_less.sorted_erase om_less.sorted_put split: option.splits)

lemma fill_owner_reserved:
  assumes "om_sorted (<) rs" "map_of rs (fill_id f) = Some m" "fill_size f \<le> m_quantity m"
  shows "reserved (fill_owner f rs) c i s = reserved rs c i s -
    (if m_client_id m = c \<and> m_instrument_id m = i \<and> m_side m = s then int (unat (fill_size f)) else 0)"
proof -
  have "int (unat (m_quantity m - fill_size f)) = int (unat (m_quantity m)) - int (unat (fill_size f))"
    using unat_sub [OF assms(3)] assms(3) by (simp add: word_le_nat_alt of_nat_diff del: of_nat_unat)
  then show ?thesis
    using assms reserved_erase [OF assms(1,2), of c i s]
      reserved_requantify [OF assms(1,2), of "m_quantity m - fill_size f" c i s]
    by (auto simp: fill_owner_def reserved_by_def)
qed

section \<open>Positions\<close>

definition signed :: "Side \<Rightarrow> Quantity \<Rightarrow> int" where
  "signed s q = (if s = Bid then int (unat q) else - int (unat q))"

lemma position_fill_sel [simp]:
  "pos_quantity (position_fill s price sz p) = pos_quantity p + signed s sz"
  "pos_cash (position_fill s price sz p) = pos_cash p - rat_of_nat (unat price) * rat_of_int (signed s sz)"
  by (simp_all add: position_fill_def signed_def Let_def)

lemma signed_opposite: "s \<noteq> Side_Other \<Longrightarrow> signed (opposite s) q = - signed s q"
  by (cases s) (simp_all add: signed_def opposite_def)

text \<open>Both positions of a trade, as one change of the table.\<close>

definition trade_positions ::
    "Message \<Rightarrow> ClientId \<Rightarrow> Side \<Rightarrow> fill \<Rightarrow> ((ClientId \<times> InstrumentId) \<times> Position) list \<Rightarrow>
     ((ClientId \<times> InstrumentId) \<times> Position) list" where
  "trade_positions c mc ms f ps =
     (let km = (mc, m_instrument_id c); kt = (m_client_id c, m_instrument_id c);
          ps' = om_put (<) km (position_fill ms (fill_price f) (fill_size f) (the (map_of ps km))) ps
      in om_put (<) kt (position_fill (m_side c) (fill_price f) (fill_size f) (the (map_of ps' kt))) ps')"

lemma fill_positions_eq:
  assumes "om_contains (e_positions e) (m_client_id maker, m_instrument_id c)"
    "om_contains (e_positions e) (m_client_id c, m_instrument_id c)"
  shows "fill_positions c maker f e = Some (e\<lparr>e_positions :=
    trade_positions c (m_client_id maker) (m_side maker) f (e_positions e)\<rparr>)"
  using assms by (auto simp: fill_positions_def trade_positions_def Let_def)

lemma trade_held:
  assumes "om_contains ps (mc, m_instrument_id c)" "om_contains ps (m_client_id c, m_instrument_id c)"
    "mc \<noteq> m_client_id c"
  shows "held (trade_positions c mc ms f ps) c' i' = held ps c' i' +
    (if i' = m_instrument_id c then if c' = mc then signed ms (fill_size f)
       else if c' = m_client_id c then signed (m_side c) (fill_size f) else 0 else 0)"
  using assms by (auto simp: held_def trade_positions_def Let_def split: option.splits)

lemma trade_contains:
  "om_contains ps k \<Longrightarrow> om_contains (trade_positions c mc ms f ps) k"
  by (auto simp: trade_positions_def Let_def)

lemma trade_sum:
  fixes g :: "ClientId \<times> InstrumentId \<Rightarrow> Position \<Rightarrow> 'n::ab_group_add"
  assumes "om_sorted (<) ps" "map_of ps (mc, m_instrument_id c) = Some pm"
    "map_of ps (m_client_id c, m_instrument_id c) = Some pt" "mc \<noteq> m_client_id c"
  shows "om_sorted (<) (trade_positions c mc ms f ps)"
    "om_sum g (trade_positions c mc ms f ps) = om_sum g ps
      - g (mc, m_instrument_id c) pm
      + g (mc, m_instrument_id c) (position_fill ms (fill_price f) (fill_size f) pm)
      - g (m_client_id c, m_instrument_id c) pt
      + g (m_client_id c, m_instrument_id c) (position_fill (m_side c) (fill_price f) (fill_size f) pt)"
proof -
  let ?km = "(mc, m_instrument_id c)" and ?kt = "(m_client_id c, m_instrument_id c)"
  let ?ps = "om_put (<) ?km (position_fill ms (fill_price f) (fill_size f) pm) ps"
  have sorted: "om_sorted (<) ?ps" using assms(1) by (rule om_less.sorted_put)
  have tp: "trade_positions c mc ms f ps =
      om_put (<) ?kt (position_fill (m_side c) (fill_price f) (fill_size f) pt) ?ps"
    using assms by (simp add: trade_positions_def Let_def)
  show "om_sorted (<) (trade_positions c mc ms f ps)" using sorted by (simp add: tp om_less.sorted_put)
  show "om_sum g (trade_positions c mc ms f ps) = om_sum g ps
      - g ?km pm + g ?km (position_fill ms (fill_price f) (fill_size f) pm)
      - g ?kt pt + g ?kt (position_fill (m_side c) (fill_price f) (fill_size f) pt)"
    using om_less.sum_put [OF assms(1), of g ?km] om_less.sum_put [OF sorted, of g ?kt] assms(2-4)
    by (simp add: tp om_part_def)
qed

lemma trade_conserved:
  assumes cons: "conserved ps" and k: "om_contains ps (mc, m_instrument_id c)"
    "om_contains ps (m_client_id c, m_instrument_id c)" "mc \<noteq> m_client_id c"
    and opp: "m_side c \<noteq> Side_Other" "ms = opposite (m_side c)"
  shows "conserved (trade_positions c mc ms f ps)"
proof -
  obtain pm pt where p: "map_of ps (mc, m_instrument_id c) = Some pm"
    "map_of ps (m_client_id c, m_instrument_id c) = Some pt" using k by blast
  have "om_sorted (<) ps" using cons by (simp add: conserved_def)
  note sum = trade_sum [OF this p k(3)]
  show ?thesis
    using cons opp by (auto simp: conserved_def sum signed_opposite)
qed

section \<open>One fill on the engine\<close>

definition in_flight :: "Message \<Rightarrow> int \<Rightarrow> ClientId \<Rightarrow> InstrumentId \<Rightarrow> Side \<Rightarrow> int" where
  "in_flight c n c' i' s' = (if c' = m_client_id c \<and> i' = m_instrument_id c \<and> s' = m_side c then n else 0)"

definition plan_total :: "fill list \<Rightarrow> int" where
  "plan_total fs = (\<Sum>f \<leftarrow> fs. int (unat (fill_size f)))"

definition filling :: "Message \<Rightarrow> fill list \<Rightarrow> MatchingEngine \<Rightarrow> bool" where
  "filling c fs e \<longleftrightarrow>
     m_side c \<noteq> Side_Other \<and>
     owned_books (e_books e) (e_resting e) \<and>
     (\<forall>i. om_contains (e_books e) i \<longleftrightarrow> om_contains (e_instruments e) i) \<and>
     indexed (e_by_client e) (e_resting e) \<and>
     orders_known (e_resting e) (e_next_order e) (e_clients e) (e_positions e) \<and>
     limits (e_instruments e) (e_positions e) (e_resting e) (in_flight c (plan_total fs)) \<and>
     conserved (e_positions e) \<and> om_contains (e_positions e) (m_client_id c, m_instrument_id c) \<and>
     distinct (map fill_id fs) \<and> (\<forall>f \<in> set fs. fill_ok c (e_resting e) f)"

lemma limits_fill:
  assumes lim: "limits ins ps rs (in_flight c (plan_total (f # fs)))" and sorted: "om_sorted (<) rs"
    and m: "map_of rs (fill_id f) = Some m" "m_instrument_id m = m_instrument_id c" "m_side m = opposite (m_side c)"
      "m_client_id m \<noteq> m_client_id c" "fill_size f \<le> m_quantity m" "m_side c \<noteq> Side_Other"
    and ps: "om_contains ps (m_client_id m, m_instrument_id c)" "om_contains ps (m_client_id c, m_instrument_id c)"
  shows "limits ins (trade_positions c (m_client_id m) (m_side m) f ps) (fill_owner f rs) (in_flight c (plan_total fs))"
  unfolding limits_def
proof (intro allI impI)
  fix c' i' r assume r: "map_of ins i' = Some r"
  note old = lim [unfolded limits_def, rule_format, OF r, of c']
  show "held (trade_positions c (m_client_id m) (m_side m) f ps) c' i' + reserved (fill_owner f rs) c' i' Bid +
        in_flight c (plan_total fs) c' i' Bid \<le> max_position r \<and>
      - max_position r \<le> held (trade_positions c (m_client_id m) (m_side m) f ps) c' i' -
        reserved (fill_owner f rs) c' i' Ask - in_flight c (plan_total fs) c' i' Ask"
    using old m(2,3,4,6)
    unfolding trade_held [OF ps m(4)] fill_owner_reserved [OF sorted m(1,5)]
    by (cases "m_side c") (auto simp: in_flight_def plan_total_def signed_def opposite_def simp del: of_nat_unat)
qed

lemma fill_owner_known:
  assumes "orders_known rs nxt cs ps" "\<And>k. om_contains ps k \<Longrightarrow> om_contains ps' k"
  shows "orders_known (fill_owner f rs) nxt cs ps'"
proof -
  have "\<exists>m'. map_of rs x = Some m' \<and> m_client_id m' = m_client_id m \<and> m_order_id m' = m_order_id m \<and>
      m_instrument_id m' = m_instrument_id m" if "map_of (fill_owner f rs) x = Some m" for x m
    using that by (auto simp: fill_owner_def split: option.splits if_splits)
  then show ?thesis using assms unfolding orders_known_def by metis
qed

lemma fill_owner_as_steps:
  assumes "om_sorted (<) rs" "map_of rs (fill_id f) = Some m" "fill_size f \<le> m_quantity m"
  shows "(if m_quantity m - fill_size f = 0
      then om_erase (fill_id f) (om_put (<) (fill_id f) (m\<lparr>m_quantity := m_quantity m - fill_size f\<rparr>) rs)
      else om_put (<) (fill_id f) (m\<lparr>m_quantity := m_quantity m - fill_size f\<rparr>) rs) = fill_owner f rs"
  using assms by (simp add: fill_owner_def om_less.erase_put)

lemma fill_owner_indexed:
  assumes "indexed bc rs" "map_of rs (fill_id f) = Some m"
  shows "indexed (if fill_size f = m_quantity m then om_erase (m_client_id m, m_order_id m) bc else bc) (fill_owner f rs)"
  using indexed_erase [OF assms] indexed_requantify [OF assms] assms(2) by (auto simp: fill_owner_def)

lemma fill_one_step:
  assumes fl: "filling c (f # fs) e"
  shows "\<exists>b' e'. fill_one h c incoming f (leaves, b, e) = Some (leaves - fill_size f, b', e') \<and>
    filling c fs e' \<and> e_resting e' = fill_owner f (e_resting e) \<and> e_instruments e' = e_instruments e \<and>
    e_clients e' = e_clients e \<and> e_next_order e' = e_next_order e"
proof -
  have F: "m_side c \<noteq> Side_Other" "owned_books (e_books e) (e_resting e)"
    "\<And>i. om_contains (e_books e) i \<longleftrightarrow> om_contains (e_instruments e) i"
    "indexed (e_by_client e) (e_resting e)" "orders_known (e_resting e) (e_next_order e) (e_clients e) (e_positions e)"
    "limits (e_instruments e) (e_positions e) (e_resting e) (in_flight c (plan_total (f # fs)))"
    "conserved (e_positions e)" "om_contains (e_positions e) (m_client_id c, m_instrument_id c)"
    "distinct (map fill_id (f # fs))" "fill_ok c (e_resting e) f" "\<And>g. g \<in> set fs \<Longrightarrow> fill_ok c (e_resting e) g"
    using fl by (auto simp: filling_def)
  obtain m where m: "map_of (e_resting e) (fill_id f) = Some m" "m_instrument_id m = m_instrument_id c"
    "m_side m = opposite (m_side c)" "m_client_id m \<noteq> m_client_id c" "fill_size f \<noteq> 0" "fill_size f \<le> m_quantity m"
    using F(10) by (auto simp: fill_ok_def)
  have sorted: "om_sorted (<) (e_resting e)" using owned_sorted [OF F(2)] by simp
  have known: "om_contains (e_positions e) (m_client_id m, m_instrument_id c)"
    using F(5) m(1,2) by (metis orders_known_def)
  let ?i = "m_instrument_id c" and ?maker = "m\<lparr>m_quantity := m_quantity m - fill_size f\<rparr>"
  let ?rs1 = "om_put (<) (fill_id f) ?maker (e_resting e)"
  obtain bk where bk: "book_require h ?i (ExecuteOrder (fill_id f) (fill_size f)) (e\<lparr>e_resting := ?rs1\<rparr>) =
      Some (e\<lparr>e_resting := ?rs1, e_books := om_put (<) ?i bk (e_books e)\<rparr>)"
    "owned_books (om_put (<) ?i bk (e_books e)) (fill_owner f (e_resting e))"
    using book_require_execute [of "e\<lparr>e_resting := ?rs1\<rparr>" "e_resting e" "fill_id f" m "fill_size f" h] F(2) m
    by (auto simp: fill_owner_def)
  define bc where "bc = (if fill_size f = m_quantity m then om_erase (m_client_id m, m_order_id m) (e_by_client e)
      else e_by_client e)"
  define ps where "ps = trade_positions c (m_client_id m) (m_side m) f (e_positions e)"
  have steps: "\<exists>b' e'. fill_one h c incoming f (leaves, b, e) = Some (leaves - fill_size f, b', e') \<and>
      e_books e' = om_put (<) ?i bk (e_books e) \<and> e_resting e' = fill_owner f (e_resting e) \<and> e_by_client e' = bc \<and>
      e_positions e' = ps \<and> e_instruments e' = e_instruments e \<and> e_clients e' = e_clients e \<and>
      e_next_order e' = e_next_order e"
    using m(1,6) bk(1) known F(8) fill_owner_as_steps [OF sorted m(1,6)]
    by (auto simp: fill_one_def engine_report_def engine_update_def Let_def fill_positions_eq bc_def ps_def)
  have cont: "om_contains (om_put (<) ?i bk (e_books e)) i \<longleftrightarrow> om_contains (e_instruments e) i" for i
    using F(3) owned_contains [OF F(2) m(1)] m(2) by auto
  have ok: "fill_ok c (fill_owner f (e_resting e)) g" if "g \<in> set fs" for g
  proof (rule fill_ok_other [OF F(11) [OF that]])
    show "fill_id g \<noteq> fill_id f" using F(9) that by (metis distinct.simps(2) image_eqI list.simps(9) set_map)
  qed
  have "filling c fs e'" if "e_books e' = om_put (<) ?i bk (e_books e)" "e_resting e' = fill_owner f (e_resting e)"
    "e_by_client e' = bc" "e_positions e' = ps" "e_instruments e' = e_instruments e" "e_clients e' = e_clients e"
    "e_next_order e' = e_next_order e" for e'
    unfolding filling_def that
    using F(1,9) bk(2) cont fill_owner_indexed [OF F(4) m(1), folded bc_def]
      fill_owner_known [OF F(5) trade_contains, folded ps_def]
      limits_fill [OF F(6) sorted m(1-4,6) F(1) known F(8), folded ps_def]
      trade_conserved [OF F(7) known F(8) m(4) F(1) m(3), folded ps_def]
      trade_contains [OF F(8), folded ps_def] ok
    by (simp add: ps_def)
  with steps show ?thesis by blast
qed

section \<open>All fills\<close>

definition fill_owners :: "fill list \<Rightarrow> (OrderId \<times> Message) list \<Rightarrow> (OrderId \<times> Message) list" where
  "fill_owners fs rs = foldl (\<lambda>r f. fill_owner f r) rs fs"

lemma fill_all_steps:
  assumes "filling c fs e"
  shows "\<exists>b' e'. fill_all h c incoming fs (leaves, b, e) = Some (leaves - sum_list (map fill_size fs), b', e') \<and>
    filling c [] e' \<and> e_resting e' = fill_owners fs (e_resting e) \<and> e_instruments e' = e_instruments e \<and>
    e_clients e' = e_clients e \<and> e_next_order e' = e_next_order e"
  using assms
proof (induction fs arbitrary: leaves b e)
  case Nil
  then show ?case by (simp add: fill_owners_def)
next
  case (Cons f fs)
  obtain b1 e1 where s1: "fill_one h c incoming f (leaves, b, e) = Some (leaves - fill_size f, b1, e1)"
    "filling c fs e1" "e_resting e1 = fill_owner f (e_resting e)" "e_instruments e1 = e_instruments e"
    "e_clients e1 = e_clients e" "e_next_order e1 = e_next_order e"
    using fill_one_step [OF Cons.prems] by blast
  show ?case using Cons.IH [OF s1(2), of "leaves - fill_size f" b1] s1 by (auto simp: fill_owners_def algebra_simps)
qed

lemma fill_owners_other: "x \<notin> fill_id ` set fs \<Longrightarrow> map_of (fill_owners fs rs) x = map_of rs x"
  unfolding fill_owners_def by (induction fs arbitrary: rs) (auto simp: fill_owner_other)

lemma fill_owners_lookup:
  assumes "distinct (map fill_id fs)" "f \<in> set fs"
  shows "map_of (fill_owners fs rs) (fill_id f) = map_of (fill_owner f rs) (fill_id f)"
  using assms
proof (induction fs arbitrary: rs)
  case (Cons g fs)
  show ?case
  proof (cases "f = g")
    case True
    then show ?thesis using Cons.prems fill_owners_other [of "fill_id g" fs] by (auto simp: fill_owners_def)
  next
    case False
    then have "f \<in> set fs" using Cons.prems by simp
    moreover from this have "fill_id f \<noteq> fill_id g" using Cons.prems(1) by (metis distinct.simps(2) image_eqI list.simps(9) set_map)
    ultimately have "f \<in> set fs" "fill_id f \<noteq> fill_id g" by blast+
    then show ?thesis
      using Cons.IH [of "fill_owner g rs"] Cons.prems(1) fill_owner_other [of "fill_id f" g rs]
      by (auto simp: fill_owners_def fill_owner_def split: option.splits)
  qed
qed simp

text \<open>What is left of the owner table: the same orders, smaller, without the makers that were used up.\<close>

lemma fill_owners_survivor:
  assumes "distinct (map fill_id fs)" "map_of (fill_owners fs rs) x = Some m'"
  shows "\<exists>m. map_of rs x = Some m \<and> m' = m\<lparr>m_quantity := m_quantity m'\<rparr> \<and>
    (\<forall>f \<in> set fs. fill_id f = x \<longrightarrow> fill_size f \<noteq> m_quantity m)"
proof (cases "x \<in> fill_id ` set fs")
  case True
  then obtain f where f: "f \<in> set fs" "x = fill_id f" by auto
  have "map_of (fill_owner f rs) (fill_id f) = Some m'"
    using fill_owners_lookup [OF assms(1) f(1), of rs] assms(2) f(2) by simp
  then obtain m where m: "map_of rs x = Some m" "fill_size f \<noteq> m_quantity m"
    "m' = m\<lparr>m_quantity := m_quantity m - fill_size f\<rparr>"
    using f(2) by (simp add: fill_owner_def split: option.splits if_splits)
  moreover have "g = f" if "g \<in> set fs" "fill_id g = x" for g
    using that f assms(1) inj_onD [of fill_id "set fs" g f] by (simp add: distinct_map)
  ultimately show ?thesis by auto
next
  case False
  then have "map_of rs x = Some m'" using fill_owners_other [of x fs rs] assms(2) by simp
  then show ?thesis using False by (intro exI [of _ m']) auto
qed

end
