(* ===== verification/Engine_Plan.thy ===== *)
theory Engine_Plan
  imports Engine_Fill
begin

text \<open>
  Planning a match. The pass over the opposite side never fails, plans each maker once and for no
  more than it has, accounts exactly for what the incoming order still leaves, and, when something
  is left, has planned every order the incoming one crosses to its full quantity.
\<close>

definition view_ok :: "MatchingEngine \<Rightarrow> Message \<Rightarrow> OrderView \<Rightarrow> bool" where
  "view_ok e c v \<longleftrightarrow> view_quantity v \<noteq> 0 \<and>
     (\<exists>m. map_of (e_resting e) (view_id v) = Some m \<and> owner_view (view_id v) m = v \<and>
          m_instrument_id m = m_instrument_id c \<and> m_side m = opposite (m_side c))"

definition plan_ok :: "MatchingEngine \<Rightarrow> Message \<Rightarrow> OrderView list \<Rightarrow> Quantity \<Rightarrow> fill list \<Rightarrow> Quantity \<Rightarrow> Reject \<Rightarrow> bool" where
  "plan_ok e c vs leaves fs leaves' rej \<longleftrightarrow>
     distinct (map fill_id fs) \<and> (\<forall>f \<in> set fs. fill_ok c (e_resting e) f \<and> crosses c (fill_price f)) \<and>
     fill_id ` set fs \<subseteq> view_id ` set vs \<and>
     leaves' \<le> leaves \<and> plan_total fs = int (unat leaves) - int (unat leaves') \<and>
     (m_post_only c \<longrightarrow> fs = []) \<and> length fs \<le> length vs \<and>
     map (\<lambda>f. (fill_id f, fill_price f)) fs = map (\<lambda>v. (view_id v, view_price v)) (take (length fs) vs) \<and>
     (\<forall>k. Suc k < length fs \<longrightarrow> fill_size (fs ! k) = view_quantity (vs ! k)) \<and>
     (rej = Rej_None \<and> leaves' \<noteq> 0 \<longrightarrow>
        (\<forall>v \<in> set vs. crosses c (view_price v) \<longrightarrow>
           (\<exists>f \<in> set fs. fill_id f = view_id v \<and> fill_size f = view_quantity v)))"

lemma not_crosses_worse:
  assumes "\<not> crosses c p" "\<not> side_lt (opposite (m_side c)) q p" "m_side c \<noteq> Side_Other"
  shows "\<not> crosses c q"
  using assms by (cases "m_side c") (auto simp: crosses_def side_lt_def opposite_def)

lemma plan_ok_stop:
  assumes "leaves \<noteq> 0" "\<And>v. v \<in> set vs \<Longrightarrow> rej = Rej_None \<Longrightarrow> \<not> crosses c (view_price v)"
  shows "plan_ok e c vs leaves [] leaves rej"
  using assms by (auto simp: plan_ok_def plan_total_def)

text \<open>One more order planned: in full when the pass goes on.\<close>

lemma plan_ok_Cons:
  assumes rest: "plan_ok e c vs (leaves - sz) fs leaves' rej" and v: "view_ok e c v" and cr: "crosses c (view_price v)"
    and notin: "view_id v \<notin> view_id ` set vs" and post: "\<not> m_post_only c"
    and m: "map_of (e_resting e) (view_id v) = Some m" "m_client_id m \<noteq> m_client_id c"
    and sz: "sz = min leaves (view_quantity v)" "leaves \<noteq> 0" and full: "leaves - sz \<noteq> 0 \<or> leaves' = 0 \<and> fs = []"
  shows "plan_ok e c (v # vs) leaves (\<lparr>fill_id = view_id v, fill_price = view_price v, fill_size = sz\<rparr> # fs) leaves' rej"
proof -
  let ?f = "\<lparr>fill_id = view_id v, fill_price = view_price v, fill_size = sz\<rparr>"
  have sz_le: "sz \<le> leaves" "sz \<le> view_quantity v" "sz \<noteq> 0" using sz v by (auto simp: view_ok_def min_def)
  have q: "m_quantity m = view_quantity v" "m_price m = view_price v" "m_side m = opposite (m_side c)"
    "m_instrument_id m = m_instrument_id c"
  proof -
    have ov: "owner_view (view_id v) m = v" "m_side m = opposite (m_side c)" "m_instrument_id m = m_instrument_id c"
      using v m(1) by (auto simp: view_ok_def)
    then show "m_quantity m = view_quantity v" "m_price m = view_price v" "m_side m = opposite (m_side c)"
      "m_instrument_id m = m_instrument_id c"
      using owner_view_sel by metis+
  qed
  have ok: "fill_ok c (e_resting e) ?f" using m q sz_le by (auto simp: fill_ok_def)
  have un: "unat (leaves - sz) = unat leaves - unat sz" "unat sz \<le> unat leaves"
    using unat_sub [OF sz_le(1)] sz_le(1) by (simp_all add: word_le_nat_alt)
  have R: "distinct (map fill_id fs)" "\<forall>f \<in> set fs. fill_ok c (e_resting e) f \<and> crosses c (fill_price f)"
    "fill_id ` set fs \<subseteq> view_id ` set vs" "leaves' \<le> leaves - sz"
    "plan_total fs = int (unat (leaves - sz)) - int (unat leaves')"
    "rej = Rej_None \<and> leaves' \<noteq> 0 \<longrightarrow> (\<forall>v \<in> set vs. crosses c (view_price v) \<longrightarrow>
           (\<exists>f \<in> set fs. fill_id f = view_id v \<and> fill_size f = view_quantity v))"
    "length fs \<le> length vs"
    "map (\<lambda>f. (fill_id f, fill_price f)) fs = map (\<lambda>v. (view_id v, view_price v)) (take (length fs) vs)"
    "\<And>k. Suc k < length fs \<Longrightarrow> fill_size (fs ! k) = view_quantity (vs ! k)"
    using rest by (auto simp: plan_ok_def)
  have total: "plan_total (?f # fs) = int (unat leaves) - int (unat leaves')"
    using R(5) un by (simp add: plan_total_def del: of_nat_unat)
  have le: "leaves' \<le> leaves" using R(4) un by (simp add: word_le_nat_alt)
  have all: "sz = view_quantity v" if "leaves' \<noteq> 0 \<or> fs \<noteq> []" using full that sz(1) by (auto simp: min_def split: if_splits)
  have "fill_size ((?f # fs) ! k) = view_quantity ((v # vs) ! k)" if "Suc k < length (?f # fs)" for k
    using that all R(9) by (cases k) auto
  moreover have "view_id v \<notin> fill_id ` set fs" using notin R(3) by blast
  ultimately show ?thesis
    using R(1-4,6-8) ok cr post total le all unfolding plan_ok_def by auto
qed

lemma plan_visits:
  assumes "\<forall>v \<in> set vs. view_ok e c v" "distinct (map view_id vs)" "m_side c \<noteq> Side_Other" "leaves \<noteq> 0"
    and "sorted_wrt (\<lambda>v w. \<not> side_lt (opposite (m_side c)) (view_price w) (view_price v)) vs"
  shows "\<exists>fs leaves' rej. visit_while (plan_visit e c) vs (Some (planned, leaves, Rej_None)) =
      Some (planned @ fs, leaves', rej) \<and> plan_ok e c vs leaves fs leaves' rej"
  using assms
proof (induction vs arbitrary: planned leaves)
  case Nil
  then show ?case by (auto intro: plan_ok_stop)
next
  case (Cons v vs)
  obtain m where m: "map_of (e_resting e) (view_id v) = Some m" using Cons.prems(1) by (auto simp: view_ok_def)
  consider "\<not> crosses c (view_price v)" | "crosses c (view_price v)" "m_post_only c"
    | "crosses c (view_price v)" "\<not> m_post_only c" "m_client_id m = m_client_id c"
    | "crosses c (view_price v)" "\<not> m_post_only c" "m_client_id m \<noteq> m_client_id c" by blast
  then show ?case
  proof cases
    case 1
    have "\<not> crosses c (view_price w)" if "w \<in> set (v # vs)" for w
      using that 1 Cons.prems(3,5) not_crosses_worse by auto
    then show ?thesis using 1 Cons.prems(4) by (auto simp: plan_visit_def intro: plan_ok_stop)
  next
    case 2
    then show ?thesis using Cons.prems(4) by (auto simp: plan_visit_def intro: plan_ok_stop)
  next
    case 3
    then show ?thesis using Cons.prems(4) m by (auto simp: plan_visit_def intro: plan_ok_stop)
  next
    case 4
    define sz where "sz = min leaves (view_quantity v)"
    let ?f = "\<lparr>fill_id = view_id v, fill_price = view_price v, fill_size = sz\<rparr>"
    have step: "plan_visit e c (Some (planned, leaves, Rej_None)) v =
        (leaves - sz \<noteq> 0, Some (planned @ [?f], leaves - sz, Rej_None))"
      using 4 Cons.prems(4) m by (simp add: plan_visit_def sz_def Let_def)
    have v: "view_ok e c v" and notin: "view_id v \<notin> view_id ` set vs" using Cons.prems(1,2) by auto
    show ?thesis
    proof (cases "leaves - sz = 0")
      case True
      have "plan_ok e c vs (leaves - sz) [] 0 Rej_None" by (simp add: plan_ok_def plan_total_def True)
      then have "plan_ok e c (v # vs) leaves [?f] 0 Rej_None"
        by (rule plan_ok_Cons [OF _ v 4(1) notin 4(2) m 4(3) sz_def Cons.prems(4)]) simp
      moreover have "visit_while (plan_visit e c) (v # vs) (Some (planned, leaves, Rej_None)) =
          Some (planned @ [?f], 0, Rej_None)"
        unfolding visit_while.simps step using True by simp
      ultimately show ?thesis by blast
    next
      case False
      obtain fs leaves' rej where r: "visit_while (plan_visit e c) vs (Some (planned @ [?f], leaves - sz, Rej_None)) =
          Some ((planned @ [?f]) @ fs, leaves', rej)" "plan_ok e c vs (leaves - sz) fs leaves' rej"
        using Cons.IH [of "leaves - sz" "planned @ [?f]"] Cons.prems False by auto
      from plan_ok_Cons [OF r(2) v 4(1) notin 4(2) m 4(3) sz_def Cons.prems(4)] False r(1) show ?thesis
        by (auto simp: step)
    qed
  qed
qed

lemma distinct_ids:
  assumes "abs_ok A" "s \<noteq> Side_Other"
  shows "distinct (map view_id (A s))"
  using assms by (cases s) (auto simp: abs_ok_def)

lemma find_in_list: "distinct (map view_id xs) \<Longrightarrow> v \<in> set xs \<Longrightarrow> List.find (\<lambda>w. view_id w = view_id v) xs = Some v"
proof (induction xs)
  case (Cons x xs)
  show ?case
  proof (cases "x = v")
    case False
    then have "v \<in> set xs" using Cons.prems by simp
    moreover from this have "view_id x \<noteq> view_id v" using Cons.prems(1) by force
    ultimately show ?thesis using Cons by simp
  qed simp
qed simp

lemma spec_find_member:
  assumes "abs_ok A" "s \<noteq> Side_Other" "v \<in> set (A s)"
  shows "spec_find (view_id v) A = Some v"
  using assms find_in_list [of "A Bid @ A Ask" v] by (cases s) (auto simp: abs_ok_def spec_find_def)

text \<open>The opposite side of an owned book can be planned.\<close>

lemma submit_plan_ok:
  assumes ow: "owned_books (e_books e) (e_resting e)" and b: "map_of (e_books e) (m_instrument_id c) = Some b"
    and c: "m_side c \<noteq> Side_Other" "m_quantity c \<noteq> 0"
  shows "\<exists>fs leaves rej. submit_plan e c = Some (fs, leaves, rej) \<and>
    plan_ok e c (book_orders b (opposite (m_side c))) (m_quantity c) fs leaves rej"
proof -
  let ?s = "opposite (m_side c)"
  have s: "?s \<noteq> Side_Other" "?s = (if m_side c = Bid then Ask else Bid)" by (simp_all add: opposite_def)
  have wb: "wf_book b" using owned_book [OF ow b] by blast
  have ok: "abs_ok (book_orders b)" using lob.view_ok [OF wb] by blast
  have "view_ok e c v" if "v \<in> set (book_orders b ?s)" for v
  proof -
    have "owner_in (e_resting e) (m_instrument_id c) (view_id v) = Some v"
      using owned_book [OF ow b, of "view_id v"] spec_find_member [OF ok s(1) that] by simp
    moreover have "view_side v = ?s" "view_quantity v \<noteq> 0"
      using ok that by (auto simp: abs_ok_def opposite_def split: if_splits)
    ultimately show ?thesis
      by (auto simp: view_ok_def owner_in_def split: option.splits if_splits) (metis owner_view_sel(2))
  qed
  moreover have "sorted_wrt (\<lambda>v w. \<not> side_lt ?s (view_price w) (view_price v)) (book_orders b ?s)"
    using ok s by (auto simp: abs_ok_def)
  ultimately obtain fs leaves rej where "visit_while (plan_visit e c) (book_orders b ?s)
      (Some ([], m_quantity c, Rej_None)) = Some ([] @ fs, leaves, rej)"
    "plan_ok e c (book_orders b ?s) (m_quantity c) fs leaves rej"
    using plan_visits [of "book_orders b ?s" e c "m_quantity c" "[]"] distinct_ids [OF ok s(1)] c by blast
  then show ?thesis using b s(2) by (simp add: submit_plan_def for_each_order_def)
qed

end
