(* ===== verification/Engine_Commit.thy ===== *)
theory Engine_Commit
  imports Engine_Plan
begin

text \<open>
  Committing an accepted order: storing the remainder, retiring the order a replace supersedes,
  executing the plan. From a consistent engine none of these steps fails, and the engine they leave is
  consistent, uncrossed and within the position limits again.
\<close>

section \<open>What an accepted order satisfies\<close>

lemma risk_scan_foldl:
  "foldl (\<lambda>(res, open) (oid, order).
         if oid = old_id \<or> m_client_id order \<noteq> m_client_id c then (res, open)
         else (if m_instrument_id order = m_instrument_id c \<and> m_side order = m_side c
               then res + int (unat (m_quantity order)) else res, Suc open)) (a, n) rs =
   (a + reserved (om_erase old_id rs) (m_client_id c) (m_instrument_id c) (m_side c),
    n + length (filter (\<lambda>(_, m). m_client_id m = m_client_id c) (om_erase old_id rs)))"
  by (induction rs arbitrary: a n) (auto simp: reserved_def reserved_by_def)

lemma risk_scan_eq:
  "risk_scan c old_id rs =
     (reserved (om_erase old_id rs) (m_client_id c) (m_instrument_id c) (m_side c),
      length (filter (\<lambda>(_, m). m_client_id m = m_client_id c) (om_erase old_id rs)))"
  unfolding risk_scan_def by (subst risk_scan_foldl) simp

definition accepted :: "MatchingEngine \<Rightarrow> Message \<Rightarrow> OrderId \<Rightarrow> InstrumentRules \<Rightarrow> bool" where
  "accepted e c old_id r \<longleftrightarrow>
     map_of (e_instruments e) (m_instrument_id c) = Some r \<and> m_side c \<noteq> Side_Other \<and> m_order_id c \<noteq> 0 \<and>
     m_quantity c \<noteq> 0 \<and> (m_order_type c = Limit \<longrightarrow> min_price r \<le> m_price c) \<and>
     (m_order_type c = Market \<longrightarrow> m_tif c \<noteq> GTC \<and> \<not> m_post_only c) \<and> (m_post_only c \<longrightarrow> m_tif c = GTC) \<and>
     m_order_type c \<noteq> OrderType_Other \<and>
     (\<exists>st. map_of (e_clients e) (m_client_id c) = Some st \<and> (old_id = 0 \<longrightarrow> cs_max_order_id st < m_order_id c)) \<and>
     (let res = reserved (om_erase old_id (e_resting e)) (m_client_id c) (m_instrument_id c) (m_side c) in
      \<bar>held (e_positions e) (m_client_id c) (m_instrument_id c) +
        (if m_side c = Bid then 1 else - 1) * (res + int (unat (m_quantity c)))\<bar> \<le> max_position r)"

lemma engine_position_held: "pos_quantity (engine_position c i e) = held (e_positions e) c i"
  by (simp add: engine_position_def held_def flat_position_def split: option.splits)

lemma submit_check_accepted:
  assumes "submit_check e c old_id = Some None"
  shows "\<exists>r. accepted e c old_id r"
  using assms unfolding submit_check_def accepted_def
  by (cases "m_order_type c"; cases "m_side c")
    (auto simp: risk_scan_eq engine_position_held Let_def not_less not_le split: option.splits if_splits)

lemma submit_check_total:
  assumes "map_of (e_clients e) (m_client_id c) \<noteq> None"
  shows "submit_check e c old_id \<noteq> None"
  using assms unfolding submit_check_def
  by (auto simp: Let_def split: option.splits prod.splits)

text \<open>The order a replace refers to.\<close>

definition replaces :: "MatchingEngine \<Rightarrow> Message \<Rightarrow> OrderId \<Rightarrow> Message \<Rightarrow> bool" where
  "replaces e c old_id old \<longleftrightarrow>
     map_of (e_resting e) old_id = Some old \<and> m_client_id old = m_client_id c \<and> m_order_id old = m_order_id c \<and>
     m_instrument_id old = m_instrument_id c \<and> m_side old = m_side c"

section \<open>Positions before the first trade\<close>

lemma flat_sel: "pos_quantity flat_position = 0" "pos_cash flat_position = 0"
  by (simp_all add: flat_position_def)

lemma emplace_sum:
  fixes f :: "ClientId \<times> InstrumentId \<Rightarrow> Position \<Rightarrow> 'n::ab_group_add"
  assumes "om_sorted (<) ps" "f k flat_position = 0"
  shows "om_sum f (om_emplace k flat_position ps) = om_sum f ps"
  using om_less.sum_put [OF assms(1), of f k flat_position] assms(2)
  by (simp add: om_emplace_def om_part_def)

lemma emplace_flat:
  assumes "conserved ps"
  shows "conserved (om_emplace k flat_position ps)" "held (om_emplace k flat_position ps) c i = held ps c i"
    "om_contains (om_emplace k flat_position ps) k" "om_contains ps x \<Longrightarrow> om_contains (om_emplace k flat_position ps) x"
proof -
  show "conserved (om_emplace k flat_position ps)"
    using assms unfolding conserved_def
    by (auto simp: emplace_sum flat_sel) (simp add: om_emplace_def om_less.sorted_put)
qed (auto simp: om_emplace_def held_def flat_position_def split: option.splits)

lemma orders_known_mono:
  assumes "orders_known rs nxt cs ps" "nxt \<le> nxt'" "\<And>k. om_contains ps k \<Longrightarrow> om_contains ps' k"
    and "\<And>cl st. map_of cs cl = Some st \<Longrightarrow> \<exists>st'. map_of cs' cl = Some st' \<and> cs_max_order_id st \<le> cs_max_order_id st'"
  shows "orders_known rs nxt' cs' ps'"
  unfolding orders_known_def
proof (intro conjI allI impI)
  show "nxt' \<noteq> 0" using assms(1,2) by (auto simp: orders_known_def)
next
  fix oid m assume "map_of rs oid = Some m"
  then have k: "oid \<noteq> 0" "oid < nxt" "\<exists>st. map_of cs (m_client_id m) = Some st \<and> m_order_id m \<le> cs_max_order_id st"
    "om_contains ps (m_client_id m, m_instrument_id m)"
    using assms(1) by (auto simp: orders_known_def)
  then show "oid \<noteq> 0" "oid < nxt'" "om_contains ps' (m_client_id m, m_instrument_id m)"
    "\<exists>st. map_of cs' (m_client_id m) = Some st \<and> m_order_id m \<le> cs_max_order_id st"
    using assms(2,3) assms(4) [of "m_client_id m"] by (auto intro: order_trans less_le_trans)
qed

section \<open>Storing the remainder\<close>

definition remainder :: "Message \<Rightarrow> Quantity \<Rightarrow> Message" where
  "remainder incoming leaves = incoming\<lparr>m_quantity := leaves, m_remaining := leaves\<rparr>"

definition rest_index :: "Message \<Rightarrow> OrderId \<Rightarrow> OrderId \<Rightarrow> ((ClientId \<times> OrderId) \<times> OrderId) list \<Rightarrow>
    ((ClientId \<times> OrderId) \<times> OrderId) list" where
  "rest_index c old_id new_id bc =
     (if old_id = 0 then om_put (<) (m_client_id c, m_order_id c) new_id bc else bc)"

lemma fresh_ids:
  assumes "orders_known rs nxt cs ps" "indexed bc rs"
  shows "map_of rs nxt = None"
    and "map_of cs (m_client_id c) = Some st \<Longrightarrow> cs_max_order_id st < m_order_id c \<Longrightarrow>
      map_of bc (m_client_id c, m_order_id c) = None"
proof -
  show "map_of rs nxt = None" using assms(1) by (cases "map_of rs nxt") (auto simp: orders_known_def)
  show "map_of bc (m_client_id c, m_order_id c) = None"
    if "map_of cs (m_client_id c) = Some st" "cs_max_order_id st < m_order_id c"
  proof (rule ccontr)
    assume "map_of bc (m_client_id c, m_order_id c) \<noteq> None"
    then obtain oid where "map_of bc (m_client_id c, m_order_id c) = Some oid" by blast
    then obtain m where m: "map_of rs oid = Some m" "m_client_id m = m_client_id c" "m_order_id m = m_order_id c"
      using assms(2) by (auto simp: indexed_def)
    have "\<exists>st'. map_of cs (m_client_id m) = Some st' \<and> m_order_id m \<le> cs_max_order_id st'"
      using assms(1) m(1) by (simp add: orders_known_def)
    then obtain st' where "map_of cs (m_client_id c) = Some st'" "m_order_id c \<le> cs_max_order_id st'"
      unfolding m by blast
    then show False using that by simp
  qed
qed

lemma rest_remainder_cases:
  assumes ow: "owned_books (e_books e) (e_resting e)" and i: "om_contains (e_books e) (m_instrument_id c)"
    and new: "map_of (e_resting e) (e_next_order e) = None"
    and key: "old_id = 0 \<Longrightarrow> map_of (e_by_client e) (m_client_id c, m_order_id c) = None"
    and bc: "om_sorted (<) (e_by_client e)"
    and inc: "m_instrument_id incoming = m_instrument_id c" "m_side incoming = m_side c" "m_price incoming = m_price c"
    and ok: "m_side c \<noteq> Side_Other" "m_price c \<noteq> 0" "leaves \<noteq> 0"
  shows "\<exists>bk. (rest_remainder h c old_id incoming leaves e =
        Some (Inl (e\<lparr>e_books := om_put (<) (m_instrument_id c) bk (e_books e)\<rparr>)) \<and>
      owned_books (om_put (<) (m_instrument_id c) bk (e_books e)) (e_resting e) \<and>
      same_orders (om_put (<) (m_instrument_id c) bk (e_books e)) (e_books e)) \<or>
    (rest_remainder h c old_id incoming leaves e =
        Some (Inr (e\<lparr>e_books := om_put (<) (m_instrument_id c) bk (e_books e),
           e_resting := om_put (<) (e_next_order e) (remainder incoming leaves) (e_resting e),
           e_by_client := rest_index c old_id (e_next_order e) (e_by_client e)\<rparr>)) \<and>
      owned_books (om_put (<) (m_instrument_id c) bk (e_books e))
        (om_put (<) (e_next_order e) (remainder incoming leaves) (e_resting e)))"
proof -
  let ?i = "m_instrument_id c" and ?new = "e_next_order e" and ?m = "remainder incoming leaves"
  let ?rs = "om_put (<) ?new ?m (e_resting e)" and ?bc = "rest_index c old_id ?new (e_by_client e)"
  let ?e2 = "e\<lparr>e_resting := ?rs, e_by_client := ?bc\<rparr>"
  obtain b where b: "map_of (e_books e) ?i = Some b" using i by blast
  obtain r bk where add: "book_apply h ?i (AddOrder ?new (m_side c) (m_price c) leaves) ?e2 =
      Some (r, ?e2\<lparr>e_books := om_put (<) ?i bk (e_books e)\<rparr>)"
    "owned_books (om_put (<) ?i bk (e_books e)) (if r = Ok then ?rs else e_resting e)"
    "r \<noteq> Ok \<Longrightarrow> same_orders (om_put (<) ?i bk (e_books e)) (e_books e)"
    using book_apply_add [of ?e2 "e_resting e" ?i b ?new ?m "m_side c" "m_price c" leaves h] ow b new inc ok
    by (auto simp: remainder_def)
  have undo: "om_erase ?new ?rs = e_resting e"
    using om_less.erase_put_undo [OF _ new] owned_sorted [OF ow] by blast
  have undo_bc: "(if old_id = 0 then om_erase (m_client_id c, m_order_id c) ?bc else ?bc) = e_by_client e"
    using om_less.erase_put_undo [OF bc key] by (simp add: rest_index_def)
  have "rest_remainder h c old_id incoming leaves e =
      (if r \<noteq> Ok then Some (Inl (e\<lparr>e_books := om_put (<) ?i bk (e_books e)\<rparr>))
       else Some (Inr (e\<lparr>e_books := om_put (<) ?i bk (e_books e), e_resting := ?rs, e_by_client := ?bc\<rparr>)))"
    using add(1) new key undo undo_bc
    by (auto simp: rest_remainder_def om_emplace_def remainder_def rest_index_def Let_def)
  then show ?thesis using add(2,3) by (auto split: if_splits)
qed

section \<open>Retiring the order of a replace\<close>

definition retire_index :: "Message \<Rightarrow> OrderId \<Rightarrow> bool \<Rightarrow> ((ClientId \<times> OrderId) \<times> OrderId) list \<Rightarrow>
    ((ClientId \<times> OrderId) \<times> OrderId) list" where
  "retire_index c new_id keep bc =
     (if keep then om_put (<) (m_client_id c, m_order_id c) new_id bc
      else om_erase (m_client_id c, m_order_id c) bc)"

lemma retire_old_eq:
  assumes ow: "owned_books (e_books e) (e_resting e)" and old: "map_of (e_resting e) old_id = Some old"
    "m_instrument_id old = m_instrument_id c" and key: "om_contains (e_by_client e) (m_client_id c, m_order_id c)"
  shows "\<exists>b' bk sq. retire_old h c old_id new_id keep (b, e) = Some (b',
      e\<lparr>e_books := om_put (<) (m_instrument_id c) bk (e_books e), e_sequence := sq,
         e_resting := om_erase old_id (e_resting e),
         e_by_client := retire_index c new_id keep (e_by_client e)\<rparr>) \<and>
    owned_books (om_put (<) (m_instrument_id c) bk (e_books e)) (om_erase old_id (e_resting e)) \<and>
    b_reports b' = b_reports b"
proof -
  obtain bk where bk: "book_require h (m_instrument_id c) (CancelOrder old_id) e =
      Some (e\<lparr>e_books := om_put (<) (m_instrument_id c) bk (e_books e)\<rparr>)"
    "owned_books (om_put (<) (m_instrument_id c) bk (e_books e)) (om_erase old_id (e_resting e))"
    using book_require_cancel [OF ow old(1), of h] old(2) by auto
  then show ?thesis
    using old(1) key by (cases keep) (auto simp: retire_old_def engine_update_def retire_index_def Let_def)
qed

section \<open>The engine when the first fill starts\<close>

definition entry_resting :: "Message \<Rightarrow> OrderId \<Rightarrow> OrderId \<Rightarrow> Quantity \<Rightarrow> (OrderId \<times> Message) list \<Rightarrow> (OrderId \<times> Message) list" where
  "entry_resting incoming old_id new_id leaves rs =
     (if rests incoming leaves then om_put (<) new_id (remainder incoming leaves) (om_erase old_id rs)
      else om_erase old_id rs)"

definition entry_index :: "Message \<Rightarrow> OrderId \<Rightarrow> OrderId \<Rightarrow> Quantity \<Rightarrow> ((ClientId \<times> OrderId) \<times> OrderId) list \<Rightarrow>
    ((ClientId \<times> OrderId) \<times> OrderId) list" where
  "entry_index c old_id new_id leaves bc =
     (let base = (if old_id = 0 then bc else om_erase (m_client_id c, m_order_id c) bc) in
      if rests c leaves then om_put (<) (m_client_id c, m_order_id c) new_id base else base)"

lemma incoming_sel [simp]:
  "m_client_id (incoming_of c n) = m_client_id c" "m_order_id (incoming_of c n) = m_order_id c"
  "m_instrument_id (incoming_of c n) = m_instrument_id c" "m_side (incoming_of c n) = m_side c"
  "m_price (incoming_of c n) = m_price c" "m_tif (incoming_of c n) = m_tif c"
  "m_order_type (incoming_of c n) = m_order_type c" "rests (incoming_of c n) = rests c"
  by (simp_all add: incoming_of_def rests_def fun_eq_iff)

lemma remainder_sel [simp]:
  "m_client_id (remainder c n) = m_client_id c" "m_order_id (remainder c n) = m_order_id c"
  "m_instrument_id (remainder c n) = m_instrument_id c" "m_side (remainder c n) = m_side c"
  "m_price (remainder c n) = m_price c" "m_quantity (remainder c n) = n"
  by (simp_all add: remainder_def)

lemma indexed_put_new:
  assumes "indexed bc rs" "map_of rs oid = None" "map_of bc (m_client_id m, m_order_id m) = None"
  shows "indexed (om_put (<) (m_client_id m, m_order_id m) oid bc) (om_put (<) oid m rs)"
proof -
  have bc: "map_of bc (cl, o') = Some x \<longleftrightarrow>
      (\<exists>n. map_of rs x = Some n \<and> m_client_id n = cl \<and> m_order_id n = o')" for cl o' x
    using assms(1) by (simp add: indexed_def)
  have "map_of (om_put (<) (m_client_id m, m_order_id m) oid bc) (cl, o') = Some x \<longleftrightarrow>
      (\<exists>n. map_of (om_put (<) oid m rs) x = Some n \<and> m_client_id n = cl \<and> m_order_id n = o')" for cl o' x
    using bc [of cl o' x] assms(2,3) by auto
  then show ?thesis using assms(1) by (simp add: indexed_def om_less.sorted_put)
qed

lemma entry_indexed:
  assumes ix: "indexed bc rs" and z: "map_of rs 0 = None" and new: "map_of rs new_id = None"
    and fresh: "old_id = 0 \<Longrightarrow> map_of bc (m_client_id c, m_order_id c) = None"
    and old: "old_id \<noteq> 0 \<Longrightarrow> \<exists>m. map_of rs old_id = Some m \<and> m_client_id m = m_client_id c \<and> m_order_id m = m_order_id c"
  shows "indexed (entry_index c old_id new_id leaves bc) (entry_resting (incoming_of c n) old_id new_id leaves rs)"
proof -
  let ?k = "(m_client_id c, m_order_id c)"
  let ?base = "if old_id = 0 then bc else om_erase ?k bc"
  have base: "indexed ?base (om_erase old_id rs)" "map_of ?base ?k = None"
  proof -
    show "indexed ?base (om_erase old_id rs)"
      using ix z old indexed_erase [OF ix, of old_id] by (cases "old_id = 0") (fastforce simp: om_erase_notin)+
    show "map_of ?base ?k = None" using fresh by auto
  qed
  have "indexed (om_put (<) ?k new_id ?base) (om_put (<) new_id (remainder (incoming_of c n) leaves) (om_erase old_id rs))"
    using indexed_put_new [OF base(1), of new_id "remainder (incoming_of c n) leaves"] base(2) new by simp
  then show ?thesis using base(1) by (auto simp: entry_index_def entry_resting_def Let_def)
qed

text \<open>The risk check leaves room for everything the order can still trade.\<close>

lemma entry_limits:
  assumes acc: "accepted e c old_id r" and lim: "limits (e_instruments e) (e_positions e) (e_resting e) (\<lambda>_ _ _. 0)"
    and sorted: "om_sorted (<) (e_resting e)" and held: "\<And>c' i'. held ps c' i' = held (e_positions e) c' i'"
    and new: "map_of (e_resting e) new_id = None" and n: "int (unat leaves) + flying = int (unat (m_quantity c))" "0 \<le> flying"
  shows "limits (e_instruments e) ps (entry_resting (incoming_of c n') old_id new_id leaves (e_resting e)) (in_flight c flying)"
  unfolding limits_def
proof (intro allI impI)
  fix c' i' r' assume r': "map_of (e_instruments e) i' = Some r'"
  let ?base = "om_erase old_id (e_resting e)" and ?rs = "entry_resting (incoming_of c n') old_id new_id leaves (e_resting e)"
  have base: "reserved ?base c' i' s \<le> reserved (e_resting e) c' i' s" for s
    using reserved_erase [OF sorted, of old_id _ c' i' s] om_erase_notin [of "e_resting e" old_id]
    by (cases "map_of (e_resting e) old_id") (auto simp: reserved_by_def)
  have rs: "reserved ?rs c' i' s \<le> reserved ?base c' i' s + in_flight c (int (unat leaves)) c' i' s" for s
    using reserved_put_new [of ?base new_id "remainder (incoming_of c n') leaves" c' i' s] new sorted
    by (auto simp: entry_resting_def om_less.sorted_erase in_flight_def reserved_by_def)
  have old: "held ps c' i' + reserved (e_resting e) c' i' Bid \<le> max_position r'"
    "- max_position r' \<le> held ps c' i' - reserved (e_resting e) c' i' Ask"
    using lim r' held unfolding limits_def by auto
  have mine: "\<bar>held ps c' i' + (if m_side c = Bid then 1 else - 1) *
      (reserved ?base c' i' (m_side c) + int (unat (m_quantity c)))\<bar> \<le> max_position r'"
    if "c' = m_client_id c" "i' = m_instrument_id c"
    using acc that r' held by (auto simp: accepted_def Let_def)
  have side: "m_side c = Bid \<or> m_side c = Ask" using acc by (cases "m_side c") (auto simp: accepted_def)
  show "held ps c' i' + reserved ?rs c' i' Bid + in_flight c flying c' i' Bid \<le> max_position r' \<and>
      - max_position r' \<le> held ps c' i' - reserved ?rs c' i' Ask - in_flight c flying c' i' Ask"
  proof (cases "c' = m_client_id c \<and> i' = m_instrument_id c")
    case True
    then show ?thesis
      using mine rs [of Bid] rs [of Ask] base [of Bid] base [of Ask] old n side
      by (auto simp: in_flight_def abs_le_iff simp del: of_nat_unat)
  next
    case False
    then show ?thesis
      using rs [of Bid] rs [of Ask] base [of Bid] base [of Ask] old by (auto simp: in_flight_def simp del: of_nat_unat)
  qed
qed

lemma entry_known:
  assumes k: "orders_known rs nxt cs ps" and st: "map_of cs (m_client_id c) = Some st" and nxt: "nxt + 1 \<noteq> 0"
    and ps: "\<And>k. om_contains ps k \<Longrightarrow> om_contains ps' k" "om_contains ps' (m_client_id c, m_instrument_id c)"
  shows "orders_known (entry_resting (incoming_of c n) old_id nxt leaves rs) (nxt + 1)
    (om_put (<) (m_client_id c) (st\<lparr>cs_max_order_id := max (cs_max_order_id st) (m_order_id c)\<rparr>) cs) ps'"
    (is "orders_known _ _ ?cs _")
proof -
  have less: "nxt < nxt + 1" using nxt inc_less_eq_iff [of nxt nxt] by (auto simp flip: not_le)
  have "orders_known (om_erase old_id rs) (nxt + 1) ?cs ps'"
  proof (rule orders_known_mono [OF orders_known_erase [OF k]])
    show "\<exists>st'. map_of ?cs cl = Some st' \<and> cs_max_order_id s \<le> cs_max_order_id st'" if "map_of cs cl = Some s" for cl s
      using that st by auto
  qed (use ps(1) less in auto)
  then show ?thesis
    using ps(2) less nxt k by (auto simp: entry_resting_def orders_known_def)
qed

lemma entry_fills:
  assumes "\<forall>f \<in> set fs. fill_ok c rs f" "map_of rs nxt = None"
    and "\<And>m. map_of rs old_id = Some m \<Longrightarrow> m_client_id m = m_client_id c"
  shows "\<forall>f \<in> set fs. fill_ok c (entry_resting (incoming_of c n) old_id nxt leaves rs) f"
proof
  fix f assume "f \<in> set fs"
  then obtain m where "map_of rs (fill_id f) = Some m" "m_client_id m \<noteq> m_client_id c" "fill_ok c rs f"
    using assms(1) by (auto simp: fill_ok_def)
  moreover from this have "fill_id f \<noteq> nxt" "fill_id f \<noteq> old_id" using assms(2,3) by auto
  ultimately show "fill_ok c (entry_resting (incoming_of c n) old_id nxt leaves rs) f"
    by (simp add: entry_resting_def fill_ok_def)
qed

text \<open>After the fills nothing is left for the new order to cross.\<close>

lemma entry_uncrossed:
  assumes unc: "uncrossed rs" and ow: "owned_books bs rs" and b: "map_of bs (m_instrument_id c) = Some b"
    and plan: "plan_ok e c (book_orders b (opposite (m_side c))) q fs leaves Rej_None" and rs: "e_resting e = rs"
    and side: "m_side c \<noteq> Side_Other" and dist: "distinct (map fill_id fs)"
  shows "uncrossed (fill_owners fs (entry_resting (incoming_of c n) old_id nxt leaves rs))"
proof -
  let ?rs = "entry_resting (incoming_of c n) old_id nxt leaves rs"
  have lookup: "(\<exists>m. map_of rs x = Some m \<and> m_side m = m_side m' \<and> m_price m = m_price m' \<and>
        m_instrument_id m = m_instrument_id m' \<and> (\<forall>f \<in> set fs. fill_id f = x \<longrightarrow> fill_size f \<noteq> m_quantity m)) \<or>
      (rests c leaves \<and> m_side m' = m_side c \<and> m_price m' = m_price c \<and> m_instrument_id m' = m_instrument_id c)"
    if found: "map_of (fill_owners fs ?rs) x = Some m'" for x m'
  proof -
    obtain m where m: "map_of ?rs x = Some m" "m' = m\<lparr>m_quantity := m_quantity m'\<rparr>"
      "\<forall>f \<in> set fs. fill_id f = x \<longrightarrow> fill_size f \<noteq> m_quantity m"
      using fill_owners_survivor [OF dist found] by blast
    have "m_side m' = m_side m" "m_price m' = m_price m" "m_instrument_id m' = m_instrument_id m"
      using arg_cong [OF m(2), of m_side] arg_cong [OF m(2), of m_price] arg_cong [OF m(2), of m_instrument_id] by simp_all
    then show ?thesis using m(1,3) by (auto simp: entry_resting_def split: if_splits)
  qed
  have gone: "\<not> crosses c (m_price m)"
    if "rests c leaves" "map_of rs x = Some m" "m_instrument_id m = m_instrument_id c" "m_side m = opposite (m_side c)"
      "\<forall>f \<in> set fs. fill_id f = x \<longrightarrow> fill_size f \<noteq> m_quantity m" for x m
  proof
    assume "crosses c (m_price m)"
    have "abs_ok (book_orders b)" "spec_find x (book_orders b) = Some (owner_view x m)"
      using owned_book [OF ow b] lob.view_ok that(2,3) by (auto simp: owner_in_def)
    then have "owner_view x m \<in> set (book_orders b (opposite (m_side c)))" using spec_find_ok that(4) by fastforce
    then have "\<exists>f \<in> set fs. fill_id f = x \<and> fill_size f = m_quantity m"
      using plan that(1) \<open>crosses c (m_price m)\<close> by (force simp: plan_ok_def rests_def)
    then show False using that(5) by blast
  qed
  show ?thesis
    unfolding uncrossed_def
  proof (intro allI impI)
    fix x m y n'
    assume a: "map_of (fill_owners fs ?rs) x = Some m" "map_of (fill_owners fs ?rs) y = Some n'"
      "m_instrument_id m = m_instrument_id n'" "m_side m = Bid" "m_side n' = Ask"
    show "m_price m < m_price n'"
      using lookup [OF a(1)] lookup [OF a(2)]
    proof (elim disjE exE conjE)
      fix k l assume "map_of rs x = Some k" "m_side k = m_side m" "m_price k = m_price m" "m_instrument_id k = m_instrument_id m"
        "map_of rs y = Some l" "m_side l = m_side n'" "m_price l = m_price n'" "m_instrument_id l = m_instrument_id n'"
      then show ?thesis using unc a(3-5) unfolding uncrossed_def by metis
    next
      fix k assume k: "map_of rs x = Some k" "m_side k = m_side m" "m_price k = m_price m" "m_instrument_id k = m_instrument_id m"
        "\<forall>f\<in>set fs. fill_id f = x \<longrightarrow> fill_size f \<noteq> m_quantity k" "rests c leaves" "m_side n' = m_side c"
        "m_price n' = m_price c" "m_instrument_id n' = m_instrument_id c"
      then show ?thesis using gone [OF k(6,1) _ _ k(5)] a by (auto simp: crosses_def opposite_def)
    next
      fix l assume l: "map_of rs y = Some l" "m_side l = m_side n'" "m_price l = m_price n'" "m_instrument_id l = m_instrument_id n'"
        "\<forall>f\<in>set fs. fill_id f = y \<longrightarrow> fill_size f \<noteq> m_quantity l" "rests c leaves" "m_side m = m_side c"
        "m_price m = m_price c" "m_instrument_id m = m_instrument_id c"
      then show ?thesis using gone [OF l(6,1) _ _ l(5)] a by (auto simp: crosses_def opposite_def)
    qed (use a in simp)
  qed
qed

end
