(* ===== verification/Engine_Step.thy ===== *)
theory Engine_Step
  imports Engine_Commit
begin

text \<open>
  Every command leaves a consistent engine: the submit path, the dispatch on the action, the completion
  report, and whole runs of commands from a new engine.
\<close>

section \<open>The commit\<close>

lemma store_remainder:
  assumes ow: "owned_books (e_books e) (e_resting e)" and i: "om_contains (e_books e) (m_instrument_id c)"
    and new: "map_of (e_resting e) (e_next_order e) = None"
    and key: "old_id = 0 \<Longrightarrow> map_of (e_by_client e) (m_client_id c, m_order_id c) = None"
    and bc: "om_sorted (<) (e_by_client e)" and ok: "m_side c \<noteq> Side_Other" "m_order_type c = Limit \<Longrightarrow> m_price c \<noteq> 0"
    and e0: "e0 = e\<lparr>e_positions := ps\<rparr>"
    and rs: "rs = (if rests c leaves then om_put (<) (e_next_order e) (remainder (incoming_of c n) leaves) (e_resting e)
                 else e_resting e)"
    and bc1: "bc1 = (if rests c leaves then rest_index c old_id (e_next_order e) (e_by_client e) else e_by_client e)"
    and rested: "rested = (if rests c leaves then rest_remainder h c old_id (incoming_of c n) leaves e0 else Some (Inr e0))"
  shows "\<exists>bs. (\<forall>j. om_contains bs j = om_contains (e_books e) j) \<and>
    (rested = Some (Inl (e0\<lparr>e_books := bs\<rparr>)) \<and> owned_books bs (e_resting e) \<and> rests c leaves \<and>
       same_orders bs (e_books e) \<or>
     rested = Some (Inr (e0\<lparr>e_books := bs, e_resting := rs, e_by_client := bc1\<rparr>)) \<and> owned_books bs rs)"
proof (cases "rests c leaves")
  case True
  then have p: "m_price c \<noteq> 0" "leaves \<noteq> 0" using ok(2) by (auto simp: rests_def)
  have "\<exists>bk. (rest_remainder h c old_id (incoming_of c n) leaves e0 =
        Some (Inl (e0\<lparr>e_books := om_put (<) (m_instrument_id c) bk (e_books e0)\<rparr>)) \<and>
      owned_books (om_put (<) (m_instrument_id c) bk (e_books e0)) (e_resting e0) \<and>
      same_orders (om_put (<) (m_instrument_id c) bk (e_books e0)) (e_books e0)) \<or>
    (rest_remainder h c old_id (incoming_of c n) leaves e0 =
        Some (Inr (e0\<lparr>e_books := om_put (<) (m_instrument_id c) bk (e_books e0),
           e_resting := om_put (<) (e_next_order e0) (remainder (incoming_of c n) leaves) (e_resting e0),
           e_by_client := rest_index c old_id (e_next_order e0) (e_by_client e0)\<rparr>)) \<and>
      owned_books (om_put (<) (m_instrument_id c) bk (e_books e0))
        (om_put (<) (e_next_order e0) (remainder (incoming_of c n) leaves) (e_resting e0)))"
    by (rule rest_remainder_cases) (use ow i new key bc ok(1) p in \<open>auto simp: e0\<close>)
  then obtain bk where bk: "let bs = om_put (<) (m_instrument_id c) bk (e_books e) in
      rested = Some (Inl (e0\<lparr>e_books := bs\<rparr>)) \<and> owned_books bs (e_resting e) \<and> rests c leaves \<and>
       same_orders bs (e_books e) \<or>
      rested = Some (Inr (e0\<lparr>e_books := bs, e_resting := rs, e_by_client := bc1\<rparr>)) \<and> owned_books bs rs"
    using True by (auto simp: e0 rs bc1 rested Let_def)
  have "om_contains (om_put (<) (m_instrument_id c) bk (e_books e)) j = om_contains (e_books e) j" for j
    using i by auto
  then show ?thesis using bk unfolding Let_def by blast
next
  case False
  then show ?thesis using ow by (intro exI [of _ "e_books e"]) (simp add: e0 rs bc1 rested)
qed

lemma retire_step:
  assumes ow: "owned_books (e_books e) (e_resting e)" and z: "map_of (e_resting e) 0 = None"
    and old: "old_id \<noteq> 0 \<Longrightarrow> \<exists>old. map_of (e_resting e) old_id = Some old \<and> m_instrument_id old = m_instrument_id c"
    and key: "old_id \<noteq> 0 \<Longrightarrow> om_contains (e_by_client e) (m_client_id c, m_order_id c)"
  shows "\<exists>b' bs sq. (if old_id \<noteq> 0 then retire_old h c old_id new_id r (b, e) else Some (b, e)) = Some (b',
      e\<lparr>e_books := bs, e_sequence := sq, e_resting := om_erase old_id (e_resting e),
         e_by_client := if old_id = 0 then e_by_client e else retire_index c new_id r (e_by_client e)\<rparr>) \<and>
    owned_books bs (om_erase old_id (e_resting e)) \<and> (\<forall>j. om_contains bs j = om_contains (e_books e) j) \<and>
    b_reports b' = b_reports b"
proof (cases "old_id = 0")
  case True
  then show ?thesis using ow z by (intro exI [of _ b] exI [of _ "e_books e"] exI [of _ "e_sequence e"]) (simp add: om_erase_notin)
next
  case False
  then obtain old where o: "map_of (e_resting e) old_id = Some old" "m_instrument_id old = m_instrument_id c" using old by blast
  obtain b' bk sq where "retire_old h c old_id new_id r (b, e) = Some (b',
      e\<lparr>e_books := om_put (<) (m_instrument_id c) bk (e_books e), e_sequence := sq,
         e_resting := om_erase old_id (e_resting e), e_by_client := retire_index c new_id r (e_by_client e)\<rparr>)"
    "owned_books (om_put (<) (m_instrument_id c) bk (e_books e)) (om_erase old_id (e_resting e))"
    "b_reports b' = b_reports b"
    using retire_old_eq [OF ow o key [OF False], of h new_id r b] by blast
  moreover have "om_contains (om_put (<) (m_instrument_id c) bk (e_books e)) j = om_contains (e_books e) j" for j
    using owned_contains [OF ow o(1)] o(2) by auto
  ultimately show ?thesis
    using False by (intro exI [of _ b'] exI [of _ "om_put (<) (m_instrument_id c) bk (e_books e)"] exI [of _ sq]) simp
qed

text \<open>The two paths build the owner table and the client index the fills start from.\<close>

lemma entry_tables:
  assumes rs: "om_sorted (<) rs" and bc: "om_sorted (<) bc" and ne: "old_id \<noteq> new_id"
  shows "om_erase old_id (if rests c leaves then om_put (<) new_id (remainder (incoming_of c n) leaves) rs else rs) =
      entry_resting (incoming_of c n) old_id new_id leaves rs"
    "(let bc' = (if rests c leaves then rest_index c old_id new_id bc else bc) in
      if old_id = 0 then bc' else retire_index c new_id (rests c leaves) bc') = entry_index c old_id new_id leaves bc"
proof -
  have "om_erase old_id (om_put (<) new_id m rs) = om_put (<) new_id m (om_erase old_id rs)" for m
    by (rule om_less.sorted_ext) (use rs ne in \<open>auto intro: om_less.sorted_put om_less.sorted_erase\<close>)
  then show "om_erase old_id (if rests c leaves then om_put (<) new_id (remainder (incoming_of c n) leaves) rs else rs) =
      entry_resting (incoming_of c n) old_id new_id leaves rs"
    by (simp add: entry_resting_def)
  have "om_put (<) k v (om_erase k bc) = om_put (<) k v bc" for k v
    by (rule om_less.sorted_ext) (use bc in \<open>auto intro: om_less.sorted_put om_less.sorted_erase\<close>)
  then show "(let bc' = (if rests c leaves then rest_index c old_id new_id bc else bc) in
      if old_id = 0 then bc' else retire_index c new_id (rests c leaves) bc') = entry_index c old_id new_id leaves bc"
    by (simp add: entry_index_def rest_index_def retire_index_def Let_def)
qed

lemma conserved_sorted: "conserved ps \<Longrightarrow> om_sorted (<) ps"
  by (simp add: conserved_def)

definition entry :: "MatchingEngine \<Rightarrow> Message \<Rightarrow> OrderId \<Rightarrow> Quantity \<Rightarrow> MatchingEngine \<Rightarrow> bool" where
  "entry e c old_id leaves e' \<longleftrightarrow>
     owned_books (e_books e') (e_resting e') \<and> (\<forall>i. om_contains (e_books e') i \<longleftrightarrow> om_contains (e_books e) i) \<and>
     e_instruments e' = e_instruments e \<and>
     e_resting e' = entry_resting (incoming_of c (e_next_order e)) old_id (e_next_order e) leaves (e_resting e) \<and>
     e_by_client e' = entry_index c old_id (e_next_order e) leaves (e_by_client e) \<and>
     e_next_order e' = e_next_order e + 1 \<and>
     (\<exists>st. map_of (e_clients e) (m_client_id c) = Some st \<and>
       e_clients e' = om_put (<) (m_client_id c) (st\<lparr>cs_max_order_id := max (cs_max_order_id st) (m_order_id c)\<rparr>) (e_clients e)) \<and>
     e_positions e' = om_emplace (m_client_id c, m_instrument_id c) flat_position (e_positions e)"

text \<open>What every command of a submit has established before the commit.\<close>

definition submits :: "MatchingEngine \<Rightarrow> Message \<Rightarrow> OrderId \<Rightarrow> InstrumentRules \<Rightarrow> bool" where
  "submits e c old_id r \<longleftrightarrow> eng_inv e \<and> accepted e c old_id r \<and> e_next_order e + 1 \<noteq> 0 \<and>
     (old_id \<noteq> 0 \<longrightarrow> (\<exists>old. replaces e c old_id old))"

lemma submitsD:
  assumes "submits e c old_id r"
  shows "eng_inv e" "accepted e c old_id r" "e_next_order e + 1 \<noteq> 0"
    "old_id \<noteq> 0 \<Longrightarrow> \<exists>old. replaces e c old_id old" "m_side c \<noteq> Side_Other" "m_quantity c \<noteq> 0"
    "m_order_type c = Limit \<Longrightarrow> m_price c \<noteq> 0"
    "map_of (e_resting e) 0 = None" "map_of (e_resting e) (e_next_order e) = None" "old_id \<noteq> e_next_order e"
    "old_id = 0 \<Longrightarrow> map_of (e_by_client e) (m_client_id c, m_order_id c) = None"
    "old_id \<noteq> 0 \<Longrightarrow> map_of (e_by_client e) (m_client_id c, m_order_id c) = Some old_id"
    "om_contains (e_books e) (m_instrument_id c)" "\<exists>st. map_of (e_clients e) (m_client_id c) = Some st"
proof -
  show inv: "eng_inv e" and acc: "accepted e c old_id r" and "e_next_order e + 1 \<noteq> 0"
    and old: "old_id \<noteq> 0 \<Longrightarrow> \<exists>old. replaces e c old_id old"
    using assms by (auto simp: submits_def)
  note I = eng_invD [OF inv]
  show "m_side c \<noteq> Side_Other" "m_quantity c \<noteq> 0" "\<exists>st. map_of (e_clients e) (m_client_id c) = Some st"
    using acc by (auto simp: accepted_def)
  show "om_contains (e_books e) (m_instrument_id c)" using acc I(2) by (auto simp: accepted_def)
  show "m_price c \<noteq> 0" if "m_order_type c = Limit"
    using acc that I(3) [of "m_instrument_id c" r] by (auto simp: accepted_def rules_ok_def)
  show new: "map_of (e_resting e) (e_next_order e) = None" using fresh_ids(1) [OF I(5,4)] .
  show "map_of (e_resting e) 0 = None" using I(5) by (cases "map_of (e_resting e) 0") (auto simp: orders_known_def)
  show "old_id \<noteq> e_next_order e"
    using old new I(5) by (cases "old_id = 0") (auto simp: orders_known_def replaces_def)
  show "map_of (e_by_client e) (m_client_id c, m_order_id c) = None" if "old_id = 0"
    using fresh_ids(2) [OF I(5,4)] acc that by (auto simp: accepted_def)
  show "map_of (e_by_client e) (m_client_id c, m_order_id c) = Some old_id" if "old_id \<noteq> 0"
    using old [OF that] I(4) by (auto simp: replaces_def indexed_def)
qed

lemma bind_as_case: "Option.bind x f = (case x of None \<Rightarrow> None | Some y \<Rightarrow> f y)"
  by (cases x) simp_all

text \<open>A commit up to the first fill: the rejection, or what the fills start from.\<close>

definition commit_start :: "heap_env \<Rightarrow> Message \<Rightarrow> OrderId \<Rightarrow> Quantity \<Rightarrow> work \<Rightarrow> (work + work) option" where
  "commit_start h c old_id leaves w =
    (let (b, e) = w; e0 = e\<lparr>e_positions := om_emplace (m_client_id c, m_instrument_id c) flat_position (e_positions e)\<rparr> in
     case (if rests c leaves then rest_remainder h c old_id (incoming_of c (e_next_order e)) leaves e0 else Some (Inr e0)) of
       None \<Rightarrow> None
     | Some (Inl e1) \<Rightarrow> Some (Inl (engine_reject c Rej_Capacity (b, e1)))
     | Some (Inr e1) \<Rightarrow>
         (case (if old_id \<noteq> 0
                then retire_old h c old_id (e_next_order e) (rests c leaves) (b, e1\<lparr>e_next_order := e_next_order e1 + 1\<rparr>)
                else Some (b, e1\<lparr>e_next_order := e_next_order e1 + 1\<rparr>)) of
            None \<Rightarrow> None
          | Some (b3, e3) \<Rightarrow> map_option (\<lambda>st. Inr (engine_report (incoming_of c (e_next_order e))
              (if old_id = 0 then Rpt_Accepted else Rpt_Replaced) Rej_None (b3, e3\<lparr>e_clients := om_put (<) (m_client_id c)
                (st\<lparr>cs_max_order_id := max (cs_max_order_id st) (m_order_id c)\<rparr>) (e_clients e3)\<rparr>)))
              (map_of (e_clients e3) (m_client_id c))))"

lemma submit_commit_unfold:
  assumes "e0 = e\<lparr>e_positions := om_emplace (m_client_id c, m_instrument_id c) flat_position (e_positions e)\<rparr>"
  shows "submit_commit h c old_id planned leaves (b, e) =
    (case (if rests c leaves then rest_remainder h c old_id (incoming_of c (e_next_order e)) leaves e0 else Some (Inr e0)) of
       None \<Rightarrow> None
     | Some (Inl e1) \<Rightarrow> Some (engine_reject c Rej_Capacity (b, e1))
     | Some (Inr e1) \<Rightarrow>
         (case (if old_id \<noteq> 0
                then retire_old h c old_id (e_next_order e) (rests c leaves) (b, e1\<lparr>e_next_order := e_next_order e1 + 1\<rparr>)
                else Some (b, e1\<lparr>e_next_order := e_next_order e1 + 1\<rparr>)) of
            None \<Rightarrow> None
          | Some (b3, e3) \<Rightarrow>
              (case map_of (e_clients e3) (m_client_id c) of
                 None \<Rightarrow> None
               | Some st \<Rightarrow> (case (fill_all h c (incoming_of c (e_next_order e)) planned (m_quantity c,
                      engine_report (incoming_of c (e_next_order e)) (if old_id = 0 then Rpt_Accepted else Rpt_Replaced)
                        Rej_None (b3, e3\<lparr>e_clients := om_put (<) (m_client_id c)
                          (st\<lparr>cs_max_order_id := max (cs_max_order_id st) (m_order_id c)\<rparr>) (e_clients e3)\<rparr>))) of
                   None \<Rightarrow> None | Some (_, w) \<Rightarrow> Some (commit_close c (e_next_order e) leaves w)))))"
proof -
  have n: "e_next_order e0 = e_next_order e" using assms by simp
  show ?thesis
    unfolding submit_commit_def Let_def prod.case assms [symmetric] n
    by (simp add: bind_as_case map_option_case case_prod_beta split del: if_split)
qed

lemma submit_commit_start:
  "submit_commit h c old_id fs leaves (b, e) = (case commit_start h c old_id leaves (b, e) of
     None \<Rightarrow> None
   | Some (Inl w) \<Rightarrow> Some w
   | Some (Inr w) \<Rightarrow> (case fill_all h c (incoming_of c (e_next_order e)) fs (m_quantity c, w) of
       None \<Rightarrow> None | Some (_, w6) \<Rightarrow> Some (commit_close c (e_next_order e) leaves w6)))"
proof -
  let ?e0 = "e\<lparr>e_positions := om_emplace (m_client_id c, m_instrument_id c) flat_position (e_positions e)\<rparr>"
  let ?X = "if rests c leaves then rest_remainder h c old_id (incoming_of c (e_next_order e)) leaves ?e0 else Some (Inr ?e0)"
  let ?Y = "\<lambda>e1. if old_id \<noteq> 0
    then retire_old h c old_id (e_next_order e) (rests c leaves) (b, e1\<lparr>e_next_order := e_next_order e1 + 1\<rparr>)
    else Some (b, e1\<lparr>e_next_order := e_next_order e1 + 1\<rparr>)"
  note unf = submit_commit_unfold [OF refl] commit_start_def Let_def prod.case
  consider "?X = None" | e1 where "?X = Some (Inl e1)" | e1 where "?X = Some (Inr e1)" "?Y e1 = None"
    | e1 b3 e3 where "?X = Some (Inr e1)" "?Y e1 = Some (b3, e3)"
    by (metis not_None_eq sum.exhaust surj_pair)
  then show ?thesis
  proof cases
    case (4 e1 b3 e3)
    then show ?thesis unfolding unf 4 option.case sum.case
      by (cases "map_of (e_clients e3) (m_client_id c)") (simp_all split del: if_split)
  qed (simp_all only: unf option.case sum.case)
qed

lemma submit_commit_entry:
  assumes S: "submits e c old_id r"
  shows "(\<exists>bs. submit_commit h c old_id fs leaves (b, e) = Some (engine_reject c Rej_Capacity (b,
        e\<lparr>e_positions := om_emplace (m_client_id c, m_instrument_id c) flat_position (e_positions e), e_books := bs\<rparr>)) \<and>
      owned_books bs (e_resting e) \<and> (\<forall>i. om_contains bs i \<longleftrightarrow> om_contains (e_books e) i) \<and> rests c leaves \<and>
      same_orders bs (e_books e) \<and> (\<exists>w. commit_start h c old_id leaves (b, e) = Some (Inl w))) \<or>
    (\<exists>b5 e5 x. entry e c old_id leaves e5 \<and> b_reports b5 = b_reports b @ [x] \<and> m_report x \<noteq> Rpt_Fill \<and>
      commit_start h c old_id leaves (b, e) = Some (Inr (b5, e5)) \<and> submit_commit h c old_id fs leaves (b, e) =
      (case fill_all h c (incoming_of c (e_next_order e)) fs (m_quantity c, b5, e5) of
         None \<Rightarrow> None | Some (_, w) \<Rightarrow> Some (commit_close c (e_next_order e) leaves w)))"
proof -
  note D = submitsD [OF S] and I = eng_invD [OF submitsD(1) [OF S]]
  let ?new = "e_next_order e" and ?inc = "incoming_of c (e_next_order e)"
  let ?ps = "om_emplace (m_client_id c, m_instrument_id c) flat_position (e_positions e)"
  let ?e0 = "e\<lparr>e_positions := ?ps\<rparr>"
  have sorted: "om_sorted (<) (e_resting e)" "om_sorted (<) (e_by_client e)"
    using owned_sorted [OF I(1)] I(4) by (auto simp: indexed_def)
  note tables = entry_tables [OF sorted D(10)]
  let ?rested = "if rests c leaves then rest_remainder h c old_id ?inc leaves ?e0 else Some (Inr ?e0)"
  let ?rs1 = "if rests c leaves then om_put (<) ?new (remainder ?inc leaves) (e_resting e) else e_resting e"
  let ?bc1 = "if rests c leaves then rest_index c old_id ?new (e_by_client e) else e_by_client e"
  obtain bs where bs: "\<And>j. om_contains bs j = om_contains (e_books e) j"
    "?rested = Some (Inl (?e0\<lparr>e_books := bs\<rparr>)) \<and> owned_books bs (e_resting e) \<and> same_orders bs (e_books e) \<or>
     ?rested = Some (Inr (?e0\<lparr>e_books := bs, e_resting := ?rs1, e_by_client := ?bc1\<rparr>)) \<and> owned_books bs ?rs1"
    using store_remainder [OF I(1) D(13,9,11) sorted(2) D(5,7) refl refl refl refl, where ps = ?ps and leaves = leaves and n = ?new and h = h] by blast
  from bs(2) show ?thesis
  proof (elim disjE conjE)
    assume r: "?rested = Some (Inl (?e0\<lparr>e_books := bs\<rparr>))" "owned_books bs (e_resting e)" "same_orders bs (e_books e)"
    then have "rests c leaves" by (auto split: if_splits)
    moreover have "commit_start h c old_id leaves (b, e) = Some (Inl (engine_reject c Rej_Capacity (b, ?e0\<lparr>e_books := bs\<rparr>)))"
      unfolding commit_start_def Let_def prod.case r(1) by simp
    ultimately show ?thesis
      unfolding submit_commit_unfold [OF refl] r(1) using r(2,3) bs(1) by (intro disjI1 exI [of _ bs]) simp
  next
    assume r: "?rested = Some (Inr (?e0\<lparr>e_books := bs, e_resting := ?rs1, e_by_client := ?bc1\<rparr>))" "owned_books bs ?rs1"
    define e2 where "e2 = ?e0\<lparr>e_books := bs, e_resting := ?rs1, e_by_client := ?bc1, e_next_order := ?new + 1\<rparr>"
    have e2: "e_books e2 = bs" "e_resting e2 = ?rs1" "e_by_client e2 = ?bc1" by (simp_all add: e2_def)
    have e2_clients: "e_clients e2 = e_clients e" by (simp add: e2_def)
    have e2_upd: "?e0\<lparr>e_books := bs, e_resting := ?rs1, e_by_client := ?bc1, e_next_order := e_next_order
        (?e0\<lparr>e_books := bs, e_resting := ?rs1, e_by_client := ?bc1\<rparr>) + 1\<rparr> = e2" by (simp add: e2_def)
    have "owned_books (e_books e2) (e_resting e2)" using r(2) e2 by simp
    moreover have "map_of (e_resting e2) 0 = None" using D(8) I(5) e2 by (auto simp: orders_known_def)
    moreover have "\<exists>old. map_of (e_resting e2) old_id = Some old \<and> m_instrument_id old = m_instrument_id c" if "old_id \<noteq> 0"
      using D(4) [OF that] D(10) e2 by (auto simp: replaces_def)
    moreover have "om_contains (e_by_client e2) (m_client_id c, m_order_id c)" if "old_id \<noteq> 0"
      using D(12) [OF that] that e2 by (auto simp: rest_index_def)
    moreover have e2_eqs: "om_erase old_id (e_resting e2) = entry_resting ?inc old_id ?new leaves (e_resting e)"
      "(if old_id = 0 then e_by_client e2 else retire_index c ?new (rests c leaves) (e_by_client e2)) =
        entry_index c old_id ?new leaves (e_by_client e)"
      unfolding e2 by (rule tables(1), rule tables(2) [unfolded Let_def])
    ultimately obtain b3 bs3 sq where t: "(if old_id \<noteq> 0 then retire_old h c old_id ?new (rests c leaves) (b, e2) else Some (b, e2)) =
        Some (b3, e2\<lparr>e_books := bs3, e_sequence := sq, e_resting := entry_resting ?inc old_id ?new leaves (e_resting e),
         e_by_client := entry_index c old_id ?new leaves (e_by_client e)\<rparr>)"
      "owned_books bs3 (entry_resting ?inc old_id ?new leaves (e_resting e))" "\<And>j. om_contains bs3 j = om_contains bs j"
      "b_reports b3 = b_reports b"
      using retire_step [of e2 old_id c h ?new "rests c leaves" b] unfolding e2_eqs unfolding e2(1) by blast
    obtain st where st: "map_of (e_clients e) (m_client_id c) = Some st" using D(14) by blast
    define e4 where "e4 = e2\<lparr>e_books := bs3, e_sequence := sq, e_resting := entry_resting ?inc old_id ?new leaves (e_resting e),
      e_by_client := entry_index c old_id ?new leaves (e_by_client e),
      e_clients := om_put (<) (m_client_id c) (st\<lparr>cs_max_order_id := max (cs_max_order_id st) (m_order_id c)\<rparr>) (e_clients e2)\<rparr>"
    obtain b5 x where b5: "engine_report ?inc (if old_id = 0 then Rpt_Accepted else Rpt_Replaced) Rej_None (b3, e4) =
        (b5, e4\<lparr>e_response_sequence := e_response_sequence e4 + 1\<rparr>)"
      "b_reports b5 = b_reports b3 @ [x]" "m_report x = (if old_id = 0 then Rpt_Accepted else Rpt_Replaced)"
      using report_pair by blast
    have "entry e c old_id leaves (e4\<lparr>e_response_sequence := e_response_sequence e4 + 1\<rparr>)"
      using t(2,3) bs(1) st by (simp add: entry_def e4_def e2_def)
    moreover have "submit_commit h c old_id fs leaves (b, e) =
        (case fill_all h c ?inc fs (m_quantity c, b5, e4\<lparr>e_response_sequence := e_response_sequence e4 + 1\<rparr>) of
           None \<Rightarrow> None | Some (_, w) \<Rightarrow> Some (commit_close c ?new leaves w))"
      unfolding submit_commit_unfold [OF refl] r(1) option.case sum.case e2_upd t(1) prod.case
      using b5(1) st by (simp add: e4_def e2_clients split del: if_split)
    moreover have "commit_start h c old_id leaves (b, e) =
        Some (Inr (b5, e4\<lparr>e_response_sequence := e_response_sequence e4 + 1\<rparr>))"
      unfolding commit_start_def Let_def r(1) option.case sum.case prod.case e2_upd t(1)
      using b5(1) st by (simp add: e4_def e2_clients split del: if_split)
    moreover have "m_report x \<noteq> Rpt_Fill" using b5(3) by simp
    ultimately show ?thesis using b5(2) t(4) by metis
  qed
qed

lemma entry_filling:
  assumes S: "submits e c old_id r" and en: "entry e c old_id leaves e5"
    and plan: "plan_ok e c vs (m_quantity c) fs leaves Rej_None"
  shows "filling c fs e5"
proof -
  note D = submitsD [OF S] and I = eng_invD [OF submitsD(1) [OF S]]
  let ?rs = "entry_resting (incoming_of c (e_next_order e)) old_id (e_next_order e) leaves (e_resting e)"
  have E: "owned_books (e_books e5) ?rs" "\<And>i. om_contains (e_books e5) i \<longleftrightarrow> om_contains (e_instruments e) i"
    "e_instruments e5 = e_instruments e" "e_resting e5 = ?rs"
    "e_by_client e5 = entry_index c old_id (e_next_order e) leaves (e_by_client e)" "e_next_order e5 = e_next_order e + 1"
    "e_positions e5 = om_emplace (m_client_id c, m_instrument_id c) flat_position (e_positions e)"
    using en I(2) by (auto simp: entry_def)
  obtain st where st: "map_of (e_clients e) (m_client_id c) = Some st"
    "e_clients e5 = om_put (<) (m_client_id c) (st\<lparr>cs_max_order_id := max (cs_max_order_id st) (m_order_id c)\<rparr>) (e_clients e)"
    using en by (auto simp: entry_def)
  have P: "distinct (map fill_id fs)" "\<forall>f \<in> set fs. fill_ok c (e_resting e) f"
    "plan_total fs = int (unat (m_quantity c)) - int (unat leaves)" "leaves \<le> m_quantity c"
    using plan by (auto simp: plan_ok_def)
  note F = emplace_flat [OF I(9), where k = "(m_client_id c, m_instrument_id c)"]
  have old_client: "m_client_id m = m_client_id c" if "map_of (e_resting e) old_id = Some m" for m
    using that D(4,8) by (cases "old_id = 0") (auto simp: replaces_def)
  have "indexed (e_by_client e5) (e_resting e5)"
    unfolding E using D(4) by (intro entry_indexed [OF I(4) D(8,9,11)]) (auto simp: replaces_def)
  moreover have "orders_known (e_resting e5) (e_next_order e5) (e_clients e5) (e_positions e5)"
    unfolding E st(2) by (rule entry_known [OF I(5) st(1) D(3)]) (use F(3,4) in auto)
  moreover have "limits (e_instruments e5) (e_positions e5) (e_resting e5) (in_flight c (plan_total fs))"
    unfolding E using owned_sorted [OF I(1)] P(3,4) F(2)
    by (intro entry_limits [OF D(2) I(8)]) (auto simp: D(9) word_le_nat_alt simp del: of_nat_unat)
  moreover have "\<forall>f \<in> set fs. fill_ok c (e_resting e5) f"
    unfolding E using entry_fills [OF P(2) D(9) old_client] by blast
  ultimately show ?thesis
    using D(5) E F(1,3) P(1) by (auto simp: filling_def)
qed

definition steps_to :: "MatchingEngine \<Rightarrow> MatchingEngine \<Rightarrow> bool" where
  "steps_to e e' \<longleftrightarrow> eng_inv e' \<and> e_instruments e' = e_instruments e \<and>
     (\<forall>cl. om_contains (e_clients e) cl \<longrightarrow> om_contains (e_clients e') cl) \<and>
     unat (e_next_order e') \<le> unat (e_next_order e) + 1"

lemma steps_to_refl: "eng_inv e \<Longrightarrow> steps_to e e"
  by (simp add: steps_to_def)

lemma steps_to_counters [simp]:
  "steps_to e (e'\<lparr>e_response_sequence := x\<rparr>) = steps_to e e'" "steps_to e (e'\<lparr>e_sequence := y\<rparr>) = steps_to e e'"
  "steps_to e (e'\<lparr>e_stats := z\<rparr>) = steps_to e e'"
  by (simp_all add: steps_to_def)

lemma steps_to_reject [simp]: "steps_to e (snd (engine_reject c r w)) = steps_to e (snd w)"
  by (simp add: engine_reject_def Let_def split: prod.splits)

lemma steps_to_close [simp]: "steps_to e (snd (commit_close c n leaves w)) = steps_to e (snd w)"
  by (simp add: commit_close_def)

text \<open>The step returns, and from a consistent engine to a consistent one.\<close>

definition advances :: "MatchingEngine \<Rightarrow> work option \<Rightarrow> bool" where
  "advances e r \<longleftrightarrow> (\<exists>w'. r = Some w' \<and> steps_to e (snd w'))"

lemma advances_Some [simp]: "advances e (Some w) = steps_to e (snd w)"
  by (simp add: advances_def)

lemma plan_leaves: "plan_ok e c vs q fs leaves rej \<Longrightarrow> distinct (map fill_id fs)"
  by (simp add: plan_ok_def)

lemma submit_commit_inv:
  assumes S: "submits e c old_id r" and b: "map_of (e_books e) (m_instrument_id c) = Some bk"
    and plan: "plan_ok e c (book_orders bk (opposite (m_side c))) (m_quantity c) fs leaves Rej_None"
  shows "advances e (submit_commit h c old_id fs leaves (b, e))"
  using submit_commit_entry [OF S, of h fs leaves b]
proof (elim disjE exE conjE)
  note I = eng_invD [OF submitsD(1) [OF S]]
  fix bs assume r: "submit_commit h c old_id fs leaves (b, e) = Some (engine_reject c Rej_Capacity (b,
        e\<lparr>e_positions := om_emplace (m_client_id c, m_instrument_id c) flat_position (e_positions e), e_books := bs\<rparr>))"
    "owned_books bs (e_resting e)" "\<forall>i. om_contains bs i \<longleftrightarrow> om_contains (e_books e) i"
  note F = emplace_flat [OF I(9), where k = "(m_client_id c, m_instrument_id c)"]
  have "orders_known (e_resting e) (e_next_order e) (e_clients e)
      (om_emplace (m_client_id c, m_instrument_id c) flat_position (e_positions e))"
    by (rule orders_known_mono [OF I(5)]) (use F(4) in auto)
  moreover have "limits (e_instruments e) (om_emplace (m_client_id c, m_instrument_id c) flat_position (e_positions e))
      (e_resting e) (\<lambda>_ _ _. 0)"
    using I(8) by (simp add: limits_def F(2))
  ultimately have "eng_inv (e\<lparr>e_positions := om_emplace (m_client_id c, m_instrument_id c) flat_position (e_positions e),
      e_books := bs\<rparr>)"
    using r(2,3) I F(1) by (simp add: eng_inv_def)
  then have "steps_to e (e\<lparr>e_positions := om_emplace (m_client_id c, m_instrument_id c) flat_position (e_positions e),
      e_books := bs\<rparr>)" by (simp add: steps_to_def)
  then show ?thesis using r(1) by simp
next
  note D = submitsD [OF S] and I = eng_invD [OF submitsD(1) [OF S]]
  fix b5 e5 assume en: "entry e c old_id leaves e5"
    and r: "submit_commit h c old_id fs leaves (b, e) =
      (case fill_all h c (incoming_of c (e_next_order e)) fs (m_quantity c, b5, e5) of
         None \<Rightarrow> None | Some (_, w) \<Rightarrow> Some (commit_close c (e_next_order e) leaves w))"
  obtain b6 e6 where f: "fill_all h c (incoming_of c (e_next_order e)) fs (m_quantity c, b5, e5) =
      Some (m_quantity c - sum_list (map fill_size fs), b6, e6)" "filling c [] e6"
      "e_resting e6 = fill_owners fs (e_resting e5)" "e_instruments e6 = e_instruments e5"
      "e_clients e6 = e_clients e5" "e_next_order e6 = e_next_order e5"
    using fill_all_steps [OF entry_filling [OF S en plan], of h "incoming_of c (e_next_order e)" "m_quantity c" b5] by blast
  have "uncrossed (e_resting e6)"
    unfolding f(3) using en entry_uncrossed [OF I(7) I(1) b plan refl D(5) plan_leaves [OF plan]] by (simp add: entry_def)
  moreover have "in_flight c (plan_total []) = (\<lambda>_ _ _. 0)" by (simp add: in_flight_def plan_total_def fun_eq_iff)
  ultimately have "eng_inv e6"
    using f en I(3,6) by (auto simp: filling_def eng_inv_def entry_def om_less.sorted_put)
  moreover have "unat (e_next_order e + 1) \<le> unat (e_next_order e) + 1" by (simp add: unat_word_ariths)
  ultimately have "steps_to e e6"
    using f en by (auto simp: steps_to_def entry_def)
  then show ?thesis using r f(1) by simp
qed

section \<open>Submit, dispatch and completion\<close>

lemma submit_match_inv:
  assumes S: "submits e c old_id r"
  shows "advances e (submit_match h c old_id (b, e))"
proof -
  note D = submitsD [OF S] and I = eng_invD [OF submitsD(1) [OF S]]
  obtain bk where bk: "map_of (e_books e) (m_instrument_id c) = Some bk" using D(13) by blast
  obtain fs leaves rej where p: "submit_plan e c = Some (fs, leaves, rej)"
    "plan_ok e c (book_orders bk (opposite (m_side c))) (m_quantity c) fs leaves rej"
    using submit_plan_ok [OF I(1) bk D(5,6)] by blast
  show ?thesis
    using p submit_commit_inv [OF S bk, of fs leaves h b] steps_to_refl [OF D(1)]
    by (auto simp: submit_match_def)
qed

lemma engine_submit_inv:
  assumes inv: "eng_inv e" and nxt: "e_next_order e + 1 \<noteq> 0" and cl: "om_contains (e_clients e) (m_client_id c)"
    and old: "old_id \<noteq> 0 \<Longrightarrow> \<exists>old. map_of (e_resting e) old_id = Some old \<and> m_client_id old = m_client_id c \<and>
      m_order_id old = m_order_id c \<and> m_instrument_id old = m_instrument_id c"
  shows "advances e (engine_submit h c old_id (b, e))"
proof (cases "submit_check e c old_id")
  case None
  then show ?thesis using submit_check_total [of e c old_id] cl by auto
next
  case (Some checked)
  show ?thesis
  proof (cases checked)
    case (Some reason)
    then show ?thesis using \<open>submit_check e c old_id = Some checked\<close> steps_to_refl [OF inv] by (simp add: engine_submit_def)
  next
    case None
    then obtain r where acc: "accepted e c old_id r" using submit_check_accepted [of e c old_id] \<open>submit_check e c old_id = Some checked\<close> by auto
    then have bk: "map_of (e_books e) (m_instrument_id c) \<noteq> None" "m_quantity c \<noteq> 0"
      using eng_invD(2) [OF inv] by (auto simp: accepted_def)
    show ?thesis
    proof (cases "old_id = 0")
      case True
      then have "submits e c old_id r" using inv acc nxt by (simp add: submits_def)
      from submit_match_inv [OF this, of h b] True None bk \<open>submit_check e c old_id = Some checked\<close>
      show ?thesis by (auto simp: engine_submit_def)
    next
      case False
      obtain old where o: "map_of (e_resting e) old_id = Some old" "m_client_id old = m_client_id c"
        "m_order_id old = m_order_id c" "m_instrument_id old = m_instrument_id c" using old [OF False] by blast
      have sub: "submits e c old_id r" if "m_side old = m_side c"
        using inv acc nxt o that by (auto simp: submits_def replaces_def)
      have "advances e (submit_reduce h c old_id old (b, e))" if "m_quantity c \<le> m_quantity old"
        using submit_reduce_inv [of "(b, e)" old_id old c h] inv o that bk(2) by (auto simp: steps_to_def advances_def)
      then show ?thesis
        using submit_match_inv [OF sub, of h b] False None bk o \<open>submit_check e c old_id = Some checked\<close> steps_to_refl [OF inv]
        by (auto simp: engine_submit_def)
    qed
  qed
qed

lemma cancel_all_inv:
  assumes "eng_inv (snd w)" "\<forall>oid \<in> set ids. om_contains (e_resting (snd w)) oid" "distinct ids"
  shows "advances (snd w) (cancel_all h ids request w)"
  using assms
proof (induction ids arbitrary: w)
  case Nil
  then show ?case by (simp add: steps_to_refl)
next
  case (Cons oid ids)
  obtain m where m: "map_of (e_resting (snd w)) oid = Some m" using Cons.prems(2) by auto
  obtain w1 where w1: "engine_cancel h oid request w = Some w1" "eng_inv (snd w1)"
    "e_resting (snd w1) = om_erase oid (e_resting (snd w))" "e_clients (snd w1) = e_clients (snd w)"
    "e_next_order (snd w1) = e_next_order (snd w)" "e_instruments (snd w1) = e_instruments (snd w)"
    using engine_cancel_inv [OF Cons.prems(1) m, of h request] by blast
  have "\<forall>x \<in> set ids. om_contains (e_resting (snd w1)) x" using Cons.prems(2,3) w1(3) by auto
  then show ?case using Cons.IH [OF w1(2)] Cons.prems(3) w1 by (auto simp: steps_to_def advances_def)
qed

lemma client_orders_ok:
  assumes "om_sorted (<) (e_resting e)"
  shows "distinct (client_orders c e)" "\<forall>oid \<in> set (client_orders c e). om_contains (e_resting e) oid"
proof -
  have d: "distinct (map fst (e_resting e))" using om_less.sorted_distinct [OF assms] .
  show "distinct (client_orders c e)" unfolding client_orders_def using d by (rule distinct_map_filter)
  show "\<forall>oid \<in> set (client_orders c e). om_contains (e_resting e) oid"
    using d by (auto simp: client_orders_def)
qed

lemma engine_dispatch_inv:
  assumes inv: "eng_inv e" and nxt: "e_next_order e + 1 \<noteq> 0" and cl: "om_contains (e_clients e) (m_client_id c)"
  shows "advances e (engine_dispatch h c (b, e))"
proof -
  note I = eng_invD [OF inv]
  have new: "advances e (engine_submit h c 0 (b, e))"
    by (rule engine_submit_inv [OF inv nxt cl]) simp
  have all: "advances e (cancel_all h (client_orders c e) (m_request_id c) (b, e))"
    using cancel_all_inv [of "(b, e)" "client_orders c e" h "m_request_id c"] client_orders_ok [of e c] owned_sorted [OF I(1)] inv
    by simp
  have known: "\<exists>m. map_of (e_resting e) oid = Some m \<and> m_client_id m = m_client_id c \<and> m_order_id m = m_order_id c"
    if "map_of (e_by_client e) (m_client_id c, m_order_id c) = Some oid" for oid
    using I(4) that by (auto simp: indexed_def)
  have cancel: "advances e (engine_cancel h oid (m_request_id c) (b, e))"
    if "map_of (e_resting e) oid = Some m" for oid m
    using engine_cancel_inv [of "(b, e)" oid m h "m_request_id c"] inv that by (auto simp: steps_to_def advances_def)
  have replace: "advances e (engine_submit h c oid (b, e))"
    if "map_of (e_resting e) oid = Some m" "m_client_id m = m_client_id c" "m_order_id m = m_order_id c"
      "m_instrument_id m = m_instrument_id c" for oid m
    using that by (intro engine_submit_inv [OF inv nxt cl]) auto
  show ?thesis
  proof (cases "map_of (e_by_client e) (m_client_id c, m_order_id c)")
    case None
    then show ?thesis using new all steps_to_refl [OF inv] by (auto simp: engine_dispatch_def)
  next
    case (Some oid)
    then obtain m where m: "map_of (e_resting e) oid = Some m" "m_client_id m = m_client_id c" "m_order_id m = m_order_id c"
      using known by blast
    show ?thesis
      using Some m new all cancel [OF m(1)] replace [OF m] steps_to_refl [OF inv] by (auto simp: engine_dispatch_def)
  qed
qed

lemma eng_inv_client:
  assumes inv: "eng_inv e" and st: "map_of (e_clients e) cl = Some st" and mx: "cs_max_order_id st' = cs_max_order_id st"
  shows "eng_inv (e\<lparr>e_clients := om_put (<) cl st' (e_clients e)\<rparr>)"
proof -
  note I = eng_invD [OF inv]
  have "orders_known (e_resting e) (e_next_order e) (om_put (<) cl st' (e_clients e)) (e_positions e)"
    by (rule orders_known_mono [OF I(5)]) (use st mx in auto)
  then show ?thesis using inv by (simp add: eng_inv_def om_less.sorted_put)
qed

lemma eng_inv_register:
  assumes inv: "eng_inv e"
  shows "eng_inv (e\<lparr>e_clients := om_emplace cl new_client (e_clients e)\<rparr>)"
proof -
  note I = eng_invD [OF inv]
  have "orders_known (e_resting e) (e_next_order e) (om_emplace cl new_client (e_clients e)) (e_positions e)"
    by (rule orders_known_mono [OF I(5)]) (auto simp: om_emplace_def)
  then show ?thesis using inv by (simp add: eng_inv_def om_emplace_def om_less.sorted_put)
qed

lemma engine_complete_inv:
  assumes to: "steps_to e0 e" and cl: "om_contains (e_clients e) (m_client_id c)"
  shows "advances e0 (engine_complete c (b, e))"
proof -
  have inv: "eng_inv e" using to by (simp add: steps_to_def)
  note I = eng_invD [OF inv]
  obtain st where st: "map_of (e_clients e) (m_client_id c) = Some st" using cl by blast
  have "map_of (e_resting e) oid \<noteq> None" if "map_of (e_by_client e) (m_client_id c, m_order_id c) = Some oid" for oid
    using I(4) that by (auto simp: indexed_def)
  then obtain complete where m: "(case map_of (e_by_client e) (m_client_id c, m_order_id c) of None \<Rightarrow> Some c
       | Some oid \<Rightarrow> do { m \<leftarrow> map_of (e_resting e) oid; Some (c\<lparr>m_remaining := m_quantity m, m_exchange_id := oid\<rparr>) }) =
      Some complete"
    by (cases "map_of (e_by_client e) (m_client_id c, m_order_id c)") auto
  obtain b' where r: "engine_report complete Rpt_Complete Rej_None (b, e) =
      (b', e\<lparr>e_response_sequence := e_response_sequence e + 1\<rparr>)" using report_pair by blast
  let ?st = "st\<lparr>cs_last_request := m_request_id c, cs_last_command := c,
      cs_cached := filter (\<lambda>m. m_client_id m = m_client_id c) (b_reports b')\<rparr>"
  have "engine_complete c (b, e) = Some (b', e\<lparr>e_response_sequence := e_response_sequence e + 1,
      e_clients := om_put (<) (m_client_id c) ?st (e_clients e)\<rparr>)"
    unfolding engine_complete_def snd_conv m using r st by simp
  moreover have "eng_inv (e\<lparr>e_response_sequence := e_response_sequence e + 1,
      e_clients := om_put (<) (m_client_id c) ?st (e_clients e)\<rparr>)"
    using eng_inv_client [of "e\<lparr>e_response_sequence := e_response_sequence e + 1\<rparr>" "m_client_id c" st ?st] inv st by simp
  ultimately show ?thesis using to by (auto simp: steps_to_def)
qed

lemma engine_process_inv:
  assumes inv: "eng_inv e" and nxt: "e_next_order e + 1 \<noteq> 0"
  shows "advances e (engine_process h c e)"
proof -
  let ?e1 = "e\<lparr>e_clients := om_emplace (m_client_id c) new_client (e_clients e)\<rparr>"
  let ?e2 = "?e1\<lparr>e_stats := (e_stats ?e1)\<lparr>st_commands := st_commands (e_stats ?e1) + 1\<rparr>\<rparr>"
  have cl: "om_contains (e_clients ?e1) (m_client_id c)" by (auto simp: om_emplace_def)
  have r1: "steps_to e ?e1"
    using eng_inv_register [OF inv] by (auto simp: steps_to_def om_emplace_def)
  have dispatch: "advances ?e2 (engine_dispatch h c (b, ?e2))" for b
    using engine_dispatch_inv [of ?e2 c h b] eng_inv_register [OF inv] nxt cl by simp
  have step: "advances e (do { w2 \<leftarrow> engine_dispatch h c (b, ?e2); engine_complete c w2 })" for b
  proof -
    obtain b2 e2 where d: "engine_dispatch h c (b, ?e2) = Some (b2, e2)" "steps_to ?e2 e2"
      using dispatch [of b] by (auto simp: advances_def)
    have contains: "om_contains (e_clients e) cl' \<Longrightarrow> om_contains (e_clients ?e2) cl'" for cl'
      by (auto simp: om_emplace_def)
    have "steps_to e e2" using d(2) contains unfolding steps_to_def by simp
    moreover have "om_contains (e_clients e2) (m_client_id c)" using d(2) cl by (auto simp: steps_to_def)
    ultimately show ?thesis using engine_complete_inv [of e e2 c b2] d(1) by simp
  qed
  show ?thesis
    unfolding engine_process_def Let_def
    using steps_to_refl [OF inv] r1 cl step
    by (auto split: option.splits)
qed

section \<open>Runs\<close>

fun engine_run :: "(heap_env \<times> Message) list \<Rightarrow> MatchingEngine \<Rightarrow> MatchingEngine option" where
  "engine_run [] e = Some e"
| "engine_run ((h, c) # cs) e = do { (_, e') \<leftarrow> engine_process h c e; engine_run cs e' }"

lemma engine_run_inv:
  assumes "eng_inv e" "unat (e_next_order e) + length cs < 2 ^ 64"
  shows "\<exists>e'. engine_run cs e = Some e' \<and> eng_inv e' \<and> e_instruments e' = e_instruments e \<and>
    unat (e_next_order e') \<le> unat (e_next_order e) + length cs"
  using assms
proof (induction cs arbitrary: e)
  case (Cons hc cs)
  obtain h c where hc: "hc = (h, c)" by force
  have "e_next_order e + 1 \<noteq> 0"
    using Cons.prems(2) by (auto simp: word_unat_eq_iff unat_word_ariths)
  then obtain b e1 where e1: "engine_process h c e = Some (b, e1)" "steps_to e e1"
    using engine_process_inv [OF Cons.prems(1), of h c] by (auto simp: advances_def)
  then have "eng_inv e1" "unat (e_next_order e1) + length cs < 2 ^ 64" using Cons.prems(2) by (auto simp: steps_to_def)
  from Cons.IH [OF this] e1 hc show ?case by (auto simp: steps_to_def)
qed simp

end
