(* ===== verification/Order_Book_Theorems.thy ===== *)
theory Order_Book_Theorems
  imports Order_Book_Spec
begin

text \<open>
  The theorems about the order book, for every book that a sequence of constructions, operations,
  resets and moves can produce, and a small book on which each is evaluated.
\<close>

section \<open>Reachable books\<close>

inductive book_reachable :: "OrderBook \<Rightarrow> bool" where
  reach_new: "OrderBook_new (Some block) bytes = Some b \<Longrightarrow> 0 < block \<Longrightarrow> block + bytes \<le> 2 ^ 64 \<Longrightarrow>
    book_reachable b"
| reach_event: "book_reachable b \<Longrightarrow> apply_event h ev b = Some (r, b') \<Longrightarrow> book_reachable b'"
| reach_replace: "book_reachable b \<Longrightarrow> book_replace h old_id new_id s price qty keep b = Some (r, b') \<Longrightarrow>
    book_reachable b'"
| reach_reset: "book_reachable b \<Longrightarrow> book_reachable (reset b)"
| reach_moved_from: "book_reachable b \<Longrightarrow> book_reachable (snd (move_construct b))"
| reach_move_assign: "book_reachable this \<Longrightarrow> book_reachable other \<Longrightarrow>
    move_assign this (Some other) = (b, rest) \<Longrightarrow> book_reachable b"

lemma reachable_wf: "book_reachable b \<Longrightarrow> wf_book b"
proof (induction rule: book_reachable.induct)
  case (reach_new block bytes b)
  then show ?case by (simp add: OrderBook_new_wf)
next
  case (reach_event b h ev r b')
  then show ?case using lob.apply_defined by blast
next
  case (reach_replace b h old_id new_id s price qty keep r b')
  then show ?case using lob.replace_defined by blast
next
  case (reach_reset b)
  then show ?case by (simp add: reset_wf)
next
  case (reach_moved_from b)
  then show ?case by (simp add: move_construct_def moved_from_wf)
next
  case (reach_move_assign this other b rest)
  then show ?case using move_assign_wf(1) by blast
qed

lemmas reachable_core = wf_bookD [OF reachable_wf]

section \<open>A concrete book\<close>

text \<open>Five slots, four orders: two bids at 100, one bid at 101, and an ask.\<close>

definition demo_heap :: heap_env where
  "demo_heap = \<lparr>level_node_ok = True, pool_vectors_ok = True, index_node_ok = True\<rparr>"

fun demo_run :: "EventPayload list \<Rightarrow> OrderBook \<Rightarrow> OrderBook option" where
  "demo_run [] b = Some b"
| "demo_run (ev # evs) b =
     (case apply_event demo_heap ev b of None \<Rightarrow> None | Some (_, b') \<Rightarrow> demo_run evs b')"

definition demo_events :: "EventPayload list" where
  "demo_events = [AddOrder 1 Bid 100 5, AddOrder 2 Bid 100 7, AddOrder 3 Bid 101 2, AddOrder 4 Ask 105 9]"

definition demo_book :: OrderBook where
  "demo_book = (case OrderBook_new (Some 4096) 160 of
     None \<Rightarrow> moved_from | Some b \<Rightarrow> (case demo_run demo_events b of None \<Rightarrow> moved_from | Some b' \<Rightarrow> b'))"

lemma demo_run_reachable: "book_reachable b \<Longrightarrow> demo_run evs b = Some b' \<Longrightarrow> book_reachable b'"
  by (induction evs arbitrary: b) (auto split: option.splits intro: reach_event)

lemma demo_reachable: "book_reachable demo_book"
proof -
  obtain b0 where b0: "OrderBook_new (Some 4096) 160 = Some b0"
    by (simp add: OrderBook_new_def FixedSlotPool_new_def)
  then have r0: "book_reachable b0" by (rule reach_new) simp_all
  have "book_reachable moved_from" using reach_moved_from [OF r0] by (simp add: move_construct_def)
  then show ?thesis
    using b0 demo_run_reachable [OF r0] by (simp add: demo_book_def split: option.splits)
qed

lemmas book_eval = demo_heap_def OrderBook_new_def FixedSlotPool_new_def
  apply_event_def apply_add_def add_to_def apply_cancel_def cancel_at_def apply_execute_def execute_at_def
  book_replace_def replace_adjust_def move_to_def move_commit_def
  node_allocate_def adaptor_allocate_def pool_allocate_def pool_first_use_def std_align_def pool_pop_def
  node_deallocate_def adaptor_deallocate_def pool_deallocate_def
  push_node_def erase_node_def write_remaining_def drop_if_empty_def adjust_aggregate_def
  levels_of_def set_levels_def Let_def node_sizes side_lt_def empty_level_def

lemma demo_book_value:
  "demo_book = \<lparr>pool = Some
      \<lparr>first_init = True, storage = 4096, capacity_bytes = 160, free_slots = [0, 32, 64, 96, 128],
       in_uses = [False, True, True, True, True], free_count = 1, slot_sz = 32, slot_alignment = 8,
       last_valid_start = 128, first_valid_start = 0\<rparr>,
    nodes = [(4128, \<lparr>entry_order_id = 4, entry_remaining = 9\<rparr>), (4160, \<lparr>entry_order_id = 3, entry_remaining = 2\<rparr>),
       (4192, \<lparr>entry_order_id = 2, entry_remaining = 7\<rparr>), (4224, \<lparr>entry_order_id = 1, entry_remaining = 5\<rparr>)],
    bids = [(101, \<lparr>level_orders = [4160], level_aggregate = 2\<rparr>),
       (100, \<lparr>level_orders = [4224, 4192], level_aggregate = 12\<rparr>)],
    asks = [(105, \<lparr>level_orders = [4128], level_aggregate = 9\<rparr>)],
    orders_by_id = [(1, \<lparr>loc_side = Bid, loc_price = 100, loc_iterator = 4224\<rparr>),
       (2, \<lparr>loc_side = Bid, loc_price = 100, loc_iterator = 4192\<rparr>),
       (3, \<lparr>loc_side = Bid, loc_price = 101, loc_iterator = 4160\<rparr>),
       (4, \<lparr>loc_side = Ask, loc_price = 105, loc_iterator = 4128\<rparr>)]\<rparr>"
proof -
  have "[0..<5] = [0, 1, 2, 3, 4]" "replicate 5 False = [False, False, False, False, False]"
    by (simp_all add: upt_conv_Cons eval_nat_numeral)
  then show ?thesis by (simp add: book_eval demo_book_def demo_events_def)
qed

lemma demo_count: "order_count demo_book = 4"
  by (simp add: demo_book_value order_count_def)

lemma demo_orders:
  "book_orders demo_book Bid =
     [\<lparr>view_id = 3, view_side = Bid, view_price = 101, view_quantity = 2\<rparr>,
      \<lparr>view_id = 1, view_side = Bid, view_price = 100, view_quantity = 5\<rparr>,
      \<lparr>view_id = 2, view_side = Bid, view_price = 100, view_quantity = 7\<rparr>]"
  "book_orders demo_book Ask = [\<lparr>view_id = 4, view_side = Ask, view_price = 105, view_quantity = 9\<rparr>]"
  by (simp_all add: demo_book_value book_orders_def visit_orders_def order_view_def entry_at_def)

section \<open>Theorems\<close>

text \<open>
  C25. No operation of a reachable book reads through a dangling list iterator: every event and every
  replace returns a result, whatever the heap decides, and the book it leaves satisfies the structural
  invariant again (levels, queues, index and node pool agree).
\<close>

theorem book_operations_safe:
  assumes "book_reachable b"
  shows "wf_book b \<and>
    (\<exists>r b'. apply_event h ev b = Some (r, b') \<and> wf_book b') \<and>
    (\<exists>r b'. book_replace h old_id new_id s price qty keep b = Some (r, b') \<and> wf_book b')"
  using reachable_wf [OF assms] lob.apply_law lob.replace_law by blast

theorem book_operations_safe_witness:
  "wf_book demo_book \<and>
    (\<exists>r b'. apply_event demo_heap (CancelOrder 1) demo_book = Some (r, b') \<and> wf_book b') \<and>
    (\<exists>r b'. book_replace demo_heap 1 7 Bid 101 4 False demo_book = Some (r, b') \<and> wf_book b')"
  using book_operations_safe [OF demo_reachable] by blast

text \<open>
  C18. Events on a reachable book act exactly as on the two price-time priority lists: the result code
  and the orders left are those of the list specification, where storage for one more order is
  available only if fewer orders than slots are live, and is available whenever moreover the heap
  grants its requests.
\<close>

theorem apply_event_refines:
  assumes "book_reachable b" "apply_event h ev b = Some (r, b')"
  shows "\<exists>room. (r, book_orders b') = spec_apply room ev (book_orders b) \<and>
    (room \<longrightarrow> order_count b < book_capacity b) \<and>
    (heap_grants h \<and> order_count b < book_capacity b \<longrightarrow> room)"
  using apply_event_refines_spec [OF reachable_wf [OF assms(1)] assms(2)] by (auto simp: room_ok_def)

theorem apply_event_refines_witness:
  "\<exists>r b' room. apply_event demo_heap (ExecuteOrder 1 3) demo_book = Some (r, b') \<and>
    (r, book_orders b') = spec_apply room (ExecuteOrder 1 3) (book_orders demo_book)"
proof -
  obtain r b' where "apply_event demo_heap (ExecuteOrder 1 3) demo_book = Some (r, b')"
    by (simp add: demo_book_value book_eval)
  from apply_event_refines [OF demo_reachable this] this show ?thesis by blast
qed

text \<open>
  C19. Replace acts as on the priority lists: a replace that keeps priority rewrites the quantity in
  place; any other one deletes the old order and queues the new one behind every order that is not
  strictly worse, even at the same price; errors change nothing.
\<close>

theorem book_replace_refines:
  assumes "book_reachable b" "book_replace h old_id new_id s price qty keep b = Some (r, b')"
  shows "\<exists>room. (r, book_orders b') = spec_replace room old_id new_id s price qty keep (book_orders b) \<and>
    (room \<longrightarrow> order_count b < book_capacity b) \<and>
    (heap_grants h \<and> order_count b < book_capacity b \<longrightarrow> room)"
  using book_replace_refines_spec [OF reachable_wf [OF assms(1)] assms(2)] by (auto simp: room_ok_def)

theorem book_replace_refines_witness:
  "\<exists>r b' room. book_replace demo_heap 1 7 Bid 101 4 False demo_book = Some (r, b') \<and>
    (r, book_orders b') = spec_replace room 1 7 Bid 101 4 False (book_orders demo_book)"
proof -
  obtain r b' where "book_replace demo_heap 1 7 Bid 101 4 False demo_book = Some (r, b')"
    by (simp add: demo_book_value book_eval)
  from book_replace_refines [OF demo_reachable this] this show ?thesis by blast
qed

text \<open>
  C26. Price-time priority: in every reachable book each side lists its orders best price first, every
  live order has a positive price and quantity and its own id, no id is live twice, and there are never
  more orders than pool slots.
\<close>

theorem book_priority:
  assumes "book_reachable b"
  shows "abs_ok (book_orders b) \<and> order_count b \<le> book_capacity b \<and>
    length (book_orders b Bid) + length (book_orders b Ask) = order_count b"
  using book_orders_ok [OF reachable_core [OF assms]] capacity_bound [OF reachable_wf [OF assms]]
    card_nodes(2) [OF reachable_core [OF assms]] by simp

theorem book_priority_witness:
  "abs_ok (book_orders demo_book) \<and> order_count demo_book = 4 \<and> 4 \<le> book_capacity demo_book"
  using book_priority [OF demo_reachable] by (simp add: demo_book_value order_count_def)

text \<open>
  C27. An operation that does not return Ok is atomic: levels, queues, nodes and index are as before,
  even when the failure is an allocation that fails half way, and only slots taken during the call
  have been given back to the pool.
\<close>

theorem book_failure_atomic:
  assumes "book_reachable b"
    and "apply_event h ev b = Some (r, b') \<or> book_replace h old_id new_id s price qty keep b = Some (r, b')"
    and "r \<noteq> Ok"
  shows "bids b' = bids b \<and> asks b' = asks b \<and> nodes b' = nodes b \<and> orders_by_id b' = orders_by_id b \<and>
    map_option pool_used (pool b') = map_option pool_used (pool b) \<and> book_capacity b' = book_capacity b"
proof -
  have u: "unchanged b b'"
    using apply_event_wf [OF reachable_wf [OF assms(1)], of h ev]
      book_replace_wf [OF reachable_wf [OF assms(1)], of h old_id new_id s price qty keep] assms(2,3) by auto
  then have "map_option pool_used (pool b') = map_option pool_used (pool b)"
    by (auto simp: unchanged_def same_but_pool_def)
  then show ?thesis using unchanged_fields [OF u] capacity_unchanged [OF u] by simp
qed

theorem book_failure_atomic_witness:
  "\<exists>b'. apply_event (demo_heap\<lparr>index_node_ok := False\<rparr>) (AddOrder 9 Ask 110 1) demo_book =
      Some (AllocationFailed, b') \<and> asks b' = asks demo_book \<and> nodes b' = nodes demo_book"
proof -
  obtain b' where "apply_event (demo_heap\<lparr>index_node_ok := False\<rparr>) (AddOrder 9 Ask 110 1) demo_book =
      Some (AllocationFailed, b')"
    by (simp add: demo_book_value book_eval)
  then show ?thesis using book_failure_atomic [OF demo_reachable, of _ _ AllocationFailed b'] by blast
qed

text \<open>
  The queries of a reachable book read the priority lists: an order by id, its remaining quantity,
  the front of a side and the best prices, none of them through a dangling iterator.
\<close>

theorem book_queries:
  assumes "book_reachable b"
  shows "book_order oid b = Some (spec_find oid (book_orders b)) \<and>
    remaining_quantity oid b = Some (map_option view_quantity (spec_find oid (book_orders b))) \<and>
    front s b = Some (head (book_orders b s)) \<and>
    best_bid b = map_option view_price (head (book_orders b Bid)) \<and>
    best_ask b = map_option view_price (head (book_orders b Ask))"
  using book_order_find [OF reachable_core [OF assms]] front_head [OF reachable_core [OF assms]]
    best_prices [OF reachable_core [OF assms]] by simp

theorem book_queries_witness:
  "remaining_quantity 2 demo_book = Some (Some 7) \<and> best_bid demo_book = Some 101 \<and>
   front Bid demo_book = Some (Some \<lparr>view_id = 3, view_side = Bid, view_price = 101, view_quantity = 2\<rparr>)"
  using book_queries [OF demo_reachable, of 2 Bid]
  by (simp add: demo_orders spec_find_def head_def)

text \<open>
  The stored aggregate of the best level is the exact sum of the remaining quantities at that
  price, without wrap-around, while the book holds at most \<open>2 ^ 32\<close> orders.
\<close>

theorem best_quantity_is_depth:
  assumes "book_reachable b" "order_count b \<le> 2 ^ 32" "s \<noteq> Side_Other"
  shows "unat (best_quantity s b) =
    (case head (book_orders b s) of None \<Rightarrow> 0
     | Some v \<Rightarrow> \<Sum>w \<leftarrow> takeWhile (\<lambda>w. view_price w = view_price v) (book_orders b s). unat (view_quantity w))"
  by (rule best_quantity_depth [OF reachable_core [OF assms(1)] assms(2,3)])

theorem best_quantity_is_depth_witness:
  "unat (best_quantity Bid demo_book) = 2 \<and> unat (best_quantity Ask demo_book) = 9"
  using best_quantity_is_depth [OF demo_reachable, of Bid] best_quantity_is_depth [OF demo_reachable, of Ask]
  by (simp add: demo_orders head_def demo_count)

text \<open>
  Reset empties a reachable book and returns every node to the pool: all slots are free again and
  the capacity is what it was.
\<close>

theorem reset_frees_everything:
  assumes "book_reachable b"
  shows "book_orders (reset b) s = [] \<and> order_count (reset b) = 0 \<and> nodes (reset b) = [] \<and>
    book_capacity (reset b) = book_capacity b \<and>
    (case pool (reset b) of None \<Rightarrow> True | Some p \<Rightarrow> pool_used p = {})"
  using reset_wf [OF reachable_wf [OF assms]]
  by (auto simp: book_orders_def order_count_def book_capacity_def split: option.splits)

theorem reset_frees_everything_witness:
  "order_count (reset demo_book) = 0 \<and> book_capacity (reset demo_book) = 5"
  using reset_frees_everything [OF demo_reachable]
  by (simp add: demo_book_value book_capacity_def node_slots_def pool_slots_def)

end
