(* ===== verification/Engine_Theorems.thy ===== *)
theory Engine_Theorems
  imports Engine_Step Order_Book_Theorems
begin

text \<open>
  The theorems about the matching engine, for every engine that a sequence of commands can produce
  from a new one, whatever the allocations of the books decide.
\<close>

section \<open>Reachable engines\<close>

text \<open>
  The rules come from a \<open>std::map\<close>, so they are in key order; the number of commands is counted because
  the exchange order ids are 64 bits wide.
\<close>

inductive engine_reachable :: "Instruments \<Rightarrow> nat \<Rightarrow> MatchingEngine \<Rightarrow> bool" where
  engine_new: "MatchingEngine_new blocks ins epoch = Some e \<Longrightarrow> om_sorted (<) ins \<Longrightarrow> \<forall>i. block_ok (blocks i) \<Longrightarrow>
    engine_reachable ins 0 e"
| engine_step: "engine_reachable ins n e \<Longrightarrow> n < 2 ^ 64 - 2 \<Longrightarrow> engine_process h c e = Some (b, e') \<Longrightarrow>
    engine_reachable ins (Suc n) e'"

lemma those_books:
  assumes "those (map (\<lambda>(i, _). map_option (Pair i) (OrderBook_default (blocks i))) ins) = Some bs"
  shows "map fst bs = map fst ins" "(i, b) \<in> set bs \<Longrightarrow> OrderBook_default (blocks i) = Some b"
  using assms by (induction ins arbitrary: bs) (auto split: option.splits)

lemma MatchingEngine_new_inv:
  assumes new: "MatchingEngine_new blocks ins epoch = Some e" and ins: "om_sorted (<) ins" and blk: "\<forall>i. block_ok (blocks i)"
  shows "eng_inv e \<and> e_instruments e = ins \<and> e_next_order e = 1"
proof -
  obtain bs where bs: "those (map (\<lambda>(i, _). map_option (Pair i) (OrderBook_default (blocks i))) ins) = Some bs"
    and e: "e_instruments e = ins" "e_books e = bs" "e_resting e = []" "e_by_client e = []" "e_clients e = []"
      "e_positions e = []" "e_next_order e = 1" and rules: "list_all (\<lambda>(i, r). rules_ok i r) ins"
    using new by (auto simp: MatchingEngine_new_def split: if_splits bind_splits)
  note B = those_books [OF bs]
  have dom: "om_contains bs i \<longleftrightarrow> om_contains ins i" for i
    using B(1) by (metis map_of_eq_None_iff list.set_map)
  have book: "wf_book b \<and> book_orders b = empty_book" if "map_of bs i = Some b" for i b
    using B(2) [OF map_of_eq_Some_in_set [OF that]] book_orders_new blk by blast
  have "owned_books bs []"
    using book ins B(1) by (auto simp: owned_books_def om_sorted_def owner_in_def spec_find_def empty_book_def)
  moreover have "rules_ok i r" if "map_of ins i = Some r" for i r
    using rules map_of_eq_Some_in_set [OF that] by (auto simp: list_all_iff)
  moreover have "limits ins [] [] (\<lambda>_ _ _. 0)"
    using calculation(2) by (fastforce simp: limits_def held_def reserved_def rules_ok_def not_le)
  ultimately show ?thesis
    using e dom by (auto simp: eng_inv_def indexed_def orders_known_def uncrossed_def conserved_def om_less.sorted_Nil)
qed

lemma reachable_inv: "engine_reachable ins n e \<Longrightarrow>
    eng_inv e \<and> e_instruments e = ins \<and> unat (e_next_order e) \<le> n + 1 \<and> n \<le> 2 ^ 64 - 2"
proof (induction rule: engine_reachable.induct)
  case (engine_new blocks ins epoch e)
  then show ?case using MatchingEngine_new_inv by simp
next
  case (engine_step ins n e h c b e')
  have "e_next_order e + 1 \<noteq> 0"
    using engine_step by (auto simp: word_unat_eq_iff unat_word_ariths)
  then have "steps_to e e'"
    using engine_process_inv [of e h c] engine_step by (simp add: advances_def)
  then show ?case using engine_step by (auto simp: steps_to_def)
qed

lemma reachable_next: "engine_reachable ins n e \<Longrightarrow> n < 2 ^ 64 - 2 \<Longrightarrow> e_next_order e + 1 \<noteq> 0"
  using reachable_inv [of ins n e] by (auto simp: word_unat_eq_iff unat_word_ariths)

text \<open>A new engine on the default instruments, for the witnesses.\<close>

definition demo_engine :: MatchingEngine where
  "demo_engine = (case MatchingEngine_new (\<lambda>_. Some 4096) default_instruments 7 of
     Some e \<Rightarrow> e | None \<Rightarrow> undefined)"

lemma demo_engine_reachable: "engine_reachable default_instruments 0 demo_engine"
proof -
  obtain e where e: "MatchingEngine_new (\<lambda>_. Some 4096) default_instruments 7 = Some e"
    by (simp add: MatchingEngine_new_def default_instruments_def default_rules_def rules_ok_def
        OrderBook_default_def OrderBook_new_def FixedSlotPool_new_def CAPACITY_BYTES_def sizeof_OrderEntry_def)
  moreover have "om_sorted (<) default_instruments" by (simp add: default_instruments_def om_sorted_def)
  moreover have "\<forall>i. block_ok ((\<lambda>_. Some 4096) i)"
    by (simp add: block_ok_def CAPACITY_BYTES_def sizeof_OrderEntry_def)
  ultimately show ?thesis using engine_reachable.engine_new by (simp add: demo_engine_def)
qed

section \<open>What the invariant says\<close>

lemma inv_uncrossed:
  assumes inv: "eng_inv e" and b: "map_of (e_books e) i = Some b" and p: "best_bid b = Some p" "best_ask b = Some q"
  shows "p < q"
proof -
  note I = eng_invD [OF inv]
  note wb = owned_book [OF I(1) b] and core = wf_bookD [OF conjunct1 [OF owned_book [OF I(1) b]]]
  have ok: "abs_ok (book_orders b)" using lob.view_ok wb by blast
  have top: "\<exists>oid m. map_of (e_resting e) oid = Some m \<and> m_instrument_id m = i \<and>
      m_side m = s \<and> m_price m = x"
    if s: "s \<noteq> Side_Other" and x: "map_option view_price (head (book_orders b s)) = Some x" for s x
  proof -
    obtain v where v: "v \<in> set (book_orders b s)" "view_price v = x"
      using x by (auto simp: head_def split: list.splits)
    have "owner_in (e_resting e) i (view_id v) = Some v" using spec_find_member [OF ok s v(1)] wb by simp
    moreover have "view_side v = s" using ok v(1) s by (cases s) (auto simp: abs_ok_def)
    moreover obtain m where m: "map_of (e_resting e) (view_id v) = Some m" "m_instrument_id m = i"
      "owner_view (view_id v) m = v"
      using calculation(1) by (auto simp: owner_in_def split: option.splits if_splits)
    moreover have "m_side m = view_side v" "m_price m = view_price v"
      using arg_cong [OF m(3), of view_side] arg_cong [OF m(3), of view_price] by simp_all
    ultimately show ?thesis using v(2) by blast
  qed
  obtain v m where m: "map_of (e_resting e) v = Some m" "m_instrument_id m = i" "m_side m = Bid" "m_price m = p"
    using top [of Bid p] p(1) best_prices [OF core] by auto
  obtain w n where n: "map_of (e_resting e) w = Some n" "m_instrument_id n = i" "m_side n = Ask" "m_price n = q"
    using top [of Ask q] p(2) best_prices [OF core] by auto
  show ?thesis using I(7) m n unfolding uncrossed_def by metis
qed

lemma inv_limit:
  assumes inv: "eng_inv e" and r: "map_of (e_instruments e) i = Some r"
  shows "pos_quantity (engine_position c i e) + reserved (e_resting e) c i Bid \<le> max_position r"
    "- max_position r \<le> pos_quantity (engine_position c i e) - reserved (e_resting e) c i Ask"
  using eng_invD(8) [OF inv] r by (auto simp: limits_def engine_position_held)

section \<open>Theorems\<close>

text \<open>
  C1. The engine never faults: on an engine reached by fewer than \<open>2 ^ 64 - 2\<close> commands every command is
  processed to the end. None of the lookups that the code assumes to succeed (the owner of an order
  met in the book, the positions of both sides of a trade, the client record) fails, and no cancel or
  execution the engine requires of the book is refused, even when allocations fail.
\<close>

theorem engine_never_faults:
  assumes "engine_reachable ins n e" "n < 2 ^ 64 - 2"
  shows "\<exists>b e'. engine_process h c e = Some (b, e') \<and> engine_reachable ins (Suc n) e'"
  using engine_process_inv [OF conjunct1 [OF reachable_inv [OF assms(1)]] reachable_next [OF assms], of h c]
    engine_reachable.engine_step [OF assms] by (auto simp: advances_def)

theorem engine_never_faults_witness:
  "\<exists>b e'. engine_process demo_heap (default_message\<lparr>m_client_id := 5, m_request_id := 1, m_order_id := 9,
      m_instrument_id := 1, m_price := 100, m_quantity := 3\<rparr>) demo_engine = Some (b, e') \<and>
    engine_reachable default_instruments 1 e'"
  using engine_never_faults [OF demo_engine_reachable, of demo_heap] by simp

text \<open>
  C6. The books of a reachable engine are never crossed: where both sides are quoted, the best bid is
  strictly below the best ask.
\<close>

theorem engine_never_crossed:
  assumes "engine_reachable ins n e" "map_of (e_books e) i = Some b"
  shows "case (best_bid b, best_ask b) of (Some bid, Some ask) \<Rightarrow> bid < ask | _ \<Rightarrow> True"
  using inv_uncrossed [OF conjunct1 [OF reachable_inv [OF assms(1)]] assms(2)] by (auto split: option.splits)

theorem engine_never_crossed_witness:
  "\<exists>b. map_of (e_books demo_engine) 1 = Some b \<and>
    (case (best_bid b, best_ask b) of (Some bid, Some ask) \<Rightarrow> bid < ask | _ \<Rightarrow> True)"
proof -
  have "om_contains (e_books demo_engine) 1"
    using eng_invD(2) [of demo_engine] reachable_inv [OF demo_engine_reachable] by (simp add: default_instruments_def)
  then obtain b where "map_of (e_books demo_engine) 1 = Some b" by blast
  then show ?thesis using engine_never_crossed [OF demo_engine_reachable] by blast
qed

text \<open>
  C8. The position limit holds at every moment and for whatever may still happen: even if every resting
  bid of a client traded, or every resting ask, its position in an instrument would stay within
  \<open>max_position\<close>, which is at most \<open>10 ^ 12\<close>, so that the signed 64-bit sums of the risk check and of the
  positions cannot overflow.
\<close>

theorem engine_position_limit:
  assumes "engine_reachable ins n e" "map_of ins i = Some r"
  shows "pos_quantity (engine_position c i e) + reserved (e_resting e) c i Bid \<le> max_position r \<and>
    - max_position r \<le> pos_quantity (engine_position c i e) - reserved (e_resting e) c i Ask \<and>
    \<bar>pos_quantity (engine_position c i e)\<bar> \<le> max_position r \<and> max_position r \<le> 10 ^ 12"
proof -
  have inv: "eng_inv e" and r: "map_of (e_instruments e) i = Some r" using reachable_inv [OF assms(1)] assms(2) by auto
  have "rules_ok i r" using eng_invD(3) [OF inv r] .
  then show ?thesis
    using inv_limit [OF inv r, of c] reserved_nonneg [of "e_resting e" c i Bid] reserved_nonneg [of "e_resting e" c i Ask]
    by (auto simp: rules_ok_def abs_le_iff)
qed

theorem engine_position_limit_witness:
  "\<bar>pos_quantity (engine_position 5 1 demo_engine)\<bar> \<le> 1000000"
  using engine_position_limit [OF demo_engine_reachable, of 1 default_rules 5]
  by (simp add: default_instruments_def default_rules_def)



text \<open>
  C5. Books, owner table and client index agree at every reachable engine: an order is live in the book
  of instrument \<open>i\<close> exactly when \<open>resting_\<close> holds it with that instrument, side, price and quantity,
  and \<open>by_client_\<close> maps a client's order id to it exactly when it is that client's order.
\<close>

theorem engine_tables_agree:
  assumes "engine_reachable ins n e" "map_of (e_books e) i = Some b"
  shows "(spec_find oid (book_orders b) = Some v \<longleftrightarrow>
      (\<exists>m. map_of (e_resting e) oid = Some m \<and> m_instrument_id m = i \<and> v = owner_view oid m)) \<and>
    (map_of (e_by_client e) (cl, coid) = Some oid \<longleftrightarrow>
      (\<exists>m. map_of (e_resting e) oid = Some m \<and> m_client_id m = cl \<and> m_order_id m = coid))"
proof -
  note I = eng_invD [OF conjunct1 [OF reachable_inv [OF assms(1)]]]
  have "spec_find oid (book_orders b) = Some v \<longleftrightarrow>
      (\<exists>m. map_of (e_resting e) oid = Some m \<and> m_instrument_id m = i \<and> v = owner_view oid m)"
    using owned_book [OF I(1) assms(2), of oid] by (auto simp: owner_in_def split: option.splits if_splits)
  moreover have "map_of (e_by_client e) (cl, coid) = Some oid \<longleftrightarrow>
      (\<exists>m. map_of (e_resting e) oid = Some m \<and> m_client_id m = cl \<and> m_order_id m = coid)"
    using I(4) by (simp add: indexed_def)
  ultimately show ?thesis by blast
qed

theorem engine_tables_agree_witness:
  "\<exists>b. map_of (e_books demo_engine) 2 = Some b \<and> spec_find 1 (book_orders b) = None"
proof -
  have "om_contains (e_books demo_engine) 2"
    using eng_invD(2) [of demo_engine] reachable_inv [OF demo_engine_reachable] by (simp add: default_instruments_def)
  then obtain b where b: "map_of (e_books demo_engine) 2 = Some b" by blast
  have "e_resting demo_engine = []"
    by (simp add: demo_engine_def MatchingEngine_new_def default_instruments_def default_rules_def rules_ok_def
        OrderBook_default_def OrderBook_new_def FixedSlotPool_new_def CAPACITY_BYTES_def sizeof_OrderEntry_def)
  then show ?thesis using engine_tables_agree [OF demo_engine_reachable b, of 1] b
    by (metis not_None_eq option.distinct(1) map_of.simps(1))
qed

end
