(* ===== verification/Engine_Orders.thy ===== *)
theory Engine_Orders
  imports Engine_Theorems
begin

text \<open>
  What a command means to the client that sent it: a resend is answered from the cache, a request out
  of sequence changes nothing, and a new order trades and rests as its type, time in force and
  post-only flag say.
\<close>

section \<open>Accepting a request\<close>

definition in_sequence :: "Message \<Rightarrow> MatchingEngine \<Rightarrow> bool" where
  "in_sequence c e \<longleftrightarrow> m_kind c = Command \<and> m_action c \<noteq> Act_Snapshot \<and> m_action c \<noteq> Act_Status \<and>
     m_client_id c \<noteq> 0 \<and> m_request_id c \<noteq> 0 \<and> m_request_id c = engine_last_request (m_client_id c) e + 1"

definition registered :: "Message \<Rightarrow> MatchingEngine \<Rightarrow> MatchingEngine" where
  "registered c e =
     (let e1 = e\<lparr>e_clients := om_emplace (m_client_id c) new_client (e_clients e)\<rparr>; stats = e_stats e1
      in e1\<lparr>e_stats := stats\<lparr>st_commands := st_commands stats + 1\<rparr>\<rparr>)"

lemma registered_client:
  "\<exists>st. map_of (om_emplace cl new_client (e_clients e)) cl = Some st \<and> cs_last_request st = engine_last_request cl e"
  by (cases "map_of (e_clients e) cl") (auto simp: om_emplace_def engine_last_request_def new_client_def)

lemma succ_word: "x + 1 \<noteq> 0 \<Longrightarrow> (x::u64) + 1 \<noteq> x \<and> \<not> x + 1 \<le> x"
  using inc_less_eq_self_iff_eq [of x] by auto

lemma process_in_sequence:
  assumes "in_sequence c e"
  shows "engine_process h c e =
    do { w \<leftarrow> engine_dispatch h c (\<lparr>b_reports = [], b_updates = []\<rparr>, registered c e); engine_complete c w }"
proof -
  obtain st where st: "map_of (om_emplace (m_client_id c) new_client (e_clients e)) (m_client_id c) = Some st"
    "cs_last_request st = engine_last_request (m_client_id c) e" using registered_client by blast
  have rq: "m_request_id c = cs_last_request st + 1" "cs_last_request st + 1 \<noteq> 0"
    using assms st by (auto simp: in_sequence_def)
  show ?thesis
    using assms st rq succ_word [OF rq(2)]
    by (simp add: engine_process_def in_sequence_def registered_def Let_def)
qed

lemma complete_client:
  assumes "engine_complete c w = Some (b, e)"
  shows "\<exists>st. map_of (e_clients e) (m_client_id c) = Some st \<and> cs_last_request st = m_request_id c \<and>
    cs_last_command st = c \<and> cs_cached st = filter (\<lambda>m. m_client_id m = m_client_id c) (b_reports b)"
  using assms by (auto simp: engine_complete_def Let_def split: bind_splits prod.splits option.splits)

text \<open>
  C21. Resending the last request is idempotent: the engine answers it from the cache with exactly the
  client's own reports of the first answer, publishes no update and does not change.
\<close>

theorem resend_idempotent:
  assumes "in_sequence c e" "engine_process h c e = Some (b, e')"
  shows "engine_process h' c e' =
    Some (\<lparr>b_reports = filter (\<lambda>m. m_client_id m = m_client_id c) (b_reports b), b_updates = []\<rparr>, e')"
proof -
  obtain w where w: "engine_complete c w = Some (b, e')"
    using assms(2) process_in_sequence [OF assms(1)] by (auto split: bind_splits)
  obtain st where st: "map_of (e_clients e') (m_client_id c) = Some st" "cs_last_request st = m_request_id c"
    "cs_last_command st = c" "cs_cached st = filter (\<lambda>m. m_client_id m = m_client_id c) (b_reports b)"
    using complete_client [OF w] by blast
  then have "om_emplace (m_client_id c) new_client (e_clients e') = e_clients e'" by (simp add: om_emplace_def)
  then show ?thesis
    using assms(1) st by (auto simp: engine_process_def in_sequence_def Let_def)
qed

definition demo_command :: Message where
  "demo_command = default_message\<lparr>m_client_id := 5, m_request_id := 1, m_order_id := 9, m_instrument_id := 1,
     m_price := 100, m_quantity := 3\<rparr>"

lemma demo_engine_empty: "e_resting demo_engine = []" "e_clients demo_engine = []" "e_by_client demo_engine = []"
  by (simp_all add: demo_engine_def MatchingEngine_new_def default_instruments_def default_rules_def rules_ok_def
      OrderBook_default_def OrderBook_new_def FixedSlotPool_new_def CAPACITY_BYTES_def sizeof_OrderEntry_def)

lemma demo_in_sequence: "in_sequence demo_command demo_engine"
  by (simp add: in_sequence_def demo_command_def default_message_def engine_last_request_def demo_engine_empty)

theorem resend_idempotent_witness:
  "\<exists>b e'. engine_process demo_heap demo_command demo_engine = Some (b, e') \<and>
    engine_process demo_heap demo_command e' =
      Some (\<lparr>b_reports = filter (\<lambda>m. m_client_id m = 5) (b_reports b), b_updates = []\<rparr>, e')"
proof -
  have "advances demo_engine (engine_process demo_heap demo_command demo_engine)"
    using engine_process_inv reachable_inv [OF demo_engine_reachable] reachable_next [OF demo_engine_reachable] by simp
  then obtain b e' where "engine_process demo_heap demo_command demo_engine = Some (b, e')"
    by (auto simp: advances_def)
  moreover have "m_client_id demo_command = 5" by (simp add: demo_command_def)
  ultimately show ?thesis using resend_idempotent [OF demo_in_sequence, of demo_heap b e' demo_heap] by simp
qed

text \<open>
  A request whose number is neither the next one nor a resend of the last command is refused with
  a sequence reject and a completion; books, owner table, client index, positions and counters stay as
  they are, and nothing is published.
\<close>

theorem sequence_gate:
  assumes "m_kind c = Command" "m_action c \<noteq> Act_Snapshot" "m_action c \<noteq> Act_Status"
    and "m_client_id c \<noteq> 0" "m_request_id c \<noteq> 0"
    and "m_request_id c \<noteq> engine_last_request (m_client_id c) e + 1"
    and "\<not> (\<exists>st. map_of (e_clients e) (m_client_id c) = Some st \<and> cs_last_request st = m_request_id c \<and>
      cs_last_command st = c)"
  shows "\<exists>b e'. engine_process h c e = Some (b, e') \<and>
    map (\<lambda>m. (m_report m, m_reject m)) (b_reports b) = [(Rpt_Rejected, Rej_Sequence), (Rpt_Complete, Rej_None)] \<and>
    b_updates b = [] \<and> e_books e' = e_books e \<and> e_resting e' = e_resting e \<and> e_by_client e' = e_by_client e \<and>
    e_positions e' = e_positions e \<and> e_next_order e' = e_next_order e \<and> e_sequence e' = e_sequence e"
proof -
  obtain st where st: "map_of (om_emplace (m_client_id c) new_client (e_clients e)) (m_client_id c) = Some st"
    "cs_last_request st = engine_last_request (m_client_id c) e" using registered_client by blast
  have "\<not> (m_request_id c = cs_last_request st \<and> c = cs_last_command st)"
  proof (cases "map_of (e_clients e) (m_client_id c)")
    case None
    then show ?thesis using st assms(5) by (simp add: om_emplace_def engine_last_request_def)
  next
    case (Some x)
    then show ?thesis using st assms(7) by (auto simp: om_emplace_def)
  qed
  moreover have "m_request_id c \<le> cs_last_request st \<or> m_request_id c - cs_last_request st \<noteq> 1"
    using assms(6) st(2) by (metis diff_add_cancel add.commute)
  ultimately show ?thesis
    using assms(1-5) st(1)
    by (simp add: engine_process_def Let_def engine_reject_def engine_report_def) blast
qed

theorem sequence_gate_witness:
  "\<exists>b e'. engine_process demo_heap (demo_command\<lparr>m_request_id := 4\<rparr>) demo_engine = Some (b, e') \<and> b_updates b = [] \<and>
    e_resting e' = []"
proof -
  have "\<exists>b e'. engine_process demo_heap (demo_command\<lparr>m_request_id := 4\<rparr>) demo_engine = Some (b, e') \<and>
    map (\<lambda>m. (m_report m, m_reject m)) (b_reports b) = [(Rpt_Rejected, Rej_Sequence), (Rpt_Complete, Rej_None)] \<and>
    b_updates b = [] \<and> e_books e' = e_books demo_engine \<and> e_resting e' = e_resting demo_engine \<and>
    e_by_client e' = e_by_client demo_engine \<and> e_positions e' = e_positions demo_engine \<and>
    e_next_order e' = e_next_order demo_engine \<and> e_sequence e' = e_sequence demo_engine"
    by (rule sequence_gate)
      (simp_all add: demo_command_def default_message_def engine_last_request_def demo_engine_empty)
  then show ?thesis unfolding demo_engine_empty(1) by blast
qed

section \<open>The reports of a new order\<close>

text \<open>What the reports of a batch say was filled of the order the command submits.\<close>

definition own_fills :: "Message \<Rightarrow> Message list \<Rightarrow> Message list" where
  "own_fills c rs = filter (\<lambda>m. m_report m = Rpt_Fill \<and> m_client_id m = m_client_id c) rs"

definition filled :: "Message \<Rightarrow> Message list \<Rightarrow> int" where
  "filled c rs = (\<Sum>m \<leftarrow> own_fills c rs. int (unat (m_quantity m)))"

lemma own_fills_append [simp]: "own_fills c (xs @ ys) = own_fills c xs @ own_fills c ys"
  by (simp add: own_fills_def)

lemma filled_append [simp]: "filled c (xs @ ys) = filled c xs + filled c ys"
  by (simp add: filled_def)

lemma own_fills_other [simp]: "m_report m \<noteq> Rpt_Fill \<Longrightarrow> own_fills c [m] = []" "own_fills c [] = []"
  by (simp_all add: own_fills_def)

lemma filled_empty [simp]: "filled c [] = 0"
  by (simp add: filled_def)

lemma report_other:
  assumes "t \<noteq> Rpt_Fill"
  shows "own_fills c (b_reports (fst (engine_report m t r w))) = own_fills c (b_reports (fst w))"
  using assms by (simp add: engine_report_def Let_def split: prod.splits)

lemma update_reports [simp]: "b_reports (fst (engine_update m t w)) = b_reports (fst w)"
  by (simp add: engine_update_def Let_def split: prod.splits)

lemma fill_one_reports:
  assumes fl: "filling c (f # fs) e" and inc: "m_client_id incoming = m_client_id c"
    and r: "fill_one h c incoming f (leaves, b, e) = Some (leaves', b', e')"
  shows "\<exists>m. own_fills c (b_reports b') = own_fills c (b_reports b) @ [m] \<and> m_quantity m = fill_size f \<and>
    m_price m = fill_price f"
proof -
  obtain m where m: "map_of (e_resting e) (fill_id f) = Some m" "m_client_id m \<noteq> m_client_id c"
    using fl by (auto simp: filling_def fill_ok_def)
  show ?thesis
    using r m inc by (auto simp: fill_one_def engine_report_def engine_update_def Let_def own_fills_def split: bind_splits)
qed

lemma fill_all_reports:
  assumes "filling c fs e" "m_client_id incoming = m_client_id c"
    and "fill_all h c incoming fs (leaves, b, e) = Some (leaves', b', e')"
  shows "\<exists>ms. own_fills c (b_reports b') = own_fills c (b_reports b) @ ms \<and>
    map (\<lambda>m. (m_price m, m_quantity m)) ms = map (\<lambda>f. (fill_price f, fill_size f)) fs"
  using assms
proof (induction fs arbitrary: leaves b e)
  case (Cons f fs)
  obtain b1 e1 where s1: "fill_one h c incoming f (leaves, b, e) = Some (leaves - fill_size f, b1, e1)" "filling c fs e1"
    using fill_one_step [OF Cons.prems(1)] by blast
  obtain m where m: "own_fills c (b_reports b1) = own_fills c (b_reports b) @ [m]" "m_quantity m = fill_size f"
    "m_price m = fill_price f"
    using fill_one_reports [OF Cons.prems(1,2) s1(1)] by blast
  obtain ms where ms: "own_fills c (b_reports b') = own_fills c (b_reports b1) @ ms"
    "map (\<lambda>m. (m_price m, m_quantity m)) ms = map (\<lambda>f. (fill_price f, fill_size f)) fs"
    using Cons.IH [OF s1(2) Cons.prems(2)] Cons.prems(3) s1(1) by auto
  then show ?case using m by (intro exI [of _ "m # ms"]) simp
qed simp

section \<open>The outcome of a new order\<close>

text \<open>Refused: nothing traded, nothing published, no table changed but for a flat position.\<close>

definition refused :: "MatchingEngine \<Rightarrow> Message \<Rightarrow> work \<Rightarrow> bool" where
  "refused e c w \<longleftrightarrow> own_fills c (b_reports (fst w)) = [] \<and> b_updates (fst w) = [] \<and>
     same_orders (e_books (snd w)) (e_books e) \<and> e_resting (snd w) = e_resting e \<and>
     e_by_client (snd w) = e_by_client e \<and> (\<forall>cl i. engine_position cl i (snd w) = engine_position cl i e)"

text \<open>Executed: traded up to \<open>leaves\<close>, within its limit, and resting exactly when it is good till cancelled.\<close>

definition executed :: "MatchingEngine \<Rightarrow> Message \<Rightarrow> Quantity \<Rightarrow> work \<Rightarrow> bool" where
  "executed e c leaves w \<longleftrightarrow>
     filled c (b_reports (fst w)) = int (unat (m_quantity c)) - int (unat leaves) \<and>
     (\<forall>m \<in> set (own_fills c (b_reports (fst w))). crosses c (m_price m)) \<and>
     (m_tif c = FOK \<longrightarrow> leaves = 0) \<and> (m_post_only c \<longrightarrow> own_fills c (b_reports (fst w)) = []) \<and>
     (if rests c leaves
      then map_of (e_by_client (snd w)) (m_client_id c, m_order_id c) = Some (e_next_order e) \<and>
        map_option (owner_view (e_next_order e)) (map_of (e_resting (snd w)) (e_next_order e)) =
          Some \<lparr>view_id = e_next_order e, view_side = m_side c, view_price = m_price c, view_quantity = leaves\<rparr>
      else map_of (e_by_client (snd w)) (m_client_id c, m_order_id c) = None)"

lemma reject_fst: "fst (engine_reject c r w) = (fst w)\<lparr>b_reports := b_reports (fst w) @
    [c\<lparr>m_kind := Report, m_report := Rpt_Rejected, m_reject := r, m_epoch := e_epoch (snd w),
       m_sequence := e_response_sequence (snd w) + 1\<rparr>]\<rparr>"
  by (simp add: engine_reject_def engine_report_def Let_def split: prod.splits)

lemma reject_snd_tables [simp]:
  "e_books (snd (engine_reject c r w)) = e_books (snd w)" "e_resting (snd (engine_reject c r w)) = e_resting (snd w)"
  "e_by_client (snd (engine_reject c r w)) = e_by_client (snd w)"
  "e_positions (snd (engine_reject c r w)) = e_positions (snd w)"
  by (simp_all add: engine_reject_def Let_def split: prod.splits)

lemma refused_reject:
  assumes "refused e c w"
  shows "refused e c (engine_reject c r w)"
  using assms by (simp add: refused_def reject_fst engine_position_def)

lemma refused_refl: "own_fills c (b_reports b) = [] \<Longrightarrow> b_updates b = [] \<Longrightarrow> refused e c (b, e)"
  by (simp add: refused_def same_orders_def)

lemma engine_position_emplace:
  "engine_position cl i (e\<lparr>e_positions := om_emplace k flat_position (e_positions e), e_books := bs\<rparr>) =
   engine_position cl i e"
  by (auto simp: engine_position_def om_emplace_def split: option.splits)

lemma close_reports: "own_fills c (b_reports (fst (commit_close c n leaves w))) = own_fills c (b_reports (fst w))"
  by (simp add: commit_close_def report_other)

lemma close_tables [simp]:
  "e_resting (snd (commit_close c n leaves w)) = e_resting (snd w)"
  "e_by_client (snd (commit_close c n leaves w)) = e_by_client (snd w)"
  by (simp_all add: commit_close_def)

text \<open>The client index after the fills.\<close>

lemma entry_key:
  assumes S: "submits e c 0 r" and plan: "plan_ok e c vs (m_quantity c) fs leaves Rej_None" and ix: "indexed bc rs"
    and rs: "rs = fill_owners fs (entry_resting (incoming_of c n) 0 (e_next_order e) leaves (e_resting e))"
  shows "if rests c leaves
      then map_of bc (m_client_id c, m_order_id c) = Some (e_next_order e) \<and>
        map_of rs (e_next_order e) = Some (remainder (incoming_of c n) leaves)
      else map_of bc (m_client_id c, m_order_id c) = None"
proof -
  note D = submitsD [OF S] and I = eng_invD [OF submitsD(1) [OF S]]
  have fs: "distinct (map fill_id fs)" "e_next_order e \<notin> fill_id ` set fs"
    using plan D(9) by (auto simp: plan_ok_def fill_ok_def)
  have bc: "map_of bc (cl, o') = Some x \<longleftrightarrow>
      (\<exists>n. map_of rs x = Some n \<and> m_client_id n = cl \<and> m_order_id n = o')" for cl o' x
    using ix by (simp add: indexed_def)
  show ?thesis
  proof (cases "rests c leaves")
    case True
    then have "map_of rs (e_next_order e) = Some (remainder (incoming_of c n) leaves)"
      unfolding rs using fill_owners_other [OF fs(2)] by (simp add: entry_resting_def)
    then show ?thesis using bc True by auto
  next
    case False
    have "map_of bc (m_client_id c, m_order_id c) \<noteq> Some x" for x
    proof
      assume "map_of bc (m_client_id c, m_order_id c) = Some x"
      then obtain m' where m': "map_of rs x = Some m'" "m_client_id m' = m_client_id c" "m_order_id m' = m_order_id c"
        using bc by blast
      obtain m where m: "map_of (om_erase 0 (e_resting e)) x = Some m" "m' = m\<lparr>m_quantity := m_quantity m'\<rparr>"
        using fill_owners_survivor [OF fs(1) m'(1) [unfolded rs]] False by (auto simp: entry_resting_def)
      have "map_of (e_resting e) x = Some m" "m_client_id m = m_client_id c" "m_order_id m = m_order_id c"
        using m(1) m'(2,3) arg_cong [OF m(2), of m_client_id] arg_cong [OF m(2), of m_order_id] by (auto split: if_splits)
      then have "map_of (e_by_client e) (m_client_id c, m_order_id c) = Some x" using I(4) by (auto simp: indexed_def)
      then show False using D(11) by simp
    qed
    then show ?thesis using False by (cases "map_of bc (m_client_id c, m_order_id c)") auto
  qed
qed

lemma commit_outcome:
  assumes S: "submits e c 0 r" and plan: "plan_ok e c vs (m_quantity c) fs leaves Rej_None"
    and fok: "m_tif c = FOK \<longrightarrow> leaves = 0" and b0: "own_fills c (b_reports b) = []" "b_updates b = []"
    and run: "submit_commit h c 0 fs leaves (b, e) = Some w'"
  shows "refused e c w' \<or> executed e c leaves w'"
  using submit_commit_entry [OF S, of h fs leaves b]
proof (elim disjE exE conjE)
  fix bs assume r: "submit_commit h c 0 fs leaves (b, e) = Some (engine_reject c Rej_Capacity (b,
        e\<lparr>e_positions := om_emplace (m_client_id c, m_instrument_id c) flat_position (e_positions e), e_books := bs\<rparr>))"
    "same_orders bs (e_books e)"
  have "refused e c (b, e\<lparr>e_positions := om_emplace (m_client_id c, m_instrument_id c) flat_position (e_positions e),
      e_books := bs\<rparr>)"
    using b0 r(2) by (simp add: refused_def engine_position_emplace)
  then show ?thesis using refused_reject r(1) run by auto
next
  fix b5 e5 x assume en: "entry e c 0 leaves e5" and b5: "b_reports b5 = b_reports b @ [x]" "m_report x \<noteq> Rpt_Fill"
    and r: "submit_commit h c 0 fs leaves (b, e) =
      (case fill_all h c (incoming_of c (e_next_order e)) fs (m_quantity c, b5, e5) of
         None \<Rightarrow> None | Some (_, w) \<Rightarrow> Some (commit_close c (e_next_order e) leaves w))"
  note fl = entry_filling [OF S en plan]
  obtain b6 e6 where f: "fill_all h c (incoming_of c (e_next_order e)) fs (m_quantity c, b5, e5) =
      Some (m_quantity c - sum_list (map fill_size fs), b6, e6)" "filling c [] e6" "e_resting e6 = fill_owners fs (e_resting e5)"
    using fill_all_steps [OF fl, of h "incoming_of c (e_next_order e)" "m_quantity c" b5] by blast
  obtain ms where ms: "own_fills c (b_reports b6) = ms" "map (\<lambda>m. (m_price m, m_quantity m)) ms = map (\<lambda>f. (fill_price f, fill_size f)) fs"
    using fill_all_reports [OF fl _ f(1)] b5 b0(1) by auto
  have w': "w' = commit_close c (e_next_order e) leaves (b6, e6)" using r f(1) run by simp
  have own: "own_fills c (b_reports (fst w')) = ms" by (simp add: w' close_reports ms(1))
  have qs: "map m_quantity ms = map fill_size fs" "map m_price ms = map fill_price fs"
    using arg_cong [OF ms(2), of "map snd"] arg_cong [OF ms(2), of "map fst"] by (simp_all add: comp_def)
  have "(\<Sum>m \<leftarrow> ms. int (unat (m_quantity m))) = plan_total fs"
    using arg_cong [OF qs(1), of "map (\<lambda>q. int (unat q))"] by (simp add: plan_total_def comp_def del: of_nat_unat)
  then have "filled c (b_reports (fst w')) = int (unat (m_quantity c)) - int (unat leaves)"
    using plan by (simp add: filled_def own plan_ok_def del: of_nat_unat)
  moreover have "crosses c (m_price m)" if "m \<in> set ms" for m
  proof -
    have "m_price m \<in> set (map fill_price fs)" using qs(2) that by (metis image_eqI set_map)
    then show ?thesis using plan by (auto simp: plan_ok_def)
  qed
  moreover have "ms = []" if "m_post_only c" using plan that ms(2) by (simp add: plan_ok_def)
  moreover have "if rests c leaves
      then map_of (e_by_client e6) (m_client_id c, m_order_id c) = Some (e_next_order e) \<and>
        map_of (e_resting e6) (e_next_order e) = Some (remainder (incoming_of c (e_next_order e)) leaves)
      else map_of (e_by_client e6) (m_client_id c, m_order_id c) = None"
    using f(2,3) en by (intro entry_key [OF S plan]) (auto simp: filling_def entry_def)
  ultimately show ?thesis
    using fok own by (auto simp: executed_def w' owner_view_def split: if_splits)
qed

text \<open>From the check to the commit.\<close>

lemma submit_outcome:
  assumes inv: "eng_inv e" and nxt: "e_next_order e + 1 \<noteq> 0" and b0: "own_fills c (b_reports b) = []" "b_updates b = []"
    and run: "engine_submit h c 0 (b, e) = Some w'"
  shows "refused e c w' \<or> (\<exists>leaves. leaves \<le> m_quantity c \<and> executed e c leaves w')"
proof -
  have keep: "refused e c (engine_reject c r (b, e))" for r using refused_reject refused_refl b0 by blast
  obtain checked where ch: "submit_check e c 0 = Some checked" using run by (auto simp: engine_submit_def split: bind_splits)
  show ?thesis
  proof (cases checked)
    case (Some reason)
    then show ?thesis using run ch keep by (auto simp: engine_submit_def)
  next
    case None
    obtain r where acc: "accepted e c 0 r" using submit_check_accepted ch None by blast
    then have S: "submits e c 0 r" using inv nxt by (simp add: submits_def)
    note D = submitsD [OF S] and I = eng_invD [OF inv]
    obtain bk where bk: "map_of (e_books e) (m_instrument_id c) = Some bk" using D(13) by blast
    obtain fs leaves rej where p: "submit_plan e c = Some (fs, leaves, rej)"
      "plan_ok e c (book_orders bk (opposite (m_side c))) (m_quantity c) fs leaves rej"
      using submit_plan_ok [OF I(1) bk D(5,6)] by blast
    have "submit_match h c 0 (b, e) = Some w'" using run ch None bk by (simp add: engine_submit_def)
    then have m: "w' = engine_reject c rej (b, e) \<or> w' = engine_reject c Rej_Fok (b, e) \<or>
        (rej = Rej_None \<and> (m_tif c = FOK \<longrightarrow> leaves = 0) \<and> submit_commit h c 0 fs leaves (b, e) = Some w')"
      using p(1) by (auto simp: submit_match_def split: if_splits)
    then show ?thesis
    proof (elim disjE conjE)
      assume a: "rej = Rej_None" "m_tif c = FOK \<longrightarrow> leaves = 0" "submit_commit h c 0 fs leaves (b, e) = Some w'"
      have "leaves \<le> m_quantity c" using p(2) by (simp add: plan_ok_def)
      then show ?thesis using commit_outcome [OF S p(2) [unfolded a(1)] a(2) b0 a(3)] by blast
    qed (use keep in auto)
  qed
qed

lemma complete_tables:
  assumes "engine_complete c w = Some w'"
  shows "own_fills c (b_reports (fst w')) = own_fills c (b_reports (fst w))" "b_updates (fst w') = b_updates (fst w)"
    "e_books (snd w') = e_books (snd w)" "e_resting (snd w') = e_resting (snd w)"
    "e_by_client (snd w') = e_by_client (snd w)" "e_positions (snd w') = e_positions (snd w)"
  using assms by (auto simp: engine_complete_def engine_report_def Let_def split: bind_splits prod.splits option.splits)

lemma registered_tables [simp]:
  "e_books (registered c e) = e_books e" "e_resting (registered c e) = e_resting e"
  "e_by_client (registered c e) = e_by_client e" "e_positions (registered c e) = e_positions e"
  "e_next_order (registered c e) = e_next_order e"
  by (simp_all add: registered_def Let_def)

lemma registered_inv: "eng_inv e \<Longrightarrow> eng_inv (registered c e)"
  using eng_inv_register by (simp add: registered_def Let_def)

text \<open>
  C3. A new order in sequence has one of two outcomes. Either it is refused: nothing trades, nothing is
  published, and the orders of every book, the owner table, the client index and every position are
  what they were. Or, for some quantity \<open>leaves\<close>, exactly the rest is reported as filled to the
  client, each fill at a price its limit accepts; a fill-or-kill order is filled in full; a post-only
  order does not trade; and the order rests with \<open>leaves\<close> at its price under the next exchange id when it
  is a limit order good till cancelled, and is not resting otherwise.
\<close>

theorem new_order_outcome:
  assumes "engine_reachable ins n e" "n < 2 ^ 64 - 2" "in_sequence c e" "m_action c = Act_New"
  shows "\<exists>w. engine_process h c e = Some w \<and>
    (refused e c w \<or> (\<exists>leaves. leaves \<le> m_quantity c \<and> executed e c leaves w))"
proof -
  have inv: "eng_inv e" using reachable_inv [OF assms(1)] by blast
  obtain w where w: "engine_process h c e = Some w"
    using engine_process_inv [OF inv reachable_next [OF assms(1,2)], of h c] by (auto simp: advances_def)
  obtain w1 where w1: "engine_submit h c 0 (\<lparr>b_reports = [], b_updates = []\<rparr>, registered c e) = Some w1"
    "engine_complete c w1 = Some w"
    using w assms(4) by (auto simp: process_in_sequence [OF assms(3)] engine_dispatch_def split: bind_splits)
  have "refused (registered c e) c w1 \<or> (\<exists>leaves. leaves \<le> m_quantity c \<and> executed (registered c e) c leaves w1)"
    by (rule submit_outcome [OF registered_inv [OF inv] _ _ _ w1(1)])
      (use reachable_next [OF assms(1,2)] in simp_all)
  then show ?thesis
    using w complete_tables [OF w1(2)]
    by (auto simp: refused_def executed_def filled_def engine_position_def)
qed

theorem new_order_outcome_witness:
  "\<exists>w. engine_process demo_heap demo_command demo_engine = Some w \<and>
    (refused demo_engine demo_command w \<or>
     (\<exists>leaves. leaves \<le> m_quantity demo_command \<and> executed demo_engine demo_command leaves w))"
  by (rule new_order_outcome [OF demo_engine_reachable _ demo_in_sequence]) (simp_all add: demo_command_def default_message_def)

text \<open>
  C2. Matching follows price-time priority. Planning an order against a reachable engine never fails,
  and what it plans is a prefix of the orders on the other side in their priority order, at the
  makers' own prices: every planned maker but the last in full, none beyond what it has, only at
  prices the order accepts, never against an order of the same client. The planned sizes and what is
  left add up to the order; if the plan is not refused and something is left, every order it crosses
  has been planned in full.
\<close>

theorem match_price_time:
  assumes "engine_reachable ins n e" "map_of (e_books e) (m_instrument_id c) = Some bk"
    and "m_side c \<noteq> Side_Other" "m_quantity c \<noteq> 0"
  shows "\<exists>fs leaves rej. submit_plan e c = Some (fs, leaves, rej) \<and>
    (let makers = book_orders bk (if m_side c = Bid then Ask else Bid) in
      length fs \<le> length makers \<and>
      map (\<lambda>f. (fill_id f, fill_price f)) fs = map (\<lambda>v. (view_id v, view_price v)) (take (length fs) makers) \<and>
      (\<forall>k. Suc k < length fs \<longrightarrow> fill_size (fs ! k) = view_quantity (makers ! k)) \<and>
      (\<forall>f \<in> set fs. crosses c (fill_price f) \<and> fill_size f \<noteq> 0 \<and>
        (\<exists>m. map_of (e_resting e) (fill_id f) = Some m \<and> fill_size f \<le> m_quantity m \<and> m_client_id m \<noteq> m_client_id c)) \<and>
      (\<Sum>f \<leftarrow> fs. int (unat (fill_size f))) + int (unat leaves) = int (unat (m_quantity c)) \<and>
      (rej = Rej_None \<and> leaves \<noteq> 0 \<longrightarrow> (\<forall>v \<in> set makers. crosses c (view_price v) \<longrightarrow>
        (\<exists>f \<in> set fs. fill_id f = view_id v \<and> fill_size f = view_quantity v))))"
proof -
  note I = eng_invD [OF conjunct1 [OF reachable_inv [OF assms(1)]]]
  obtain fs leaves rej where p: "submit_plan e c = Some (fs, leaves, rej)"
    "plan_ok e c (book_orders bk (opposite (m_side c))) (m_quantity c) fs leaves rej"
    using submit_plan_ok [OF I(1) assms(2-4)] by blast
  show ?thesis
    using p unfolding plan_ok_def opposite_def plan_total_def fill_ok_def Let_def
    by (intro exI [of _ fs] exI [of _ leaves] exI [of _ rej]) (auto simp del: of_nat_unat)
qed

theorem match_price_time_witness:
  "\<exists>fs leaves rej. submit_plan demo_engine demo_command = Some (fs, leaves, rej) \<and>
    (\<Sum>f \<leftarrow> fs. int (unat (fill_size f))) + int (unat leaves) = 3"
proof -
  have i: "m_instrument_id demo_command = 1" "m_side demo_command \<noteq> Side_Other" "m_quantity demo_command = 3"
    by (simp_all add: demo_command_def default_message_def)
  have "om_contains (e_books demo_engine) 1"
    using eng_invD(2) [of demo_engine] reachable_inv [OF demo_engine_reachable] by (simp add: default_instruments_def)
  then obtain bk where "map_of (e_books demo_engine) (m_instrument_id demo_command) = Some bk" using i(1) by auto
  from match_price_time [OF demo_engine_reachable this i(2)] i(3) show ?thesis
    by (auto simp: Let_def simp del: of_nat_unat)
qed

end
