(* ===== verification/Engine_Stream.thy ===== *)
theory Engine_Stream
  imports Engine_Orders
begin

text \<open>
  The update stream of the matching engine. A subscriber sees only the published deltas; here the meaning
  of a delta is a partial function on the price-time lists of each instrument, and the theorem is that
  the deltas of a command, applied in order, take the lists before the command to the lists after it.

  The engine stores a new order before it executes the plan but publishes it last. The proofs carry the
  stored and not yet published order along as pending; it commutes with the cancellations and
  executions in between because its id differs from theirs and the lists are ranked by price.
\<close>

section \<open>The meaning of a delta\<close>

type_synonym market = "InstrumentId \<Rightarrow> abs_book"

definition spec_commit :: "InstrumentId \<Rightarrow> EventPayload \<Rightarrow> market \<Rightarrow> market option" where
  "spec_commit i ev F = (case spec_apply True ev (F i) of (r, A) \<Rightarrow> if r = Ok then Some (F(i := A)) else None)"

definition feed_step :: "Message \<Rightarrow> market \<Rightarrow> market option" where
  "feed_step m F =
     (let i = m_instrument_id m; oid = m_exchange_id m in
      case m_update m of
        Upd_Trade \<Rightarrow> Some F
      | Upd_Add \<Rightarrow> spec_commit i (AddOrder oid (m_side m) (m_price m) (m_quantity m)) F
      | Upd_Cancel \<Rightarrow> spec_commit i (CancelOrder oid) F
      | Upd_Execute \<Rightarrow> spec_commit i (ExecuteOrder oid (m_quantity m)) F
      | Upd_Reduce \<Rightarrow>
          (case spec_find oid (F i) of
             None \<Rightarrow> None
           | Some v \<Rightarrow> if m_quantity m = 0 \<or> view_quantity v \<le> m_quantity m then None
                       else spec_commit i (ExecuteOrder oid (view_quantity v - m_quantity m)) F)
      | Upd_Other \<Rightarrow> None)"

fun feed_run :: "Message list \<Rightarrow> market \<Rightarrow> market option" where
  "feed_run [] F = Some F"
| "feed_run (m # ms) F = do { F' \<leftarrow> feed_step m F; feed_run ms F' }"

lemma feed_run_append: "feed_run (ms @ ns) F = Option.bind (feed_run ms F) (feed_run ns)"
  by (induction ms arbitrary: F) (simp_all split: bind_split)

definition views :: "(InstrumentId \<times> OrderBook) list \<Rightarrow> market" where
  "views bs i = (case map_of bs i of None \<Rightarrow> empty_book | Some b \<Rightarrow> book_orders b)"

definition books_wf :: "(InstrumentId \<times> OrderBook) list \<Rightarrow> bool" where
  "books_wf bs \<longleftrightarrow> (\<forall>i b. map_of bs i = Some b \<longrightarrow> wf_book b)"

section \<open>Ranked lists\<close>

definition ranked :: "abs_book \<Rightarrow> bool" where
  "ranked A \<longleftrightarrow> (\<forall>s \<in> {Bid, Ask}. sorted_wrt (\<lambda>v w. \<not> side_lt s (view_price w) (view_price v)) (A s))"

lemma abs_ok_ranked: "abs_ok A \<Longrightarrow> ranked A"
  by (simp add: abs_ok_def ranked_def)

lemma filter_pt_insert:
  assumes "sorted_wrt (\<lambda>x y. \<not> side_lt (view_side v) (view_price y) (view_price x)) xs" "P v"
  shows "filter P (pt_insert v xs) = pt_insert v (filter P xs)"
  using assms
proof (induction xs)
  case (Cons x xs)
  let ?s = "view_side v"
  show ?case
  proof (cases "side_lt ?s (view_price v) (view_price x)")
    case True
    have "side_lt ?s (view_price v) (view_price y)" if "y \<in> set (x # xs)" for y
      using that Cons.prems(1) True side_order.lt_trans [of ?s "view_price v" "view_price x"] side_order.lt_total [of "view_price y" "view_price x" ?s]
      by (cases "view_price y = view_price x") auto
    then have "pt_insert v (filter P (x # xs)) = v # filter P (x # xs)" by (intro pt_insert_front) (auto split: if_splits)
    then show ?thesis using True Cons.prems(2) by simp
  next
    case False
    then show ?thesis using Cons by simp
  qed
qed simp

lemma map_pt_insert:
  assumes "f v = v" "\<And>x. view_price (f x) = view_price x"
  shows "map f (pt_insert v xs) = pt_insert v (map f xs)"
  using assms by (induction xs) auto

lemma insert_delete:
  assumes "ranked A" "view_side v \<noteq> Side_Other" "oid \<noteq> view_id v"
  shows "spec_delete oid (spec_insert v A) = spec_insert v (spec_delete oid A)"
proof -
  have "filter (\<lambda>w. view_id w \<noteq> oid) (pt_insert v (A (view_side v))) =
      pt_insert v (filter (\<lambda>w. view_id w \<noteq> oid) (A (view_side v)))"
    using assms by (cases "view_side v") (auto simp: ranked_def intro!: filter_pt_insert)
  then show ?thesis by (simp add: spec_delete_def spec_insert_def fun_eq_iff)
qed

lemma insert_set_quantity:
  assumes "oid \<noteq> view_id v"
  shows "spec_set_quantity oid q (spec_insert v A) = spec_insert v (spec_set_quantity oid q A)"
proof -
  have "map (\<lambda>w. if view_id w = oid then w\<lparr>view_quantity := q\<rparr> else w) (pt_insert v (A (view_side v))) =
      pt_insert v (map (\<lambda>w. if view_id w = oid then w\<lparr>view_quantity := q\<rparr> else w) (A (view_side v)))"
    using assms by (intro map_pt_insert) auto
  then show ?thesis by (simp add: spec_set_quantity_def spec_insert_def fun_eq_iff)
qed

lemma ranked_delete: "ranked A \<Longrightarrow> ranked (spec_delete oid A)"
  by (auto simp: ranked_def spec_delete_def sorted_wrt_filter)

lemma ranked_set_quantity: "ranked A \<Longrightarrow> ranked (spec_set_quantity oid q A)"
proof -
  have "view_price (if view_id v = oid then v\<lparr>view_quantity := q\<rparr> else v) = view_price v" for v :: OrderView by simp
  then show "ranked A \<Longrightarrow> ranked (spec_set_quantity oid q A)"
    unfolding ranked_def spec_set_quantity_def sorted_wrt_map by simp
qed

section \<open>A pending order\<close>

definition names :: "EventPayload \<Rightarrow> OrderId \<Rightarrow> bool" where
  "names ev oid \<longleftrightarrow> ev = CancelOrder oid \<or> (\<exists>q. ev = ExecuteOrder oid q)"

lemma apply_pending:
  assumes ev: "names ev oid" "oid \<noteq> view_id v" and v: "view_side v \<noteq> Side_Other" "spec_find (view_id v) A = None" "ranked A"
    and ap: "spec_apply True ev (spec_insert v A) = (Ok, B)"
  shows "\<exists>A'. spec_apply True ev A = (Ok, A') \<and> B = spec_insert v A' \<and> ranked A' \<and> spec_find (view_id v) A' = None"
proof -
  have f: "spec_find oid (spec_insert v A) = spec_find oid A" using spec_find_insert [OF v(1,2)] ev(2) by simp
  show ?thesis
    using ev(1) ap v insert_delete [OF v(3,1) ev(2)] insert_set_quantity [OF ev(2)] ev(2)
      ranked_delete [OF v(3)] ranked_set_quantity [OF v(3)]
    unfolding names_def
    by (elim disjE exE) (auto simp: spec_apply_def f spec_find_delete spec_find_set_quantity split: option.splits if_splits)
qed

type_synonym pending = "(InstrumentId \<times> OrderView) option"

definition stored :: "pending \<Rightarrow> market \<Rightarrow> market" where
  "stored p G = (case p of None \<Rightarrow> G | Some (i, v) \<Rightarrow> G(i := spec_insert v (G i)))"

definition pending_ok :: "pending \<Rightarrow> market \<Rightarrow> bool" where
  "pending_ok p G \<longleftrightarrow> (case p of None \<Rightarrow> True
     | Some (i, v) \<Rightarrow> view_side v \<noteq> Side_Other \<and> spec_find (view_id v) (G i) = None \<and> ranked (G i))"

definition avoids :: "pending \<Rightarrow> OrderId \<Rightarrow> bool" where
  "avoids p oid \<longleftrightarrow> (case p of None \<Rightarrow> True | Some (_, v) \<Rightarrow> oid \<noteq> view_id v)"

lemma commit_pending:
  assumes "pending_ok p G" "names ev oid" "avoids p oid" "spec_commit i ev (stored p G) = Some H"
  shows "\<exists>G'. spec_commit i ev G = Some G' \<and> H = stored p G' \<and> pending_ok p G'"
proof (cases p)
  case None
  then show ?thesis using assms by (simp add: stored_def pending_ok_def)
next
  case (Some jv)
  obtain j v where jv: "jv = (j, v)" by force
  show ?thesis
  proof (cases "i = j")
    case True
    obtain B where B: "spec_apply True ev (spec_insert v (G j)) = (Ok, B)" "H = (stored p G)(j := B)"
      using assms(4) by (auto simp: spec_commit_def stored_def Some jv True split: prod.splits if_splits)
    obtain A' where "spec_apply True ev (G j) = (Ok, A')" "B = spec_insert v A'" "ranked A'" "spec_find (view_id v) A' = None"
      using apply_pending [OF assms(2) _ _ _ _ B(1)] assms(1,3) by (auto simp: pending_ok_def avoids_def Some jv)
    then show ?thesis
      using assms(1) B(2) by (auto simp: spec_commit_def stored_def pending_ok_def Some jv True)
  next
    case False
    then show ?thesis
      using assms(1,4) by (auto simp: spec_commit_def stored_def pending_ok_def Some jv fun_upd_twist split: prod.splits if_splits)
  qed
qed

section \<open>Books under operations\<close>

lemma commit_exact:
  assumes "books_wf bs" "map_of bs i = Some b" "apply_event h ev b = Some (r, b')"
  shows "books_wf (om_put (<) i b' bs)"
    "r = Ok \<Longrightarrow> spec_commit i ev (views bs) = Some (views (om_put (<) i b' bs))"
    "r \<noteq> Ok \<Longrightarrow> views (om_put (<) i b' bs) = views bs"
proof -
  obtain room where sp: "wf_book b'" "(r, book_orders b') = spec_apply room ev (book_orders b)"
    using lob.apply_defined [of b h ev r b'] assms by (auto simp: books_wf_def)
  show "books_wf (om_put (<) i b' bs)" using sp(1) assms(1) by (simp add: books_wf_def)
  have v: "views (om_put (<) i b' bs) = (views bs)(i := book_orders b')" by (simp add: views_def fun_eq_iff)
  show "spec_commit i ev (views bs) = Some (views (om_put (<) i b' bs))" if "r = Ok"
  proof -
    have "spec_apply True ev (book_orders b) = (Ok, book_orders b')"
      using sp(2) that by (cases ev) (auto simp: spec_apply_def split: if_splits option.splits)
    then show ?thesis using assms(2) by (simp add: spec_commit_def v) (simp add: views_def)
  qed
  show "views (om_put (<) i b' bs) = views bs" if "r \<noteq> Ok"
    using spec_apply_failed [OF sp(2) that] assms(2) by (simp add: v) (simp add: views_def fun_eq_iff)
qed

lemma require_exact:
  assumes "books_wf (e_books e)" "book_require h i ev e = Some e'"
  shows "\<exists>bs. e' = e\<lparr>e_books := bs\<rparr> \<and> books_wf bs \<and> spec_commit i ev (views (e_books e)) = Some (views bs)"
  using assms commit_exact [OF assms(1)]
  by (auto simp: book_require_def book_apply_def split: bind_splits prod.splits if_splits)

section \<open>What is published\<close>

definition keyed :: "(OrderId \<times> Message) list \<Rightarrow> bool" where
  "keyed rs \<longleftrightarrow> (\<forall>oid m. map_of rs oid = Some m \<longrightarrow> m_exchange_id m = oid)"

lemma keyed_erase: "keyed rs \<Longrightarrow> keyed (om_erase oid rs)"
  by (simp add: keyed_def)

lemma keyed_put: "keyed rs \<Longrightarrow> m_exchange_id m = oid \<Longrightarrow> keyed (om_put (<) oid m rs)"
  by (simp add: keyed_def)

text \<open>Deltas carry the epoch of the engine and consecutive sequence numbers.\<close>

fun stamps :: "u64 \<Rightarrow> Sequence \<Rightarrow> Message list \<Rightarrow> bool" where
  "stamps ep sq [] \<longleftrightarrow> True"
| "stamps ep sq (m # ms) \<longleftrightarrow> m_kind m = Delta \<and> m_epoch m = ep \<and> m_sequence m = sq + 1 \<and> stamps ep (sq + 1) ms"

lemma stamps_snoc:
  "stamps ep sq (ms @ [m]) \<longleftrightarrow> stamps ep sq ms \<and> m_kind m = Delta \<and> m_epoch m = ep \<and>
     m_sequence m = sq + of_nat (length ms) + 1"
  by (induction ms arbitrary: sq) (auto simp: algebra_simps)

definition stamped :: "u64 \<times> Sequence \<Rightarrow> work \<Rightarrow> bool" where
  "stamped from w \<longleftrightarrow> stamps (fst from) (snd from) (b_updates (fst w)) \<and> e_epoch (snd w) = fst from \<and>
     e_sequence (snd w) = snd from + of_nat (length (b_updates (fst w)))"

lemma stamped_update: "stamped from (b, e) \<Longrightarrow> stamped from (engine_update m t (b, e))"
  by (simp add: stamped_def engine_update_def stamps_snoc Let_def)

lemma stamped_cong:
  "stamped from (b, e) \<Longrightarrow> b_updates b' = b_updates b \<Longrightarrow> e_epoch e' = e_epoch e \<Longrightarrow> e_sequence e' = e_sequence e \<Longrightarrow>
   stamped from (b', e')"
  by (simp add: stamped_def)

text \<open>What a command has published so far, from the state of the engine when it started.\<close>

type_synonym origin = "(u64 \<times> Sequence) \<times> market"

definition streams :: "origin \<Rightarrow> pending \<Rightarrow> work \<Rightarrow> bool" where
  "streams F p w \<longleftrightarrow> books_wf (e_books (snd w)) \<and> keyed (e_resting (snd w)) \<and> stamped (fst F) w \<and>
     (\<exists>G. feed_run (b_updates (fst w)) (snd F) = Some G \<and> stored p G = views (e_books (snd w)) \<and> pending_ok p G)"

lemma streams_report [simp]: "streams F p (engine_report m t r w) = streams F p w"
  by (simp add: streams_def stamped_def engine_report_def Let_def split: prod.splits)

lemma streams_reject [simp]: "streams F p (engine_reject c r w) = streams F p w"
  by (simp add: streams_def stamped_def engine_reject_def engine_report_def Let_def split: prod.splits)

lemma streams_cong:
  "streams F p (b, e) \<Longrightarrow> e_books e' = e_books e \<Longrightarrow> keyed (e_resting e') \<Longrightarrow> b_updates b' = b_updates b \<Longrightarrow>
   e_epoch e' = e_epoch e \<Longrightarrow> e_sequence e' = e_sequence e \<Longrightarrow> streams F p (b', e')"
  by (simp add: streams_def stamped_def)

text \<open>A book operation followed by its delta; whatever else changes, the owner table stays keyed.\<close>

lemma publish_commit:
  assumes st: "streams F p (b, e)" and rq: "spec_commit i ev (views (e_books e)) = Some (views bs)" "books_wf bs"
    and ev: "names ev oid" "avoids p oid"
    and m: "\<And>G G'. spec_commit i ev G = Some G' \<Longrightarrow> stored p G = views (e_books e) \<Longrightarrow> pending_ok p G \<Longrightarrow>
      feed_step (m\<lparr>m_update := t\<rparr>) G = Some G'"
    and e': "e_books e' = bs" "keyed (e_resting e')" "b_updates b' = b_updates b" "e_epoch e' = e_epoch e" "e_sequence e' = e_sequence e"
  shows "streams F p (engine_update m t (b', e'))"
proof -
  obtain G where G: "feed_run (b_updates b) (snd F) = Some G" "stored p G = views (e_books e)" "pending_ok p G"
    using st by (auto simp: streams_def)
  obtain G' where G': "spec_commit i ev G = Some G'" "views bs = stored p G'" "pending_ok p G'"
    using commit_pending [OF G(3) ev, of i "views bs"] rq(1) unfolding G(2) by blast
  have "feed_step (m\<lparr>m_kind := k, m_update := t, m_epoch := x, m_sequence := y, m_client_id := 0, m_request_id := 0,
      m_order_id := 0\<rparr>) G = Some G'" for k x y
    using m [OF G'(1) G(2,3)] by (cases t) (auto simp: feed_step_def Let_def split: option.splits if_splits)
  then show ?thesis
    using G(1) G'(2,3) rq(2) e' stamped_update [OF stamped_cong [OF _ e'(3-5)], of "fst F" m t] st
    by (simp add: streams_def) (simp add: engine_update_def feed_run_append Let_def)
qed

lemma publish_trade:
  assumes "streams F p (b, e)"
  shows "streams F p (engine_update m Upd_Trade (b, e))"
  using assms stamped_update [of "fst F" b e m Upd_Trade]
  by (auto simp: streams_def) (auto simp: engine_update_def feed_run_append feed_step_def Let_def)

section \<open>Cancel and reduce\<close>

lemma engine_cancel_streams:
  assumes st: "streams F None w" and ca: "engine_cancel h oid request w = Some w'"
  shows "streams F None w'"
proof -
  obtain b e where w: "w = (b, e)" by force
  obtain m0 where m0: "map_of (e_resting e) oid = Some m0" using ca by (auto simp: engine_cancel_def w split: bind_splits)
  let ?m = "m0\<lparr>m_request_id := request, m_remaining := 0\<rparr>"
  obtain e1 where e1: "book_require h (m_instrument_id m0) (CancelOrder oid) e = Some e1"
    using ca m0 by (auto simp: engine_cancel_def w Let_def split: bind_splits)
  obtain bs where bs: "e1 = e\<lparr>e_books := bs\<rparr>" "books_wf bs"
    "spec_commit (m_instrument_id m0) (CancelOrder oid) (views (e_books e)) = Some (views bs)"
    using require_exact [OF _ e1] st by (auto simp: streams_def w)
  have key: "keyed (e_resting e)" "m_exchange_id m0 = oid" using st m0 by (auto simp: streams_def keyed_def w)
  have pub: "streams F None (engine_update ?m Upd_Cancel (b, e1))"
  proof (rule publish_commit [OF st [unfolded w] bs(3,2), of oid])
    show "feed_step (?m\<lparr>m_update := Upd_Cancel\<rparr>) G = Some G'"
      if "spec_commit (m_instrument_id m0) (CancelOrder oid) G = Some G'" for G G'
      using that key(2) by (simp add: feed_step_def Let_def)
  qed (simp_all add: names_def avoids_def bs(1) key)
  obtain b2 e2 where w2: "engine_report ?m Rpt_Cancelled Rej_None (engine_update ?m Upd_Cancel (b, e1)) = (b2, e2)" by force
  have "streams F None (b2, e2)" using pub unfolding w2 [symmetric] by simp
  moreover have "w' = (b2, e2\<lparr>e_by_client := om_erase (m_client_id m0, m_order_id m0) (e_by_client e2),
      e_resting := om_erase oid (e_resting e2)\<rparr>)"
    using ca m0 e1 w2 by (simp add: engine_cancel_def w)
  ultimately show ?thesis by (auto intro!: streams_cong keyed_erase simp: streams_def stamped_def)
qed

lemma cancel_all_streams:
  "streams F None w \<Longrightarrow> cancel_all h ids request w = Some w' \<Longrightarrow> streams F None w'"
  by (induction ids arbitrary: w) (auto split: bind_splits dest: engine_cancel_streams)

lemma submit_reduce_streams:
  assumes st: "streams F None w" and re: "submit_reduce h c old_id old w = Some w'"
    and inv: "eng_inv (snd w)" and old: "map_of (e_resting (snd w)) old_id = Some old"
    and c: "m_instrument_id old = m_instrument_id c" "m_quantity c \<le> m_quantity old" "m_quantity c \<noteq> 0"
  shows "streams F None w'"
proof -
  obtain b e where w: "w = (b, e)" by force
  let ?i = "m_instrument_id c" and ?red = "m_quantity old - m_quantity c"
  let ?m = "c\<lparr>m_exchange_id := old_id, m_remaining := m_quantity c\<rparr>"
  let ?rs = "om_update old_id (\<lambda>o'. o'\<lparr>m_quantity := m_quantity c\<rparr>) (e_resting e)"
  have key: "keyed (e_resting e)" "keyed ?rs" using st by (auto simp: streams_def keyed_def w)
  show ?thesis
  proof (cases "?red = 0")
    case True
    then have "w' = engine_report ?m Rpt_Replaced Rej_None (b, e\<lparr>e_resting := ?rs\<rparr>)"
      using re by (simp add: submit_reduce_def w)
    then show ?thesis using st key(2) by (simp add: w) (erule streams_cong, simp_all)
  next
    case False
    obtain e1 where e1: "book_require h ?i (ExecuteOrder old_id ?red) e = Some e1"
      using re False by (auto simp: submit_reduce_def w Let_def split: bind_splits)
    obtain bs where bs: "e1 = e\<lparr>e_books := bs\<rparr>" "books_wf bs"
      "spec_commit ?i (ExecuteOrder old_id ?red) (views (e_books e)) = Some (views bs)"
      using require_exact [OF _ e1] st by (auto simp: streams_def w)
    note I = eng_invD [OF inv [unfolded w snd_conv]]
    obtain bk where bk: "map_of (e_books e) ?i = Some bk" using owned_contains [OF I(1)] old c(1) w by fastforce
    have found: "spec_find old_id (views (e_books e) ?i) = Some (owner_view old_id old)"
      using owned_book [OF I(1) bk, of old_id] bk old c(1) by (simp add: views_def owner_in_def w)
    have less: "\<not> m_quantity old \<le> m_quantity c" using False c(2) by auto
    have "streams F None (engine_update ?m Upd_Reduce (b, e1))"
    proof (rule publish_commit [OF st [unfolded w] bs(3,2), of old_id])
      show "feed_step (?m\<lparr>m_update := Upd_Reduce\<rparr>) G = Some G'"
        if "spec_commit ?i (ExecuteOrder old_id ?red) G = Some G'" "stored None G = views (e_books e)" for G G'
        using that found c(3) less by (simp add: feed_step_def Let_def stored_def)
    qed (simp_all add: names_def avoids_def bs(1) key)
    moreover obtain b1 e2 where u: "engine_update ?m Upd_Reduce (b, e1) = (b1, e2)" by force
    moreover have "e_resting e2 = e_resting e" using arg_cong [OF u, of "\<lambda>w. e_resting (snd w)"] by (simp add: bs(1))
    ultimately have "streams F None (b1, e2\<lparr>e_resting := om_update old_id (\<lambda>o'. o'\<lparr>m_quantity := m_quantity c\<rparr>) (e_resting e2)\<rparr>)"
      using key(2) by (simp add: streams_def stamped_def)
    then show ?thesis using re False e1 u by (auto simp: submit_reduce_def w Let_def)
  qed
qed

section \<open>Submitting\<close>

definition remainder_of :: "Message \<Rightarrow> OrderId \<Rightarrow> Quantity \<Rightarrow> pending" where
  "remainder_of c new_id leaves = (if rests c leaves then Some (m_instrument_id c,
     \<lparr>view_id = new_id, view_side = m_side c, view_price = m_price c, view_quantity = leaves\<rparr>) else None)"

lemma rest_streams:
  assumes st: "streams F None (b, e)" and inc: "m_exchange_id incoming = e_next_order e" and rest: "rests c leaves"
    and rr: "rest_remainder h c old_id incoming leaves e = Some x"
  shows "case x of Inl e1 \<Rightarrow> streams F None (b, e1)
    | Inr e1 \<Rightarrow> streams F (remainder_of c (e_next_order e) leaves) (b, e1) \<and> m_price c \<noteq> 0"
proof -
  let ?i = "m_instrument_id c" and ?new = "e_next_order e"
  let ?ev = "AddOrder ?new (m_side c) (m_price c) leaves"
  let ?v = "\<lparr>view_id = ?new, view_side = m_side c, view_price = m_price c, view_quantity = leaves\<rparr>"
  obtain G where G: "feed_run (b_updates b) (snd F) = Some G" "G = views (e_books e)"
    using st by (auto simp: streams_def stored_def)
  have wf: "books_wf (e_books e)" and key: "keyed (e_resting e)" using st by (auto simp: streams_def)
  define rs where "rs = om_emplace ?new (incoming\<lparr>m_quantity := leaves, m_remaining := leaves\<rparr>) (e_resting e)"
  have rs: "keyed rs" using key inc by (auto simp: rs_def om_emplace_def intro: keyed_put)
  obtain bk r b' where bk: "map_of (e_books e) ?i = Some bk" "apply_event h ?ev bk = Some (r, b')"
    using rr by (auto simp: rest_remainder_def book_apply_def Let_def split: bind_splits if_splits)
  note ex = commit_exact [OF wf bk]
  show ?thesis
  proof (cases "r = Ok")
    case False
    then have "\<exists>e1. x = Inl e1 \<and> e_books e1 = om_put (<) ?i b' (e_books e) \<and> e_resting e1 = om_erase ?new rs \<and>
        e_epoch e1 = e_epoch e \<and> e_sequence e1 = e_sequence e"
      using rr bk by (auto simp: rest_remainder_def book_apply_def Let_def rs_def split: if_splits)
    then show ?thesis
      using ex(1) ex(3) [OF False] G keyed_erase [OF rs] st by (auto simp: streams_def stamped_def stored_def pending_ok_def)
  next
    case True
    then obtain e1 where e1: "x = Inr e1" "e_books e1 = om_put (<) ?i b' (e_books e)" "e_resting e1 = rs"
      "e_epoch e1 = e_epoch e" "e_sequence e1 = e_sequence e"
      using rr bk by (auto simp: rest_remainder_def book_apply_def Let_def rs_def split: if_splits)
    have sp: "spec_apply True ?ev (G ?i) = (Ok, views (om_put (<) ?i b' (e_books e)) ?i)"
      "views (om_put (<) ?i b' (e_books e)) = G(?i := views (om_put (<) ?i b' (e_books e)) ?i)"
      using ex(2) [OF True] unfolding G(2) by (auto simp: spec_commit_def split: prod.splits if_splits) (metis fun_upd_same)+
    have parts: "m_price c \<noteq> 0" "m_side c \<noteq> Side_Other" "spec_find ?new (G ?i) = None"
      "views (om_put (<) ?i b' (e_books e)) ?i = spec_insert ?v (G ?i)"
      using sp(1) by (auto simp: spec_apply_def split: if_splits)
    have "ranked (G ?i)"
      using lob.view_ok [of bk] wf bk(1) by (auto simp: G(2) views_def books_wf_def intro!: abs_ok_ranked)
    moreover have "stored (remainder_of c ?new leaves) G = views (om_put (<) ?i b' (e_books e))"
      using rest by (subst sp(2)) (simp add: remainder_of_def stored_def parts(4))
    ultimately show ?thesis
      using rest ex(1) rs G(1) parts e1 st by (auto simp: streams_def stamped_def remainder_of_def pending_ok_def)
  qed
qed

lemma retire_streams:
  assumes st: "streams F p (b, e)" and re: "retire_old h c old_id new_id k (b, e) = Some w'"
    and av: "avoids p old_id" and i: "map_of (e_resting e) old_id = Some old" "m_instrument_id old = m_instrument_id c"
  shows "streams F p w'"
proof -
  obtain e1 where e1: "book_require h (m_instrument_id c) (CancelOrder old_id) e = Some e1"
    using re i by (auto simp: retire_old_def Let_def split: bind_splits)
  obtain bs where bs: "e1 = e\<lparr>e_books := bs\<rparr>" "books_wf bs"
    "spec_commit (m_instrument_id c) (CancelOrder old_id) (views (e_books e)) = Some (views bs)"
    using require_exact [OF _ e1] st by (auto simp: streams_def)
  have key: "keyed (e_resting e)" "m_exchange_id old = old_id" using st i(1) by (auto simp: streams_def keyed_def)
  have "streams F p (engine_update old Upd_Cancel (b, e1))"
  proof (rule publish_commit [OF st bs(3,2), of old_id])
    show "feed_step (old\<lparr>m_update := Upd_Cancel\<rparr>) G = Some G'"
      if "spec_commit (m_instrument_id c) (CancelOrder old_id) G = Some G'" for G G'
      using that key(2) i(2) by (simp add: feed_step_def Let_def)
  qed (simp_all add: names_def av bs(1) key)
  moreover obtain b2 e2 where u: "engine_update old Upd_Cancel (b, e1) = (b2, e2)" by force
  moreover have "e_resting e2 = e_resting e" using arg_cong [OF u, of "\<lambda>w. e_resting (snd w)"] by (simp add: bs(1))
  moreover have "\<exists>bc. w' = (b2, e2\<lparr>e_resting := om_erase old_id (e_resting e2), e_by_client := bc\<rparr>)"
    using re i(1) e1 u by (auto simp: retire_old_def Let_def split: if_splits)
  ultimately show ?thesis using keyed_erase [OF key(1)] by (auto simp: streams_def stamped_def)
qed

lemma fill_one_streams:
  assumes st: "streams F p (b, e)" and ok: "fill_ok c (e_resting e) f" and av: "avoids p (fill_id f)"
    and fo: "fill_one h c incoming f (leaves, b, e) = Some (l', w')"
  shows "streams F p w'"
proof -
  obtain m where m: "map_of (e_resting e) (fill_id f) = Some m" "m_instrument_id m = m_instrument_id c"
    using ok by (auto simp: fill_ok_def)
  let ?maker = "m\<lparr>m_quantity := m_quantity m - fill_size f\<rparr>"
  let ?rs = "om_put (<) (fill_id f) ?maker (e_resting e)"
  have key: "m_exchange_id m = fill_id f" "keyed ?rs" using st m by (auto simp: streams_def keyed_def)
  obtain e2 where e2: "book_require h (m_instrument_id c) (ExecuteOrder (fill_id f) (fill_size f)) (e\<lparr>e_resting := ?rs\<rparr>) = Some e2"
    using fo m by (auto simp: fill_one_def Let_def split: bind_splits)
  obtain bs where bs: "e2 = e\<lparr>e_resting := ?rs, e_books := bs\<rparr>" "books_wf bs"
    "spec_commit (m_instrument_id c) (ExecuteOrder (fill_id f) (fill_size f)) (views (e_books e)) = Some (views bs)"
    using require_exact [OF _ e2] st by (auto simp: streams_def)
  let ?x = "?maker\<lparr>m_quantity := fill_size f, m_remaining := m_quantity ?maker, m_trade_id := e_next_trade e2\<rparr>"
  obtain b3 e3 where w3: "engine_update ?x Upd_Execute (engine_report ?x Rpt_Fill Rej_None (b, e2)) = (b3, e3)" by force
  obtain b2 where r2: "engine_report ?x Rpt_Fill Rej_None (b, e2) = (b2, e2\<lparr>e_response_sequence := e_response_sequence e2 + 1\<rparr>)"
    "b_updates b2 = b_updates b" by (simp add: engine_report_def Let_def)
  have st3: "streams F p (b3, e3)"
    unfolding w3 [symmetric] r2(1)
  proof (rule publish_commit [OF st bs(3,2), of "fill_id f"])
    show "feed_step (?x\<lparr>m_update := Upd_Execute\<rparr>) G = Some G'"
      if "spec_commit (m_instrument_id c) (ExecuteOrder (fill_id f) (fill_size f)) G = Some G'" for G G'
      using that key(1) m(2) by (simp add: feed_step_def Let_def)
  qed (simp_all add: names_def av bs(1) key r2(2))
  let ?t = "incoming\<lparr>m_price := fill_price f, m_quantity := fill_size f, m_remaining := leaves - fill_size f, m_trade_id := e_next_trade e3\<rparr>"
  obtain b5 e5 where w5: "engine_update ?t Upd_Trade (engine_report ?t Rpt_Fill Rej_None (b3, e3\<lparr>e_next_trade := e_next_trade e3 + 1\<rparr>)) = (b5, e5)"
    by force
  have "streams F p (engine_report ?t Rpt_Fill Rej_None (b3, e3\<lparr>e_next_trade := e_next_trade e3 + 1\<rparr>))"
    unfolding streams_report using st3 by (simp add: streams_def stamped_def)
  then have st5: "streams F p (b5, e5)" using publish_trade [of F p] unfolding w5 [symmetric] by (metis surj_pair)
  obtain e6 where e6: "fill_positions c ?maker f e5 = Some e6"
    using fo m e2 w3 w5 by (auto simp: fill_one_def Let_def split: bind_splits)
  have "e_books e6 = e_books e5 \<and> e_resting e6 = e_resting e5 \<and> e_epoch e6 = e_epoch e5 \<and> e_sequence e6 = e_sequence e5"
    using e6 by (auto simp: fill_positions_def Let_def split: bind_splits)
  moreover have "\<exists>e'. w' = (b5, e') \<and> e_books e' = e_books e6 \<and> e_resting e' \<in> {e_resting e6, om_erase (fill_id f) (e_resting e6)} \<and>
      e_epoch e' = e_epoch e6 \<and> e_sequence e' = e_sequence e6"
    using fo m e2 w3 w5 e6 by (auto simp: fill_one_def Let_def)
  ultimately show ?thesis
    using st5 keyed_erase by (auto simp: streams_def stamped_def)
qed

lemma fill_all_streams:
  "streams F p (b, e) \<Longrightarrow> filling c fs e \<Longrightarrow> \<forall>f \<in> set fs. avoids p (fill_id f) \<Longrightarrow>
   fill_all h c incoming fs (leaves, b, e) = Some (l', w') \<Longrightarrow> streams F p w'"
proof (induction fs arbitrary: b e leaves)
  case (Cons f fs)
  obtain b1 e1 where s: "fill_one h c incoming f (leaves, b, e) = Some (leaves - fill_size f, b1, e1)" "filling c fs e1"
    using fill_one_step [OF Cons.prems(2)] by blast
  have "streams F p (b1, e1)"
    using fill_one_streams [OF Cons.prems(1) _ _ s(1)] Cons.prems(2,3) by (simp add: filling_def)
  then show ?case using Cons.IH [of b1 e1 "leaves - fill_size f"] s Cons.prems(3,4) by simp
qed simp

lemma close_streams:
  assumes st: "streams F (remainder_of c n leaves) w" and price: "rests c leaves \<Longrightarrow> m_price c \<noteq> 0"
  shows "streams F None (commit_close c n leaves w)"
proof (cases "rests c leaves")
  case True
  obtain b e where w: "w = (b, e)" by force
  let ?i = "m_instrument_id c"
  let ?v = "\<lparr>view_id = n, view_side = m_side c, view_price = m_price c, view_quantity = leaves\<rparr>"
  let ?m = "(incoming_of c n)\<lparr>m_quantity := leaves, m_remaining := leaves\<rparr>"
  obtain G where G: "feed_run (b_updates b) (snd F) = Some G" "G(?i := spec_insert ?v (G ?i)) = views (e_books e)"
    "m_side c \<noteq> Side_Other" "spec_find n (G ?i) = None"
    using st True by (auto simp: streams_def remainder_of_def stored_def pending_ok_def w)
  have "spec_commit ?i (AddOrder n (m_side c) (m_price c) leaves) G = Some (views (e_books e))"
    using G price True by (simp add: spec_commit_def spec_apply_def rests_def)
  then have "feed_step (?m\<lparr>m_kind := k, m_update := Upd_Add, m_epoch := x, m_sequence := y, m_client_id := 0,
      m_request_id := 0, m_order_id := 0\<rparr>) G = Some (views (e_books e))" for k x y
    by (simp add: feed_step_def incoming_of_def Let_def)
  then show ?thesis
    using st True G(1) stamped_update [of "fst F" b e ?m Upd_Add]
    by (simp add: commit_close_def streams_def w) (simp add: engine_update_def feed_run_append stored_def pending_ok_def Let_def)
next
  case False
  then show ?thesis using st by (simp add: commit_close_def remainder_of_def)
qed

lemma start_streams:
  assumes S: "submits e c old_id r" and st: "streams F None (b, e)"
    and cs: "commit_start h c old_id leaves (b, e) = Some y"
  shows "case y of Inl w \<Rightarrow> streams F None w
    | Inr w \<Rightarrow> streams F (remainder_of c (e_next_order e) leaves) w \<and> (rests c leaves \<longrightarrow> m_price c \<noteq> 0)"
proof -
  note D = submitsD [OF S]
  let ?new = "e_next_order e" and ?p = "remainder_of c (e_next_order e) leaves"
  let ?inc = "incoming_of c ?new"
  define e0 where "e0 = e\<lparr>e_positions := om_emplace (m_client_id c, m_instrument_id c) flat_position (e_positions e)\<rparr>"
  have st0: "streams F None (b, e0)" "m_exchange_id ?inc = e_next_order e0"
    using st by (simp_all add: streams_def stamped_def e0_def incoming_of_def)
  note cs = cs [unfolded commit_start_def Let_def prod.case, folded e0_def]
  obtain x where x: "(if rests c leaves then rest_remainder h c old_id ?inc leaves e0 else Some (Inr e0)) = Some x"
    using cs by (auto split: option.splits)
  have xs: "case x of Inl e1 \<Rightarrow> streams F None (b, e1)
      | Inr e1 \<Rightarrow> streams F ?p (b, e1) \<and> (rests c leaves \<longrightarrow> m_price c \<noteq> 0)"
    using rest_streams [OF st0, of c leaves h old_id x] x st0(1)
    by (auto simp: e0_def remainder_of_def split: if_splits sum.splits)
  show ?thesis
  proof (cases x)
    case (Inl e1)
    then show ?thesis using cs x xs by (auto split: if_splits)
  next
    case (Inr e1)
    have av: "avoids ?p oid" if "om_contains (e_resting e) oid" for oid
      using that D(9) by (auto simp: avoids_def remainder_of_def)
    let ?e2 = "e1\<lparr>e_next_order := e_next_order e1 + 1\<rparr>"
    have st2: "streams F ?p (b, ?e2)" using xs by (simp add: Inr streams_def stamped_def)
    have rs1: "map_of (e_resting e1) oid = map_of (e_resting e) oid" if "oid \<noteq> ?new" for oid
      using x that by (auto simp: Inr rest_remainder_def book_apply_def Let_def e0_def om_emplace_def
          split: if_splits bind_splits prod.splits)
    obtain b3 e3 where w3: "(if old_id \<noteq> 0 then retire_old h c old_id ?new (rests c leaves) (b, ?e2) else Some (b, ?e2)) = Some (b3, e3)"
      using cs x by (auto simp: Inr split: option.splits)
    have st3: "streams F ?p (b3, e3)"
    proof (cases "old_id = 0")
      case False
      then obtain old where old: "map_of (e_resting e) old_id = Some old" "m_instrument_id old = m_instrument_id c"
        using D(4) by (auto simp: replaces_def)
      show ?thesis
        using retire_streams [OF st2 _ av, of h c old_id ?new "rests c leaves"] w3 False old rs1 D(10) by simp
    qed (use w3 st2 in simp)
    obtain st' where st': "y = Inr (engine_report ?inc (if old_id = 0 then Rpt_Accepted else Rpt_Replaced) Rej_None (b3,
      e3\<lparr>e_clients := om_put (<) (m_client_id c) (st'\<lparr>cs_max_order_id := max (cs_max_order_id st') (m_order_id c)\<rparr>) (e_clients e3)\<rparr>))"
      using cs unfolding x option.case Inr sum.case w3 prod.case by blast
    show ?thesis unfolding st' sum.case streams_report using st3 xs by (simp add: streams_def stamped_def Inr)
  qed
qed

lemma submit_commit_streams:
  assumes S: "submits e c old_id r"
    and plan: "plan_ok e c vs (m_quantity c) fs leaves Rej_None"
    and st: "streams F None (b, e)" and co: "submit_commit h c old_id fs leaves (b, e) = Some w'"
  shows "streams F None w'"
proof -
  let ?inc = "incoming_of c (e_next_order e)" and ?p = "remainder_of c (e_next_order e) leaves"
  obtain y where y: "commit_start h c old_id leaves (b, e) = Some y"
    using co unfolding submit_commit_start by (auto split: option.splits)
  show ?thesis
  proof (cases y)
    case (Inl w)
    then show ?thesis using start_streams [OF S st y] co y by (simp add: submit_commit_start)
  next
    case (Inr w)
    obtain l' w6 where w6: "fill_all h c ?inc fs (m_quantity c, w) = Some (l', w6)" "w' = commit_close c (e_next_order e) leaves w6"
      using co unfolding submit_commit_start y Inr by (auto split: option.splits)
    have "entry e c old_id leaves (snd w)" using submit_commit_entry [OF S, of h fs leaves b] y Inr by auto
    then have "filling c fs (snd w)" by (rule entry_filling [OF S _ plan])
    moreover have "\<forall>f \<in> set fs. avoids ?p (fill_id f)"
      using plan submitsD(9) [OF S] by (auto simp: plan_ok_def fill_ok_def avoids_def remainder_of_def)
    ultimately have "streams F ?p w6"
      using fill_all_streams [of F ?p "fst w" "snd w" c fs h ?inc "m_quantity c" l' w6] start_streams [OF S st y] w6(1)
      by (simp add: Inr)
    then show ?thesis unfolding w6(2) using start_streams [OF S st y] by (intro close_streams) (simp_all add: Inr)
  qed
qed

lemma submit_match_streams:
  assumes S: "submits e c old_id r" and st: "streams F None (b, e)" and ma: "submit_match h c old_id (b, e) = Some w'"
  shows "streams F None w'"
proof -
  note D = submitsD [OF S] and I = eng_invD [OF submitsD(1) [OF S]]
  obtain bk where bk: "map_of (e_books e) (m_instrument_id c) = Some bk" using D(13) by blast
  obtain fs leaves rej where p: "submit_plan e c = Some (fs, leaves, rej)"
    "plan_ok e c (book_orders bk (opposite (m_side c))) (m_quantity c) fs leaves rej"
    using submit_plan_ok [OF I(1) bk D(5,6)] by blast
  show ?thesis
    using p ma st submit_commit_streams [OF S _ st, of _ fs leaves h w'] by (auto simp: submit_match_def split: if_splits)
qed

lemma engine_submit_streams:
  assumes inv: "eng_inv e" and nxt: "e_next_order e + 1 \<noteq> 0"
    and old: "old_id \<noteq> 0 \<Longrightarrow> \<exists>old. map_of (e_resting e) old_id = Some old \<and> m_client_id old = m_client_id c \<and>
      m_order_id old = m_order_id c \<and> m_instrument_id old = m_instrument_id c"
    and st: "streams F None (b, e)" and su: "engine_submit h c old_id (b, e) = Some w'"
  shows "streams F None w'"
proof -
  obtain checked where ch: "submit_check e c old_id = Some checked" using su by (auto simp: engine_submit_def split: bind_splits)
  show ?thesis
  proof (cases checked)
    case (Some reason)
    then show ?thesis using su ch st by (auto simp: engine_submit_def)
  next
    case None
    then obtain r where acc: "accepted e c old_id r" using submit_check_accepted ch by blast
    have sub: "submits e c old_id r" if "old_id \<noteq> 0 \<Longrightarrow> m_side (the (map_of (e_resting e) old_id)) = m_side c"
      using inv acc nxt old that by (force simp: submits_def replaces_def)
    have q: "m_quantity c \<noteq> 0" using acc by (simp add: accepted_def)
    show ?thesis
    proof (cases "old_id = 0")
      case True
      then show ?thesis using submit_match_streams [OF sub st, of h w'] su ch None by (auto simp: engine_submit_def split: if_splits)
    next
      case False
      then obtain o' where o': "map_of (e_resting e) old_id = Some o'" "m_instrument_id o' = m_instrument_id c"
        using old by blast
      have "submit_reduce h c old_id o' (b, e) = Some w' \<Longrightarrow> m_quantity c \<le> m_quantity o' \<Longrightarrow> streams F None w'"
        using submit_reduce_streams [OF st, of h c old_id o' w'] inv o' q by simp
      moreover have "submit_match h c old_id (b, e) = Some w' \<Longrightarrow> m_side o' = m_side c \<Longrightarrow> streams F None w'"
        using submit_match_streams [OF sub st, of h w'] o' by simp
      ultimately show ?thesis
        using su ch None False o' st by (auto simp: engine_submit_def split: if_splits)
    qed
  qed
qed

section \<open>Commands\<close>

lemma engine_dispatch_streams:
  assumes inv: "eng_inv e" and nxt: "e_next_order e + 1 \<noteq> 0"
    and st: "streams F None (b, e)" and di: "engine_dispatch h c (b, e) = Some w'"
  shows "streams F None w'"
proof -
  have known: "\<exists>m. map_of (e_resting e) oid = Some m \<and> m_client_id m = m_client_id c \<and> m_order_id m = m_order_id c"
    if "map_of (e_by_client e) (m_client_id c, m_order_id c) = Some oid" for oid
    using eng_invD(4) [OF inv] that by (auto simp: indexed_def)
  have new: "engine_submit h c 0 (b, e) = Some w' \<Longrightarrow> streams F None w'"
    by (rule engine_submit_streams [OF inv nxt _ st, of 0 c h]) simp_all
  have replace: "streams F None w'" if "engine_submit h c oid (b, e) = Some w'" "map_of (e_resting e) oid = Some m"
    "m_client_id m = m_client_id c" "m_order_id m = m_order_id c" "m_instrument_id m = m_instrument_id c" for oid m
    using that by (intro engine_submit_streams [OF inv nxt _ st, of oid c h w']) auto
  show ?thesis
  proof (cases "map_of (e_by_client e) (m_client_id c, m_order_id c)")
    case None
    then show ?thesis using di new cancel_all_streams [OF st] st by (auto simp: engine_dispatch_def split: if_splits)
  next
    case (Some oid)
    then obtain m where m: "map_of (e_resting e) oid = Some m" "m_client_id m = m_client_id c" "m_order_id m = m_order_id c"
      using known by blast
    show ?thesis
      using di Some m new replace [OF _ m] engine_cancel_streams [OF st] cancel_all_streams [OF st] st
      by (auto simp: engine_dispatch_def split: if_splits)
  qed
qed

lemma engine_complete_streams:
  assumes st: "streams F None w" and co: "engine_complete c w = Some w'"
  shows "streams F None w'"
proof -
  obtain m b e cs where "engine_report m Rpt_Complete Rej_None w = (b, e)" "w' = (b, e\<lparr>e_clients := cs\<rparr>)"
    using co by (auto simp: engine_complete_def split: bind_splits option.splits prod.splits)
  then show ?thesis using st streams_report [of F None m Rpt_Complete Rej_None w] by (simp add: streams_def stamped_def)
qed

lemma engine_process_streams:
  assumes inv: "eng_inv e" and nxt: "e_next_order e + 1 \<noteq> 0" and key: "keyed (e_resting e)"
    and pr: "engine_process h c e = Some w'"
  shows "streams ((e_epoch e, e_sequence e), views (e_books e)) None w'"
proof -
  let ?F = "((e_epoch e, e_sequence e), views (e_books e))"
  let ?e1 = "e\<lparr>e_clients := om_emplace (m_client_id c) new_client (e_clients e)\<rparr>"
  let ?e2 = "?e1\<lparr>e_stats := (e_stats ?e1)\<lparr>st_commands := st_commands (e_stats ?e1) + 1\<rparr>\<rparr>"
  have wf: "books_wf (e_books e)" using eng_invD(1) [OF inv] by (auto simp: books_wf_def owned_books_def)
  have st: "streams ?F None (\<lparr>b_reports = rs, b_updates = []\<rparr>, e')" if "e_books e' = e_books e" "e_resting e' = e_resting e" "e_epoch e' = e_epoch e" "e_sequence e' = e_sequence e" for e' rs
    using that wf key by (simp add: streams_def stamped_def stored_def pending_ok_def)
  have step: "streams ?F None w'" if run: "(do { w2 \<leftarrow> engine_dispatch h c (\<lparr>b_reports = [], b_updates = []\<rparr>, ?e2); engine_complete c w2 }) = Some w'"
  proof -
    obtain w2 where w2: "engine_dispatch h c (\<lparr>b_reports = [], b_updates = []\<rparr>, ?e2) = Some w2" "engine_complete c w2 = Some w'"
      using run unfolding bind_eq_Some_conv by blast
    have "streams ?F None w2"
      by (rule engine_dispatch_streams [OF _ _ _ w2(1)]) (use eng_inv_register [OF inv] nxt st in simp_all)
    then show ?thesis using engine_complete_streams w2(2) by blast
  qed
  show ?thesis
    using pr st step unfolding engine_process_def Let_def by (auto split: if_splits option.splits)
qed

lemma reachable_keyed: "engine_reachable ins n e \<Longrightarrow> keyed (e_resting e)"
proof (induction rule: engine_reachable.induct)
  case (engine_new blocks ins epoch e)
  then show ?case by (auto simp: MatchingEngine_new_def keyed_def split: if_splits bind_splits)
next
  case (engine_step ins n e h c b e')
  then show ?case
    using engine_process_streams [of e h c "(b, e')"] reachable_inv [of ins n e] reachable_next [of ins n e] by (auto simp: streams_def)
qed

lemma process_streams:
  assumes "engine_reachable ins n e" "n < 2 ^ 64 - 2" "engine_process h c e = Some (b, e')"
  shows "feed_run (b_updates b) (views (e_books e)) = Some (views (e_books e')) \<and>
    stamps (e_epoch e) (e_sequence e) (b_updates b) \<and> e_epoch e' = e_epoch e \<and>
    e_sequence e' = e_sequence e + of_nat (length (b_updates b))"
  using engine_process_streams [OF _ _ reachable_keyed [OF assms(1)] assms(3)] reachable_inv [OF assms(1)] reachable_next [OF assms(1,2)]
  by (auto simp: streams_def stamped_def stored_def)

text \<open>
  C16. The published stream is exact: applied in order to the price-time lists of every instrument before
  a command, the updates of the command are all applicable and give exactly the lists after it. A new
  order is stored before its fills and published after them; a replace publishes the old order's end
  first; a rejected command publishes nothing that changes a book.
\<close>

theorem update_stream_exact:
  assumes "engine_reachable ins n e" "n < 2 ^ 64 - 2" "engine_process h c e = Some (b, e')"
  shows "feed_run (b_updates b) (views (e_books e)) = Some (views (e_books e')) \<and>
    stamps (e_epoch e) (e_sequence e) (b_updates b) \<and> e_epoch e' = e_epoch e \<and>
    e_sequence e' = e_sequence e + of_nat (length (b_updates b))"
  by (rule process_streams [OF assms])

theorem update_stream_exact_witness:
  "\<exists>b e'. engine_process demo_heap demo_command demo_engine = Some (b, e') \<and>
    feed_run (b_updates b) (views (e_books demo_engine)) = Some (views (e_books e'))"
proof -
  obtain b e' where "engine_process demo_heap demo_command demo_engine = Some (b, e')"
    using engine_process_inv [of demo_engine demo_heap demo_command] reachable_inv [OF demo_engine_reachable]
      reachable_next [OF demo_engine_reachable] by (auto simp: advances_def)
  then show ?thesis using update_stream_exact [OF demo_engine_reachable] by auto
qed

end
