(* ===== verification/Order_Book_Check.thy ===== *)
theory Order_Book_Check
  imports Order_Book_Theorems
begin

text \<open>
  The consistency check of the order book. \<open>validate_invariants\<close> accepts every reachable book; so a
  failed check at run time means memory was corrupted from outside, never that an operation broke
  the book.
\<close>

section \<open>Walking one level\<close>

definition order_ids :: "OrderBook \<Rightarrow> nat list \<Rightarrow> OrderId list" where
  "order_ids b as = map (\<lambda>a. entry_order_id (entry_at b a)) as"

lemma order_ids_simps [simp]:
  "order_ids b [] = []" "order_ids b (a # as) = entry_order_id (entry_at b a) # order_ids b as"
  "order_ids b (as @ bs) = order_ids b as @ order_ids b bs"
  by (simp_all add: order_ids_def)

lemma level_sum_simps [simp]:
  "level_sum b [] = 0" "level_sum b (a # as) = ucast (entry_remaining (entry_at b a)) + level_sum b as"
  by (simp_all add: level_sum_def)

lemma no_overflow:
  assumes "unat computed + unat q < 2 ^ 64"
  shows "\<not> - 1 - ucast (q::Quantity) < (computed::u64)" "unat (computed + ucast q) = unat computed + unat q"
proof -
  have "unat (- 1 :: u64) = 2 ^ 64 - 1" by (simp add: unsigned_minus_1_eq_mask mask_eq_exp_minus_1)
  then have "unat (- 1 - ucast q :: u64) = 2 ^ 64 - 1 - unat q"
    using unat_sub [of "ucast q :: u64" "- 1"] by (simp add: unat_ucast_u64)
  then show "\<not> - 1 - ucast q < computed" using assms by (simp add: word_less_nat_alt)
  show "unat (computed + ucast q) = unat computed + unat q"
    using assms by (simp add: unat_word_ariths unat_ucast_u64)
qed

lemma validate_orders_ok:
  assumes "\<forall>a \<in> set as. order_ok b s price a" "distinct (order_ids b as)" "set (order_ids b as) \<inter> set seen = {}"
    and "unat computed + (\<Sum>a \<leftarrow> as. unat (entry_remaining (entry_at b a))) < 2 ^ 64"
  shows "validate_orders b s price as (seen, count, computed) =
    Inr (rev (order_ids b as) @ seen, count + length as, computed + level_sum b as)"
  using assms
proof (induction as arbitrary: seen count computed)
  case (Cons a as)
  let ?q = "entry_remaining (entry_at b a)"
  have ok: "?q \<noteq> 0" "map_of (orders_by_id b) (entry_order_id (entry_at b a)) =
      Some \<lparr>loc_side = s, loc_price = price, loc_iterator = a\<rparr>"
    using Cons.prems(1) by (auto simp: order_ok_def entry_at_def split: option.splits)
  have sum: "unat computed + unat ?q < 2 ^ 64"
    "unat (computed + ucast ?q) + (\<Sum>a \<leftarrow> as. unat (entry_remaining (entry_at b a))) < 2 ^ 64"
    using Cons.prems(4) no_overflow(2) [of computed ?q] by auto
  have new: "entry_order_id (entry_at b a) \<notin> set seen" using Cons.prems(3) by auto
  have "validate_orders b s price as (entry_order_id (entry_at b a) # seen, Suc count, computed + ucast ?q) =
      Inr (rev (order_ids b as) @ entry_order_id (entry_at b a) # seen, Suc count + length as,
        computed + ucast ?q + level_sum b as)"
    using Cons.prems sum(2) by (intro Cons.IH) auto
  then show ?case using ok new no_overflow(1) [OF sum(1)] by (simp add: Let_def add.assoc)
qed simp

section \<open>Walking a side\<close>

definition first_price :: "price_levels \<Rightarrow> Price option" where
  "first_price ls = map_option fst (head ls)"

lemma validate_levels_ok:
  assumes "\<forall>(price, l) \<in> set ls. level_ok b s price l \<and> length (level_orders l) \<le> 2 ^ 32"
    and "om_sorted (side_lt s) ls" "s \<noteq> Side_Other"
    and "distinct (order_ids b (level_nodes ls))" "set (order_ids b (level_nodes ls)) \<inter> set seen = {}"
    and "\<forall>q. best = Some q \<longrightarrow> (\<forall>(price, l) \<in> set ls. side_lt s q price)"
  shows "validate_levels b s ls (seen, count, best) = Inr (rev (order_ids b (level_nodes ls)) @ seen,
    count + length (level_nodes ls), if best = None then first_price ls else best)"
  using assms
proof (induction ls arbitrary: seen count best)
  case Nil
  then show ?case by (simp add: level_nodes_def first_price_def head_def)
next
  case (Cons x ls)
  obtain price l where x: "x = (price, l)" by force
  let ?best = "if best = None then Some price else best"
  have l: "price \<noteq> 0" "level_orders l \<noteq> []" "\<forall>a \<in> set (level_orders l). order_ok b s price a"
    "level_aggregate l = level_sum b (level_orders l)" "length (level_orders l) \<le> 2 ^ 32"
    using Cons.prems(1) by (auto simp: x level_ok_def)
  have nodes: "level_nodes (x # ls) = level_orders l @ level_nodes ls" by (simp add: x level_nodes_def)
  have walk: "validate_orders b s price (level_orders l) (seen, count, 0) =
      Inr (rev (order_ids b (level_orders l)) @ seen, count + length (level_orders l), level_sum b (level_orders l))"
    using validate_orders_ok [OF l(3), of seen 0 count] Cons.prems(4,5)
      quantity_sum_bound [of "map (\<lambda>a. entry_remaining (entry_at b a)) (level_orders l)"] l(5)
    by (auto simp: nodes o_def)
  have best: "(case best of None \<Rightarrow> Some price
      | Some q \<Rightarrow> if (if s = Bid then q < price else price < q) then Some price else Some q) = ?best"
    using Cons.prems(3,6) by (auto simp: x side_lt_def split: option.splits if_splits)
  have "validate_levels b s ls (rev (order_ids b (level_orders l)) @ seen, count + length (level_orders l), ?best) =
      Inr (rev (order_ids b (level_nodes ls)) @ rev (order_ids b (level_orders l)) @ seen,
        count + length (level_orders l) + length (level_nodes ls), if ?best = None then first_price ls else ?best)"
    using Cons.prems(1-3,6) Cons.prems(4,5) [unfolded nodes]
    by (intro Cons.IH) (auto simp: x om_sorted_def)
  then show ?case
    using l walk best by (simp add: x nodes [unfolded x] Let_def first_price_def head_def)
qed

section \<open>The check\<close>

lemma validate_accepts:
  assumes wf: "wf_core b" and few: "order_count b \<le> 2 ^ 32"
  shows "validate_invariants b = Inr ()"
proof -
  let ?bn = "level_nodes (bids b)" and ?an = "level_nodes (asks b)"
  have ids: "order_ids b (level_nodes ls) = map view_id (visit_orders b s ls)" for ls s
    by (induction ls) (auto simp: level_nodes_def order_ids_def)
  have dist: "distinct (order_ids b ?bn @ order_ids b ?an)"
    using inj_view_ids [OF wf] unfolding ids [of "bids b" Bid] ids [of "asks b" Ask] by (simp add: book_orders_def)
  have ok: "\<forall>(price, l) \<in> set (levels_of s b). level_ok b s price l \<and> length (level_orders l) \<le> 2 ^ 32"
    if "s \<noteq> Side_Other" for s
    using level_entry [OF wf that] queue_length_le [OF wf that] few by fastforce
  have len: "length ?bn + length ?an = order_count b"
    using card_nodes(2) [OF wf] by (simp add: book_orders_def flip: length_map [of view_id] ids) (simp add: order_ids_def)
  have bid: "validate_levels b Bid (bids b) ([], 0, None) =
      Inr (rev (order_ids b ?bn), length ?bn, first_price (bids b))"
    using validate_levels_ok [of "bids b" b Bid "[]" None 0] ok [of Bid] dist levels_sorted [OF wf, of Bid]
    by (simp add: levels_of_def)
  have ask: "validate_levels b Ask (asks b) (rev (order_ids b ?bn), length ?bn, None) =
      Inr (rev (order_ids b ?an) @ rev (order_ids b ?bn), length ?bn + length ?an, first_price (asks b))"
    using validate_levels_ok [of "asks b" b Ask "rev (order_ids b ?bn)" None "length ?bn"] ok [of Ask] dist
      levels_sorted [OF wf, of Ask]
    by (auto simp: levels_of_def)
  have "oid \<in> set (order_ids b ?an) \<union> set (order_ids b ?bn)" if oid: "oid \<in> fst ` set (orders_by_id b)" for oid
  proof -
    obtain loc where loc: "map_of (orders_by_id b) oid = Some loc"
      using oid by (metis map_of_eq_None_iff not_None_eq)
    then obtain l e where "map_of (levels_of (loc_side loc) b) (loc_price loc) = Some l" "loc_side loc \<noteq> Side_Other"
      "loc_iterator loc \<in> set (level_orders l)" "map_of (nodes b) (loc_iterator loc) = Some e" "entry_order_id e = oid"
      using wf_indexD [OF wf loc] by (auto simp: index_ok_def)
    then have "loc_iterator loc \<in> set ?bn \<union> set ?an" "entry_order_id (entry_at b (loc_iterator loc)) = oid"
      by (auto simp: level_nodes_def levels_of_def entry_at_def split: if_splits dest!: map_of_eq_Some_in_set)
    then show ?thesis by (auto simp: order_ids_def)
  qed
  then have "find (\<lambda>oid. oid \<notin> set (rev (order_ids b ?an) @ rev (order_ids b ?bn))) (map fst (orders_by_id b)) = None"
    by (auto simp: find_None_iff)
  moreover have "best_bid b = first_price (bids b)" "best_ask b = first_price (asks b)"
    by (auto simp: best_bid_def best_ask_def first_price_def head_def split: list.splits)
  ultimately show ?thesis using bid ask len by (simp add: validate_invariants_def order_count_def)
qed

text \<open>
  \<open>validate_invariants\<close> accepts every reachable book of at most \<open>2 ^ 32\<close> orders: no zero quantity,
  no order in two levels, no aggregate that overflows or differs from its orders, index and levels
  matching both ways, and the best prices the extreme ones.
\<close>

theorem reachable_book_valid:
  assumes "book_reachable b" "order_count b \<le> 2 ^ 32"
  shows "validate_invariants b = Inr ()"
  by (rule validate_accepts [OF reachable_core [OF assms(1)] assms(2)])

theorem reachable_book_valid_witness: "validate_invariants demo_book = Inr ()"
  using reachable_book_valid [OF demo_reachable] by (simp add: demo_count)

end
