(* ===== verification/Engine_Check.thy ===== *)
theory Engine_Check
  imports Engine_Orders Order_Book_Check
begin

text \<open>
  The engine's own consistency check and its snapshot. \<open>validate_invariants\<close> of the engine accepts
  every reachable engine, and the snapshot it publishes is exactly the owner table without the
  private fields.
\<close>

section \<open>Counting orders\<close>

lemma snapshot_orders: "concat (map lv_orders (book_snapshot b)) = book_orders b Bid @ book_orders b Ask"
  by (simp add: book_snapshot_def append_levels_def book_orders_def visit_orders_def comp_def case_prod_unfold)

lemma live_ids:
  assumes "abs_ok A"
  shows "oid \<in> set (map view_id (A Bid @ A Ask)) \<longleftrightarrow> spec_find oid A \<noteq> None"
  using find_None_iff [of "\<lambda>v. view_id v = oid" "A Bid @ A Ask"] by (auto simp: spec_find_def image_iff)

definition owned_ids :: "(OrderId \<times> Message) list \<Rightarrow> InstrumentId \<Rightarrow> OrderId set" where
  "owned_ids rs i = {oid. owner_in rs i oid \<noteq> None}"

lemma in_owned: "oid \<in> owned_ids rs i \<longleftrightarrow> (\<exists>m. map_of rs oid = Some m \<and> m_instrument_id m = i)"
  by (auto simp: owned_ids_def owner_in_def split: option.splits if_splits)

lemma order_count_owned:
  assumes "owned_books bs rs" "map_of bs i = Some b"
  shows "order_count b = card (owned_ids rs i)"
proof -
  have core: "wf_core b" and ok: "abs_ok (book_orders b)"
    using owned_book [OF assms] wf_bookD lob.view_ok by blast+
  have "set (map view_id (book_orders b Bid @ book_orders b Ask)) = owned_ids rs i"
    unfolding owned_ids_def set_eq_iff mem_Collect_eq live_ids [OF ok] using owned_book [OF assms] by simp
  moreover have "distinct (map view_id (book_orders b Bid @ book_orders b Ask))" using ok by (simp add: abs_ok_def)
  note distinct_card [OF this]
  ultimately show ?thesis using card_nodes(2) [OF core] by simp
qed

lemma finite_owned: "finite (owned_ids rs i)"
  by (rule finite_subset [of _ "dom (map_of rs)"]) (auto simp: in_owned finite_dom_map_of)

lemma card_dom:
  fixes m :: "('k::linorder \<times> 'v) list"
  shows "om_sorted (<) m \<Longrightarrow> card (dom (map_of m)) = length m"
  using om_less.sorted_distinct [of m] distinct_card [of "map fst m"] by (simp add: dom_map_of_conv_image_fst)

lemma books_count:
  assumes ow: "owned_books bs rs"
  shows "sum_list (map (\<lambda>(_, bk). order_count bk) bs) = length rs"
proof -
  have d: "distinct (map fst bs)" using owned_sorted [OF ow] om_less.sorted_distinct by blast
  have "order_count b = card (owned_ids rs i)" if "(i, b) \<in> set bs" for i b
    using order_count_owned [OF ow] that d by simp
  then have "map (\<lambda>(_, bk). order_count bk) bs = map (\<lambda>i. card (owned_ids rs i)) (map fst bs)" by auto
  then have "sum_list (map (\<lambda>(_, bk). order_count bk) bs) = (\<Sum>i \<in> fst ` set bs. card (owned_ids rs i))"
    using d by (simp add: sum_list_distinct_conv_sum_set del: map_map)
  also have "\<dots> = card (\<Union>i \<in> fst ` set bs. owned_ids rs i)"
    by (rule card_UN_disjoint [symmetric])
      (auto simp: finite_owned in_owned)
  also have "(\<Union>i \<in> fst ` set bs. owned_ids rs i) = dom (map_of rs)"
  proof (intro equalityI subsetI)
    fix oid assume "oid \<in> dom (map_of rs)"
    then obtain m where m: "map_of rs oid = Some m" by blast
    obtain b where "map_of bs (m_instrument_id m) = Some b" using owned_contains [OF ow m] by blast
    then have "m_instrument_id m \<in> fst ` set bs" by (force dest: map_of_eq_Some_in_set)
    then show "oid \<in> (\<Union>i \<in> fst ` set bs. owned_ids rs i)" using m by (auto simp: in_owned)
  qed (auto simp: in_owned)
  finally show ?thesis using card_dom owned_sorted [OF ow] by auto
qed

lemma index_count:
  assumes "indexed bc rs" "om_sorted (<) rs"
  shows "length bc = length rs"
proof -
  define key where "key oid = (m_client_id (the (map_of rs oid)), m_order_id (the (map_of rs oid)))" for oid
  have bc: "map_of bc (cl, o') = Some oid \<longleftrightarrow>
      (\<exists>m. map_of rs oid = Some m \<and> m_client_id m = cl \<and> m_order_id m = o')" for cl o' oid
    using assms(1) by (simp add: indexed_def)
  have key: "map_of bc (key oid) = Some oid" if live: "oid \<in> dom (map_of rs)" for oid
  proof -
    obtain m where "map_of rs oid = Some m" using live by blast
    then show ?thesis unfolding key_def bc by simp
  qed
  have inj: "inj_on key (dom (map_of rs))"
  proof (rule inj_onI)
    fix x y assume a: "x \<in> dom (map_of rs)" "y \<in> dom (map_of rs)" "key x = key y"
    have "Some x = Some y" using key [OF a(1)] key [OF a(2)] a(3) by (simp only:)
    then show "x = y" by simp
  qed
  have img: "key ` dom (map_of rs) = dom (map_of bc)"
  proof (intro equalityI subsetI)
    fix k assume "k \<in> dom (map_of bc)"
    then obtain oid where oid: "map_of bc k = Some oid" by blast
    obtain cl o' where k: "k = (cl, o')" by force
    obtain m where "map_of rs oid = Some m" "m_client_id m = cl" "m_order_id m = o'" using oid [unfolded k bc] by blast
    then show "k \<in> key ` dom (map_of rs)" by (intro image_eqI [of _ _ oid]) (simp_all add: key_def domI k)
  next
    fix k assume "k \<in> key ` dom (map_of rs)"
    then show "k \<in> dom (map_of bc)" using key by blast
  qed
  have "card (dom (map_of bc)) = card (dom (map_of rs))" using card_image [OF inj] unfolding img .
  moreover have "om_sorted (<) bc" using assms(1) by (simp add: indexed_def)
  ultimately show ?thesis using card_dom [of bc] card_dom [OF assms(2)] by simp
qed

section \<open>The check\<close>

lemma first_failure_None: "(\<And>x. x \<in> set xs \<Longrightarrow> check x = None) \<Longrightarrow> first_failure check xs = None"
  by (induction xs) auto

lemma owned_order:
  assumes inv: "eng_inv e" and b: "map_of (e_books e) i = Some b" and v: "v \<in> set (book_orders b Bid @ book_orders b Ask)"
  shows "order_owned e i v = None"
proof -
  note I = eng_invD [OF inv]
  have ok: "abs_ok (book_orders b)" using owned_book [OF I(1) b] lob.view_ok by blast
  have "spec_find (view_id v) (book_orders b) = Some v"
    using v spec_find_member [OF ok, of Bid v] spec_find_member [OF ok, of Ask v] by auto
  then have "owner_in (e_resting e) i (view_id v) = Some v" using owned_book [OF I(1) b] by simp
  then obtain m where m: "map_of (e_resting e) (view_id v) = Some m" "m_instrument_id m = i" "owner_view (view_id v) m = v"
    by (auto simp: owner_in_def split: option.splits if_splits)
  have "m_side m = view_side v" "m_price m = view_price v" "m_quantity m = view_quantity v"
    using arg_cong [OF m(3), of view_side] arg_cong [OF m(3), of view_price] arg_cong [OF m(3), of view_quantity] by simp_all
  moreover have "map_of (e_by_client e) (m_client_id m, m_order_id m) = Some (view_id v)"
    using I(4) m(1) by (auto simp: indexed_def)
  ultimately show ?thesis using m(1,2) by (simp add: order_owned_def)
qed

lemma validate_engine:
  assumes inv: "eng_inv e" and few: "length (e_resting e) \<le> 2 ^ 32"
  shows "engine_validate e = Inr ()"
proof -
  note I = eng_invD [OF inv]
  have sorted: "om_sorted (<) (e_books e)" "om_sorted (<) (e_resting e)" using owned_sorted [OF I(1)] by auto
  have "book_consistent e ib = None" if "ib \<in> set (e_books e)" for ib
  proof -
    obtain i b where ib: "ib = (i, b)" by force
    have b: "map_of (e_books e) i = Some b" using that om_less.sorted_distinct [OF sorted(1)] by (simp add: ib)
    have "order_count b \<le> sum_list (map (\<lambda>(_, bk). order_count bk) (e_books e))"
      by (rule member_le_sum_list) (use that in \<open>force simp: ib\<close>)+
    then have "order_count b \<le> 2 ^ 32" using few books_count [OF I(1)] by simp
    then have "validate_invariants b = Inr ()"
      using validate_accepts [OF wf_bookD] owned_book [OF I(1) b] by blast
    moreover have "first_failure (order_owned e i) (concat (map lv_orders (book_snapshot b))) = None"
      unfolding snapshot_orders using owned_order [OF inv b] by (intro first_failure_None)
    ultimately show ?thesis
      using inv_uncrossed [OF inv b, of "the (best_bid b)" "the (best_ask b)"]
      by (auto simp: book_consistent_def ib not_le split: option.splits)
  qed
  then have "first_failure (book_consistent e) (e_books e) = None" by (intro first_failure_None)
  moreover have "(\<Sum>(k, p) \<leftarrow> e_positions e. if snd k = i then pos_quantity p else 0) = 0"
    "(\<Sum>(k, p) \<leftarrow> e_positions e. if snd k = i then pos_cash p else 0) = 0" for i
    using I(9) by (auto simp: conserved_def om_sum_def)
  ultimately show ?thesis
    using books_count [OF I(1)] index_count [OF I(4) sorted(2)] by (simp add: engine_validate_def Let_def list_ex_iff)
qed



section \<open>The snapshot\<close>

definition public_row :: "MatchingEngine \<Rightarrow> OrderId \<Rightarrow> Message \<Rightarrow> Message" where
  "public_row e oid m = default_message\<lparr>m_kind := SnapshotOrder, m_epoch := e_epoch e, m_sequence := e_sequence e,
     m_instrument_id := m_instrument_id m, m_exchange_id := oid, m_side := m_side m, m_price := m_price m,
     m_quantity := m_quantity m\<rparr>"

definition view_row :: "MatchingEngine \<Rightarrow> InstrumentId \<Rightarrow> OrderView \<Rightarrow> Message" where
  "view_row e i v = default_message\<lparr>m_kind := SnapshotOrder, m_epoch := e_epoch e, m_sequence := e_sequence e,
     m_instrument_id := i, m_exchange_id := view_id v, m_side := view_side v, m_price := view_price v,
     m_quantity := view_quantity v\<rparr>"

lemma view_row_owner: "view_row e (m_instrument_id m) (owner_view oid m) = public_row e oid m"
  by (simp add: view_row_def public_row_def)

lemma snapshot_rows_eq:
  "snapshot_rows e = concat (map (\<lambda>(i, bk). map (view_row e i) (book_orders bk Bid @ book_orders bk Ask)) (e_books e))"
  unfolding snapshot_rows_def view_row_def snapshot_orders [symmetric] map_concat by (simp add: comp_def)

lemma in_books:
  assumes "eng_inv e"
  shows "(i, b) \<in> set (e_books e) \<longleftrightarrow> map_of (e_books e) i = Some b"
  using om_less.sorted_distinct [of "e_books e"] owned_sorted [OF eng_invD(1) [OF assms]] by (simp add: map_of_eq_Some_iff)

lemma in_rows:
  assumes "eng_inv e"
  shows "x \<in> set (snapshot_rows e) \<longleftrightarrow>
    (\<exists>i b v. map_of (e_books e) i = Some b \<and> v \<in> set (book_orders b Bid @ book_orders b Ask) \<and> x = view_row e i v)"
proof -
  have "x \<in> set (snapshot_rows e) \<longleftrightarrow>
      (\<exists>ib \<in> set (e_books e). \<exists>v \<in> set (book_orders (snd ib) Bid @ book_orders (snd ib) Ask). x = view_row e (fst ib) v)"
    unfolding snapshot_rows_eq set_concat set_map by (auto simp: case_prod_unfold)
  also have "\<dots> \<longleftrightarrow> (\<exists>i b. (i, b) \<in> set (e_books e) \<and> (\<exists>v \<in> set (book_orders b Bid @ book_orders b Ask). x = view_row e i v))"
    unfolding Bex_def split_paired_Ex fst_conv snd_conv ..
  finally show ?thesis unfolding in_books [OF assms] by blast
qed

lemma owned_view:
  assumes inv: "eng_inv e" and b: "map_of (e_books e) i = Some b"
  shows "v \<in> set (book_orders b Bid @ book_orders b Ask) \<longleftrightarrow>
    (\<exists>m. map_of (e_resting e) (view_id v) = Some m \<and> m_instrument_id m = i \<and> v = owner_view (view_id v) m)"
proof -
  note I = eng_invD [OF inv]
  have ok: "abs_ok (book_orders b)" using owned_book [OF I(1) b] lob.view_ok by blast
  have "v \<in> set (book_orders b Bid @ book_orders b Ask) \<longleftrightarrow> spec_find (view_id v) (book_orders b) = Some v"
    using spec_find_member [OF ok, of Bid v] spec_find_member [OF ok, of Ask v]
    by (auto simp: spec_find_def dest: find_SomeD)
  also have "\<dots> \<longleftrightarrow> owner_in (e_resting e) i (view_id v) = Some v" using owned_book [OF I(1) b] by simp
  finally show ?thesis by (auto simp: owner_in_def split: option.splits if_splits)
qed

lemma snapshot_set:
  assumes inv: "eng_inv e"
  shows "set (snapshot_rows e) = {public_row e oid m | oid m. map_of (e_resting e) oid = Some m}"
proof (intro equalityI subsetI)
  fix x assume "x \<in> set (snapshot_rows e)"
  then obtain i b v where v: "map_of (e_books e) i = Some b" "v \<in> set (book_orders b Bid @ book_orders b Ask)"
    "x = view_row e i v" unfolding in_rows [OF inv] by blast
  obtain m where m: "map_of (e_resting e) (view_id v) = Some m" "m_instrument_id m = i" "v = owner_view (view_id v) m"
    using v(2) unfolding owned_view [OF inv v(1)] by blast
  have "x = public_row e (view_id v) m" using v(3) m(2,3) view_row_owner by metis
  then show "x \<in> {public_row e oid m | oid m. map_of (e_resting e) oid = Some m}" using m(1) by blast
next
  fix x assume "x \<in> {public_row e oid m | oid m. map_of (e_resting e) oid = Some m}"
  then obtain oid m where m: "map_of (e_resting e) oid = Some m" "x = public_row e oid m" by blast
  obtain b where b: "map_of (e_books e) (m_instrument_id m) = Some b"
    using owned_contains [OF eng_invD(1) [OF inv] m(1)] by blast
  have "owner_view oid m \<in> set (book_orders b Bid @ book_orders b Ask)"
    unfolding owned_view [OF inv b] using m(1) by simp
  then show "x \<in> set (snapshot_rows e)"
    unfolding in_rows [OF inv] using b m(2) view_row_owner by metis
qed

lemma snapshot_length:
  assumes inv: "eng_inv e"
  shows "length (snapshot_rows e) = length (e_resting e)"
proof -
  note I = eng_invD [OF inv]
  have "length (book_orders b Bid @ book_orders b Ask) = order_count b" if "(i, b) \<in> set (e_books e)" for i b
    using card_nodes(2) [OF wf_bookD] owned_book [OF I(1)] that [unfolded in_books [OF inv]] by simp
  then have "map (length \<circ> (\<lambda>(i, bk). map (view_row e i) (book_orders bk Bid @ book_orders bk Ask))) (e_books e) =
      map (\<lambda>(_, bk). order_count bk) (e_books e)" by auto
  then show ?thesis using books_count [OF I(1)] unfolding snapshot_rows_eq length_concat map_map by (simp only:)
qed

text \<open>
  The snapshot of a reachable engine is complete and minimal: between a begin and an end row that
  carry the number of orders, it has exactly one row for each resting order, with its public fields
  and the epoch and sequence of the engine, and no other row.
\<close>

theorem snapshot_exact:
  assumes "engine_reachable ins n e"
  shows "length (snapshot_rows e) = length (e_resting e) \<and>
    set (snapshot_rows e) = {public_row e oid m | oid m. map_of (e_resting e) oid = Some m} \<and>
    (\<exists>first last. engine_snapshot e = first # snapshot_rows e @ [last] \<and>
      m_kind first = SnapshotBegin \<and> m_kind last = SnapshotEnd \<and>
      m_quantity first = of_nat (length (e_resting e)) \<and> m_quantity last = of_nat (length (e_resting e)))"
  using snapshot_set snapshot_length reachable_inv [OF assms] by (simp add: engine_snapshot_def Let_def)

theorem snapshot_exact_witness: "snapshot_rows demo_engine = []"
  using snapshot_exact [OF demo_engine_reachable] by (simp add: demo_engine_empty)

end
