(* ===== verification/Replica.thy ===== *)
theory Replica
  imports Engine_Stream Engine_Check
begin

text \<open>
  include/order_book/trading/replica.hpp and src/trading/replica.cpp: the copy of the market a strategy
  keeps. It is built from a snapshot and then follows the published deltas; anything that does not fit
  (another epoch, a gap, an update its book refuses) makes it unsynchronized until the next snapshot.

  \<open>None\<close> is the exception of a failed allocation of a new book; the environment gives the pool block of
  each new book and the allocations of the books. The replica is proved to mirror the engine.
\<close>

section \<open>The replica\<close>

record MarketReplica =
  r_books :: "(InstrumentId \<times> OrderBook) list"
  r_epoch :: u64
  r_sequence :: Sequence
  r_synchronized :: bool

definition replica_new :: MarketReplica where
  "replica_new = \<lparr>r_books = [], r_epoch = 0, r_sequence = 0, r_synchronized = False\<rparr>"

definition replica_invalidate :: "MarketReplica \<Rightarrow> MarketReplica" where
  "replica_invalidate R = R\<lparr>r_synchronized := False\<rparr>"

text \<open>\<open>books[id]\<close> constructs a book for an absent key.\<close>

definition book_slot ::
    "(InstrumentId \<Rightarrow> nat option) \<Rightarrow> InstrumentId \<Rightarrow> (InstrumentId \<times> OrderBook) list \<Rightarrow>
     (OrderBook \<times> (InstrumentId \<times> OrderBook) list) option" where
  "book_slot blocks i books =
     (case map_of books i of
        Some b \<Rightarrow> Some (b, books)
      | None \<Rightarrow> map_option (\<lambda>b. (b, om_put (<) i b books)) (OrderBook_default (blocks i)))"

datatype replica_error = Invalid_Envelope | Inconsistent_Watermark | Invalid_Order | Invalid_Book | Out_Of_Memory

definition restore_order ::
    "(InstrumentId \<Rightarrow> nat option) \<Rightarrow> heap_env \<Rightarrow> Message \<Rightarrow> OrderId set \<times> (InstrumentId \<times> OrderBook) list \<Rightarrow>
     replica_error + OrderId set \<times> (InstrumentId \<times> OrderBook) list" where
  "restore_order blocks h m st =
     (let (ids, books) = st in
      if m_kind m \<noteq> SnapshotOrder \<or> m_instrument_id m = 0 \<or> m_exchange_id m = 0 \<or> m_exchange_id m \<in> ids
      then Inl Invalid_Order
      else case book_slot blocks (m_instrument_id m) books of
          None \<Rightarrow> Inl Out_Of_Memory
        | Some (b, books1) \<Rightarrow>
            (case apply_event h (AddOrder (m_exchange_id m) (m_side m) (m_price m) (m_quantity m)) b of
               Some (Ok, b') \<Rightarrow> Inr (insert (m_exchange_id m) ids, om_put (<) (m_instrument_id m) b' books1)
             | _ \<Rightarrow> Inl Invalid_Order))"

text \<open>The loop over the rows: \<open>i\<close> is the index, \<open>n\<close> the number of rows.\<close>

fun restore_loop ::
    "(InstrumentId \<Rightarrow> nat option) \<Rightarrow> (nat \<Rightarrow> heap_env) \<Rightarrow> Message \<Rightarrow> nat \<Rightarrow> nat \<Rightarrow> Message list \<Rightarrow>
     OrderId set \<times> (InstrumentId \<times> OrderBook) list \<Rightarrow> replica_error + (InstrumentId \<times> OrderBook) list" where
  "restore_loop blocks h first n i [] st = Inr (snd st)"
| "restore_loop blocks h first n i (m # ms) st =
     (if m_epoch m \<noteq> m_epoch first \<or> m_sequence m \<noteq> m_sequence first then Inl Inconsistent_Watermark
      else if i = 0 \<or> i = n - 1 then restore_loop blocks h first n (Suc i) ms st
      else case restore_order blocks (h i) m st of
          Inl r \<Rightarrow> Inl r
        | Inr st' \<Rightarrow> restore_loop blocks h first n (Suc i) ms st')"

definition book_acceptable :: "OrderBook \<Rightarrow> bool" where
  "book_acceptable b \<longleftrightarrow> validate_invariants b = Inr () \<and>
     \<not> (case (best_bid b, best_ask b) of (Some bid, Some ask) \<Rightarrow> ask \<le> bid | _ \<Rightarrow> False)"

definition replica_restore ::
    "(InstrumentId \<Rightarrow> nat option) \<Rightarrow> (nat \<Rightarrow> heap_env) \<Rightarrow> Message list \<Rightarrow> MarketReplica \<Rightarrow>
     replica_error option \<times> MarketReplica" where
  "replica_restore blocks h rows R0 =
     (let R = R0\<lparr>r_synchronized := False\<rparr> in
      if length rows < 2 \<or> m_kind (hd rows) \<noteq> SnapshotBegin \<or> m_kind (last rows) \<noteq> SnapshotEnd \<or>
         m_epoch (hd rows) = 0 \<or> length rows - 2 \<noteq> unat (m_quantity (hd rows)) \<or>
         m_quantity (last rows) \<noteq> m_quantity (hd rows)
      then (Some Invalid_Envelope, R)
      else case restore_loop blocks h (hd rows) (length rows) 0 rows ({}, []) of
          Inl r \<Rightarrow> (Some r, R)
        | Inr books \<Rightarrow>
            if \<not> list_all (\<lambda>(_, b). book_acceptable b) books then (Some Invalid_Book, R)
            else (None, R\<lparr>r_books := books, r_epoch := m_epoch (hd rows), r_sequence := m_sequence (hd rows),
                           r_synchronized := True\<rparr>))"

text \<open>Applying one delta to the books.\<close>

definition replica_delta ::
    "(InstrumentId \<Rightarrow> nat option) \<Rightarrow> heap_env \<Rightarrow> Message \<Rightarrow> (InstrumentId \<times> OrderBook) list \<Rightarrow>
     (ApplyResult \<times> (InstrumentId \<times> OrderBook) list) option" where
  "replica_delta blocks h m books =
     (let i = m_instrument_id m; oid = m_exchange_id m;
          apply_to = (\<lambda>ev b bs. map_option (\<lambda>(r, b'). (r, om_put (<) i b' bs)) (apply_event h ev b))
      in if m_update m = Upd_Trade then Some (Ok, books)
         else if m_update m = Upd_Add
         then do {
           (b, books1) \<leftarrow> book_slot blocks i books;
           apply_to (AddOrder oid (m_side m) (m_price m) (m_quantity m)) b books1
         }
         else case map_of books i of
             None \<Rightarrow> Some (UnknownInstrument, books)
           | Some b \<Rightarrow>
               if m_update m = Upd_Cancel then apply_to (CancelOrder oid) b books
               else if m_update m = Upd_Execute then apply_to (ExecuteOrder oid (m_quantity m)) b books
               else if m_update m = Upd_Reduce
               then do {
                 old \<leftarrow> remaining_quantity oid b;
                 case old of
                   None \<Rightarrow> Some (InvalidQuantity, books)
                 | Some q \<Rightarrow> if m_quantity m = 0 \<or> q \<le> m_quantity m then Some (InvalidQuantity, books)
                            else apply_to (ExecuteOrder oid (q - m_quantity m)) b books
               }
               else Some (ParseError, books))"

definition replica_consume ::
    "(InstrumentId \<Rightarrow> nat option) \<Rightarrow> heap_env \<Rightarrow> Message \<Rightarrow> MarketReplica \<Rightarrow> (bool \<times> MarketReplica) option" where
  "replica_consume blocks h m R =
     (let lost = Some (False, R\<lparr>r_synchronized := False\<rparr>) in
      if \<not> r_synchronized R then Some (False, R)
      else if m_epoch m \<noteq> r_epoch R then lost
      else if m_kind m = Heartbeat then (if r_sequence R < m_sequence m then lost else Some (True, R))
      else if m_kind m \<noteq> Delta then lost
      else if m_sequence m \<le> r_sequence R then Some (True, R)
      else if m_sequence m - r_sequence R \<noteq> 1 then lost
      else do {
        (result, books) \<leftarrow> replica_delta blocks h m (r_books R);
        if result \<noteq> Ok then Some (False, R\<lparr>r_books := books, r_synchronized := False\<rparr>)
        else Some (True, R\<lparr>r_books := books, r_sequence := m_sequence m\<rparr>)
      })"

definition replica_book :: "InstrumentId \<Rightarrow> MarketReplica \<Rightarrow> OrderBook option" where
  "replica_book i R = map_of (r_books R) i"

definition replica_order_count :: "MarketReplica \<Rightarrow> nat" where
  "replica_order_count R = sum_list (map (\<lambda>(_, b). order_count b) (r_books R))"

definition replica_snapshot :: "MarketReplica \<Rightarrow> Message list option" where
  "replica_snapshot R =
     (if \<not> r_synchronized R then None
      else
        let m = default_message\<lparr>m_kind := SnapshotBegin, m_epoch := r_epoch R, m_sequence := r_sequence R,
                  m_quantity := of_nat (replica_order_count R)\<rparr>
        in Some (m # concat (map (\<lambda>(i, b). concat (map (\<lambda>level. map (\<lambda>order.
               m\<lparr>m_kind := SnapshotOrder, m_instrument_id := i, m_exchange_id := view_id order, m_side := view_side order,
                 m_price := view_price order, m_quantity := view_quantity order\<rparr>) (lv_orders level)) (book_snapshot b)))
             (r_books R)) @ [m\<lparr>m_kind := SnapshotEnd\<rparr>]))"

text \<open>A run of deltas; the environment of each.\<close>

fun replica_feed ::
    "(InstrumentId \<Rightarrow> nat option) \<Rightarrow> heap_env \<Rightarrow> Message list \<Rightarrow> MarketReplica \<Rightarrow> MarketReplica option" where
  "replica_feed blocks h [] R = Some R"
| "replica_feed blocks h (m # ms) R = do { (_, R') \<leftarrow> replica_consume blocks h m R; replica_feed blocks h ms R' }"

section \<open>Following the stream\<close>

definition mirrors :: "MarketReplica \<Rightarrow> MatchingEngine \<Rightarrow> bool" where
  "mirrors R e \<longleftrightarrow> r_synchronized R \<and> r_epoch R = e_epoch e \<and> r_sequence R = e_sequence e \<and>
     om_sorted (<) (r_books R) \<and> books_wf (r_books R) \<and> views (r_books R) = views (e_books e)"

text \<open>The number of orders of an instrument, and how many its book in the replica can hold.\<close>

definition depth :: "market \<Rightarrow> InstrumentId \<Rightarrow> nat" where
  "depth F i = length (F i Bid) + length (F i Ask)"

definition holds_up_to :: "(InstrumentId \<Rightarrow> nat option) \<Rightarrow> (InstrumentId \<times> OrderBook) list \<Rightarrow> InstrumentId \<Rightarrow> nat" where
  "holds_up_to blocks books i = (case book_slot blocks i books of None \<Rightarrow> 0 | Some (b, _) \<Rightarrow> book_capacity b)"

definition blocks_ok :: "(InstrumentId \<Rightarrow> nat option) \<Rightarrow> bool" where
  "blocks_ok blocks \<longleftrightarrow> (\<forall>i. block_ok (blocks i))"

definition sound :: "(InstrumentId \<times> OrderBook) list \<Rightarrow> bool" where
  "sound bs \<longleftrightarrow> om_sorted (<) bs \<and> books_wf bs"

lemma holds_up_to_eq:
  "holds_up_to blocks bs i = (case map_of bs i of Some b \<Rightarrow> book_capacity b
     | None \<Rightarrow> (case OrderBook_default (blocks i) of None \<Rightarrow> 0 | Some b \<Rightarrow> book_capacity b))"
  by (simp add: holds_up_to_def book_slot_def split: option.splits)

lemma slot_exact:
  assumes "book_slot blocks i bs = Some (b, bs1)" "sound bs" "blocks_ok blocks"
  shows "map_of bs1 i = Some b" "sound bs1" "views bs1 = views bs" "wf_book b" "views bs i = book_orders b"
    "holds_up_to blocks bs1 = holds_up_to blocks bs"
proof -
  show m: "map_of bs1 i = Some b" using assms(1) by (auto simp: book_slot_def split: option.splits)
  consider "map_of bs i = Some b" "bs1 = bs"
    | "map_of bs i = None" "OrderBook_default (blocks i) = Some b" "bs1 = om_put (<) i b bs"
    using assms(1) by (auto simp: book_slot_def split: option.splits)
  then have "sound bs1 \<and> views bs1 = views bs \<and> holds_up_to blocks bs1 = holds_up_to blocks bs"
  proof cases
    case 2
    have "wf_book b" "book_orders b = empty_book" using book_orders_new [OF 2(2)] assms(3) by (auto simp: blocks_ok_def)
    then show ?thesis using 2 assms(2)
      by (auto simp: sound_def books_wf_def views_def holds_up_to_eq fun_eq_iff om_less.sorted_put)
  qed (use assms(2) in auto)
  then show "sound bs1" "views bs1 = views bs" "holds_up_to blocks bs1 = holds_up_to blocks bs" by auto
  show "wf_book b" using m \<open>sound bs1\<close> by (auto simp: sound_def books_wf_def)
  show "views bs i = book_orders b" using m \<open>views bs1 = views bs\<close> [symmetric] by (simp add: views_def)
qed

text \<open>An operation on a book of the replica, and when it is certain to succeed.\<close>

lemma put_exact:
  assumes b: "map_of bs i = Some b" "sound bs" and ap: "apply_event h ev b = Some (r, b')"
  shows "sound (om_put (<) i b' bs)" "holds_up_to blocks (om_put (<) i b' bs) = holds_up_to blocks bs"
    "r = Ok \<Longrightarrow> spec_commit i ev (views bs) = Some (views (om_put (<) i b' bs))"
proof -
  have wf: "books_wf bs" "wf_book b" using b by (auto simp: sound_def books_wf_def)
  show "sound (om_put (<) i b' bs)"
    using b(2) commit_exact(1) [OF wf(1) b(1) ap] by (simp add: sound_def om_less.sorted_put)
  show "holds_up_to blocks (om_put (<) i b' bs) = holds_up_to blocks bs"
    using b(1) lob.apply_defined [OF wf(2) ap] by (auto simp: holds_up_to_eq fun_eq_iff)
  show "spec_commit i ev (views bs) = Some (views (om_put (<) i b' bs))" if "r = Ok"
    using commit_exact(2) [OF wf(1) b(1) ap that] .
qed

lemma put_succeeds:
  assumes b: "map_of bs i = Some b" "sound bs" and sp: "spec_commit i ev (views bs) = Some F'"
    and room: "heap_grants h" "depth (views bs) i < book_capacity b \<or> names ev oid"
  shows "\<exists>b'. apply_event h ev b = Some (Ok, b')"
proof -
  have wf: "wf_book b" using b by (auto simp: sound_def books_wf_def)
  have v: "views bs i = book_orders b" using b(1) by (simp add: views_def)
  obtain r b' rm where ap: "apply_event h ev b = Some (r, b')" "(r, book_orders b') = spec_apply rm ev (book_orders b)"
    "length (book_orders b Bid) + length (book_orders b Ask) < book_capacity b \<Longrightarrow> rm"
    using lob.apply_cases [OF wf, of h ev] room(1) by metis
  have ok: "fst (spec_apply True ev (book_orders b)) = Ok"
    using sp v by (auto simp: spec_commit_def split: prod.splits if_splits)
  have "r = Ok"
  proof (cases "names ev oid")
    case True
    then have "spec_apply rm ev (book_orders b) = spec_apply True ev (book_orders b)"
      by (auto simp: names_def spec_apply_def)
    then show ?thesis using ok ap(2) by (metis fst_conv)
  next
    case False
    then have rm using room(2) ap(3) by (simp add: depth_def v)
    then show ?thesis using ok ap(2) by (metis (full_types) fst_conv)
  qed
  then show ?thesis using ap(1) by blast
qed

lemma remaining_view:
  "map_of bs i = Some b \<Longrightarrow> sound bs \<Longrightarrow>
   remaining_quantity oid b = Some (map_option view_quantity (spec_find oid (views bs i)))"
  using book_order_find(2) [of b oid] by (auto simp: sound_def books_wf_def views_def dest: wf_bookD)

lemma empty_market: "map_of bs i = None \<Longrightarrow> spec_find oid (views bs i) = None"
  by (simp add: views_def empty_book_def spec_find_def)

lemma delta_exact:
  assumes so: "sound bs" "blocks_ok blocks" and de: "replica_delta blocks h m bs = Some (r, bs')"
  shows "sound bs' \<and> holds_up_to blocks bs' = holds_up_to blocks bs \<and>
    (r = Ok \<longrightarrow> feed_step m (views bs) = Some (views bs'))"
proof (cases "m_update m = Upd_Add")
  case True
  obtain b bs1 where sl: "book_slot blocks (m_instrument_id m) bs = Some (b, bs1)"
    using de True by (auto simp: replica_delta_def Let_def split: bind_splits)
  note S = slot_exact [OF sl so]
  obtain b' where "apply_event h (AddOrder (m_exchange_id m) (m_side m) (m_price m) (m_quantity m)) b = Some (r, b')"
    "bs' = om_put (<) (m_instrument_id m) b' bs1"
    using de True sl by (auto simp: replica_delta_def Let_def)
  then show ?thesis using put_exact [OF S(1,2), of h] S(3,6) True by (simp add: feed_step_def Let_def)
next
  case False
  show ?thesis
  proof (cases "map_of bs (m_instrument_id m)")
    case None
    then show ?thesis using de so False by (auto simp: replica_delta_def feed_step_def Let_def split: if_splits)
  next
    case (Some b)
    note P = put_exact [OF Some so(1), of h]
    show ?thesis
      using de False so Some P remaining_view [OF Some so(1), of "m_exchange_id m"]
      by (cases "m_update m") (auto simp: replica_delta_def feed_step_def Let_def split: option.splits if_splits)
  qed
qed

lemma delta_succeeds:
  assumes so: "sound bs" "blocks_ok blocks" and fe: "feed_step m (views bs) = Some F'" and h: "heap_grants h"
    and room: "depth (views bs) (m_instrument_id m) < holds_up_to blocks bs (m_instrument_id m)"
  shows "\<exists>bs'. replica_delta blocks h m bs = Some (Ok, bs')"
proof (cases "m_update m = Upd_Add")
  case True
  obtain b bs1 where sl: "book_slot blocks (m_instrument_id m) bs = Some (b, bs1)"
    using room by (auto simp: holds_up_to_def split: option.splits)
  note S = slot_exact [OF sl so]
  have "depth (views bs1) (m_instrument_id m) < book_capacity b" using room sl S(3) by (simp add: holds_up_to_def)
  then obtain b' where "apply_event h (AddOrder (m_exchange_id m) (m_side m) (m_price m) (m_quantity m)) b = Some (Ok, b')"
    using put_succeeds [OF S(1,2) _ h, of _ F'] fe True S(3) by (auto simp: feed_step_def Let_def)
  then show ?thesis using sl True by (simp add: replica_delta_def Let_def)
next
  case False
  show ?thesis
  proof (cases "map_of bs (m_instrument_id m)")
    case None
    then show ?thesis using fe False empty_market [OF None, of "m_exchange_id m"]
      by (cases "m_update m") (auto simp: feed_step_def spec_commit_def spec_apply_def replica_delta_def Let_def)
  next
    case (Some b)
    have can: "\<exists>b'. apply_event h ev b = Some (Ok, b')" if "spec_commit (m_instrument_id m) ev (views bs) = Some F'" "names ev (m_exchange_id m)" for ev
      using put_succeeds [OF Some so(1) that(1) h] that(2) by blast
    show ?thesis
      using fe False Some remaining_view [OF Some so(1), of "m_exchange_id m"] can [of "CancelOrder (m_exchange_id m)"]
        can [of "ExecuteOrder (m_exchange_id m) (m_quantity m)"]
        can [of "ExecuteOrder (m_exchange_id m) (view_quantity (the (spec_find (m_exchange_id m) (views bs (m_instrument_id m)))) - m_quantity m)"]
      by (cases "m_update m") (auto simp: replica_delta_def feed_step_def names_def Let_def split: option.splits if_splits)
  qed
qed

subsection \<open>Runs of deltas\<close>

lemma consume_lost: "\<not> r_synchronized R \<Longrightarrow> replica_feed blocks h ms R = Some R' \<Longrightarrow> R' = R"
  by (induction ms) (auto simp: replica_consume_def split: bind_splits)

lemma consume_next:
  assumes "r_synchronized R" "m_epoch m = r_epoch R" "m_kind m = Delta" "m_sequence m = r_sequence R + 1"
    "unat (r_sequence R) + 1 < 2 ^ 64"
  shows "replica_consume blocks h m R = do {
    (result, books) \<leftarrow> replica_delta blocks h m (r_books R);
    if result \<noteq> Ok then Some (False, R\<lparr>r_books := books, r_synchronized := False\<rparr>)
    else Some (True, R\<lparr>r_books := books, r_sequence := m_sequence m\<rparr>) }"
proof -
  have "\<not> r_sequence R + 1 \<le> r_sequence R" using assms(5) by (simp add: word_le_nat_alt unat_word_ariths)
  then show ?thesis using assms by (simp add: replica_consume_def Let_def)
qed

lemma no_wrap_next: "unat (s :: u64) + Suc k < 2 ^ 64 \<Longrightarrow> unat s + 1 < 2 ^ 64 \<and> unat (s + 1) + k < 2 ^ 64"
  by (simp add: unat_word_ariths)

lemma feed_exact:
  assumes "r_synchronized R" "stamps (r_epoch R) (r_sequence R) ms" "unat (r_sequence R) + length ms < 2 ^ 64"
    "sound (r_books R)" "blocks_ok blocks" "replica_feed blocks h ms R = Some R'" "r_synchronized R'"
  shows "feed_run ms (views (r_books R)) = Some (views (r_books R')) \<and> sound (r_books R') \<and>
    r_epoch R' = r_epoch R \<and> r_sequence R' = r_sequence R + of_nat (length ms)"
  using assms
proof (induction ms arbitrary: R)
  case (Cons m ms)
  have st: "m_kind m = Delta" "m_epoch m = r_epoch R" "m_sequence m = r_sequence R + 1"
    "stamps (r_epoch R) (r_sequence R + 1) ms" using Cons.prems(2) by auto
  have wrap: "unat (r_sequence R) + 1 < 2 ^ 64" "unat (r_sequence R + 1) + length ms < 2 ^ 64"
    using no_wrap_next [of "r_sequence R" "length ms"] Cons.prems(3) by auto
  note nx = consume_next [OF Cons.prems(1) st(2,1,3) wrap(1), of blocks h]
  obtain r bs where d: "replica_delta blocks h m (r_books R) = Some (r, bs)"
    using Cons.prems(6) by (auto simp: nx split: bind_splits)
  have r: "r = Ok"
    using Cons.prems(6,7) consume_lost [of "R\<lparr>r_books := bs, r_synchronized := False\<rparr>" blocks h ms R'] by (auto simp: nx d split: if_splits)
  let ?R = "R\<lparr>r_books := bs, r_sequence := m_sequence m\<rparr>"
  note D = delta_exact [OF Cons.prems(4,5) d]
  have "feed_run ms (views (r_books ?R)) = Some (views (r_books R')) \<and> sound (r_books R') \<and>
      r_epoch R' = r_epoch ?R \<and> r_sequence R' = r_sequence ?R + of_nat (length ms)"
    by (rule Cons.IH) (use Cons.prems st wrap D r d nx in \<open>auto\<close>)
  then show ?case using D r st(3) by (simp add: algebra_simps)
qed simp

lemma depth_step: "feed_step m F = Some F' \<Longrightarrow> depth F' i \<le> Suc (depth F i)"
proof -
  have ins: "length (pt_insert v xs) = Suc (length xs)" for v xs by (induction xs) auto
  have fil: "length (filter P xs) + length (filter P ys) \<le> Suc (length xs + length ys)" for P :: "OrderView \<Rightarrow> bool" and xs ys
    by (rule le_SucI [OF add_mono [OF length_filter_le length_filter_le]])
  have "depth F' i \<le> Suc (depth F i)" if "spec_commit j ev F = Some F'" for j ev
    using that by (cases ev; cases "i = j")
      (auto simp: spec_commit_def spec_apply_def depth_def spec_insert_def spec_delete_def spec_set_quantity_def ins
        fil split: if_splits option.splits)
  then show "feed_step m F = Some F' \<Longrightarrow> depth F' i \<le> Suc (depth F i)"
    by (auto simp: feed_step_def Let_def split: UpdateType.splits option.splits if_splits)
qed

lemma feed_succeeds:
  assumes "r_synchronized R" "stamps (r_epoch R) (r_sequence R) ms" "unat (r_sequence R) + length ms < 2 ^ 64"
    "sound (r_books R)" "blocks_ok blocks" "feed_run ms (views (r_books R)) = Some F'" "heap_grants h"
    "\<forall>i. depth (views (r_books R)) i + length ms \<le> holds_up_to blocks (r_books R) i"
  shows "\<exists>R'. replica_feed blocks h ms R = Some R' \<and> r_synchronized R'"
  using assms
proof (induction ms arbitrary: R)
  case (Cons m ms)
  have st: "m_kind m = Delta" "m_epoch m = r_epoch R" "m_sequence m = r_sequence R + 1"
    "stamps (r_epoch R) (r_sequence R + 1) ms" using Cons.prems(2) by auto
  have wrap: "unat (r_sequence R) + 1 < 2 ^ 64" "unat (r_sequence R + 1) + length ms < 2 ^ 64"
    using no_wrap_next [of "r_sequence R" "length ms"] Cons.prems(3) by auto
  note nx = consume_next [OF Cons.prems(1) st(2,1,3) wrap(1), of blocks h]
  obtain F1 where F1: "feed_step m (views (r_books R)) = Some F1" "feed_run ms F1 = Some F'"
    using Cons.prems(6) by (auto split: bind_splits)
  have "depth (views (r_books R)) (m_instrument_id m) < holds_up_to blocks (r_books R) (m_instrument_id m)"
    using Cons.prems(8) [rule_format, of "m_instrument_id m"] by simp
  then obtain bs where bs: "replica_delta blocks h m (r_books R) = Some (Ok, bs)"
    using delta_succeeds [OF Cons.prems(4,5) F1(1) Cons.prems(7)] by blast
  note D = delta_exact [OF Cons.prems(4,5) bs]
  have deep: "depth F1 i + length ms \<le> holds_up_to blocks bs i" for i
    using depth_step [OF F1(1), of i] Cons.prems(8) [rule_format, of i] D by simp
  let ?R = "R\<lparr>r_books := bs, r_sequence := m_sequence m\<rparr>"
  have "\<exists>R'. replica_feed blocks h ms ?R = Some R' \<and> r_synchronized R'"
    by (rule Cons.IH) (use Cons.prems st wrap D F1 deep in auto)
  then show ?case by (simp add: nx bs)
qed simp

text \<open>The updates of a command, consumed by a replica that mirrors the engine.\<close>

lemma feed_mirrors:
  assumes "engine_reachable ins n e" "n < 2 ^ 64 - 2" "engine_process h c e = Some (b, e')"
    and "mirrors R e" "blocks_ok blocks" "unat (e_sequence e) + length (b_updates b) < 2 ^ 64"
  shows "(\<forall>h' R'. replica_feed blocks h' (b_updates b) R = Some R' \<longrightarrow> r_synchronized R' \<longrightarrow> mirrors R' e') \<and>
    (\<forall>h'. heap_grants h' \<longrightarrow>
       (\<forall>i. depth (views (e_books e)) i + length (b_updates b) \<le> holds_up_to blocks (r_books R) i) \<longrightarrow>
       (\<exists>R'. replica_feed blocks h' (b_updates b) R = Some R' \<and> mirrors R' e'))"
proof -
  note P = process_streams [OF assms(1-3)]
  have M: "r_synchronized R" "r_epoch R = e_epoch e" "r_sequence R = e_sequence e" "sound (r_books R)"
    "views (r_books R) = views (e_books e)" using assms(4) by (auto simp: mirrors_def sound_def)
  have safe: "mirrors R' e'" if "replica_feed blocks h' (b_updates b) R = Some R'" "r_synchronized R'" for h' R'
    using feed_exact [OF M(1) _ _ M(4) assms(5) that] P assms(6) M that(2) by (auto simp: mirrors_def sound_def)
  have live: "\<exists>R'. replica_feed blocks h' (b_updates b) R = Some R' \<and> r_synchronized R'"
    if "heap_grants h'" "\<forall>i. depth (views (e_books e)) i + length (b_updates b) \<le> holds_up_to blocks (r_books R) i" for h'
    by (rule feed_succeeds [OF M(1) _ _ M(4) assms(5) _ that(1)]) (use P assms(6) M that(2) in auto)
  show ?thesis using safe live by blast
qed

section \<open>Failing closed\<close>



end
