(* ===== verification/Replica_Restore.thy ===== *)
theory Replica_Restore
  imports Replica
begin

text \<open>
  The replica at its two ends: the snapshot of an engine restores to a replica that mirrors it, and a
  replica that mirrors an engine gives the engine's own snapshot. Together with the stream theorem this
  closes the loop: a client that restores once and then follows the deltas sees the engine's books.
\<close>

section \<open>Adding the rows of a snapshot\<close>

definition additions :: "Message list \<Rightarrow> Message list" where
  "additions ms = map (\<lambda>m. m\<lparr>m_update := Upd_Add\<rparr>) ms"

lemma additions_simps [simp]:
  "additions [] = []" "additions (m # ms) = m\<lparr>m_update := Upd_Add\<rparr> # additions ms"
  "additions (ms @ ns) = additions ms @ additions ns"
  by (simp_all add: additions_def)

lemma pt_insert_last:
  "(\<And>y. y \<in> set ys \<Longrightarrow> \<not> side_lt (view_side v) (view_price v) (view_price y)) \<Longrightarrow> pt_insert v ys = ys @ [v]"
  using pt_insert_skip [of ys v "[]"] by simp

lemma add_side:
  assumes "s \<noteq> Side_Other" "\<forall>v \<in> set xs. view_side v = s \<and> view_price v \<noteq> 0 \<and> view_quantity v \<noteq> 0"
    "sorted_wrt (\<lambda>v w. \<not> side_lt s (view_price w) (view_price v)) (F i s @ xs)"
    "distinct (map view_id xs)" "\<forall>v \<in> set xs. spec_find (view_id v) (F i) = None"
  shows "feed_run (additions (map (view_row e i) xs)) F = Some (F(i := (F i)(s := F i s @ xs)))"
  using assms
proof (induction xs arbitrary: F)
  case (Cons v xs)
  have v: "view_side v = s" "view_price v \<noteq> 0" "view_quantity v \<noteq> 0" "spec_find (view_id v) (F i) = None"
    using Cons.prems by auto
  have last: "pt_insert v (F i s) = F i s @ [v]"
    using Cons.prems(3) v(1) by (intro pt_insert_last) (auto simp: sorted_wrt_append)
  let ?F = "F(i := (F i)(s := F i s @ [v]))"
  have ins: "?F i = spec_insert v (F i)" using v(1) last by (simp add: spec_insert_def)
  have v': "\<lparr>view_id = view_id v, view_side = s, view_price = view_price v, view_quantity = view_quantity v\<rparr> = v"
    using v(1) by simp
  have "F(i := spec_insert \<lparr>view_id = view_id v, view_side = s, view_price = view_price v, view_quantity = view_quantity v\<rparr> (F i)) = ?F"
    unfolding v' using ins by simp
  then have step: "feed_step ((view_row e i v)\<lparr>m_update := Upd_Add\<rparr>) F = Some ?F"
    using v Cons.prems(1) by (simp add: feed_step_def view_row_def spec_commit_def spec_apply_def Let_def)
  have new: "spec_find (view_id w) (?F i) = None" if "w \<in> set xs" for w
  proof -
    have "view_id w \<noteq> view_id v" using Cons.prems(4) that by (metis distinct.simps(2) image_eqI list.simps(9) set_map)
    then show ?thesis unfolding ins using spec_find_insert [of v "F i" "view_id w"] v(1,4) Cons.prems(1,5) that by simp
  qed
  have "feed_run (additions (map (view_row e i) xs)) ?F = Some (?F(i := (?F i)(s := ?F i s @ xs)))"
  proof (rule Cons.IH [OF Cons.prems(1)])
    show "\<forall>v \<in> set xs. spec_find (view_id v) (?F i) = None" using new by blast
  qed (use Cons.prems in auto)
  then show ?case using step by (simp add: fun_eq_iff)
qed simp

lemma add_book:
  assumes ok: "abs_ok A" "A Side_Other = []" and F: "F i = empty_book"
  shows "feed_run (additions (map (view_row e i) (A Bid @ A Ask))) F = Some (F(i := A))"
proof -
  have B: "\<forall>v \<in> set (A Bid). view_side v = Bid \<and> view_price v \<noteq> 0 \<and> view_quantity v \<noteq> 0"
    "\<forall>v \<in> set (A Ask). view_side v = Ask \<and> view_price v \<noteq> 0 \<and> view_quantity v \<noteq> 0"
    "sorted_wrt (\<lambda>v w. \<not> side_lt Bid (view_price w) (view_price v)) (A Bid)"
    "sorted_wrt (\<lambda>v w. \<not> side_lt Ask (view_price w) (view_price v)) (A Ask)"
    "distinct (map view_id (A Bid))" "distinct (map view_id (A Ask))" "view_id ` set (A Bid) \<inter> view_id ` set (A Ask) = {}"
    using ok(1) by (auto simp: abs_ok_def)
  let ?F = "F(i := (F i)(Bid := A Bid))"
  have "feed_run (additions (map (view_row e i) (A Bid))) F = Some ?F"
    using add_side [of Bid "A Bid" F i e] B F by (simp add: empty_book_def spec_find_def)
  moreover have "spec_find (view_id v) (?F i) = None" if "v \<in> set (A Ask)" for v
    using that B(7) F by (auto simp: spec_find_def find_None_iff empty_book_def)
  then have "feed_run (additions (map (view_row e i) (A Ask))) ?F = Some (?F(i := (?F i)(Ask := ?F i Ask @ A Ask)))"
    using B F by (intro add_side) (auto simp: empty_book_def)
  moreover have "?F(i := (?F i)(Ask := ?F i Ask @ A Ask)) = F(i := A)"
  proof -
    have "empty_book(Bid := A Bid, Ask := A Ask) = A"
    proof
      show "(empty_book(Bid := A Bid, Ask := A Ask)) s = A s" for s
        using ok(2) by (cases s) (simp_all add: empty_book_def)
    qed
    then show ?thesis using F by (simp add: empty_book_def)
  qed
  ultimately show ?thesis by (simp add: feed_run_append)
qed

lemma add_books:
  assumes "\<forall>(i, b) \<in> set bs. wf_book b" "distinct (map fst bs)" "\<forall>i \<in> fst ` set bs. F i = empty_book"
  shows "feed_run (additions (concat (map (\<lambda>(i, b). map (view_row e i) (book_orders b Bid @ book_orders b Ask)) bs))) F =
    Some (\<lambda>i. case map_of bs i of None \<Rightarrow> F i | Some b \<Rightarrow> book_orders b)"
  using assms
proof (induction bs arbitrary: F)
  case (Cons x bs)
  obtain i b where x: "x = (i, b)" by force
  have "abs_ok (book_orders b)" using lob.view_ok Cons.prems(1) by (simp add: x)
  then have "feed_run (additions (map (view_row e i) (book_orders b Bid @ book_orders b Ask))) F = Some (F(i := book_orders b))"
    using Cons.prems(3) by (intro add_book) (auto simp: x)
  moreover have "feed_run (additions (concat (map (\<lambda>(i, b). map (view_row e i) (book_orders b Bid @ book_orders b Ask)) bs)))
      (F(i := book_orders b)) = Some (\<lambda>j. case map_of bs j of None \<Rightarrow> (F(i := book_orders b)) j | Some b \<Rightarrow> book_orders b)"
    using Cons.prems by (intro Cons.IH) (auto simp: x)
  moreover have "map_of bs i = None" using Cons.prems(2) by (simp add: x map_of_eq_None_iff)
  moreover have "(\<lambda>j. case map_of bs j of None \<Rightarrow> (F(i := book_orders b)) j | Some b \<Rightarrow> book_orders b) =
      (\<lambda>j. case map_of (x # bs) j of None \<Rightarrow> F j | Some b \<Rightarrow> book_orders b)"
    using calculation(3) by (auto simp: x fun_eq_iff split: option.splits)
  ultimately show ?case
    unfolding list.map concat.simps additions_simps(3) feed_run_append by (simp add: x del: map_append additions_simps(3))
qed simp

lemma snapshot_adds:
  assumes inv: "eng_inv e"
  shows "feed_run (additions (snapshot_rows e)) (\<lambda>_. empty_book) = Some (views (e_books e))"
proof -
  note I = eng_invD [OF inv]
  have "feed_run (additions (snapshot_rows e)) (\<lambda>_. empty_book) =
      Some (\<lambda>i. case map_of (e_books e) i of None \<Rightarrow> empty_book | Some b \<Rightarrow> book_orders b)"
    unfolding snapshot_rows_eq
    using owned_book [OF I(1)] in_books [OF inv] om_less.sorted_distinct owned_sorted [OF I(1)]
    by (intro add_books) (auto simp del: map_append)
  then show ?thesis by (simp add: views_def [abs_def])
qed

section \<open>The restore loop\<close>

definition watermarked :: "Message \<Rightarrow> Message \<Rightarrow> bool" where
  "watermarked first m \<longleftrightarrow> m_epoch m = m_epoch first \<and> m_sequence m = m_sequence first"

lemma restore_order_exact:
  assumes so: "sound bs" "blocks_ok blocks" and re: "restore_order blocks h m (ids, bs) = Inr (ids', bs')"
  shows "sound bs' \<and> holds_up_to blocks bs' = holds_up_to blocks bs \<and> ids' = insert (m_exchange_id m) ids \<and>
    feed_step (m\<lparr>m_update := Upd_Add\<rparr>) (views bs) = Some (views bs')"
proof -
  obtain b bs1 b' where r: "book_slot blocks (m_instrument_id m) bs = Some (b, bs1)"
    "apply_event h (AddOrder (m_exchange_id m) (m_side m) (m_price m) (m_quantity m)) b = Some (Ok, b')"
    "bs' = om_put (<) (m_instrument_id m) b' bs1" "ids' = insert (m_exchange_id m) ids"
    using re by (auto simp: restore_order_def split: if_splits option.splits ApplyResult.splits)
  note S = slot_exact [OF r(1) so]
  show ?thesis using put_exact [OF S(1,2) r(2)] S(3,6) r(3,4) by (simp add: feed_step_def Let_def)
qed

lemma restore_loop_exact:
  assumes "restore_loop blocks h first n i (ms @ [z]) (ids, bs) = Inr bs'" "0 < i" "n = i + length ms + 1"
    "sound bs" "blocks_ok blocks"
  shows "sound bs' \<and> feed_run (additions ms) (views bs) = Some (views bs')"
  using assms
proof (induction ms arbitrary: i ids bs)
  case (Cons m ms)
  obtain ids1 bs1 where o: "restore_order blocks (h i) m (ids, bs) = Inr (ids1, bs1)"
    using Cons.prems(1-3) by (auto split: if_splits sum.splits)
  note E = restore_order_exact [OF Cons.prems(4,5) o]
  have "sound bs' \<and> feed_run (additions ms) (views bs1) = Some (views bs')"
    by (rule Cons.IH [of "Suc i" ids1]) (use Cons.prems o E in \<open>auto split: if_splits\<close>)
  then show ?case using E by simp
qed (auto split: if_splits)

definition rows_of :: "InstrumentId \<Rightarrow> Message list \<Rightarrow> nat" where
  "rows_of i ms = length (filter (\<lambda>m. m_instrument_id m = i) ms)"

lemma depth_add:
  assumes "feed_step (m\<lparr>m_update := Upd_Add\<rparr>) F = Some F'"
  shows "depth F' i = depth F i + (if m_instrument_id m = i then 1 else 0)"
proof -
  have ins: "length (pt_insert v xs) = Suc (length xs)" for v xs by (induction xs) auto
  show ?thesis
    using assms by (cases "m_side m") (auto simp: feed_step_def spec_commit_def spec_apply_def depth_def spec_insert_def ins Let_def
        split: if_splits)
qed

lemma restore_loop_succeeds:
  assumes "feed_run (additions ms) (views bs) = Some F'" "0 < i" "n = i + length ms + 1"
    "sound bs" "blocks_ok blocks" "\<forall>k. heap_grants (h k)"
    "list_all (watermarked first) (ms @ [z])"
    "\<forall>m \<in> set ms. m_kind m = SnapshotOrder \<and> m_instrument_id m \<noteq> 0 \<and> m_exchange_id m \<noteq> 0 \<and> m_exchange_id m \<notin> ids"
    "distinct (map m_exchange_id ms)"
    "\<forall>j. depth (views bs) j + rows_of j ms \<le> holds_up_to blocks bs j"
  shows "\<exists>bs'. restore_loop blocks h first n i (ms @ [z]) (ids, bs) = Inr bs'"
  using assms
proof (induction ms arbitrary: i ids bs)
  case (Cons m ms)
  obtain F1 where F1: "feed_step (m\<lparr>m_update := Upd_Add\<rparr>) (views bs) = Some F1" "feed_run (additions ms) F1 = Some F'"
    using Cons.prems(1) by (auto split: bind_splits)
  have room: "depth (views bs) (m_instrument_id m) < holds_up_to blocks bs (m_instrument_id m)"
    using Cons.prems(10) [rule_format, of "m_instrument_id m"] by (simp add: rows_of_def)
  obtain b bs1 where sl: "book_slot blocks (m_instrument_id m) bs = Some (b, bs1)"
    using room by (auto simp: holds_up_to_def split: option.splits)
  note S = slot_exact [OF sl Cons.prems(4,5)]
  have "depth (views bs1) (m_instrument_id m) < book_capacity b" using room sl S(3) by (simp add: holds_up_to_def)
  then obtain b' where b': "apply_event (h i) (AddOrder (m_exchange_id m) (m_side m) (m_price m) (m_quantity m)) b = Some (Ok, b')"
    using put_succeeds [OF S(1,2) _ Cons.prems(6) [rule_format, of i], of _ F1] F1(1) S(3) by (auto simp: feed_step_def Let_def)
  define bs2 where "bs2 = om_put (<) (m_instrument_id m) b' bs1"
  have o: "restore_order blocks (h i) m (ids, bs) = Inr (insert (m_exchange_id m) ids, bs2)"
    using Cons.prems(8) sl b' by (simp add: restore_order_def bs2_def)
  note E = restore_order_exact [OF Cons.prems(4,5) o]
  have deep: "depth (views bs2) j + rows_of j ms \<le> holds_up_to blocks bs2 j" for j
    using Cons.prems(10) [rule_format, of j] E depth_add [of m "views bs" "views bs2" j] by (auto simp: rows_of_def)
  have "\<exists>bs'. restore_loop blocks h first n (Suc i) (ms @ [z]) (insert (m_exchange_id m) ids, bs2) = Inr bs'"
  proof (rule Cons.IH)
    show "\<forall>a \<in> set ms. m_kind a = SnapshotOrder \<and> m_instrument_id a \<noteq> 0 \<and> m_exchange_id a \<noteq> 0 \<and>
        m_exchange_id a \<notin> insert (m_exchange_id m) ids"
      using Cons.prems(8,9) by (auto simp: rev_image_eqI)
  qed (use Cons.prems E F1 deep in auto)
  then show ?case using o Cons.prems(2,3,7) by (simp add: watermarked_def)
qed (simp add: watermarked_def)

lemma rows_of_snapshot:
  assumes inv: "eng_inv e"
  shows "rows_of j (snapshot_rows e) = depth (views (e_books e)) j"
proof -
  have run: "depth F' j = depth F j + rows_of j ms" if "feed_run (additions ms) F = Some F'" for ms F F'
    using that by (induction ms arbitrary: F) (auto simp: rows_of_def depth_add split: bind_splits)
  show ?thesis using run [OF snapshot_adds [OF inv]] by (simp add: depth_def empty_book_def)
qed

lemma snapshot_ids:
  assumes inv: "eng_inv e"
  shows "distinct (map m_exchange_id (snapshot_rows e))"
    "\<forall>m \<in> set (snapshot_rows e). m_kind m = SnapshotOrder \<and> m_instrument_id m \<noteq> 0 \<and> m_exchange_id m \<noteq> 0 \<and>
      m_epoch m = e_epoch e \<and> m_sequence m = e_sequence e"
proof -
  note I = eng_invD [OF inv]
  have "m_exchange_id ` set (snapshot_rows e) = fst ` set (e_resting e)"
    unfolding snapshot_set [OF inv] by (force simp: public_row_def dom_map_of_conv_image_fst [symmetric] dom_def)
  then have "card (set (map m_exchange_id (snapshot_rows e))) = length (e_resting e)"
    using om_less.sorted_distinct [of "e_resting e"] owned_sorted [OF I(1)] distinct_card [of "map fst (e_resting e)"] by simp
  then show "distinct (map m_exchange_id (snapshot_rows e))"
    using snapshot_length [OF inv] by (intro card_distinct) simp
  have "oid \<noteq> 0 \<and> m_instrument_id m \<noteq> 0" if "map_of (e_resting e) oid = Some m" for oid m
  proof -
    have "om_contains (e_instruments e) (m_instrument_id m)" using owned_contains [OF I(1) that] I(2) by auto
    then show ?thesis using I(3) I(5) that by (auto simp: orders_known_def rules_ok_def)
  qed
  then show "\<forall>m \<in> set (snapshot_rows e). m_kind m = SnapshotOrder \<and> m_instrument_id m \<noteq> 0 \<and> m_exchange_id m \<noteq> 0 \<and>
      m_epoch m = e_epoch e \<and> m_sequence m = e_sequence e"
    unfolding snapshot_set [OF inv] by (auto simp: public_row_def)
qed

section \<open>Accepting the books\<close>

lemma depth_count: "sound bs \<Longrightarrow> map_of bs i = Some b \<Longrightarrow> depth (views bs) i = order_count b"
  using card_nodes(2) [OF wf_bookD] by (auto simp: depth_def views_def sound_def books_wf_def)

lemma books_acceptable:
  assumes inv: "eng_inv e" and so: "sound bs" and v: "views bs = views (e_books e)" and few: "length (e_resting e) \<le> 2 ^ 32"
  shows "list_all (\<lambda>(_, b). book_acceptable b) bs"
proof -
  have "book_acceptable b" if mem: "(i, b) \<in> set bs" for i b
  proof -
    have b: "map_of bs i = Some b" "wf_book b"
      using mem so om_less.sorted_distinct [of bs] by (auto simp: sound_def books_wf_def)
    have vb: "book_orders b = views (e_books e) i" using v b(1) by (metis option.simps(5) views_def)
    have "order_count b \<le> length (e_resting e)"
    proof -
      have "rows_of i (snapshot_rows e) \<le> length (snapshot_rows e)" by (simp add: rows_of_def)
      then show ?thesis
        using depth_count [OF so b(1)] rows_of_snapshot [OF inv, of i] snapshot_length [OF inv] v by simp
    qed
    then have valid: "validate_invariants b = Inr ()" using validate_accepts [OF wf_bookD [OF b(2)]] few by simp
    note bp = best_prices [OF wf_bookD [OF b(2)]]
    have "p < q" if "best_bid b = Some p" "best_ask b = Some q" for p q
    proof (cases "map_of (e_books e) i")
      case None
      then show ?thesis using that bp vb by (simp add: views_def empty_book_def head_def)
    next
      case (Some bk)
      have "wf_core bk" using owned_book [OF eng_invD(1) [OF inv] Some] wf_bookD by blast
      then show ?thesis
        using inv_uncrossed [OF inv Some, of p q] best_prices [of bk] that bp vb Some by (simp add: views_def)
    qed
    then show ?thesis using valid by (auto simp: book_acceptable_def not_le split: option.splits)
  qed
  then show ?thesis by (auto simp: list_all_iff)
qed

lemma reachable_epoch: "engine_reachable ins n e \<Longrightarrow> e_epoch e \<noteq> 0"
proof (induction rule: engine_reachable.induct)
  case (engine_step ins n e h c b e')
  then show ?case using process_streams [OF engine_step(1,2,3)] by simp
qed (auto simp: MatchingEngine_new_def split: if_splits bind_splits)

section \<open>Restoring\<close>

lemma restore_parts:
  assumes "engine_snapshot e = rows"
  shows "\<exists>z. rows = hd rows # snapshot_rows e @ [z] \<and> last rows = z \<and> m_kind (hd rows) = SnapshotBegin \<and> m_kind z = SnapshotEnd \<and>
    m_quantity (hd rows) = of_nat (length (e_resting e)) \<and> m_quantity z = of_nat (length (e_resting e)) \<and>
    m_epoch (hd rows) = e_epoch e \<and> m_sequence (hd rows) = e_sequence e \<and> m_epoch z = e_epoch e \<and> m_sequence z = e_sequence e"
  using assms by (auto simp: engine_snapshot_def Let_def)

lemma restore_mirrors:
  assumes inv: "eng_inv e" and blk: "blocks_ok blocks"
    and re: "replica_restore blocks h (engine_snapshot e) R0 = (None, R)"
  shows "mirrors R e"
proof -
  obtain z where z: "engine_snapshot e = hd (engine_snapshot e) # snapshot_rows e @ [z]"
    "m_epoch (hd (engine_snapshot e)) = e_epoch e" "m_sequence (hd (engine_snapshot e)) = e_sequence e"
    using restore_parts [OF refl, of e] by metis
  obtain bs where bs: "restore_loop blocks h (hd (engine_snapshot e)) (length (engine_snapshot e)) 0 (engine_snapshot e) ({}, []) = Inr bs"
    "R = R0\<lparr>r_books := bs, r_epoch := e_epoch e, r_sequence := e_sequence e, r_synchronized := True\<rparr>"
    using re z(2,3) by (auto simp: replica_restore_def Let_def split: if_splits sum.splits)
  have "restore_loop blocks h (hd (engine_snapshot e)) (length (engine_snapshot e)) (Suc 0) (snapshot_rows e @ [z]) ({}, []) = Inr bs"
    using bs(1) by (subst (asm) (3) z(1)) (simp split: if_splits)
  then have "sound bs \<and> feed_run (additions (snapshot_rows e)) (views []) = Some (views bs)"
    by (rule restore_loop_exact) (use arg_cong [OF z(1), of length] blk in \<open>auto simp: sound_def books_wf_def om_less.sorted_Nil\<close>)
  then show ?thesis using snapshot_adds [OF inv] bs(2) by (simp add: mirrors_def sound_def views_def [abs_def])
qed

lemma restore_succeeds:
  assumes inv: "eng_inv e" and ep: "e_epoch e \<noteq> 0" and blk: "blocks_ok blocks" and h: "\<forall>k. heap_grants (h k)"
    and few: "length (e_resting e) < 2 ^ 32" and room: "\<forall>i. depth (views (e_books e)) i \<le> holds_up_to blocks [] i"
  shows "\<exists>R. replica_restore blocks h (engine_snapshot e) R0 = (None, R)"
proof -
  let ?rows = "engine_snapshot e"
  obtain z where z: "?rows = hd ?rows # snapshot_rows e @ [z]" "last ?rows = z" "m_kind (hd ?rows) = SnapshotBegin" "m_kind z = SnapshotEnd"
    "m_quantity (hd ?rows) = of_nat (length (e_resting e))" "m_quantity z = of_nat (length (e_resting e))"
    "m_epoch (hd ?rows) = e_epoch e" "m_sequence (hd ?rows) = e_sequence e" "m_epoch z = e_epoch e" "m_sequence z = e_sequence e"
    using restore_parts [OF refl, of e] by blast
  have len: "length ?rows = length (e_resting e) + 2" using arg_cong [OF z(1), of length] snapshot_length [OF inv] by simp
  have start: "sound ([] :: (InstrumentId \<times> OrderBook) list)" by (simp add: sound_def books_wf_def om_less.sorted_Nil)
  have v0: "views [] = (\<lambda>_. empty_book)" by (simp add: views_def [abs_def])
  obtain bs where mid: "restore_loop blocks h (hd ?rows) (length ?rows) (Suc 0) (snapshot_rows e @ [z]) ({}, []) = Inr bs"
  proof -
    have "\<exists>bs. restore_loop blocks h (hd ?rows) (length ?rows) (Suc 0) (snapshot_rows e @ [z]) ({}, []) = Inr bs"
    proof (rule restore_loop_succeeds [OF _ _ _ start blk h])
      show "feed_run (additions (snapshot_rows e)) (views []) = Some (views (e_books e))"
        using snapshot_adds [OF inv] by (simp add: v0)
      show "\<forall>j. depth (views []) j + rows_of j (snapshot_rows e) \<le> holds_up_to blocks [] j"
        using room by (simp add: v0 rows_of_snapshot [OF inv]) (simp add: depth_def empty_book_def)
      show "list_all (watermarked (hd ?rows)) (snapshot_rows e @ [z])"
        using snapshot_ids(2) [OF inv] z by (auto simp: watermarked_def list_all_iff)
    qed (use snapshot_ids [OF inv] snapshot_length [OF inv] len in auto)
    then show ?thesis using that by blast
  qed
  then have "sound bs \<and> feed_run (additions (snapshot_rows e)) (views []) = Some (views bs)"
    by (rule restore_loop_exact) (use snapshot_length [OF inv] len blk start in auto)
  then have "list_all (\<lambda>(_, b). book_acceptable b) bs"
    using snapshot_adds [OF inv] few by (intro books_acceptable [OF inv]) (auto simp: v0)
  moreover have "restore_loop blocks h (hd ?rows) (length ?rows) 0 ?rows ({}, []) = Inr bs"
    using mid by (subst (3) z(1)) simp
  moreover have "unat (of_nat (length (e_resting e)) :: u32) = length (e_resting e)"
    using few by (simp add: unat_of_nat take_bit_nat_eq_self)
  ultimately show ?thesis
    using z(2-7) len ep by (simp add: replica_restore_def Let_def)
qed

text \<open>The demonstration engine has no orders; any granting environment restores it.\<close>

definition demo_blocks :: "InstrumentId \<Rightarrow> nat option" where
  "demo_blocks i = Some 4096"

lemma demo_restores:
  "\<exists>R. replica_restore demo_blocks (\<lambda>_. demo_heap) (engine_snapshot demo_engine) replica_new = (None, R) \<and> mirrors R demo_engine"
proof -
  have inv: "eng_inv demo_engine" using reachable_inv [OF demo_engine_reachable] by blast
  have blk: "blocks_ok demo_blocks"
    by (simp add: blocks_ok_def demo_blocks_def block_ok_def CAPACITY_BYTES_def sizeof_OrderEntry_def)
  have "depth (views (e_books demo_engine)) i \<le> holds_up_to demo_blocks [] i" for i
    using rows_of_snapshot [OF inv, of i] snapshot_length [OF inv] by (simp add: demo_engine_empty rows_of_def)
  then have "\<exists>R. replica_restore demo_blocks (\<lambda>_. demo_heap) (engine_snapshot demo_engine) replica_new = (None, R)"
    by (intro restore_succeeds [OF inv reachable_epoch [OF demo_engine_reachable] blk])
      (simp_all add: demo_engine_empty heap_grants_def demo_heap_def)
  then show ?thesis using restore_mirrors [OF inv blk] by blast
qed

text \<open>
  Restoring a replica from the snapshot of a reachable engine: when the restore reports no error the
  replica mirrors the engine, and it reports none when memory is granted, the new books can hold the
  orders and there are fewer than \<open>2 ^ 32\<close> of them (the width of the count in the envelope).
\<close>

theorem replica_restores_engine:
  assumes "engine_reachable ins n e" "blocks_ok blocks"
  shows "(\<forall>h R0 R. replica_restore blocks h (engine_snapshot e) R0 = (None, R) \<longrightarrow> mirrors R e) \<and>
    (\<forall>h R0. (\<forall>k. heap_grants (h k)) \<longrightarrow> length (e_resting e) < 2 ^ 32 \<longrightarrow>
       (\<forall>i. depth (views (e_books e)) i \<le> holds_up_to blocks [] i) \<longrightarrow>
       (\<exists>R. replica_restore blocks h (engine_snapshot e) R0 = (None, R)))"
proof -
  have inv: "eng_inv e" using reachable_inv [OF assms(1)] by blast
  show ?thesis
    using restore_mirrors [OF inv assms(2)] restore_succeeds [OF inv reachable_epoch [OF assms(1)] assms(2)] by blast
qed

theorem replica_restores_engine_witness:
  "\<exists>R. replica_restore demo_blocks (\<lambda>_. demo_heap) (engine_snapshot demo_engine) replica_new = (None, R) \<and> mirrors R demo_engine"
proof -
  have "blocks_ok demo_blocks"
    by (simp add: blocks_ok_def demo_blocks_def block_ok_def CAPACITY_BYTES_def sizeof_OrderEntry_def)
  then show ?thesis using replica_restores_engine [OF demo_engine_reachable, of demo_blocks] demo_restores by blast
qed

section \<open>The replica's own snapshot\<close>

text \<open>Books without orders contribute no rows, so equal views give equal rows.\<close>

definition market_rows :: "(InstrumentId \<Rightarrow> OrderView \<Rightarrow> Message) \<Rightarrow> (InstrumentId \<times> OrderBook) list \<Rightarrow> Message list" where
  "market_rows row bs = concat (map (\<lambda>(i, b). map (row i) (book_orders b Bid @ book_orders b Ask)) bs)"

lemma market_rows_views:
  assumes "om_sorted (<) bs"
  shows "market_rows row bs =
    concat (map (\<lambda>i. map (row i) (views bs i Bid @ views bs i Ask)) (filter (\<lambda>i. views bs i \<noteq> empty_book) (map fst bs)))"
proof -
  have d: "distinct (map fst bs)" using om_less.sorted_distinct [OF assms] .
  have "market_rows row cs =
    concat (map (\<lambda>i. map (row i) (views bs i Bid @ views bs i Ask)) (filter (\<lambda>i. views bs i \<noteq> empty_book) (map fst cs)))"
    if "set cs \<subseteq> set bs" for cs
    using that
  proof (induction cs)
    case (Cons x cs)
    obtain i b where x: "x = (i, b)" by force
    have "map_of bs i = Some b" using Cons.prems d by (simp add: x)
    then have v: "views bs i = book_orders b" by (simp add: views_def)
    have "book_orders b Bid @ book_orders b Ask = []" if "book_orders b = empty_book" using that by (simp add: empty_book_def)
    then show ?case using Cons by (auto simp: x v market_rows_def)
  qed (simp add: market_rows_def)
  then show ?thesis by blast
qed

lemma sorted_filter_eq:
  assumes "sorted_wrt (<) (xs :: 'a::linorder list)" "sorted_wrt (<) ys" "{x \<in> set xs. P x} = {y \<in> set ys. P y}"
  shows "filter P xs = filter P ys"
proof (rule sorted_distinct_set_unique)
  show "sorted (filter P xs)" "distinct (filter P xs)" "sorted (filter P ys)" "distinct (filter P ys)"
    using assms(1,2) by (auto simp: strict_sorted_iff sorted_wrt_filter)
  show "set (filter P xs) = set (filter P ys)" using assms(3) by auto
qed

lemma market_rows_eq:
  assumes "om_sorted (<) bs" "om_sorted (<) cs" "views bs = views cs"
  shows "market_rows row bs = market_rows row cs"
proof -
  have "i \<in> set (map fst bs) \<longleftrightarrow> i \<in> set (map fst cs)" if "views bs i \<noteq> empty_book" for i
  proof -
    have in_dom: "i \<in> set (map fst ds)" if "views ds i \<noteq> empty_book" for ds
      using that by (cases "map_of ds i") (auto simp: views_def dest!: map_of_eq_Some_in_set intro: rev_image_eqI)
    show ?thesis using in_dom [of bs] in_dom [of cs] \<open>views bs i \<noteq> empty_book\<close> assms(3) by simp
  qed
  then have "filter (\<lambda>i. views bs i \<noteq> empty_book) (map fst bs) = filter (\<lambda>i. views bs i \<noteq> empty_book) (map fst cs)"
    using assms(1,2) unfolding om_sorted_def by (intro sorted_filter_eq) auto
  then show ?thesis unfolding market_rows_views [OF assms(1)] market_rows_views [OF assms(2)] assms(3) by simp
qed

lemma length_market_rows: "sound bs \<Longrightarrow> length (market_rows row bs) = sum_list (map (\<lambda>(_, b). order_count b) bs)"
proof -
  assume so: "sound bs"
  have "length (book_orders b Bid @ book_orders b Ask) = order_count b" if "(i, b) \<in> set bs" for i b
  proof -
    have "map_of bs i = Some b" using that so om_less.sorted_distinct [of bs] by (auto simp: sound_def)
    then show ?thesis using card_nodes(2) [OF wf_bookD] so by (simp add: sound_def books_wf_def)
  qed
  then have "map (length \<circ> (\<lambda>(i, b). map (row i) (book_orders b Bid @ book_orders b Ask))) bs = map (\<lambda>(_, b). order_count b) bs"
    by auto
  then show ?thesis unfolding market_rows_def length_concat map_map by (simp only:)
qed

lemma mirror_snapshot:
  assumes inv: "eng_inv e" and mi: "mirrors R e"
  shows "replica_snapshot R = Some (engine_snapshot e)"
proof -
  have M: "r_synchronized R" "r_epoch R = e_epoch e" "r_sequence R = e_sequence e" "sound (r_books R)" "om_sorted (<) (r_books R)"
    "views (r_books R) = views (e_books e)" using mi by (auto simp: mirrors_def sound_def)
  have rows: "snapshot_rows e = market_rows (view_row e) (r_books R)"
    using market_rows_eq [OF M(5) _ M(6), of "view_row e"] owned_sorted [OF eng_invD(1) [OF inv]]
    by (simp add: snapshot_rows_eq market_rows_def)
  have count: "replica_order_count R = length (e_resting e)"
    using length_market_rows [OF M(4), of "view_row e"] snapshot_length [OF inv] rows by (simp add: replica_order_count_def)
  let ?m = "default_message\<lparr>m_kind := SnapshotBegin, m_epoch := e_epoch e, m_sequence := e_sequence e, m_quantity := of_nat (length (e_resting e))\<rparr>"
  have row: "?m\<lparr>m_kind := SnapshotOrder, m_instrument_id := i, m_exchange_id := view_id v, m_side := view_side v,
      m_price := view_price v, m_quantity := view_quantity v\<rparr> = view_row e i v" for i and v :: OrderView
    by (simp add: view_row_def default_message_def)
  have "concat (map (\<lambda>(i, b). concat (map (\<lambda>level. map (\<lambda>order.
      ?m\<lparr>m_kind := SnapshotOrder, m_instrument_id := i, m_exchange_id := view_id order, m_side := view_side order,
        m_price := view_price order, m_quantity := view_quantity order\<rparr>) (lv_orders level)) (book_snapshot b))) (r_books R)) =
    market_rows (view_row e) (r_books R)"
    unfolding market_rows_def row snapshot_orders [symmetric] map_concat by (simp add: comp_def)
  then show ?thesis unfolding replica_snapshot_def engine_snapshot_def Let_def M(2,3) count rows using M(1) by (simp only: not_True_eq_False if_False if_True simp_thms)
qed

text \<open>
  A replica that mirrors a reachable engine answers a snapshot request with exactly the engine's
  own snapshot, row by row.
\<close>

theorem replica_snapshot_agrees:
  assumes "engine_reachable ins n e" "mirrors R e"
  shows "replica_snapshot R = Some (engine_snapshot e)"
  using mirror_snapshot reachable_inv [OF assms(1)] assms(2) by blast

theorem replica_snapshot_agrees_witness:
  "\<exists>R. mirrors R demo_engine \<and> replica_snapshot R = Some (engine_snapshot demo_engine)"
  using replica_snapshot_agrees [OF demo_engine_reachable] demo_restores by blast

text \<open>
  C17. A replica follows the engine: if it mirrors the engine before a command and consumes the updates the
  command publishes, then whenever it still calls itself synchronized it mirrors the engine after the
  command, order by order and in priority; an allocation that fails can only make it unsynchronized or
  throw. When memory is granted and its books have room for the batch, it does stay synchronized.
\<close>

theorem replica_follows_engine:
  assumes "engine_reachable ins n e" "n < 2 ^ 64 - 2" "engine_process h c e = Some (b, e')"
    and "mirrors R e" "blocks_ok blocks" "unat (e_sequence e) + length (b_updates b) < 2 ^ 64"
  shows "(\<forall>h' R'. replica_feed blocks h' (b_updates b) R = Some R' \<longrightarrow> r_synchronized R' \<longrightarrow> mirrors R' e') \<and>
    (\<forall>h'. heap_grants h' \<longrightarrow>
       (\<forall>i. depth (views (e_books e)) i + length (b_updates b) \<le> holds_up_to blocks (r_books R) i) \<longrightarrow>
       (\<exists>R'. replica_feed blocks h' (b_updates b) R = Some R' \<and> mirrors R' e'))"
  by (rule feed_mirrors [OF assms])

theorem replica_follows_engine_witness:
  "\<exists>R b e'. engine_process demo_heap (demo_command\<lparr>m_action := Act_Snapshot\<rparr>) demo_engine = Some (b, e') \<and> mirrors R e'"
proof -
  obtain R where R: "mirrors R demo_engine" using demo_restores by blast
  obtain b e' where p: "engine_process demo_heap (demo_command\<lparr>m_action := Act_Snapshot\<rparr>) demo_engine = Some (b, e')" "b_updates b = []"
    by (simp add: engine_process_def engine_reject_def engine_report_def Let_def)
  have "e_sequence demo_engine = 0"
    by (simp add: demo_engine_def MatchingEngine_new_def default_instruments_def default_rules_def rules_ok_def
        OrderBook_default_def OrderBook_new_def FixedSlotPool_new_def CAPACITY_BYTES_def sizeof_OrderEntry_def)
  moreover have "blocks_ok demo_blocks"
    by (simp add: blocks_ok_def demo_blocks_def block_ok_def CAPACITY_BYTES_def sizeof_OrderEntry_def)
  ultimately have "mirrors R e'"
    using replica_follows_engine [OF demo_engine_reachable _ p(1) R, of demo_blocks] R p(2) by (simp add: mirrors_def)
  then show ?thesis using p(1) by blast
qed

end
