(* ===== verification/LF_Queue.thy ===== *)
theory LF_Queue
  imports Prelude
begin

unbundle bit_operations_syntax

text \<open>
  include/order_book/core/lfqueue.hpp: the bounded queue between one producer and one consumer thread.
  \<open>try_push\<close> and \<open>try_pop\<close> are given as functions, and again as the steps their threads take on the shared
  memory, one load or store at a time and in any interleaving. The acquire and release orders of the
  source make the two index variables behave as such steps; that the buffer itself is never accessed by
  both threads at the same slot is proved, not assumed.

  The indices are 64-bit counters that wrap around; the capacity is a power of two below \<open>2 ^ 64\<close>.
\<close>

section \<open>The queue\<close>

record 'a LFQueue =
  prod_idx :: u64
  cons_idx :: u64
  buffers :: "'a list"

definition q_mask :: "nat \<Rightarrow> u64" where
  "q_mask n = of_nat n - 1"

definition is_empty :: "u64 \<Rightarrow> u64 \<Rightarrow> bool" where
  "is_empty p c \<longleftrightarrow> p = c"

definition is_full :: "nat \<Rightarrow> u64 \<Rightarrow> u64 \<Rightarrow> bool" where
  "is_full n p c \<longleftrightarrow> p - c = of_nat n"

definition slot :: "nat \<Rightarrow> u64 \<Rightarrow> nat" where
  "slot n i = unat (i AND q_mask n)"

definition try_push :: "nat \<Rightarrow> 'a \<Rightarrow> 'a LFQueue \<Rightarrow> bool \<times> 'a LFQueue" where
  "try_push n x q =
     (if is_full n (prod_idx q) (cons_idx q) then (False, q)
      else (True, q\<lparr>buffers := (buffers q)[slot n (prod_idx q) := x], prod_idx := prod_idx q + 1\<rparr>))"

definition try_pop :: "nat \<Rightarrow> 'a LFQueue \<Rightarrow> 'a option \<times> 'a LFQueue" where
  "try_pop n q =
     (if is_empty (prod_idx q) (cons_idx q) then (None, q)
      else (Some (buffers q ! slot n (cons_idx q)), q\<lparr>cons_idx := cons_idx q + 1\<rparr>))"

definition queue_new :: "nat \<Rightarrow> 'a \<Rightarrow> 'a LFQueue" where
  "queue_new n x = \<lparr>prod_idx = 0, cons_idx = 0, buffers = replicate n x\<rparr>"

section \<open>The two threads\<close>

text \<open>Where a thread is inside its operation, with the values it holds in its local variables.\<close>

datatype 'a producer = P_Idle | P_Loaded 'a u64 | P_Room 'a u64 | P_Written 'a u64
datatype 'a consumer = C_Idle | C_Loaded u64 | C_Ready u64 | C_Taken 'a u64

record 'a threads =
  shared :: "'a LFQueue"
  producing :: "'a producer"
  consuming :: "'a consumer"
  pushed :: "'a list"
  popped :: "'a list"

inductive queue_step :: "nat \<Rightarrow> 'a threads \<Rightarrow> 'a threads \<Rightarrow> bool" for n where
  push_begin: "producing s = P_Idle \<Longrightarrow> queue_step n s (s\<lparr>producing := P_Loaded x (prod_idx (shared s))\<rparr>)"
| push_full: "producing s = P_Loaded x p \<Longrightarrow> is_full n p (cons_idx (shared s)) \<Longrightarrow>
    queue_step n s (s\<lparr>producing := P_Idle\<rparr>)"
| push_room: "producing s = P_Loaded x p \<Longrightarrow> \<not> is_full n p (cons_idx (shared s)) \<Longrightarrow>
    queue_step n s (s\<lparr>producing := P_Room x p\<rparr>)"
| push_write: "producing s = P_Room x p \<Longrightarrow>
    queue_step n s (s\<lparr>producing := P_Written x p, shared := (shared s)\<lparr>buffers := (buffers (shared s))[slot n p := x]\<rparr>\<rparr>)"
| push_publish: "producing s = P_Written x p \<Longrightarrow>
    queue_step n s (s\<lparr>producing := P_Idle, shared := (shared s)\<lparr>prod_idx := p + 1\<rparr>, pushed := pushed s @ [x]\<rparr>)"
| pop_begin: "consuming s = C_Idle \<Longrightarrow> queue_step n s (s\<lparr>consuming := C_Loaded (prod_idx (shared s))\<rparr>)"
| pop_empty: "consuming s = C_Loaded p \<Longrightarrow> is_empty p (cons_idx (shared s)) \<Longrightarrow>
    queue_step n s (s\<lparr>consuming := C_Idle\<rparr>)"
| pop_ready: "consuming s = C_Loaded p \<Longrightarrow> \<not> is_empty p (cons_idx (shared s)) \<Longrightarrow>
    queue_step n s (s\<lparr>consuming := C_Ready (cons_idx (shared s))\<rparr>)"
| pop_read: "consuming s = C_Ready c \<Longrightarrow>
    queue_step n s (s\<lparr>consuming := C_Taken (buffers (shared s) ! slot n c) c\<rparr>)"
| pop_release: "consuming s = C_Taken x c \<Longrightarrow>
    queue_step n s (s\<lparr>consuming := C_Idle, shared := (shared s)\<lparr>cons_idx := c + 1\<rparr>, popped := popped s @ [x]\<rparr>)"

definition threads_new :: "nat \<Rightarrow> 'a \<Rightarrow> 'a threads" where
  "threads_new n x = \<lparr>shared = queue_new n x, producing = P_Idle, consuming = C_Idle, pushed = [], popped = []\<rparr>"

inductive queue_reachable :: "nat \<Rightarrow> 'a threads \<Rightarrow> bool" for n where
  queue_start: "queue_reachable n (threads_new n x)"
| queue_move: "queue_reachable n s \<Longrightarrow> queue_step n s t \<Longrightarrow> queue_reachable n t"

section \<open>Counters that wrap around\<close>

definition capacity_ok :: "nat \<Rightarrow> bool" where
  "capacity_ok n \<longleftrightarrow> (\<exists>k < 64. n = 2 ^ k)"

lemma capacity_lt: "capacity_ok n \<Longrightarrow> n < 2 ^ 64"
  unfolding capacity_ok_def using power_strict_increasing [of _ 64 "2 :: nat"] by auto

lemma of_nat_inj_near:
  assumes "(of_nat a :: u64) = of_nat b" "a \<le> b" "b < a + 2 ^ 64"
  shows "a = b"
proof -
  have "a mod 2 ^ 64 = b mod 2 ^ 64"
    using assms(1) unfolding word_of_nat_eq_iff by (simp add: take_bit_eq_mod)
  then have "(2 :: nat) ^ 64 dvd b - a" using assms(2) by (metis mod_eq_dvd_iff_nat)
  then show ?thesis using assms(2,3) by (cases "b - a = 0") (auto dest: dvd_imp_le)
qed

lemma full_iff:
  assumes "capacity_ok n" "a \<le> b" "b \<le> a + n"
  shows "is_full n (of_nat b) (of_nat a) \<longleftrightarrow> b = a + n"
proof -
  have n: "n < 2 ^ 64" by (rule capacity_lt [OF assms(1)])
  have eq: "(of_nat b :: u64) - of_nat a = of_nat (b - a)" using assms(2) by simp
  have "b - a = n \<longleftrightarrow> b = a + n" using assms(2) by auto
  moreover have "(of_nat (b - a) :: u64) = of_nat n \<longleftrightarrow> b - a = n"
    using of_nat_inj_near [of "b - a" n] assms(3) n by (metis le_diff_conv add.commute trans_less_add2)
  ultimately show ?thesis unfolding is_full_def eq by blast
qed

lemma empty_iff:
  assumes "a \<le> b" "b \<le> a + n" "capacity_ok n"
  shows "is_empty (of_nat b) (of_nat a) \<longleftrightarrow> b = a"
proof -
  have "n < 2 ^ 64" by (rule capacity_lt [OF assms(3)])
  then show ?thesis using of_nat_inj_near [of a b] assms by (auto simp: is_empty_def)
qed

lemma slot_mod:
  assumes "capacity_ok n"
  shows "slot n (of_nat b) = b mod n"
proof -
  obtain k where k: "k < 64" "n = 2 ^ k" using assms by (auto simp: capacity_ok_def)
  have "q_mask n = mask k" by (simp add: q_mask_def k mask_eq_exp_minus_1)
  then have "slot n (of_nat b) = unat (take_bit k (of_nat b :: u64))" by (simp add: slot_def take_bit_eq_mask)
  also have "\<dots> = unat (of_nat (b mod 2 ^ k) :: u64)" by (simp only: take_bit_of_nat) (simp only: take_bit_eq_mod)
  also have "\<dots> = b mod 2 ^ k"
  proof -
    have "b mod 2 ^ k < 2 ^ 64" using capacity_lt [OF assms] k by (meson mod_less_divisor order.strict_trans zero_less_numeral zero_less_power)
    then show ?thesis by (simp add: unat_of_nat take_bit_nat_eq_self)
  qed
  finally show ?thesis by (simp add: k)
qed

lemma slots_differ:
  assumes "capacity_ok n" "a \<le> j" "j < b" "b < a + n"
  shows "b mod n \<noteq> j mod n"
proof
  assume "b mod n = j mod n"
  then have "n dvd b - j" using assms(3) by (metis less_imp_le mod_eq_dvd_iff_nat)
  then show False using assms(2-4) by (auto dest: dvd_imp_le)
qed

section \<open>The invariant\<close>

definition producer_ok :: "nat \<Rightarrow> 'a threads \<Rightarrow> bool" where
  "producer_ok n s \<longleftrightarrow> (case producing s of
      P_Idle \<Rightarrow> True
    | P_Loaded x p \<Rightarrow> p = of_nat (length (pushed s))
    | P_Room x p \<Rightarrow> p = of_nat (length (pushed s)) \<and> length (pushed s) < length (popped s) + n
    | P_Written x p \<Rightarrow> p = of_nat (length (pushed s)) \<and> length (pushed s) < length (popped s) + n \<and>
        buffers (shared s) ! (length (pushed s) mod n) = x)"

definition consumer_ok :: "nat \<Rightarrow> 'a threads \<Rightarrow> bool" where
  "consumer_ok n s \<longleftrightarrow> (case consuming s of
      C_Idle \<Rightarrow> True
    | C_Loaded p \<Rightarrow> \<exists>b. p = of_nat b \<and> length (popped s) \<le> b \<and> b \<le> length (pushed s)
    | C_Ready c \<Rightarrow> c = of_nat (length (popped s)) \<and> length (popped s) < length (pushed s)
    | C_Taken x c \<Rightarrow> c = of_nat (length (popped s)) \<and> length (popped s) < length (pushed s) \<and> x = pushed s ! length (popped s))"

definition queue_inv :: "nat \<Rightarrow> 'a threads \<Rightarrow> bool" where
  "queue_inv n s \<longleftrightarrow>
     prod_idx (shared s) = of_nat (length (pushed s)) \<and> cons_idx (shared s) = of_nat (length (popped s)) \<and>
     length (buffers (shared s)) = n \<and> length (popped s) \<le> length (pushed s) \<and>
     length (pushed s) \<le> length (popped s) + n \<and> popped s = take (length (popped s)) (pushed s) \<and>
     (\<forall>j. length (popped s) \<le> j \<and> j < length (pushed s) \<longrightarrow> buffers (shared s) ! (j mod n) = pushed s ! j) \<and>
     producer_ok n s \<and> consumer_ok n s"

lemma other_thread [simp]:
  "producer_ok n (s\<lparr>consuming := c\<rparr>) = producer_ok n s" "consumer_ok n (s\<lparr>producing := p\<rparr>) = consumer_ok n s"
  by (simp_all add: producer_ok_def consumer_ok_def split: producer.splits consumer.splits)

lemma queue_inv_new: "queue_inv n (threads_new n x)"
  by (simp add: queue_inv_def threads_new_def queue_new_def producer_ok_def consumer_ok_def)

lemma write_keeps:
  assumes n: "capacity_ok n" and inv: "queue_inv n s" and p: "producing s = P_Room x p"
  shows "queue_inv n (s\<lparr>producing := P_Written x p, shared := (shared s)\<lparr>buffers := (buffers (shared s))[slot n p := x]\<rparr>\<rparr>)"
proof -
  let ?b = "length (pushed s)" and ?a = "length (popped s)"
  have P: "slot n p = ?b mod n" "?b < ?a + n" "p = of_nat ?b"
    using inv p slot_mod [OF n] by (auto simp: queue_inv_def producer_ok_def)
  have pos: "0 < n" using n by (auto simp: capacity_ok_def)
  have "(buffers (shared s))[?b mod n := x] ! (j mod n) = pushed s ! j" if "?a \<le> j" "j < ?b" for j
    using inv that slots_differ [OF n that P(2)] by (auto simp: queue_inv_def)
  then show ?thesis
    using inv P pos by (auto simp: queue_inv_def producer_ok_def consumer_ok_def split: consumer.splits)
qed

lemma publish_keeps:
  assumes inv: "queue_inv n s" and p: "producing s = P_Written x p"
  shows "queue_inv n (s\<lparr>producing := P_Idle, shared := (shared s)\<lparr>prod_idx := p + 1\<rparr>, pushed := pushed s @ [x]\<rparr>)"
proof -
  have "buffers (shared s) ! (j mod n) = (pushed s @ [x]) ! j" if "length (popped s) \<le> j" "j < Suc (length (pushed s))" for j
    using inv p that by (cases "j = length (pushed s)") (auto simp: queue_inv_def producer_ok_def nth_append)
  then show ?thesis
    using inv p by (auto simp: queue_inv_def producer_ok_def consumer_ok_def nth_append intro: le_SucI split: consumer.splits)
qed

lemma release_keeps:
  assumes inv: "queue_inv n s" and c: "consuming s = C_Taken x c"
  shows "queue_inv n (s\<lparr>consuming := C_Idle, shared := (shared s)\<lparr>cons_idx := c + 1\<rparr>, popped := popped s @ [x]\<rparr>)"
proof -
  have "popped s @ [x] = take (Suc (length (popped s))) (pushed s)"
    using inv c by (simp add: queue_inv_def consumer_ok_def take_Suc_conv_app_nth)
  then show ?thesis
    using inv c by (auto simp: queue_inv_def producer_ok_def consumer_ok_def split: producer.splits)
qed

lemma queue_step_inv:
  assumes n: "capacity_ok n" and inv: "queue_inv n s" and step: "queue_step n s t"
  shows "queue_inv n t"
  using step
proof cases
  case (push_room x p)
  then show ?thesis using inv full_iff [OF n, of "length (popped s)" "length (pushed s)"]
    by (auto simp: queue_inv_def producer_ok_def consumer_ok_def split: consumer.splits)
next
  case (pop_ready p)
  then obtain b where b: "p = of_nat b" "length (popped s) \<le> b" "b \<le> length (pushed s)"
    using inv by (auto simp: queue_inv_def consumer_ok_def)
  then have "length (popped s) < length (pushed s)"
    using pop_ready inv empty_iff [of "length (popped s)" b n] n by (auto simp: queue_inv_def)
  then show ?thesis using pop_ready inv by (simp add: queue_inv_def) (simp add: consumer_ok_def)
next
  case (pop_read c)
  then show ?thesis using inv slot_mod [OF n] by (simp add: queue_inv_def) (auto simp: consumer_ok_def)
next
  case (push_write x p)
  then show ?thesis using write_keeps [OF n inv] by simp
next
  case (push_publish x p)
  then show ?thesis using publish_keeps [OF inv] by simp
next
  case (pop_release x c)
  then show ?thesis using release_keeps [OF inv] by simp
next
  case (push_begin x)
  then show ?thesis using inv by (simp add: queue_inv_def) (simp add: producer_ok_def)
next
  case (push_full x p)
  then show ?thesis using inv by (simp add: queue_inv_def) (simp add: producer_ok_def)
next
  case pop_begin
  then show ?thesis using inv by (simp add: queue_inv_def) (auto simp: consumer_ok_def)
next
  case (pop_empty p)
  then show ?thesis using inv by (simp add: queue_inv_def) (simp add: consumer_ok_def)
qed

lemma queue_reachable_inv: "capacity_ok n \<Longrightarrow> queue_reachable n s \<Longrightarrow> queue_inv n s"
  by (rotate_tac, induction rule: queue_reachable.induct) (auto intro: queue_inv_new queue_step_inv)

section \<open>Whole operations\<close>

text \<open>The elements a queue at rest holds, oldest first.\<close>

definition contents :: "nat \<Rightarrow> 'a LFQueue \<Rightarrow> 'a list \<Rightarrow> bool" where
  "contents n q xs \<longleftrightarrow> (\<exists>a. prod_idx q = of_nat (a + length xs) \<and> cons_idx q = of_nat a \<and> length (buffers q) = n \<and>
     length xs \<le> n \<and> (\<forall>j < length xs. buffers q ! ((a + j) mod n) = xs ! j))"

lemma push_contents:
  assumes n: "capacity_ok n" and q: "contents n q xs"
  shows "try_push n x q = (if length xs = n then (False, q) else
      (True, q\<lparr>buffers := (buffers q)[slot n (prod_idx q) := x], prod_idx := prod_idx q + 1\<rparr>))"
    "length xs < n \<Longrightarrow> contents n (snd (try_push n x q)) (xs @ [x])"
proof -
  obtain a where a: "prod_idx q = of_nat (a + length xs)" "cons_idx q = of_nat a" "length (buffers q) = n" "length xs \<le> n"
    "\<And>j. j < length xs \<Longrightarrow> buffers q ! ((a + j) mod n) = xs ! j" using q by (auto simp: contents_def)
  have full: "is_full n (prod_idx q) (cons_idx q) \<longleftrightarrow> length xs = n" unfolding a(1,2) using full_iff [OF n, of a "a + length xs"] a(4) by simp
  show "try_push n x q = (if length xs = n then (False, q) else
      (True, q\<lparr>buffers := (buffers q)[slot n (prod_idx q) := x], prod_idx := prod_idx q + 1\<rparr>))"
    by (simp add: try_push_def full)
  show "contents n (snd (try_push n x q)) (xs @ [x])" if room: "length xs < n"
  proof -
    have sl: "slot n (prod_idx q) = (a + length xs) mod n" unfolding a(1) by (rule slot_mod [OF n])
    have "(buffers q)[(a + length xs) mod n := x] ! ((a + j) mod n) = (xs @ [x]) ! j" if j: "j < Suc (length xs)" for j
    proof (cases "j = length xs")
      case True
      have "(a + length xs) mod n < length (buffers q)" using a(3) room by simp
      then show ?thesis using True by simp
    next
      case False
      then have "(a + length xs) mod n \<noteq> (a + j) mod n" using j room slots_differ [OF n, of a "a + j" "a + length xs"] by simp
      then show ?thesis using False j a(5) [of j] by (simp add: nth_append)
    qed
    then show ?thesis
      unfolding contents_def using room a(2,3) full
      by (intro exI [of _ a]) (simp add: try_push_def sl, simp add: a(1))
  qed
qed

lemma pop_contents:
  assumes n: "capacity_ok n" and q: "contents n q xs"
  shows "fst (try_pop n q) = (case xs of [] \<Rightarrow> None | x # _ \<Rightarrow> Some x)" "contents n (snd (try_pop n q)) (tl xs)"
proof -
  obtain a where a: "prod_idx q = of_nat (a + length xs)" "cons_idx q = of_nat a" "length (buffers q) = n" "length xs \<le> n"
    "\<And>j. j < length xs \<Longrightarrow> buffers q ! ((a + j) mod n) = xs ! j" using q by (auto simp: contents_def)
  have empty: "is_empty (prod_idx q) (cons_idx q) \<longleftrightarrow> xs = []"
    unfolding a(1,2) using empty_iff [of a "a + length xs" n] n a(4) by simp
  have sl: "slot n (cons_idx q) = a mod n" unfolding a(2) by (rule slot_mod [OF n])
  have later: "buffers q ! ((Suc a + j) mod n) = tl xs ! j" if "j < length (tl xs)" for j
    using a(5) [of "Suc j"] that by (cases xs) simp_all
  show "fst (try_pop n q) = (case xs of [] \<Rightarrow> None | x # _ \<Rightarrow> Some x)"
    using a(5) [of 0] by (cases xs) (simp_all add: try_pop_def empty sl)
  show "contents n (snd (try_pop n q)) (tl xs)"
  proof (cases xs)
    case Nil
    then show ?thesis using q by (simp add: try_pop_def empty)
  next
    case (Cons x ys)
    then show ?thesis
      unfolding contents_def using a(1-4) later empty by (intro exI [of _ "Suc a"]) (simp add: try_pop_def)
  qed
qed

section \<open>What the queue promises\<close>

text \<open>
  Taken as a whole, \<open>try_push\<close> and \<open>try_pop\<close> implement a bounded queue: a push appends unless the
  queue holds its capacity, and then changes nothing; a pop returns and removes the oldest element, or
  reports that there is none.
\<close>

theorem queue_refines_list:
  assumes "capacity_ok n" "contents n q xs"
  shows "(case try_push n x q of (ok, q') \<Rightarrow>
      if length xs < n then ok \<and> contents n q' (xs @ [x]) else \<not> ok \<and> q' = q) \<and>
    (case try_pop n q of (r, q') \<Rightarrow>
      r = (case xs of [] \<Rightarrow> None | y # _ \<Rightarrow> Some y) \<and> contents n q' (tl xs))"
proof
  have "length xs \<le> n" using assms(2) by (auto simp: contents_def)
  then show "case try_push n x q of (ok, q') \<Rightarrow>
      if length xs < n then ok \<and> contents n q' (xs @ [x]) else \<not> ok \<and> q' = q"
    using push_contents [OF assms, of x] by (auto split: prod.splits)
  show "case try_pop n q of (r, q') \<Rightarrow> r = (case xs of [] \<Rightarrow> None | y # _ \<Rightarrow> Some y) \<and> contents n q' (tl xs)"
    using pop_contents [OF assms] by (auto split: prod.splits)
qed

theorem queue_refines_list_witness:
  "case try_push 2 True (queue_new 2 False) of (ok, q') \<Rightarrow> ok \<and> contents 2 q' [True]"
proof -
  have "capacity_ok 2" unfolding capacity_ok_def by (intro exI [of _ 1]) simp
  moreover have "contents 2 (queue_new 2 False) []" unfolding contents_def by (intro exI [of _ 0]) (simp add: queue_new_def)
  ultimately show ?thesis using queue_refines_list [of 2 "queue_new 2 False" "[]" True] by (auto split: prod.splits)
qed

text \<open>
  C33. In every interleaving of the producer's and the consumer's loads and stores, what has been popped is
  a prefix of what has been pushed, in the same order, nothing lost, duplicated or invented; at most the
  capacity is in flight; and the indices may wrap around.
\<close>

theorem queue_is_fifo:
  assumes "capacity_ok n" "queue_reachable n s"
  shows "\<exists>waiting. pushed s = popped s @ waiting \<and> length waiting \<le> n \<and>
    (\<forall>j < length waiting. buffers (shared s) ! ((length (popped s) + j) mod n) = waiting ! j)"
proof -
  note I = queue_reachable_inv [OF assms]
  let ?a = "length (popped s)"
  have "pushed s = popped s @ drop ?a (pushed s)" using I unfolding queue_inv_def by (metis append_take_drop_id)
  moreover have "length (drop ?a (pushed s)) \<le> n" using I by (auto simp: queue_inv_def)
  moreover have "\<forall>j < length (drop ?a (pushed s)). buffers (shared s) ! ((?a + j) mod n) = drop ?a (pushed s) ! j"
    using I by (simp add: queue_inv_def)
  ultimately show ?thesis by blast
qed

text \<open>
  The two threads never touch the same slot at the same time: while the producer is about to write an
  element and the consumer about to read one, their slots differ. So the plain buffer needs no
  synchronization beyond the two indices.
\<close>

theorem queue_race_free:
  assumes "capacity_ok n" "queue_reachable n s" "producing s = P_Room x p" "consuming s = C_Ready c"
  shows "slot n p \<noteq> slot n c \<and> slot n p < length (buffers (shared s)) \<and> slot n c < length (buffers (shared s))"
proof -
  note I = queue_reachable_inv [OF assms(1,2)]
  have "p = of_nat (length (pushed s))" "length (pushed s) < length (popped s) + n" "c = of_nat (length (popped s))"
    "length (popped s) < length (pushed s)" "length (buffers (shared s)) = n"
    using I assms(3,4) by (auto simp: queue_inv_def producer_ok_def consumer_ok_def)
  then show ?thesis
    using slots_differ [OF assms(1), of "length (popped s)" "length (popped s)" "length (pushed s)"] slot_mod [OF assms(1)]
    by simp
qed

text \<open>A producer about to write a second element while the consumer is about to read the first.\<close>

definition demo_threads :: "bool threads" where
  "demo_threads = \<lparr>shared = \<lparr>prod_idx = 1, cons_idx = 0, buffers = [True, False]\<rparr>, producing = P_Room False 1,
     consuming = C_Ready 0, pushed = [True], popped = []\<rparr>"

lemma demo_threads_reachable: "queue_reachable 2 demo_threads"
proof -
  let ?s0 = "threads_new 2 False"
  let ?s1 = "?s0\<lparr>producing := P_Loaded True 0\<rparr>"
  let ?s2 = "?s1\<lparr>producing := P_Room True 0\<rparr>"
  let ?s3 = "?s2\<lparr>producing := P_Written True 0, shared := (shared ?s2)\<lparr>buffers := [True, False]\<rparr>\<rparr>"
  let ?s4 = "?s3\<lparr>producing := P_Idle, shared := (shared ?s3)\<lparr>prod_idx := 1\<rparr>, pushed := [True]\<rparr>"
  let ?s5 = "?s4\<lparr>producing := P_Loaded False 1\<rparr>"
  let ?s6 = "?s5\<lparr>producing := P_Room False 1\<rparr>"
  let ?s7 = "?s6\<lparr>consuming := C_Loaded 1\<rparr>"
  let ?s8 = "?s7\<lparr>consuming := C_Ready 0\<rparr>"
  have "queue_reachable 2 ?s0" by (rule queue_start)
  moreover have "queue_step 2 ?s0 ?s1"
    using push_begin [of ?s0 2 True] by (simp add: threads_new_def queue_new_def)
  moreover have "queue_step 2 ?s1 ?s2"
    using push_room [of ?s1 True 0 2] by (simp add: threads_new_def queue_new_def is_full_def)
  moreover have "queue_step 2 ?s2 ?s3"
    using push_write [of ?s2 True 0 2] by (simp add: threads_new_def queue_new_def slot_def q_mask_def numeral_2_eq_2)
  moreover have "queue_step 2 ?s3 ?s4" using push_publish [of ?s3 True 0 2] by (simp add: threads_new_def queue_new_def)
  moreover have "queue_step 2 ?s4 ?s5" using push_begin [of ?s4 2 False] by (simp add: threads_new_def queue_new_def)
  moreover have "queue_step 2 ?s5 ?s6"
    using push_room [of ?s5 False 1 2] by (simp add: threads_new_def queue_new_def is_full_def)
  moreover have "queue_step 2 ?s6 ?s7" using pop_begin [of ?s6 2] by (simp add: threads_new_def queue_new_def)
  moreover have "queue_step 2 ?s7 ?s8"
    using pop_ready [of ?s7 1 2] by (simp add: threads_new_def queue_new_def is_empty_def)
  ultimately have "queue_reachable 2 ?s8" by (meson queue_move)
  then show ?thesis by (simp add: demo_threads_def threads_new_def queue_new_def)
qed

theorem queue_is_fifo_witness:
  "\<exists>waiting. pushed demo_threads = popped demo_threads @ waiting \<and> length waiting \<le> 2"
proof -
  have "capacity_ok 2" unfolding capacity_ok_def by (intro exI [of _ 1]) simp
  then show ?thesis using queue_is_fifo [OF _ demo_threads_reachable] by blast
qed

theorem queue_race_free_witness: "slot 2 1 \<noteq> slot 2 0"
proof -
  have "capacity_ok 2" unfolding capacity_ok_def by (intro exI [of _ 1]) simp
  then show ?thesis using queue_race_free [OF _ demo_threads_reachable, of False 1 0] by (simp add: demo_threads_def)
qed

end
