(* ===== verification/Event_IO.thy ===== *)
theory Event_IO
  imports Core_Types Decimal
begin

text \<open>
  src/io/event_io.cpp: market events as lines of comma-separated text. Text is a list of characters; the
  stream a line is written to is the text appended to it.
\<close>

section \<open>Fields\<close>

abbreviation newline :: char where "newline \<equiv> CHR 0x0A"
abbreviation carriage_return :: char where "carriage_return \<equiv> CHR 0x0D"

text \<open>The loop of \<open>split_csv\<close>: up to the next comma, or the rest of the line.\<close>

function split_csv :: "string \<Rightarrow> string list" where
  "split_csv line =
     (case dropWhile (\<lambda>c. c \<noteq> CHR '','') line of
        [] \<Rightarrow> [line]
      | _ # rest \<Rightarrow> takeWhile (\<lambda>c. c \<noteq> CHR '','') line # split_csv rest)"
  by auto

termination
proof (relation "measure length")
  show "(rest, line) \<in> measure length" if "dropWhile (\<lambda>c. c \<noteq> CHR '','') line = x # rest" for line x rest
    using length_dropWhile_le [of "\<lambda>c. c \<noteq> CHR '',''" line] that by simp
qed simp

declare split_csv.simps [simp del]

definition parse_integer :: "nat \<Rightarrow> string \<Rightarrow> nat option" where
  "parse_integer width text = (case from_chars width text of ([], Inr v) \<Rightarrow> Some v | _ \<Rightarrow> None)"

definition parse_side :: "string \<Rightarrow> Side option" where
  "parse_side text =
     (if text = ''BID'' \<or> text = ''B'' \<or> text = ''bid'' then Some Bid
      else if text = ''ASK'' \<or> text = ''A'' \<or> text = ''ask'' then Some Ask
      else None)"

section \<open>Lines\<close>

record ParseResult =
  pr_event :: "MarketEvent option"
  pr_error :: string

definition parse_failed :: "string \<Rightarrow> ParseResult" where
  "parse_failed reason = \<lparr>pr_event = None, pr_error = reason\<rparr>"

definition parse_done :: "nat \<Rightarrow> nat \<Rightarrow> EventPayload \<Rightarrow> ParseResult" where
  "parse_done sequence instrument p =
     \<lparr>pr_event = Some \<lparr>ev_sequence = of_nat sequence, ev_instrument_id = of_nat instrument, ev_payload = p\<rparr>, pr_error = []\<rparr>"

text \<open>The three kinds of line, once sequence, instrument and order are read.\<close>

definition parse_payload :: "string list \<Rightarrow> nat \<Rightarrow> nat \<Rightarrow> OrderId \<Rightarrow> ParseResult" where
  "parse_payload fs sequence instrument order =
     (let type = fs ! 2 in
      if type = ''ADD'' then
        (case parse_side (fs ! 4) of
           None \<Rightarrow> parse_failed ''invalid side''
         | Some side \<Rightarrow>
             (case parse_integer 32 (fs ! 5) of
                None \<Rightarrow> parse_failed ''invalid price''
              | Some price \<Rightarrow>
                  (case parse_integer 32 (fs ! 6) of
                     None \<Rightarrow> parse_failed ''invalid quantity''
                   | Some quantity \<Rightarrow>
                       parse_done sequence instrument (AddOrder order side (of_nat price) (of_nat quantity)))))
      else if type = ''CANCEL'' then
        (if fs ! 4 \<noteq> [] \<or> fs ! 5 \<noteq> [] \<or> fs ! 6 \<noteq> []
         then parse_failed ''cancel fields side, price, and quantity must be empty''
         else parse_done sequence instrument (CancelOrder order))
      else if type = ''EXECUTE'' then
        (if fs ! 4 \<noteq> [] \<or> fs ! 5 \<noteq> [] then parse_failed ''execute fields side and price must be empty''
         else (case parse_integer 32 (fs ! 6) of
                 None \<Rightarrow> parse_failed ''invalid quantity''
               | Some quantity \<Rightarrow> parse_done sequence instrument (ExecuteOrder order (of_nat quantity))))
      else parse_failed ''unknown event type'')"

definition starts_with :: "string \<Rightarrow> string \<Rightarrow> bool" where
  "starts_with line text \<longleftrightarrow> take (length text) line = text"

definition strip_newline :: "string \<Rightarrow> string" where
  "strip_newline line = rev (dropWhile (\<lambda>c. c = newline \<or> c = carriage_return) (rev line))"

definition parse_event_line :: "string \<Rightarrow> ParseResult" where
  "parse_event_line text =
     (let line = strip_newline text in
      if line = [] \<or> starts_with line ''#'' \<or> starts_with line ''sequence,'' then \<lparr>pr_event = None, pr_error = []\<rparr>
      else
        let fs = split_csv line in
        if length fs \<noteq> 7 then parse_failed ''expected 7 CSV fields''
        else case parse_integer 64 (fs ! 0) of
            None \<Rightarrow> parse_failed ''invalid sequence''
          | Some sequence \<Rightarrow>
              (case parse_integer 64 (fs ! 1) of
                 None \<Rightarrow> parse_failed ''invalid instrument_id''
               | Some instrument \<Rightarrow>
                   (case parse_integer 64 (fs ! 3) of
                      None \<Rightarrow> parse_failed ''invalid order_id''
                    | Some order \<Rightarrow> parse_payload fs sequence instrument (of_nat order))))"

definition write_csv_header :: "string \<Rightarrow> string" where
  "write_csv_header output = output @ ''sequence,instrument_id,event_type,order_id,side,price,quantity'' @ [newline]"

definition write_event_csv :: "MarketEvent \<Rightarrow> string \<Rightarrow> string" where
  "write_event_csv event output =
     output @ to_string_nat (unat (ev_sequence event)) @ '','' @ to_string_nat (unat (ev_instrument_id event)) @ '','' @
     (case ev_payload event of
        AddOrder order side price quantity \<Rightarrow>
          ''ADD,'' @ to_string_nat (unat order) @ '','' @ (if side = Bid then ''BID'' else ''ASK'') @ '','' @
          to_string_nat (unat price) @ '','' @ to_string_nat (unat quantity) @ [newline]
      | CancelOrder order \<Rightarrow> ''CANCEL,'' @ to_string_nat (unat order) @ '',,,'' @ [newline]
      | ExecuteOrder order quantity \<Rightarrow>
          ''EXECUTE,'' @ to_string_nat (unat order) @ '',,,'' @ to_string_nat (unat quantity) @ [newline])"

section \<open>Reading back what was written\<close>

lemma split_csv_last: "CHR '','' \<notin> set f \<Longrightarrow> split_csv f = [f]"
proof -
  assume "CHR '','' \<notin> set f"
  then have "dropWhile (\<lambda>c. c \<noteq> CHR '','') f = []" unfolding dropWhile_eq_Nil_conv by blast
  then show ?thesis by (subst split_csv.simps) (simp only: list.case)
qed

lemma split_csv_field: "CHR '','' \<notin> set f \<Longrightarrow> split_csv (f @ CHR '','' # rest) = f # split_csv rest"
proof -
  assume f: "CHR '','' \<notin> set f"
  then have "dropWhile (\<lambda>c. c \<noteq> CHR '','') (f @ CHR '','' # rest) = CHR '','' # rest"
    "takeWhile (\<lambda>c. c \<noteq> CHR '','') (f @ CHR '','' # rest) = f"
    by (auto simp: dropWhile_append3 takeWhile_append2 dropWhile_eq_Nil_conv takeWhile_eq_all_conv
        dropWhile_append takeWhile_append)
  then show ?thesis by (subst split_csv.simps) simp
qed

lemma number_clean [simp]: "CHR '','' \<notin> set (to_string_nat n)" "newline \<notin> set (to_string_nat n)"
  "carriage_return \<notin> set (to_string_nat n)" "CHR ''#'' \<notin> set (to_string_nat n)" "CHR ''s'' \<notin> set (to_string_nat n)"
  by (auto simp: is_digit_def dest!: to_string_nat_digits [of _ n])

lemma parse_number: "n < 2 ^ width \<Longrightarrow> parse_integer width (to_string_nat n) = Some n"
  by (simp add: parse_integer_def from_chars_to_string)

lemma strip_line: "newline \<notin> set f \<Longrightarrow> carriage_return \<notin> set f \<Longrightarrow> strip_newline (f @ [newline]) = f"
proof -
  assume "newline \<notin> set f" "carriage_return \<notin> set f"
  then have "dropWhile (\<lambda>c. c = newline \<or> c = carriage_return) (rev f) = rev f"
    by (cases f rule: rev_cases) auto
  then show ?thesis by (simp add: strip_newline_def)
qed

lemma number_first: "\<not> starts_with (to_string_nat n @ rest) ''#''" "\<not> starts_with (to_string_nat n @ rest) ''sequence,''"
proof -
  obtain d ds where d: "to_string_nat n = d # ds" using to_string_nat_nonempty [of n] by (cases "to_string_nat n") auto
  have "d \<noteq> CHR ''#''" "d \<noteq> CHR ''s''" using number_clean(4,5) [of n] d by auto
  then show "\<not> starts_with (to_string_nat n @ rest) ''#''" "\<not> starts_with (to_string_nat n @ rest) ''sequence,''"
    by (simp_all add: d starts_with_def)
qed

lemmas split_fields = split_csv_field [of "to_string_nat n" for n] split_csv_last [of "to_string_nat n" for n]
  split_csv_field [of "[]", simplified] split_csv_last [of "[]", simplified] split_csv_field [of "''ADD''", simplified]
  split_csv_field [of "''CANCEL''", simplified] split_csv_field [of "''EXECUTE''", simplified]
  split_csv_field [of "''BID''", simplified] split_csv_field [of "''ASK''", simplified]

definition event_text :: "MarketEvent \<Rightarrow> string" where
  "event_text e = butlast (write_event_csv e [])"

lemma write_event_text:
  "write_event_csv e out = out @ event_text e @ [newline]" "strip_newline (event_text e @ [newline]) = event_text e"
proof -
  show "write_event_csv e out = out @ event_text e @ [newline]"
    by (simp add: event_text_def write_event_csv_def butlast_append split: EventPayload.splits)
  show "strip_newline (event_text e @ [newline]) = event_text e"
    by (rule strip_line) (auto simp: event_text_def write_event_csv_def butlast_append split: EventPayload.splits)
qed

lemma event_fields:
  "split_csv (event_text e) = to_string_nat (unat (ev_sequence e)) # to_string_nat (unat (ev_instrument_id e)) #
    (case ev_payload e of
       AddOrder order side price quantity \<Rightarrow> [''ADD'', to_string_nat (unat order), if side = Bid then ''BID'' else ''ASK'',
         to_string_nat (unat price), to_string_nat (unat quantity)]
     | CancelOrder order \<Rightarrow> [''CANCEL'', to_string_nat (unat order), [], [], []]
     | ExecuteOrder order quantity \<Rightarrow> [''EXECUTE'', to_string_nat (unat order), [], [], to_string_nat (unat quantity)])"
  by (simp add: event_text_def write_event_csv_def butlast_append split_fields split: EventPayload.splits)

lemma event_text_first: "\<exists>rest. event_text e = to_string_nat (unat (ev_sequence e)) @ rest \<and> rest \<noteq> []"
  by (simp add: event_text_def write_event_csv_def butlast_append split: EventPayload.splits)

lemma parse_word:
  "parse_integer 64 (to_string_nat (unat (x :: u64))) = Some (unat x)" "parse_integer 32 (to_string_nat (unat (y :: u32))) = Some (unat y)"
  using unsigned_less [of x, where 'a = nat] unsigned_less [of y, where 'a = nat] by (simp_all add: parse_number)

text \<open>
  Writing and reading market events as text are inverse: the line \<open>write_event_csv\<close> appends for an event
  with a proper side is read back by \<open>parse_event_line\<close> as that very event, whatever the 64 and 32 bit
  values, and no line reports both an event and an error.
\<close>

theorem event_csv_roundtrip:
  assumes "event_ok e"
  shows "\<exists>line. write_event_csv e out = out @ line \<and> parse_event_line line = \<lparr>pr_event = Some e, pr_error = []\<rparr> \<and>
    (\<forall>t. pr_event (parse_event_line t) = None \<or> pr_error (parse_event_line t) = [])"
proof (intro exI [of _ "event_text e @ [newline]"] conjI allI)
  show "write_event_csv e out = out @ event_text e @ [newline]" by (rule write_event_text)
  obtain rest where t: "event_text e = to_string_nat (unat (ev_sequence e)) @ rest" "event_text e \<noteq> []"
    using event_text_first [of e] by auto
  have no: "\<not> starts_with (event_text e) ''#''" "\<not> starts_with (event_text e) ''sequence,''"
    unfolding t(1) by (rule number_first)+
  show "parse_event_line (event_text e @ [newline]) = \<lparr>pr_event = Some e, pr_error = []\<rparr>"
    using assms t(2) no
    by (cases "ev_payload e")
      (auto simp: parse_event_line_def write_event_text(2) event_fields parse_word parse_payload_def parse_side_def
        parse_done_def event_ok_def)
  show "pr_event (parse_event_line l) = None \<or> pr_error (parse_event_line l) = []" for l
    by (simp add: parse_event_line_def parse_payload_def parse_failed_def parse_done_def Let_def split: option.splits)
qed

theorem event_csv_roundtrip_witness:
  "pr_event (parse_event_line (''7,1,CANCEL,9,,,'' @ [newline])) =
     Some \<lparr>ev_sequence = 7, ev_instrument_id = 1, ev_payload = CancelOrder 9\<rparr>"
proof -
  let ?e = "\<lparr>ev_sequence = 7, ev_instrument_id = 1, ev_payload = CancelOrder 9\<rparr>"
  have "write_event_csv ?e [] = ''7,1,CANCEL,9,,,'' @ [newline]"
    by (simp add: write_event_csv_def to_string_nat.simps digit_char_def char_of_def bit_0)
  then show ?thesis using event_csv_roundtrip [of ?e "[]"] by (auto simp: event_ok_def)
qed

end
