(* ===== verification/Feed_Decode.thy ===== *)
theory Feed_Decode
  imports Core_Types Decimal "HOL-Library.Monad_Syntax"
begin

unbundle bit_operations_syntax

text \<open>
  include/order_book/feed/decoder.hpp, src/feed/bytes.hpp and src/feed/itch.cpp: normalized feed events, the
  checked reads from a message, and the decoder of Nasdaq ITCH 5.0 records.

  An exception is a value \<open>Inl\<close> with its reason. A read through the subscript of a span has no check in
  the source; here it gives \<open>Out_Of_Bounds\<close>, which stands for undefined behaviour and is proved never to
  arise. A message is a list of bytes and a symbol a text.
\<close>

section \<open>Events and reads\<close>

datatype EventType = Metadata | Directory | Ev_Add | Ev_Reduce | Ev_Execute | Ev_Delete | Ev_Replace
  | ExecuteRemaining | Ev_Trade | Clear

record FeedEvent =
  fe_type :: EventType
  fe_sequence :: u64
  fe_timestamp_ns :: u64
  fe_channel :: u16
  fe_symbol :: string
  fe_order_id :: OrderId
  fe_new_order_id :: OrderId
  fe_side :: Side
  fe_price :: u64
  fe_quantity :: u64
  fe_remaining :: u64
  fe_match_id :: u64
  fe_maintain_priority :: bool

definition feed_event :: FeedEvent where
  "feed_event = \<lparr>fe_type = Metadata, fe_sequence = 0, fe_timestamp_ns = 0, fe_channel = 0, fe_symbol = [],
     fe_order_id = 0, fe_new_order_id = 0, fe_side = Bid, fe_price = 0, fe_quantity = 0, fe_remaining = 0,
     fe_match_id = 0, fe_maintain_priority = False\<rparr>"

datatype feed_error = Feed_Error string | Out_Of_Bounds

type_synonym 'a feed = "feed_error + 'a"

definition feed_require :: "bool \<Rightarrow> string \<Rightarrow> unit feed" where
  "feed_require ok reason = (if ok then Inr () else Inl (Feed_Error reason))"

text \<open>Sequencing: an exception leaves the rest out.\<close>

definition andthen :: "'a feed \<Rightarrow> ('a \<Rightarrow> 'b feed) \<Rightarrow> 'b feed" where
  "andthen x f = (case x of Inl r \<Rightarrow> Inl r | Inr y \<Rightarrow> f y)"

definition byte_at :: "u8 list \<Rightarrow> nat \<Rightarrow> u8 feed" where
  "byte_at b i = (if i < length b then Inr (b ! i) else Inl Out_Of_Bounds)"

definition feed_integer :: "u8 list \<Rightarrow> nat \<Rightarrow> nat \<Rightarrow> bool \<Rightarrow> u64 feed" where
  "feed_integer b pos n little =
     (if \<not> (n \<le> 8 \<and> pos \<le> length b \<and> n \<le> length b - pos) then Inl (Feed_Error ''Truncated integer'')
      else Inr (foldl (\<lambda>value i. push_bit 8 value OR ucast (b ! (pos + (if little then n - 1 - i else i)))) 0 [0..<n]))"

definition byte_char :: "u8 \<Rightarrow> char" where
  "byte_char b = char_of (unat b)"

definition feed_symbol :: "u8 list \<Rightarrow> nat \<Rightarrow> nat \<Rightarrow> string feed" where
  "feed_symbol b pos n =
     (if \<not> (pos \<le> length b \<and> n \<le> length b - pos) then Inl (Feed_Error ''Truncated symbol'')
      else
        let raw = map (\<lambda>i. b ! (pos + i)) [0..<n] in
        if list_ex (\<lambda>x. x < 32 \<or> 126 < x) raw then Inl (Feed_Error ''Non-ASCII symbol'')
        else
          let result = rev (dropWhile (\<lambda>c. c = CHR '' '') (rev (map byte_char raw))) in
          if result = [] \<or> hd result = CHR '' '' \<or> CHR '' '' \<in> set result
          then Inl (Feed_Error ''Empty or malformed symbol'') else Inr result)"

definition feed_side :: "u8 \<Rightarrow> Side feed" where
  "feed_side c =
     (if c \<noteq> 66 \<and> c \<noteq> 83 then Inl (Feed_Error ''Invalid order side'') else Inr (if c = 66 then Bid else Ask))"

section \<open>ITCH 5.0\<close>

text \<open>The length of each message type, by its character.\<close>

definition itch_length :: "char \<Rightarrow> nat option" where
  "itch_length c = map_of
     [(CHR ''S'', 12), (CHR ''R'', 39), (CHR ''H'', 25), (CHR ''Y'', 20), (CHR ''L'', 26), (CHR ''V'', 35),
      (CHR ''W'', 12), (CHR ''K'', 28), (CHR ''J'', 35), (CHR ''h'', 21), (CHR ''A'', 36), (CHR ''F'', 40),
      (CHR ''E'', 31), (CHR ''C'', 36), (CHR ''X'', 23), (CHR ''D'', 19), (CHR ''U'', 35), (CHR ''P'', 44),
      (CHR ''Q'', 40), (CHR ''B'', 19), (CHR ''I'', 50), (CHR ''N'', 20), (CHR ''O'', 48)] c"

record Itch50Decoder =
  itch_record :: u64
  itch_failed :: bool
  itch_complete :: bool
  itch_symbols :: "(u16 \<times> string) list"

definition itch_new :: Itch50Decoder where
  "itch_new = \<lparr>itch_record = 0, itch_failed = False, itch_complete = False, itch_symbols = []\<rparr>"

text \<open>System events: the start of the session clears the directory, its end completes the decoder.\<close>

definition itch_system :: "u8 list \<Rightarrow> FeedEvent \<Rightarrow> Itch50Decoder \<Rightarrow> (FeedEvent \<times> Itch50Decoder) feed" where
  "itch_system m e d =
     andthen (byte_at m 11) (\<lambda>x. let c = byte_char x in
     andthen (feed_require (c \<in> set ''OSQMEC'') ''Invalid ITCH system event'') (\<lambda>_.
     let e' = (if c = CHR ''O'' then e\<lparr>fe_type := Clear\<rparr> else e);
         d' = (if c = CHR ''O'' then d\<lparr>itch_symbols := []\<rparr> else d);
         d'' = (if c = CHR ''C'' then d'\<lparr>itch_complete := True\<rparr> else d')
     in Inr (e', d'')))"

definition itch_directory :: "u8 list \<Rightarrow> u16 \<Rightarrow> FeedEvent \<Rightarrow> Itch50Decoder \<Rightarrow> (FeedEvent \<times> Itch50Decoder) feed" where
  "itch_directory m locate e d =
     andthen (feed_require (locate \<noteq> 0) ''Zero stock locate'') (\<lambda>_.
     andthen (feed_symbol m 11 8) (\<lambda>s.
     let d' = (if map_of (itch_symbols d) locate = None then d\<lparr>itch_symbols := (locate, s) # itch_symbols d\<rparr> else d) in
     andthen (feed_require (map_of (itch_symbols d') locate = Some s) ''Stock locate changed within session'') (\<lambda>_.
     Inr (e\<lparr>fe_type := Directory, fe_symbol := s\<rparr>, d'))))"

text \<open>Order and trade messages; \<open>c\<close> is the message type and \<open>e\<close> already carries the directory's symbol.\<close>

definition itch_add :: "u8 list \<Rightarrow> FeedEvent \<Rightarrow> FeedEvent feed" where
  "itch_add m e =
     andthen (feed_integer m 11 8 False) (\<lambda>oid.
     andthen (byte_at m 19) (\<lambda>sb. andthen (feed_side sb) (\<lambda>s.
     andthen (feed_integer m 20 4 False) (\<lambda>q.
     andthen (feed_symbol m 24 8) (\<lambda>sym.
     andthen (feed_require (sym = fe_symbol e) ''ITCH symbol disagrees with locate'') (\<lambda>_.
     andthen (feed_integer m 32 4 False) (\<lambda>p.
     Inr (e\<lparr>fe_type := Ev_Add, fe_order_id := oid, fe_side := s, fe_quantity := q, fe_price := p\<rparr>))))))))"

definition itch_replace :: "u8 list \<Rightarrow> FeedEvent \<Rightarrow> FeedEvent feed" where
  "itch_replace m e =
     andthen (feed_integer m 11 8 False) (\<lambda>oid.
     andthen (feed_integer m 19 8 False) (\<lambda>nid.
     andthen (feed_integer m 27 4 False) (\<lambda>q.
     andthen (feed_integer m 31 4 False) (\<lambda>p.
     Inr (e\<lparr>fe_type := Ev_Replace, fe_order_id := oid, fe_new_order_id := nid, fe_quantity := q, fe_price := p\<rparr>)))))"

definition itch_trade :: "bool \<Rightarrow> u8 list \<Rightarrow> FeedEvent \<Rightarrow> FeedEvent feed" where
  "itch_trade cross m e =
     andthen (feed_integer m (if cross then 11 else 20) (if cross then 8 else 4) False) (\<lambda>q.
     andthen (feed_symbol m (if cross then 19 else 24) 8) (\<lambda>sym.
     andthen (feed_require (sym = fe_symbol e) ''ITCH trade symbol mismatch'') (\<lambda>_.
     andthen (feed_integer m (if cross then 27 else 32) 4 False) (\<lambda>p.
     andthen (feed_integer m (if cross then 31 else 36) 8 False) (\<lambda>i.
     Inr (e\<lparr>fe_type := Ev_Trade, fe_quantity := q, fe_price := p, fe_match_id := i\<rparr>))))))"

definition itch_follow_up :: "char \<Rightarrow> u8 list \<Rightarrow> FeedEvent \<Rightarrow> FeedEvent feed" where
  "itch_follow_up c m e =
     andthen (feed_integer m 11 8 False) (\<lambda>oid.
     let e1 = e\<lparr>fe_order_id := oid\<rparr> in
     if c = CHR ''D'' then Inr (e1\<lparr>fe_type := Ev_Delete\<rparr>)
     else
       andthen (feed_integer m 19 4 False) (\<lambda>q.
       let e2 = e1\<lparr>fe_type := (if c = CHR ''X'' then Ev_Reduce else Ev_Execute), fe_quantity := q\<rparr> in
       andthen (if c \<noteq> CHR ''X'' then andthen (feed_integer m 23 8 False) (\<lambda>i. Inr (e2\<lparr>fe_match_id := i\<rparr>)) else Inr e2) (\<lambda>e3.
       if c = CHR ''C'' then
         andthen (byte_at m 31) (\<lambda>x.
         andthen (feed_require (byte_char x = CHR ''Y'' \<or> byte_char x = CHR ''N'') ''Invalid printable flag'') (\<lambda>_.
         andthen (feed_integer m 32 4 False) (\<lambda>p. Inr (e3\<lparr>fe_price := p\<rparr>))))
       else Inr e3)))"

definition itch_body :: "char \<Rightarrow> u8 list \<Rightarrow> u16 \<Rightarrow> FeedEvent \<Rightarrow> Itch50Decoder \<Rightarrow> (FeedEvent \<times> Itch50Decoder) feed" where
  "itch_body c m locate e d =
     (if c = CHR ''S'' then itch_system m e d
      else if c = CHR ''R'' then itch_directory m locate e d
      else if c \<in> set ''AFECXDUPQ'' then
        (case map_of (itch_symbols d) locate of
           None \<Rightarrow> Inl (Feed_Error ''ITCH order/trade precedes Stock Directory'')
         | Some s \<Rightarrow>
             andthen (let e1 = e\<lparr>fe_symbol := s\<rparr> in
               if c = CHR ''A'' \<or> c = CHR ''F'' then itch_add m e1
               else if c = CHR ''U'' then itch_replace m e1
               else if c = CHR ''P'' \<or> c = CHR ''Q'' then itch_trade (c = CHR ''Q'') m e1
               else itch_follow_up c m e1)
             (\<lambda>e2. Inr (e2, d)))
      else Inr (e, d))"

definition itch_try :: "u8 list \<Rightarrow> Itch50Decoder \<Rightarrow> (FeedEvent \<times> Itch50Decoder) feed" where
  "itch_try m d =
     andthen (feed_require (\<not> itch_complete d) ''ITCH message follows End of Messages'') (\<lambda>_.
     andthen (feed_require (m \<noteq> []) ''Empty ITCH message'') (\<lambda>_.
     andthen (byte_at m 0) (\<lambda>x. let c = byte_char x in
     case itch_length c of
       None \<Rightarrow> Inl (Feed_Error (''Unsupported ITCH message type '' @ to_string_nat (unat x)))
     | Some len \<Rightarrow>
         andthen (feed_require (length m = len) ''Invalid ITCH message length'') (\<lambda>_.
         andthen (if itch_record d = 0
                  then (if c = CHR ''S''
                        then andthen (byte_at m 11) (\<lambda>y. feed_require (byte_char y = CHR ''O'') ''ITCH archive must start at Start of Messages'')
                        else feed_require False ''ITCH archive must start at Start of Messages'')
                  else Inr ()) (\<lambda>_.
         andthen (feed_integer m 5 6 False) (\<lambda>t.
         andthen (feed_require (t < 86400000000000) ''Invalid ITCH timestamp'') (\<lambda>_.
         andthen (feed_integer m 1 2 False) (\<lambda>l.
         andthen (itch_body c m (ucast l) (feed_event\<lparr>fe_sequence := itch_record d + 1, fe_timestamp_ns := t\<rparr>) d) (\<lambda>(e, d').
         Inr (e, d'\<lparr>itch_record := itch_record d' + 1\<rparr>))))))))))"

text \<open>Any exception poisons the decoder.\<close>

definition itch_decode :: "u8 list \<Rightarrow> Itch50Decoder \<Rightarrow> FeedEvent feed \<times> Itch50Decoder" where
  "itch_decode m d =
     (if itch_failed d then (Inl (Feed_Error ''ITCH decoder requires restart after error''), d)
      else case itch_try m d of
          Inl r \<Rightarrow> (Inl r, d\<lparr>itch_failed := True\<rparr>)
        | Inr (e, d') \<Rightarrow> (Inr e, d'))"

definition itch_done :: "Itch50Decoder \<Rightarrow> bool" where
  "itch_done d \<longleftrightarrow> itch_complete d \<and> \<not> itch_failed d"

section \<open>Reads stay inside the message\<close>

definition in_bounds :: "'a feed \<Rightarrow> bool" where
  "in_bounds r \<longleftrightarrow> r \<noteq> Inl Out_Of_Bounds \<and> r \<noteq> Inl (Feed_Error ''Truncated integer'') \<and>
     r \<noteq> Inl (Feed_Error ''Truncated symbol'')"

named_theorems bounds_intros \<open>results that are not a read outside the message\<close>

lemma in_bounds_Inr [simp, bounds_intros]: "in_bounds (Inr x)"
  by (simp add: in_bounds_def)

lemma in_bounds_Inl: "in_bounds (Inl (Feed_Error s)) \<longleftrightarrow> s \<noteq> ''Truncated integer'' \<and> s \<noteq> ''Truncated symbol''"
  by (simp add: in_bounds_def)

lemma andthen_bounds [bounds_intros]:
  "in_bounds x \<Longrightarrow> (\<And>y. x = Inr y \<Longrightarrow> in_bounds (f y)) \<Longrightarrow> in_bounds (andthen x f)"
  by (cases x) (auto simp: andthen_def in_bounds_def)

lemma require_bounds [bounds_intros]:
  "s \<noteq> ''Truncated integer'' \<Longrightarrow> s \<noteq> ''Truncated symbol'' \<Longrightarrow> in_bounds (feed_require ok s)"
  by (simp add: feed_require_def in_bounds_def)

lemma require_Inr [simp]: "feed_require ok s = Inr u \<longleftrightarrow> ok"
  by (simp add: feed_require_def)

lemma integer_bounds [bounds_intros]: "n \<le> 8 \<Longrightarrow> pos + n \<le> length b \<Longrightarrow> in_bounds (feed_integer b pos n little)"
  by (auto simp: feed_integer_def in_bounds_def)

lemma symbol_bounds [bounds_intros]: "pos + n \<le> length b \<Longrightarrow> in_bounds (feed_symbol b pos n)"
  by (auto simp: feed_symbol_def in_bounds_def Let_def)

lemma byte_bounds [bounds_intros]: "i < length b \<Longrightarrow> in_bounds (byte_at b i)"
  by (simp add: byte_at_def)

lemma side_bounds [bounds_intros]: "in_bounds (feed_side c)"
  by (simp add: feed_side_def in_bounds_def)

lemma if_bounds [bounds_intros]: "(P \<Longrightarrow> in_bounds x) \<Longrightarrow> (\<not> P \<Longrightarrow> in_bounds y) \<Longrightarrow> in_bounds (if P then x else y)"
  by simp

lemma itch_add_bounds: "36 \<le> length m \<Longrightarrow> in_bounds (itch_add m e)"
  unfolding itch_add_def by (intro bounds_intros) auto

lemma itch_replace_bounds: "35 \<le> length m \<Longrightarrow> in_bounds (itch_replace m e)"
  unfolding itch_replace_def by (intro bounds_intros) auto

lemma itch_trade_bounds: "(if cross then 40 else 44) \<le> length m \<Longrightarrow> in_bounds (itch_trade cross m e)"
  unfolding itch_trade_def by (intro bounds_intros) (auto split: if_splits)

lemma itch_follow_up_bounds:
  assumes "itch_length c = Some (length m)" "c \<in> set ''ECXD''"
  shows "in_bounds (itch_follow_up c m e)"
  using assms unfolding itch_follow_up_def Let_def by (intro bounds_intros) (auto simp: itch_length_def)

lemma itch_system_bounds: "12 \<le> length m \<Longrightarrow> in_bounds (itch_system m e d)"
  unfolding itch_system_def Let_def by (intro bounds_intros) auto

lemma itch_directory_bounds: "39 \<le> length m \<Longrightarrow> in_bounds (itch_directory m locate e d)"
  unfolding itch_directory_def Let_def by (intro bounds_intros) auto

lemma itch_body_bounds:
  assumes "itch_length c = Some (length m)"
  shows "in_bounds (itch_body c m locate e d)"
proof -
  have len: "c = CHR ''S'' \<Longrightarrow> length m = 12" "c = CHR ''R'' \<Longrightarrow> length m = 39" "c = CHR ''A'' \<Longrightarrow> length m = 36"
    "c = CHR ''F'' \<Longrightarrow> length m = 40" "c = CHR ''U'' \<Longrightarrow> length m = 35" "c = CHR ''P'' \<Longrightarrow> length m = 44"
    "c = CHR ''Q'' \<Longrightarrow> length m = 40"
    using assms by (simp_all add: itch_length_def)
  have follow: "in_bounds (itch_follow_up c m x)" if "c \<in> set ''AFECXDUPQ''" "c \<noteq> CHR ''A''" "c \<noteq> CHR ''F''" "c \<noteq> CHR ''U''"
      "c \<noteq> CHR ''P''" "c \<noteq> CHR ''Q''" for x
    using that by (intro itch_follow_up_bounds [OF assms]) auto
  have order: "in_bounds (let e1 = e\<lparr>fe_symbol := s\<rparr> in
      if c = CHR ''A'' \<or> c = CHR ''F'' then itch_add m e1
      else if c = CHR ''U'' then itch_replace m e1
      else if c = CHR ''P'' \<or> c = CHR ''Q'' then itch_trade (c = CHR ''Q'') m e1
      else itch_follow_up c m e1)" if "c \<in> set ''AFECXDUPQ''" for s
    using len follow [OF that] itch_add_bounds itch_replace_bounds itch_trade_bounds [of "c = CHR ''Q''" m] by (auto simp: Let_def)
  show ?thesis
    unfolding itch_body_def
    using len itch_system_bounds itch_directory_bounds order
    by (auto intro!: andthen_bounds simp: in_bounds_Inl split: option.splits)
qed

lemma itch_length_12: "itch_length c = Some n \<Longrightarrow> 12 \<le> n"
  by (auto simp: itch_length_def split: if_splits)

lemma byte_at_Inr [simp]: "byte_at b i = Inr x \<longleftrightarrow> i < length b \<and> x = b ! i"
  by (auto simp: byte_at_def)

lemma option_bounds [bounds_intros]:
  "(x = None \<Longrightarrow> in_bounds a) \<Longrightarrow> (\<And>y. x = Some y \<Longrightarrow> in_bounds (f y)) \<Longrightarrow>
   in_bounds (case x of None \<Rightarrow> a | Some y \<Rightarrow> f y)"
  by (cases x) auto

lemma itch_try_bounds: "in_bounds (itch_try m d)"
  unfolding itch_try_def Let_def
  by (intro bounds_intros itch_body_bounds)
    (auto simp: in_bounds_Inl dest!: itch_length_12 split: prod.splits)

section \<open>Numbering and fail-stop\<close>

lemma andthen_Inr: "andthen x f = Inr y \<longleftrightarrow> (\<exists>z. x = Inr z \<and> f z = Inr y)"
  by (cases x) (auto simp: andthen_def)

text \<open>What a handler keeps of the event it fills in.\<close>

definition same_stamp :: "FeedEvent \<Rightarrow> FeedEvent \<Rightarrow> bool" where
  "same_stamp e e' \<longleftrightarrow> fe_sequence e' = fe_sequence e \<and> fe_timestamp_ns e' = fe_timestamp_ns e \<and>
     fe_channel e' = fe_channel e"

text \<open>A postcondition of the accepted results, taken through the control flow.\<close>

definition gives :: "('a \<Rightarrow> bool) \<Rightarrow> 'a feed \<Rightarrow> bool" where
  "gives P r \<longleftrightarrow> (\<forall>x. r = Inr x \<longrightarrow> P x)"

named_theorems gives_intros \<open>postconditions of accepted results\<close>

lemma gives_Inr [gives_intros]: "P x \<Longrightarrow> gives P (Inr x)"
  by (simp add: gives_def)

lemma gives_Inl [gives_intros]: "gives P (Inl r)"
  by (simp add: gives_def)

lemma gives_andthen [gives_intros]: "(\<And>y. x = Inr y \<Longrightarrow> gives P (f y)) \<Longrightarrow> gives P (andthen x f)"
  by (auto simp: gives_def andthen_Inr)

lemma gives_if [gives_intros]: "(b \<Longrightarrow> gives P x) \<Longrightarrow> (\<not> b \<Longrightarrow> gives P y) \<Longrightarrow> gives P (if b then x else y)"
  by simp

lemma gives_option [gives_intros]:
  "(x = None \<Longrightarrow> gives P a) \<Longrightarrow> (\<And>y. x = Some y \<Longrightarrow> gives P (f y)) \<Longrightarrow>
   gives P (case x of None \<Rightarrow> a | Some y \<Rightarrow> f y)"
  by (cases x) auto

lemma gives_prod [gives_intros]: "(\<And>y z. p = (y, z) \<Longrightarrow> gives P (f y z)) \<Longrightarrow> gives P (case p of (y, z) \<Rightarrow> f y z)"
  by (cases p) auto

lemma givesD: "gives P r \<Longrightarrow> r = Inr x \<Longrightarrow> P x"
  by (simp add: gives_def)

lemma gives_mono: "gives P r \<Longrightarrow> (\<And>x. P x \<Longrightarrow> Q x) \<Longrightarrow> gives Q r"
  by (simp add: gives_def)

lemma gives_then: "gives Q x \<Longrightarrow> (\<And>y. Q y \<Longrightarrow> gives P (f y)) \<Longrightarrow> gives P (andthen x f)"
  by (auto simp: gives_def andthen_Inr)

lemma itch_orders_stamp:
  "gives (same_stamp e) (itch_add m e)" "gives (same_stamp e) (itch_replace m e)" "gives (same_stamp e) (itch_trade b m e)"
  unfolding itch_add_def itch_replace_def itch_trade_def
  by (intro gives_intros; simp add: same_stamp_def)+

lemma itch_follow_up_stamp: "gives (same_stamp e) (itch_follow_up c m e)"
  unfolding itch_follow_up_def Let_def
  by (intro gives_intros gives_then [where Q = "same_stamp e"]) (simp_all add: same_stamp_def)

definition itch_stamped :: "FeedEvent \<Rightarrow> Itch50Decoder \<Rightarrow> FeedEvent \<times> Itch50Decoder \<Rightarrow> bool" where
  "itch_stamped e d r \<longleftrightarrow> same_stamp e (fst r) \<and> itch_record (snd r) = itch_record d \<and> itch_failed (snd r) = itch_failed d"

lemma itch_admin_stamp:
  "gives (itch_stamped e d) (itch_system m e d)" "gives (itch_stamped e d) (itch_directory m locate e d)"
  unfolding itch_system_def itch_directory_def Let_def
  by (intro gives_intros; simp add: itch_stamped_def same_stamp_def)+

lemma itch_body_stamp: "gives (itch_stamped e d) (itch_body c m locate e d)"
proof -
  have shift: "same_stamp (e\<lparr>fe_symbol := s\<rparr>) = same_stamp e" for s
    by (simp add: same_stamp_def fun_eq_iff)
  note orders = itch_orders_stamp [where e = "e\<lparr>fe_symbol := s\<rparr>" for s, unfolded shift]
    itch_follow_up_stamp [where e = "e\<lparr>fe_symbol := s\<rparr>" for s, unfolded shift]
  show ?thesis
    unfolding itch_body_def Let_def
    by (rule gives_then [where Q = "same_stamp e"] gives_intros itch_admin_stamp orders)+ (simp_all add: gives_def itch_stamped_def same_stamp_def)
qed

lemma itch_try_Inr:
  assumes "itch_try m d = Inr (e, d')"
  shows "fe_sequence e = itch_record d + 1" "itch_record d' = itch_record d + 1" "itch_failed d' = itch_failed d"
    "fe_timestamp_ns e < 86400000000000"
proof -
  obtain t c l d1 where body: "itch_body c m l (feed_event\<lparr>fe_sequence := itch_record d + 1, fe_timestamp_ns := t\<rparr>) d = Inr (e, d1)"
      and d': "d' = d1\<lparr>itch_record := itch_record d1 + 1\<rparr>" and t: "t < 86400000000000"
    using assms by (auto simp: itch_try_def andthen_Inr Let_def split: option.splits)
  show "fe_sequence e = itch_record d + 1" "itch_record d' = itch_record d + 1" "itch_failed d' = itch_failed d"
    "fe_timestamp_ns e < 86400000000000"
    using givesD [OF itch_body_stamp body] d' t by (simp_all add: itch_stamped_def same_stamp_def)
qed

text \<open>The decoder over a whole archive.\<close>

fun itch_run :: "u8 list list \<Rightarrow> Itch50Decoder \<Rightarrow> FeedEvent feed list" where
  "itch_run [] d = []"
| "itch_run (m # ms) d = (case itch_decode m d of (r, d') \<Rightarrow> r # itch_run ms d')"

lemma itch_run_failed: "itch_failed d \<Longrightarrow> r \<in> set (itch_run ms d) \<Longrightarrow> r = Inl (Feed_Error ''ITCH decoder requires restart after error'')"
  by (induction ms) (auto simp: itch_decode_def)

lemma itch_run_accepted:
  assumes "\<not> itch_failed d" "unat (itch_record d) + length ms < 2 ^ 64"
  shows "\<exists>k \<le> length ms. (\<forall>i<k. \<exists>e. itch_run ms d ! i = Inr e \<and> unat (fe_sequence e) = unat (itch_record d) + i + 1 \<and>
      fe_timestamp_ns e < 86400000000000) \<and> (\<forall>r \<in> set (drop k (itch_run ms d)). \<exists>s. r = Inl (Feed_Error s))"
  using assms
proof (induction ms arbitrary: d)
  case Nil
  then show ?case by simp
next
  case (Cons m ms)
  show ?case
  proof (cases "itch_try m d")
    case (Inl r)
    have "r \<noteq> Out_Of_Bounds" using itch_try_bounds [of m d] Inl by (auto simp: in_bounds_def)
    then obtain s where "r = Feed_Error s" by (cases r) auto
    then show ?thesis
      using Inl Cons.prems by (intro exI [of _ 0]) (auto simp: itch_decode_def dest: itch_run_failed [rotated])
  next
    case (Inr p)
    obtain e d' where p: "p = (e, d')" by (cases p)
    note step = itch_try_Inr [OF Inr [unfolded p]]
    have rec: "unat (itch_record d') = unat (itch_record d) + 1"
      using step(2) Cons.prems(2) by (simp add: unat_word_ariths)
    obtain k where k: "k \<le> length ms"
        "\<forall>i<k. \<exists>e. itch_run ms d' ! i = Inr e \<and> unat (fe_sequence e) = unat (itch_record d') + i + 1 \<and> fe_timestamp_ns e < 86400000000000"
        "\<forall>r \<in> set (drop k (itch_run ms d')). \<exists>s. r = Inl (Feed_Error s)"
      using Cons.IH [of d'] step(3) rec Cons.prems by auto
    have run: "itch_run (m # ms) d = Inr e # itch_run ms d'"
      using Inr p Cons.prems by (simp add: itch_decode_def)
    show ?thesis
      unfolding run using k rec step(1,2,4)
      by (intro exI [of _ "Suc k"]) (auto simp: nth_Cons less_Suc_eq_0_disj split: nat.splits)
  qed
qed

text \<open>
  The ITCH decoder over an archive of fewer than 2^64 records accepts a prefix of them and rejects
  everything after the first record it rejects: the event of the i-th accepted record carries the sequence
  number i, counted from one, and a time within the day, and no rejection is a read outside the record.
\<close>

theorem itch_stream_prefix:
  assumes "length ms < 2 ^ 64"
  shows "\<exists>k \<le> length ms.
      (\<forall>i<k. \<exists>e. itch_run ms itch_new ! i = Inr e \<and> unat (fe_sequence e) = i + 1 \<and> fe_timestamp_ns e < 86400000000000) \<and>
      (\<forall>r \<in> set (drop k (itch_run ms itch_new)). \<exists>s. r = Inl (Feed_Error s))"
  using itch_run_accepted [of itch_new ms] assms by (simp add: itch_new_def)

lemma itch_stream_prefix_witness:
  "length [[83::u8, 0, 0, 0, 0, 0, 0, 0, 0, 0, 7, 79], [1]] < 2 ^ 64 \<and>
   (\<exists>k \<le> length [[83::u8, 0, 0, 0, 0, 0, 0, 0, 0, 0, 7, 79], [1]].
      (\<forall>i<k. \<exists>e. itch_run [[83::u8, 0, 0, 0, 0, 0, 0, 0, 0, 0, 7, 79], [1]] itch_new ! i = Inr e \<and>
         unat (fe_sequence e) = i + 1 \<and> fe_timestamp_ns e < 86400000000000) \<and>
      (\<forall>r \<in> set (drop k (itch_run [[83::u8, 0, 0, 0, 0, 0, 0, 0, 0, 0, 7, 79], [1]] itch_new)). \<exists>s. r = Inl (Feed_Error s)))"
  using itch_stream_prefix [of "[[83::u8, 0, 0, 0, 0, 0, 0, 0, 0, 0, 7, 79], [1]]"] by simp

end
