(* ===== verification/Feed_Pitch.thy ===== *)
theory Feed_Pitch
  imports Feed_Decode
begin

text \<open>
  src/feed/pitch.cpp: the decoder of Cboe PITCH packets. A packet carries a number of consecutive messages
  of one unit; the unit's state is changed only when the whole packet has been accepted.
\<close>

section \<open>Units and messages\<close>

record PitchUnit =
  unit_next :: u64
  unit_seconds :: u64
  unit_timed :: bool
  unit_ended :: bool

definition unit_new :: PitchUnit where
  "unit_new = \<lparr>unit_next = 1, unit_seconds = 0, unit_timed = False, unit_ended = False\<rparr>"

record PitchDecoder =
  pitch_units :: "PitchUnit list"
  pitch_failed :: bool

definition pitch_new :: PitchDecoder where
  "pitch_new = \<lparr>pitch_units = replicate 256 unit_new, pitch_failed = False\<rparr>"

definition pitch_complete :: "PitchDecoder \<Rightarrow> bool" where
  "pitch_complete d \<longleftrightarrow>
     list_all (\<lambda>u. unit_next u \<noteq> 1 \<longrightarrow> unit_ended u) (pitch_units d) \<and>
     list_ex (\<lambda>u. unit_next u \<noteq> 1) (pitch_units d) \<and> \<not> pitch_failed d"

abbreviation pitch_number :: "u8 list \<Rightarrow> nat \<Rightarrow> nat \<Rightarrow> u64 feed" where
  "pitch_number m pos n \<equiv> feed_integer m pos n True"

definition pitch_sized :: "u8 list \<Rightarrow> nat \<Rightarrow> unit feed" where
  "pitch_sized m want = feed_require (length m = want)
     (''Unexpected PITCH equities message length/type '' @ to_string_nat (unat (m ! 1)))"

text \<open>Long, short and expanded additions.\<close>

definition pitch_add :: "bool \<Rightarrow> bool \<Rightarrow> u8 list \<Rightarrow> FeedEvent \<Rightarrow> FeedEvent feed" where
  "pitch_add short_form expanded m e =
     andthen (if expanded
              then feed_require (length m = 40 \<or> length m = 41) ''Unsupported expanded PITCH Add (equities only)''
              else pitch_sized m (if short_form then 26 else 34)) (\<lambda>_.
     andthen (pitch_number m 6 8) (\<lambda>oid.
     andthen (byte_at m 14) (\<lambda>sb. andthen (feed_side sb) (\<lambda>s.
     andthen (pitch_number m 15 (if short_form then 2 else 4)) (\<lambda>q.
     andthen (feed_symbol m (if short_form then 17 else 19) (if expanded then 8 else 6)) (\<lambda>sym.
     andthen (if short_form then andthen (pitch_number m 23 2) (\<lambda>p. Inr (p * 100))
              else pitch_number m (if expanded then 27 else 25) 8) (\<lambda>p.
     Inr (e\<lparr>fe_type := Ev_Add, fe_order_id := oid, fe_side := s, fe_quantity := q, fe_symbol := sym, fe_price := p\<rparr>))))))))"

definition pitch_execute :: "u8 list \<Rightarrow> FeedEvent \<Rightarrow> FeedEvent feed" where
  "pitch_execute m e =
     andthen (pitch_sized m 26) (\<lambda>_. andthen (pitch_number m 6 8) (\<lambda>oid. andthen (pitch_number m 14 4) (\<lambda>q.
     andthen (pitch_number m 18 8) (\<lambda>i.
     Inr (e\<lparr>fe_type := Ev_Execute, fe_order_id := oid, fe_quantity := q, fe_match_id := i\<rparr>)))))"

definition pitch_execute_remaining :: "u8 list \<Rightarrow> FeedEvent \<Rightarrow> FeedEvent feed" where
  "pitch_execute_remaining m e =
     andthen (pitch_sized m 38) (\<lambda>_. andthen (pitch_number m 6 8) (\<lambda>oid. andthen (pitch_number m 14 4) (\<lambda>q.
     andthen (pitch_number m 18 4) (\<lambda>r. andthen (pitch_number m 22 8) (\<lambda>i. andthen (pitch_number m 30 8) (\<lambda>p.
     Inr (e\<lparr>fe_type := ExecuteRemaining, fe_order_id := oid, fe_quantity := q, fe_remaining := r, fe_match_id := i,
            fe_price := p\<rparr>)))))))"

definition pitch_reduce :: "bool \<Rightarrow> u8 list \<Rightarrow> FeedEvent \<Rightarrow> FeedEvent feed" where
  "pitch_reduce long_form m e =
     andthen (pitch_sized m (if long_form then 18 else 16)) (\<lambda>_. andthen (pitch_number m 6 8) (\<lambda>oid.
     andthen (pitch_number m 14 (if long_form then 4 else 2)) (\<lambda>q.
     Inr (e\<lparr>fe_type := Ev_Reduce, fe_order_id := oid, fe_quantity := q\<rparr>))))"

definition pitch_modify :: "bool \<Rightarrow> u8 list \<Rightarrow> FeedEvent \<Rightarrow> FeedEvent feed" where
  "pitch_modify short_form m e =
     andthen (pitch_sized m (if short_form then 19 else 27)) (\<lambda>_. andthen (pitch_number m 6 8) (\<lambda>oid.
     andthen (pitch_number m 14 (if short_form then 2 else 4)) (\<lambda>q.
     andthen (if short_form then andthen (pitch_number m 16 2) (\<lambda>p. Inr (p * 100)) else pitch_number m 18 8) (\<lambda>p.
     andthen (byte_at m (if short_form then 18 else 26)) (\<lambda>flags.
     Inr (e\<lparr>fe_type := Ev_Replace, fe_order_id := oid, fe_new_order_id := oid, fe_quantity := q, fe_price := p,
            fe_maintain_priority := (flags AND 2 \<noteq> 0)\<rparr>))))))"

definition pitch_trade :: "bool \<Rightarrow> bool \<Rightarrow> u8 list \<Rightarrow> FeedEvent \<Rightarrow> FeedEvent feed" where
  "pitch_trade short_form expanded m e =
     andthen (pitch_sized m (if short_form then 33 else if expanded then 43 else 41)) (\<lambda>_.
     andthen (pitch_number m 15 (if short_form then 2 else 4)) (\<lambda>q.
     andthen (feed_symbol m (if short_form then 17 else 19) (if expanded then 8 else 6)) (\<lambda>sym.
     andthen (if short_form then andthen (pitch_number m 23 2) (\<lambda>p. Inr (p * 100))
              else pitch_number m (if expanded then 27 else 25) 8) (\<lambda>p.
     andthen (pitch_number m (if short_form then 25 else if expanded then 35 else 33) 8) (\<lambda>i.
     Inr (e\<lparr>fe_type := Ev_Trade, fe_quantity := q, fe_symbol := sym, fe_price := p, fe_match_id := i\<rparr>))))))"

text \<open>The switch on the message type, once the timestamp is known.\<close>

definition pitch_body :: "u8 \<Rightarrow> u8 list \<Rightarrow> FeedEvent \<Rightarrow> PitchUnit \<Rightarrow> (FeedEvent \<times> PitchUnit) feed" where
  "pitch_body type m e u =
     (let keep = (\<lambda>r. andthen r (\<lambda>e'. Inr (e', u))) in
      if type = 0x21 \<or> type = 0x22 \<or> type = 0x2f then keep (pitch_add (type = 0x22) (type = 0x2f) m e)
      else if type = 0x23 then keep (pitch_execute m e)
      else if type = 0x24 then keep (pitch_execute_remaining m e)
      else if type = 0x25 \<or> type = 0x26 then keep (pitch_reduce (type = 0x25) m e)
      else if type = 0x27 \<or> type = 0x28 then keep (pitch_modify (type = 0x28) m e)
      else if type = 0x29 then keep (andthen (pitch_sized m 14) (\<lambda>_. andthen (pitch_number m 6 8) (\<lambda>oid.
        Inr (e\<lparr>fe_type := Ev_Delete, fe_order_id := oid\<rparr>))))
      else if type = 0x2a \<or> type = 0x2b \<or> type = 0x30 then keep (pitch_trade (type = 0x2b) (type = 0x30) m e)
      else if type = 0x97 then keep (andthen (pitch_sized m 6) (\<lambda>_. Inr (e\<lparr>fe_type := Clear\<rparr>)))
      else if type = 0x2c then keep (andthen (pitch_sized m 14) (\<lambda>_. Inr e))
      else if type = 0x2d then andthen (pitch_sized m 6) (\<lambda>_. Inr (e, u\<lparr>unit_ended := True\<rparr>))
      else if type = 0x31 then keep (andthen (pitch_sized m 18) (\<lambda>_. Inr e))
      else Inl (Feed_Error (''Unsupported PITCH equities message type '' @ to_string_nat (unat type))))"

definition pitch_message :: "u16 \<Rightarrow> u64 \<Rightarrow> u8 list \<Rightarrow> PitchUnit \<Rightarrow> (FeedEvent \<times> PitchUnit) feed" where
  "pitch_message channel sequence m u =
     andthen (byte_at m 1) (\<lambda>type.
     let e = feed_event\<lparr>fe_channel := channel, fe_sequence := sequence\<rparr> in
     if type = 0x20 then
       andthen (feed_require (length m = 6 \<or> length m = 10) ''Invalid PITCH Time length'') (\<lambda>_.
       andthen (pitch_number m 2 4) (\<lambda>s.
       andthen (feed_require (s < 86400) ''Invalid PITCH seconds since midnight'') (\<lambda>_.
       Inr (e\<lparr>fe_timestamp_ns := s * 1000000000\<rparr>, u\<lparr>unit_seconds := s, unit_timed := True\<rparr>))))
     else
       andthen (feed_require (unit_timed u) ''PITCH message precedes Time'') (\<lambda>_.
       andthen (pitch_number m 2 4) (\<lambda>nanos.
       andthen (feed_require (nanos < 1000000000) ''Invalid PITCH nanosecond offset'') (\<lambda>_.
       pitch_body type m (e\<lparr>fe_timestamp_ns := unit_seconds u * 1000000000 + nanos\<rparr>) u))))"

section \<open>Packets\<close>

text \<open>The loop over the messages; \<open>k\<close> of them are left, and \<open>p\<close> is what follows the offset.\<close>

fun pitch_messages ::
    "u16 \<Rightarrow> u64 \<Rightarrow> nat \<Rightarrow> u8 list \<Rightarrow> PitchUnit \<Rightarrow> (FeedEvent list \<times> PitchUnit \<times> u8 list) feed" where
  "pitch_messages channel sequence 0 p u = Inr ([], u, p)"
| "pitch_messages channel sequence (Suc k) p u =
     andthen (feed_require (\<not> unit_ended u) ''PITCH message follows End of Session'') (\<lambda>_.
     andthen (feed_require (2 \<le> length p) ''Truncated PITCH message header'') (\<lambda>_.
     andthen (byte_at p 0) (\<lambda>len.
     andthen (feed_require (6 \<le> unat len \<and> unat len \<le> length p) ''Invalid PITCH message length'') (\<lambda>_.
     andthen (pitch_message channel sequence (take (unat len) p) u) (\<lambda>(e, u').
     andthen (pitch_messages channel (sequence + 1) k (drop (unat len) p) u') (\<lambda>(es, u'', rest).
     Inr (e # es, u'', rest)))))))"

definition pitch_try :: "u8 list \<Rightarrow> PitchDecoder \<Rightarrow> (FeedEvent list \<times> PitchDecoder) feed" where
  "pitch_try p d =
     andthen (feed_require (8 \<le> length p) ''Invalid PITCH packet length'') (\<lambda>_.
     andthen (feed_integer p 0 2 True) (\<lambda>len.
     andthen (feed_require (unat len = length p) ''Invalid PITCH packet length'') (\<lambda>_.
     andthen (byte_at p 2) (\<lambda>count. andthen (byte_at p 3) (\<lambda>channel.
     andthen (feed_integer p 4 4 True) (\<lambda>sequence.
     let state = pitch_units d ! unat channel in
     if count = 0 then
       andthen (feed_require (length p = 8 \<and> (sequence = unit_next state \<or> sequence = 0)) ''PITCH heartbeat sequence gap'') (\<lambda>_.
       Inr ([], d))
     else
       andthen (feed_require (sequence = unit_next state) ''PITCH sequence gap/duplicate or mid-session capture'') (\<lambda>_.
       andthen (feed_require (\<not> unit_ended state) ''PITCH sequenced message follows End of Session'') (\<lambda>_.
       andthen (feed_require (sequence + ucast count - 1 \<le> 0xffffffff) ''PITCH sequence rollover requires a new decoder/session'') (\<lambda>_.
       andthen (pitch_messages (ucast channel) sequence (unat count) (drop 8 p) state) (\<lambda>(es, state', rest).
       andthen (feed_require (rest = []) ''PITCH message count/trailing bytes mismatch'') (\<lambda>_.
       Inr (es, d\<lparr>pitch_units := (pitch_units d)[unat channel := state'\<lparr>unit_next := sequence + ucast count\<rparr>]\<rparr>))))))))))))"

definition pitch_decode :: "u8 list \<Rightarrow> PitchDecoder \<Rightarrow> FeedEvent list feed \<times> PitchDecoder" where
  "pitch_decode p d =
     (if pitch_failed d then (Inl (Feed_Error ''PITCH decoder requires restart after error''), d)
      else case pitch_try p d of
          Inl r \<Rightarrow> (Inl r, d\<lparr>pitch_failed := True\<rparr>)
        | Inr (es, d') \<Rightarrow> (Inr es, d'))"

section \<open>Reads stay inside the packet\<close>

lemma pitch_sized_bounds [bounds_intros]: "in_bounds (pitch_sized m n)"
  by (simp add: pitch_sized_def feed_require_def in_bounds_def)

lemma pitch_sized_Inr [simp]: "pitch_sized m n = Inr u \<longleftrightarrow> length m = n"
  by (simp add: pitch_sized_def)

lemma pitch_add_bounds: "in_bounds (pitch_add s x m e)"
  unfolding pitch_add_def by (intro bounds_intros) (auto split: if_splits)

lemma pitch_execute_bounds: "in_bounds (pitch_execute m e)" "in_bounds (pitch_execute_remaining m e)"
  unfolding pitch_execute_def pitch_execute_remaining_def by (intro bounds_intros; auto)+

lemma pitch_reduce_bounds: "in_bounds (pitch_reduce l m e)"
  unfolding pitch_reduce_def by (intro bounds_intros) (auto split: if_splits)

lemma pitch_modify_bounds: "in_bounds (pitch_modify s m e)"
  unfolding pitch_modify_def by (intro bounds_intros) (auto split: if_splits)

lemma pitch_trade_bounds: "in_bounds (pitch_trade s x m e)"
  unfolding pitch_trade_def by (intro bounds_intros) (auto split: if_splits)

lemmas pitch_order_bounds = pitch_add_bounds pitch_execute_bounds pitch_reduce_bounds pitch_modify_bounds pitch_trade_bounds

lemma pitch_body_bounds: "in_bounds (pitch_body type m e u)"
  unfolding pitch_body_def Let_def by (intro bounds_intros pitch_order_bounds) (auto simp: in_bounds_def)

lemma pitch_message_bounds: "6 \<le> length m \<Longrightarrow> in_bounds (pitch_message c s m u)"
  unfolding pitch_message_def Let_def by (intro bounds_intros pitch_body_bounds) auto

lemma prod_bounds [bounds_intros]: "(\<And>y z. p = (y, z) \<Longrightarrow> in_bounds (f y z)) \<Longrightarrow> in_bounds (case p of (y, z) \<Rightarrow> f y z)"
  by (cases p) auto

lemma pitch_messages_bounds: "in_bounds (pitch_messages c s k p u)"
proof (induction k arbitrary: s p u)
  case 0
  then show ?case by simp
next
  case (Suc k)
  show ?case
    unfolding pitch_messages.simps by (intro bounds_intros pitch_message_bounds Suc.IH) auto
qed

lemma pitch_try_bounds: "in_bounds (pitch_try p d)"
  unfolding pitch_try_def Let_def by (intro bounds_intros pitch_messages_bounds) auto

section \<open>Packets are accepted whole and in sequence\<close>

lemma pitch_orders_stamp:
  "gives (same_stamp e) (pitch_add s x m e)" "gives (same_stamp e) (pitch_execute m e)"
  "gives (same_stamp e) (pitch_execute_remaining m e)" "gives (same_stamp e) (pitch_reduce s m e)"
  "gives (same_stamp e) (pitch_modify s m e)" "gives (same_stamp e) (pitch_trade s x m e)"
  unfolding pitch_add_def pitch_execute_def pitch_execute_remaining_def pitch_reduce_def pitch_modify_def pitch_trade_def
  by (intro gives_intros; simp add: same_stamp_def)+

definition pitch_stamped :: "FeedEvent \<Rightarrow> PitchUnit \<Rightarrow> FeedEvent \<times> PitchUnit \<Rightarrow> bool" where
  "pitch_stamped e u r \<longleftrightarrow> same_stamp e (fst r) \<and> unit_next (snd r) = unit_next u"

lemma pitch_keep_stamp:
  "gives (same_stamp e) r \<Longrightarrow> gives (pitch_stamped e u) (andthen r (\<lambda>e'. Inr (e', u)))"
  by (auto simp: gives_def andthen_Inr pitch_stamped_def)

lemma pitch_body_stamp: "gives (pitch_stamped e u) (pitch_body type m e u)"
  unfolding pitch_body_def Let_def
  by (intro gives_if; (rule pitch_keep_stamp)?; (rule pitch_orders_stamp)?; (intro gives_intros)?; simp add: same_stamp_def pitch_stamped_def)

definition pitch_numbered :: "u16 \<Rightarrow> u64 \<Rightarrow> PitchUnit \<Rightarrow> FeedEvent \<times> PitchUnit \<Rightarrow> bool" where
  "pitch_numbered c s u r \<longleftrightarrow> fe_sequence (fst r) = s \<and> fe_channel (fst r) = c \<and> unit_next (snd r) = unit_next u"

lemma pitch_message_stamp: "gives (pitch_numbered c s u) (pitch_message c s m u)"
proof -
  have body: "gives (pitch_numbered c s u) (pitch_body type m e u)" if "fe_sequence e = s" "fe_channel e = c" for type e
    by (rule gives_mono [OF pitch_body_stamp]) (use that in \<open>simp add: pitch_stamped_def pitch_numbered_def same_stamp_def\<close>)
  show ?thesis
    unfolding pitch_message_def Let_def by (intro gives_intros body) (simp_all add: pitch_numbered_def)
qed

text \<open>Each accepted message is the next one of the packet and moves the offset over its own length.\<close>

lemma pitch_messages_Inr:
  "pitch_messages c s k p u = Inr (es, u', rest) \<Longrightarrow>
     length es = k \<and> unit_next u' = unit_next u \<and>
     (\<forall>i<k. fe_sequence (es ! i) = s + of_nat i \<and> fe_channel (es ! i) = c) \<and>
     (\<exists>consumed. p = consumed @ rest \<and> 6 * k \<le> length consumed)"
proof (induction k arbitrary: s p u es)
  case 0
  then show ?case by simp
next
  case (Suc k)
  obtain len e u1 es1 where len: "6 \<le> len" "len \<le> length p"
      and one: "pitch_message c s (take len p) u = Inr (e, u1)"
      and more: "pitch_messages c (s + 1) k (drop len p) u1 = Inr (es1, u', rest)" and es: "es = e # es1"
    using Suc.prems by (auto simp: andthen_Inr)
  note first = givesD [OF pitch_message_stamp one, unfolded pitch_numbered_def]
  obtain consumed where con: "drop len p = consumed @ rest" "6 * k \<le> length consumed"
    using Suc.IH [OF more] by blast
  have "p = (take len p @ consumed) @ rest" using con(1) by (metis append_assoc append_take_drop_id)
  moreover have "6 * Suc k \<le> length (take len p @ consumed)" using len con(2) by simp
  ultimately have "\<exists>consumed. p = consumed @ rest \<and> 6 * Suc k \<le> length consumed" by blast
  moreover have "\<forall>i<Suc k. fe_sequence (es ! i) = s + of_nat i \<and> fe_channel (es ! i) = c"
    using Suc.IH [OF more] first es by (auto simp: nth_Cons add.assoc split: nat.splits)
  ultimately show ?case using Suc.IH [OF more] first es by simp
qed

lemma pitch_try_Inr:
  assumes "pitch_try p d = Inr (es, d')"
  obtains "es = []" "d' = d"
  | (packet) channel count u where "count \<noteq> (0 :: u8)" "length es = unat count"
      "unit_next (pitch_units d ! unat (channel :: u8)) + ucast count - 1 \<le> 0xffffffff"
      "\<forall>i<unat count. fe_sequence (es ! i) = unit_next (pitch_units d ! unat channel) + of_nat i \<and> fe_channel (es ! i) = ucast channel"
      "d' = d\<lparr>pitch_units := (pitch_units d)[unat channel := u\<lparr>unit_next := unit_next (pitch_units d ! unat channel) + ucast count\<rparr>]\<rparr>"
proof -
  define channel count where "channel = p ! 3" and "count = p ! 2"
  show thesis
  proof (cases "count = 0")
    case True
    then show thesis
      using assms that(1) by (auto simp: pitch_try_def andthen_Inr Let_def count_def)
  next
    case False
    obtain u rest where
        msgs: "pitch_messages (ucast channel) (unit_next (pitch_units d ! unat channel)) (unat count) (drop 8 p)
          (pitch_units d ! unat channel) = Inr (es, u, rest)"
        and roll: "unit_next (pitch_units d ! unat channel) + ucast count - 1 \<le> 0xffffffff"
        and d': "d' = d\<lparr>pitch_units := (pitch_units d)[unat channel := u\<lparr>unit_next := unit_next (pitch_units d ! unat channel) + ucast count\<rparr>]\<rparr>"
      using assms False by (auto simp: pitch_try_def andthen_Inr Let_def count_def channel_def)
    show thesis
      using that(2) [OF False _ roll _ d'] pitch_messages_Inr [OF msgs] by blast
  qed
qed

text \<open>A session: the events of the accepted packets, in order.\<close>

fun pitch_run :: "u8 list list \<Rightarrow> PitchDecoder \<Rightarrow> FeedEvent list \<times> PitchDecoder" where
  "pitch_run [] d = ([], d)"
| "pitch_run (p # ps) d =
     (case pitch_decode p d of
        (Inl r, d') \<Rightarrow> pitch_run ps d'
      | (Inr es, d') \<Rightarrow> (case pitch_run ps d' of (es', d'') \<Rightarrow> (es @ es', d'')))"

definition unit_sequences :: "nat \<Rightarrow> FeedEvent list \<Rightarrow> nat list" where
  "unit_sequences c es = map (unat \<circ> fe_sequence) (filter (\<lambda>e. unat (fe_channel e) = c) es)"

definition pitch_good :: "PitchDecoder \<Rightarrow> bool" where
  "pitch_good d \<longleftrightarrow> length (pitch_units d) = 256 \<and> (\<forall>u \<in> set (pitch_units d). 1 \<le> unat (unit_next u) \<and> unat (unit_next u) \<le> 2 ^ 32)"

lemma unat_ucast_u8: "unat (ucast (x :: u8) :: u64) = unat x" "unat (ucast (x :: u8) :: u16) = unat x"
  using unsigned_less [of x, where 'a = nat] by (simp_all add: unsigned_ucast_eq take_bit_nat_eq_self)

lemma pitch_packet_next:
  assumes "unat (n :: u64) \<le> 2 ^ 32" "1 \<le> unat n" "(count :: u8) \<noteq> 0" "n + ucast count - 1 \<le> 0xffffffff"
  shows "unat (n + ucast count) = unat n + unat count" "unat n + unat count \<le> 2 ^ 32"
    "i < unat count \<Longrightarrow> unat (n + of_nat i) = unat n + i"
proof -
  have c: "unat count < 256" using unsigned_less [of count, where 'a = nat] by simp
  show sum: "unat (n + ucast count) = unat n + unat count"
    using assms(1) c by (simp add: unat_word_ariths unat_ucast_u8)
  have "unat (n + ucast count - 1) = unat n + unat count - 1"
    using sum assms(2) unat_sub [of 1 "n + ucast count"] by (simp add: word_le_nat_alt)
  moreover have "unat (n + ucast count - 1) \<le> 0xffffffff" using assms(4) by (simp add: word_le_nat_alt)
  ultimately show "unat n + unat count \<le> 2 ^ 32" by simp
  show "unat (n + of_nat i) = unat n + i" if "i < unat count"
    using that assms(1) c by (simp add: unat_word_ariths unat_of_nat)
qed

lemma pitch_decode_step:
  assumes good: "pitch_good d" and dec: "pitch_decode p d = (r, d')" and c: "c < 256"
  shows "pitch_good d' \<and>
    (case r of
       Inl _ \<Rightarrow> pitch_units d' = pitch_units d
     | Inr es \<Rightarrow> unit_sequences c es = [unat (unit_next (pitch_units d ! c)) ..< unat (unit_next (pitch_units d' ! c))] \<and>
         unat (unit_next (pitch_units d ! c)) \<le> unat (unit_next (pitch_units d' ! c)))"
proof (cases r)
  case (Inl e)
  then show ?thesis
    using good dec by (auto simp: pitch_decode_def pitch_good_def split: if_splits sum.splits)
next
  case (Inr es)
  then have "pitch_try p d = Inr (es, d')"
    using dec by (auto simp: pitch_decode_def split: if_splits sum.splits)
  then show ?thesis
  proof (cases rule: pitch_try_Inr)
    case 1
    then show ?thesis using good Inr by (simp add: unit_sequences_def)
  next
    case (packet channel count u)
    have ch: "unat channel < 256" using unsigned_less [of channel, where 'a = nat] by simp
    let ?n = "unit_next (pitch_units d ! unat channel)"
    have n: "1 \<le> unat ?n" "unat ?n \<le> 2 ^ 32" using good ch by (auto simp: pitch_good_def)
    note nxt = pitch_packet_next [OF n(2,1) packet(1,3)]
    have good': "pitch_good d'"
      using good nxt(1,2) n packet(5) set_update_subset_insert [of "pitch_units d"]
      by (fastforce simp: pitch_good_def)
    have seqs: "map (unat \<circ> fe_sequence) es = [unat ?n ..< unat ?n + unat count]"
      using packet(2,4) nxt(3) by (intro nth_equalityI) simp_all
    have chans: "unat (fe_channel e) = unat channel" if "e \<in> set es" for e
      using that packet(2,4) by (auto simp: in_set_conv_nth unat_ucast_u8)
    have "unit_sequences c es = (if c = unat channel then [unat ?n ..< unat ?n + unat count] else [])"
      using chans seqs by (auto simp: unit_sequences_def filter_id_conv filter_empty_conv cong: filter_cong)
    then show ?thesis
      using good good' Inr packet(5) nxt(1) ch by (auto simp: pitch_good_def nth_list_update)
  qed
qed

lemma pitch_run_step:
  assumes "pitch_good d" "pitch_run ps d = (es, d')" "c < 256"
  shows "unit_sequences c es = [unat (unit_next (pitch_units d ! c)) ..< unat (unit_next (pitch_units d' ! c))] \<and>
    unat (unit_next (pitch_units d ! c)) \<le> unat (unit_next (pitch_units d' ! c))"
  using assms
proof (induction ps arbitrary: d es d')
  case Nil
  then show ?case by (simp add: unit_sequences_def)
next
  case (Cons p ps)
  obtain r d1 where dec: "pitch_decode p d = (r, d1)" by fastforce
  obtain es1 d2 where run: "pitch_run ps d1 = (es1, d2)" by fastforce
  note step = pitch_decode_step [OF Cons.prems(1) dec Cons.prems(3)]
  note rest = Cons.IH [OF conjunct1 [OF step] run Cons.prems(3)]
  show ?case
  proof (cases r)
    case (Inl e)
    then show ?thesis using Cons.prems step rest dec run by simp
  next
    case (Inr es0)
    have "es = es0 @ es1" "d' = d2" using Cons.prems(2) dec run Inr by simp_all
    moreover have "[a ..< b] @ [b ..< e] = [a ..< e]" if "a \<le> b" "b \<le> e" for a b e :: nat
      using that by (metis le_add_diff_inverse upt_add_eq_append)
    ultimately show ?thesis
      using step rest Inr Cons.prems(3) by (simp add: unit_sequences_def)
  qed
qed

text \<open>
  C34. Over any sequence of PITCH packets, the events that a unit hands on are numbered 1, 2, 3 and so on
  without a gap or a repetition, up to the number before the unit's expected one: a packet is taken whole
  or not at all, a rejected packet moves no unit, and no unit is affected by the packets of another.
\<close>

theorem pitch_units_gapless:
  assumes "c < 256"
  shows "unit_sequences c (fst (pitch_run ps pitch_new)) =
    [1 ..< unat (unit_next (pitch_units (snd (pitch_run ps pitch_new)) ! c))]"
proof -
  have "pitch_good pitch_new" by (simp add: pitch_good_def pitch_new_def unit_new_def)
  then show ?thesis
    using pitch_run_step [of pitch_new ps "fst (pitch_run ps pitch_new)" "snd (pitch_run ps pitch_new)" c] assms
    by (simp add: pitch_new_def unit_new_def)
qed

lemma pitch_units_gapless_witness:
  "(3 :: nat) < 256 \<and>
   unit_sequences 3 (fst (pitch_run [[14, 0, 1, 3, 1, 0, 0, 0, 6, 0x20, 5, 0, 0, 0]] pitch_new)) =
     [1 ..< unat (unit_next (pitch_units (snd (pitch_run [[14, 0, 1, 3, 1, 0, 0, 0, 6, 0x20, 5, 0, 0, 0]] pitch_new)) ! 3))]"
  using pitch_units_gapless [of 3 "[[14, 0, 1, 3, 1, 0, 0, 0, 6, 0x20, 5, 0, 0, 0]]"] by simp


end
