(* ===== verification/Feed_Books.thy ===== *)
theory Feed_Books
  imports Order_Book_Theorems Order_Book_Check Feed_Decode
    "HOL-Library.List_Lexorder" "HOL-Library.Product_Lexorder" "HOL-Library.Char_ord"
begin

text \<open>
  include/order_book/feed/books.hpp and src/feed/books.cpp: the books rebuilt from the decoded feeds. Every
  order of every symbol is tracked by venue, channel and order number; the orders of the selected symbols
  are also kept in an order book per venue, channel and symbol. The class uses an order book only through
  the contract \<open>price_time_book\<close>.

  A call returns the exception it throws, if any, and the state it leaves, also when it throws half way.
  The allocations are decided by the environment; \<open>Dangling\<close> stands for a read through an invalid
  iterator inside a book and is proved never to arise.
\<close>

section \<open>Keys\<close>

text \<open>The defaulted three-way comparison: member by member, texts by the codes of their characters.\<close>

datatype BookKey = BookKey (bk_venue: string) (bk_channel: u16) (bk_symbol: string)

instantiation BookKey :: linorder
begin

definition less_eq_BookKey :: "BookKey \<Rightarrow> BookKey \<Rightarrow> bool" where
  "less_eq_BookKey a b \<longleftrightarrow> (bk_venue a, bk_channel a, bk_symbol a) \<le> (bk_venue b, bk_channel b, bk_symbol b)"

definition less_BookKey :: "BookKey \<Rightarrow> BookKey \<Rightarrow> bool" where
  "less_BookKey a b \<longleftrightarrow> (bk_venue a, bk_channel a, bk_symbol a) < (bk_venue b, bk_channel b, bk_symbol b)"

instance
proof
  fix x y z :: BookKey
  show "(x < y) = (x \<le> y \<and> \<not> y \<le> x)"
    unfolding less_BookKey_def less_eq_BookKey_def by (rule less_le_not_le)
  show "x \<le> x" unfolding less_eq_BookKey_def by (rule order_refl)
  show "x \<le> z" if "x \<le> y" "y \<le> z" using that unfolding less_eq_BookKey_def by (rule order_trans)
  show "x = y" if "x \<le> y" "y \<le> x" using that unfolding less_eq_BookKey_def by (cases x; cases y) (auto dest: antisym)
  show "x \<le> y \<or> y \<le> x" unfolding less_eq_BookKey_def by (rule linear)
qed

end

type_synonym OrderKey = "string \<times> u16 \<times> OrderId"

section \<open>State\<close>

record Tracked =
  tr_book :: BookKey
  tr_side :: Side
  tr_price :: u64
  tr_quantity :: u64

record Books =
  fb_filter :: string
  fb_pool_bytes :: nat
  fb_valid :: bool
  fb_updates :: u64
  fb_books :: "(BookKey \<times> OrderBook) list"
  fb_orders :: "(OrderKey \<times> Tracked) list"

text \<open>Allocations: the heap of a book's operation, the node and the pool block of a new book, the node of a new entry of \<open>orders_\<close>.\<close>

record feed_env =
  fenv_heap :: heap_env
  fenv_node :: bool
  fenv_block :: "nat option"
  fenv_route :: bool

datatype books_error = Books_Error string | Feed_Bad_Alloc | Dangling

definition Books_new :: "string \<Rightarrow> nat \<Rightarrow> books_error + Books" where
  "Books_new symbol_filter pool_bytes =
     (if pool_bytes = 0 then Inl (Books_Error ''Nonzero per-book pool budget required'')
      else Inr \<lparr>fb_filter = symbol_filter, fb_pool_bytes = pool_bytes, fb_valid = True, fb_updates = 0,
                fb_books = [], fb_orders = []\<rparr>)"

definition selected :: "Books \<Rightarrow> string \<Rightarrow> bool" where
  "selected B s \<longleftrightarrow> fb_filter B = [] \<or> fb_filter B = s"

section \<open>Operations\<close>

text \<open>The checked narrowing of a feed price and quantity.\<close>

definition feed_add :: "u64 \<Rightarrow> u64 \<Rightarrow> books_error + Price \<times> Quantity" where
  "feed_add price quantity =
     (if \<not> (0 < price \<and> price \<le> 0xffffffff) then Inl (Books_Error ''Feed price cannot be represented by the core LOB'')
      else if \<not> (0 < quantity \<and> quantity \<le> 0xffffffff)
      then Inl (Books_Error ''Feed quantity cannot be represented by the core LOB'')
      else Inr (ucast price, ucast quantity))"

text \<open>\<open>applied(book.apply(...))\<close>: the book keeps what the operation left, and a result other than \<open>Ok\<close> throws.\<close>

definition applied ::
    "BookKey \<Rightarrow> (ApplyResult \<times> OrderBook) option \<Rightarrow> Books \<Rightarrow> books_error option \<times> Books" where
  "applied k op B =
     (case op of
        None \<Rightarrow> (Some Dangling, B)
      | Some (r, b) \<Rightarrow>
          (if r \<noteq> Ok then Some (Books_Error (''LOB apply failed: '' @ result_to_string r)) else None,
           B\<lparr>fb_books := om_put (<) k b (fb_books B)\<rparr>))"

definition books_track :: "feed_env \<Rightarrow> OrderKey \<Rightarrow> Tracked \<Rightarrow> Books \<Rightarrow> books_error option \<times> Books" where
  "books_track env key t B =
     (if \<not> fenv_route env then (Some Feed_Bad_Alloc, B) else (None, B\<lparr>fb_orders := om_put (<) key t (fb_orders B)\<rparr>))"

text \<open>An addition to the book of a selected symbol, which \<open>try_emplace\<close> creates when it is missing.\<close>

definition books_insert :: "feed_env \<Rightarrow> BookKey \<Rightarrow> FeedEvent \<Rightarrow> Books \<Rightarrow> books_error option \<times> Books" where
  "books_insert env k e B =
     (case feed_add (fe_price e) (fe_quantity e) of
        Inl r \<Rightarrow> (Some r, B)
      | Inr (p, q) \<Rightarrow>
          (case (case map_of (fb_books B) k of
                   Some b \<Rightarrow> Some b
                 | None \<Rightarrow> if \<not> fenv_node env then None else OrderBook_new (fenv_block env) (fb_pool_bytes B)) of
             None \<Rightarrow> (Some Feed_Bad_Alloc, B)
           | Some b \<Rightarrow>
               (case applied k (apply_event (fenv_heap env) (AddOrder (fe_order_id e) (fe_side e) p q) b) B of
                  (Some r, B') \<Rightarrow> (Some r, B')
                | (None, B') \<Rightarrow> (None, B'\<lparr>fb_updates := fb_updates B' + 1\<rparr>))))"

definition books_on_add :: "feed_env \<Rightarrow> string \<Rightarrow> FeedEvent \<Rightarrow> Books \<Rightarrow> books_error option \<times> Books" where
  "books_on_add env venue e B =
     (let key = (venue, fe_channel e, fe_order_id e); k = BookKey venue (fe_channel e) (fe_symbol e) in
      if fe_symbol e = [] \<or> map_of (fb_orders B) key \<noteq> None
      then (Some (Books_Error ''Missing symbol or duplicate order ID''), B)
      else if fe_price e = 0 \<or> fe_quantity e = 0 then (Some (Books_Error ''Nonpositive feed price/quantity''), B)
      else case (if selected B (fe_symbol e) then books_insert env k e B else (None, B)) of
          (Some r, B') \<Rightarrow> (Some r, B')
        | (None, B') \<Rightarrow>
            books_track env key \<lparr>tr_book = k, tr_side = fe_side e, tr_price = fe_price e, tr_quantity = fe_quantity e\<rparr> B')"

definition books_on_clear :: "string \<Rightarrow> FeedEvent \<Rightarrow> Books \<Rightarrow> Books" where
  "books_on_clear venue e B = B
     \<lparr>fb_orders := filter (\<lambda>((v, c, _), _). \<not> (v = venue \<and> c = fe_channel e)) (fb_orders B),
      fb_books := filter (\<lambda>(k, _). \<not> (bk_venue k = venue \<and> bk_channel k = fe_channel e)) (fb_books B)\<rparr>"

text \<open>An operation on the book of a tracked order, when there is one.\<close>

definition on_book ::
    "Tracked \<Rightarrow> (OrderBook \<Rightarrow> books_error + (ApplyResult \<times> OrderBook) option) \<Rightarrow> Books \<Rightarrow> books_error option \<times> Books" where
  "on_book old op B =
     (case map_of (fb_books B) (tr_book old) of
        None \<Rightarrow> (None, B)
      | Some b \<Rightarrow> (case op b of Inl r \<Rightarrow> (Some r, B) | Inr res \<Rightarrow> applied (tr_book old) res B))"

text \<open>The tracked quantity is set, and an order with none left is forgotten.\<close>

definition set_tracked :: "OrderKey \<Rightarrow> Tracked \<Rightarrow> u64 \<Rightarrow> Books \<Rightarrow> Books" where
  "set_tracked key old q B = B\<lparr>fb_orders :=
     (if q = 0 then om_erase key (fb_orders B) else om_put (<) key (old\<lparr>tr_quantity := q\<rparr>) (fb_orders B))\<rparr>"

definition books_on_delete :: "feed_env \<Rightarrow> OrderKey \<Rightarrow> Tracked \<Rightarrow> FeedEvent \<Rightarrow> Books \<Rightarrow> books_error option \<times> Books" where
  "books_on_delete env key old e B =
     (case on_book old (\<lambda>b. Inr (apply_event (fenv_heap env) (CancelOrder (fe_order_id e)) b)) B of
        (Some r, B') \<Rightarrow> (Some r, B')
      | (None, B') \<Rightarrow> (None, B'\<lparr>fb_orders := om_erase key (fb_orders B')\<rparr>))"

definition books_on_decrement :: "feed_env \<Rightarrow> OrderKey \<Rightarrow> Tracked \<Rightarrow> FeedEvent \<Rightarrow> Books \<Rightarrow> books_error option \<times> Books" where
  "books_on_decrement env key old e B =
     (if \<not> (0 < fe_quantity e \<and> fe_quantity e \<le> tr_quantity old) then (Some (Books_Error ''Invalid feed decrement''), B)
      else case on_book old (\<lambda>b. Inr (apply_event (fenv_heap env) (ExecuteOrder (fe_order_id e) (ucast (fe_quantity e))) b)) B of
          (Some r, B') \<Rightarrow> (Some r, B')
        | (None, B') \<Rightarrow> (None, set_tracked key old (tr_quantity old - fe_quantity e) B'))"

definition books_on_remaining :: "feed_env \<Rightarrow> OrderKey \<Rightarrow> Tracked \<Rightarrow> FeedEvent \<Rightarrow> Books \<Rightarrow> books_error option \<times> Books" where
  "books_on_remaining env key old e B =
     (if \<not> (0 < fe_quantity e \<and> fe_remaining e \<le> 0xffffffff)
      then (Some (Books_Error ''Invalid PITCH execution/remaining quantity''), B)
      else case on_book old (\<lambda>b.
             if fe_remaining e = 0 then Inr (apply_event (fenv_heap env) (CancelOrder (fe_order_id e)) b)
             else (case feed_add (tr_price old) (fe_remaining e) of
                     Inl r \<Rightarrow> Inl r
                   | Inr (p, q) \<Rightarrow> Inr (book_replace (fenv_heap env) (fe_order_id e) (fe_order_id e) (tr_side old) p q True b))) B of
          (Some r, B') \<Rightarrow> (Some r, B')
        | (None, B') \<Rightarrow> (None, set_tracked key old (fe_remaining e) B'))"

definition books_on_replace ::
    "feed_env \<Rightarrow> string \<Rightarrow> OrderKey \<Rightarrow> Tracked \<Rightarrow> FeedEvent \<Rightarrow> Books \<Rightarrow> books_error option \<times> Books" where
  "books_on_replace env venue key old e B =
     (let next_key = (venue, fe_channel e, fe_new_order_id e);
          new = old\<lparr>tr_price := fe_price e, tr_quantity := fe_quantity e\<rparr>
      in if \<not> (next_key = key \<or> map_of (fb_orders B) next_key = None)
         then (Some (Books_Error ''Replacement ID already exists''), B)
         else if fe_price e = 0 \<or> fe_quantity e = 0 then (Some (Books_Error ''Nonpositive replacement price/quantity''), B)
         else if fe_maintain_priority e \<and> \<not> (next_key = key \<and> fe_price e = tr_price old)
         then (Some (Books_Error ''Maintain-priority replacement changes price/ID''), B)
         else case on_book old (\<lambda>b. case feed_add (fe_price e) (fe_quantity e) of
                 Inl r \<Rightarrow> Inl r
               | Inr (p, q) \<Rightarrow> Inr (book_replace (fenv_heap env) (fe_order_id e) (fe_new_order_id e) (tr_side old) p q
                                   (fe_maintain_priority e) b)) B of
             (Some r, B') \<Rightarrow> (Some r, B')
           | (None, B') \<Rightarrow>
               if next_key = key then (None, B'\<lparr>fb_orders := om_put (<) key new (fb_orders B')\<rparr>)
               else (case books_track env next_key new B' of
                   (Some r, B'') \<Rightarrow> (Some r, B'')
                 | (None, B'') \<Rightarrow> (None, B''\<lparr>fb_orders := om_erase key (fb_orders B'')\<rparr>)))"

text \<open>A message about a tracked order; the update is counted when the order has a book.\<close>

definition books_follow_up ::
    "feed_env \<Rightarrow> string \<Rightarrow> OrderKey \<Rightarrow> Tracked \<Rightarrow> FeedEvent \<Rightarrow> Books \<Rightarrow> books_error option \<times> Books" where
  "books_follow_up env venue key old e B =
     (if fe_symbol e \<noteq> [] \<and> bk_symbol (tr_book old) \<noteq> fe_symbol e
      then (Some (Books_Error ''Order belongs to another symbol''), B)
      else
        let found = map_of (fb_books B) (tr_book old) \<noteq> None in
        case (if fe_type e = Ev_Delete then books_on_delete env key old e B
              else if fe_type e = Ev_Reduce \<or> fe_type e = Ev_Execute then books_on_decrement env key old e B
              else if fe_type e = ExecuteRemaining then books_on_remaining env key old e B
              else if fe_type e = Ev_Replace then books_on_replace env venue key old e B
              else (Some (Books_Error ''Unsupported normalized book event''), B)) of
          (Some r, B') \<Rightarrow> (Some r, B')
        | (None, B') \<Rightarrow> (None, if found then B'\<lparr>fb_updates := fb_updates B' + 1\<rparr> else B'))"

definition books_apply :: "feed_env \<Rightarrow> string \<Rightarrow> FeedEvent \<Rightarrow> Books \<Rightarrow> books_error option \<times> Books" where
  "books_apply env venue e B =
     (if venue = [] then (Some (Books_Error ''Venue namespace required''), B)
      else if fe_type e = Metadata \<or> fe_type e = Directory \<or> fe_type e = Ev_Trade then (None, B)
      else if fe_type e = Clear then (None, books_on_clear venue e B)
      else if fe_type e = Ev_Add then books_on_add env venue e B
      else case map_of (fb_orders B) (venue, fe_channel e, fe_order_id e) of
          None \<Rightarrow> (Some (Books_Error ''Unknown feed order; missing history or wrong channel''), B)
        | Some old \<Rightarrow> books_follow_up env venue (venue, fe_channel e, fe_order_id e) old e B)"

definition books_consume :: "feed_env \<Rightarrow> string \<Rightarrow> FeedEvent \<Rightarrow> Books \<Rightarrow> books_error option \<times> Books" where
  "books_consume env venue e B =
     (if \<not> fb_valid B then (Some (Books_Error ''Feed books require rebuild after error''), B)
      else case books_apply env venue e B of
          (Some r, B') \<Rightarrow> (Some r, B'\<lparr>fb_valid := False\<rparr>)
        | (None, B') \<Rightarrow> (None, B'))"

text \<open>The run-time check: the reason it fails, or the number of orders counted. The outer \<open>None\<close> is a dangling read.\<close>

fun validate_routes :: "Books \<Rightarrow> (OrderKey \<times> Tracked) list \<Rightarrow> nat \<Rightarrow> (string + nat) option" where
  "validate_routes B [] n = Some (Inr n)"
| "validate_routes B (((v, c, oid), t) # rest) n =
     (if \<not> selected B (bk_symbol (tr_book t)) then validate_routes B rest n
      else case map_of (fb_books B) (tr_book t) of
          None \<Rightarrow> Some (Inl ''Missing reconstructed book'')
        | Some b \<Rightarrow>
            (case book_order oid b of
               None \<Rightarrow> None
             | Some None \<Rightarrow> Some (Inl ''Routing state and core book disagree'')
             | Some (Some w) \<Rightarrow>
                 if ucast (view_price w) \<noteq> tr_price t \<or> ucast (view_quantity w) \<noteq> tr_quantity t \<or> view_side w \<noteq> tr_side t
                 then Some (Inl ''Routing state and core book disagree'')
                 else validate_routes B rest (n + 1)))"

fun validate_feed_books :: "(BookKey \<times> OrderBook) list \<Rightarrow> nat \<Rightarrow> string + nat" where
  "validate_feed_books [] n = Inr n"
| "validate_feed_books ((k, b) # rest) n =
     (case validate_invariants b of Inl r \<Rightarrow> Inl r | Inr _ \<Rightarrow> validate_feed_books rest (n + order_count b))"

definition books_validate :: "Books \<Rightarrow> (string + unit) option" where
  "books_validate B =
     (if \<not> fb_valid B then Some (Inl ''Feed stream is invalid'')
      else case validate_routes B (fb_orders B) 0 of
          None \<Rightarrow> None
        | Some (Inl r) \<Rightarrow> Some (Inl r)
        | Some (Inr selected_orders) \<Rightarrow>
            (case validate_feed_books (fb_books B) 0 of
               Inl r \<Rightarrow> Some (Inl r)
             | Inr count \<Rightarrow> Some (if count = selected_orders then Inr () else Inl ''Untracked reconstructed orders'')))"

section \<open>Routing and books agree\<close>

text \<open>What the book of a key shows, empty when there is no book; and the order that an entry of \<open>orders_\<close> describes.\<close>

definition shown :: "Books \<Rightarrow> BookKey \<Rightarrow> abs_book" where
  "shown B k = (case map_of (fb_books B) k of None \<Rightarrow> empty_book | Some b \<Rightarrow> book_orders b)"

definition listed :: "OrderId \<Rightarrow> Tracked \<Rightarrow> OrderView" where
  "listed oid t = \<lparr>view_id = oid, view_side = tr_side t, view_price = ucast (tr_price t), view_quantity = ucast (tr_quantity t)\<rparr>"

definition narrow :: "Tracked \<Rightarrow> bool" where
  "narrow t \<longleftrightarrow> tr_price t \<le> 0xffffffff \<and> tr_quantity t \<le> 0xffffffff"

definition routed :: "BookKey \<Rightarrow> OrderId \<Rightarrow> Tracked option \<Rightarrow> OrderView option" where
  "routed k oid r = (case r of None \<Rightarrow> None | Some t \<Rightarrow> if tr_book t = k then Some (listed oid t) else None)"

abbreviation route :: "Books \<Rightarrow> BookKey \<Rightarrow> OrderId \<Rightarrow> Tracked option" where
  "route B k oid \<equiv> map_of (fb_orders B) (bk_venue k, bk_channel k, oid)"

definition agree :: "Books \<Rightarrow> bool" where
  "agree B \<longleftrightarrow> (\<forall>k oid. selected B (bk_symbol k) \<longrightarrow> spec_find oid (shown B k) = routed k oid (route B k oid))"

definition route_ok :: "Books \<Rightarrow> OrderKey \<Rightarrow> Tracked \<Rightarrow> bool" where
  "route_ok B key t \<longleftrightarrow> fst key = bk_venue (tr_book t) \<and> fst (snd key) = bk_channel (tr_book t) \<and>
     (selected B (bk_symbol (tr_book t)) \<longrightarrow> narrow t)"

definition book_ok :: "Books \<Rightarrow> BookKey \<Rightarrow> OrderBook \<Rightarrow> bool" where
  "book_ok B k b \<longleftrightarrow> wf_book b \<and> book_capacity b \<le> fb_pool_bytes B \<and> selected B (bk_symbol k)"

definition books_ok :: "Books \<Rightarrow> bool" where
  "books_ok B \<longleftrightarrow> om_sorted (<) (fb_books B) \<and> om_sorted (<) (fb_orders B) \<and>
     (\<forall>k b. map_of (fb_books B) k = Some b \<longrightarrow> book_ok B k b) \<and>
     (\<forall>key t. map_of (fb_orders B) key = Some t \<longrightarrow> route_ok B key t) \<and> agree B"

lemma books_okD:
  assumes "books_ok B"
  shows "om_sorted (<) (fb_books B)" "om_sorted (<) (fb_orders B)"
    "map_of (fb_books B) k = Some b \<Longrightarrow> book_ok B k b" "map_of (fb_orders B) key = Some t \<Longrightarrow> route_ok B key t" "agree B"
  using assms unfolding books_ok_def by blast+

lemma agreeD:
  "books_ok B \<Longrightarrow> selected B (bk_symbol k) \<Longrightarrow> spec_find oid (shown B k) = routed k oid (route B k oid)"
  by (simp add: books_ok_def agree_def)

text \<open>
  The step common to every message: one book and the entries of one venue and channel change, the other
  symbols of that channel keep theirs.
\<close>

lemma agree_step:
  assumes ag: "agree B" and cfg: "fb_filter B' = fb_filter B"
    and sh: "\<And>k'. k' \<noteq> k \<Longrightarrow> shown B' k' = shown B k'"
    and other: "\<And>v c oid. (v, c) \<noteq> (bk_venue k, bk_channel k) \<Longrightarrow>
      map_of (fb_orders B') (v, c, oid) = map_of (fb_orders B) (v, c, oid)"
    and same: "\<And>k' oid. k' \<noteq> k \<Longrightarrow> bk_venue k' = bk_venue k \<Longrightarrow> bk_channel k' = bk_channel k \<Longrightarrow>
      routed k' oid (route B' k oid) = routed k' oid (route B k oid)"
    and here: "\<And>oid. selected B (bk_symbol k) \<Longrightarrow> spec_find oid (shown B' k) = routed k oid (route B' k oid)"
  shows "agree B'"
  unfolding agree_def
proof (intro allI impI)
  fix k' oid assume sel: "selected B' (bk_symbol k')"
  then have sel': "selected B (bk_symbol k')" using cfg by (simp add: selected_def)
  show "spec_find oid (shown B' k') = routed k' oid (route B' k' oid)"
  proof (cases "k' = k")
    case True
    then show ?thesis using here sel' by simp
  next
    case False
    have "spec_find oid (shown B' k') = routed k' oid (route B k' oid)"
      using ag sel' sh [OF False] by (simp add: agree_def)
    also have "\<dots> = routed k' oid (route B' k' oid)"
    proof (cases "bk_venue k' = bk_venue k \<and> bk_channel k' = bk_channel k")
      case True
      then show ?thesis using same [OF False, of oid] by simp
    qed (use other in auto)
    finally show ?thesis .
  qed
qed

lemma routed_away: "tr_book t = k \<Longrightarrow> k' \<noteq> k \<Longrightarrow> routed k' oid (Some t) = None"
  by (simp add: routed_def)

lemma routed_simps [simp]: "routed k oid None = None" "tr_book t = k \<Longrightarrow> routed k oid (Some t) = Some (listed oid t)"
  by (simp_all add: routed_def)

lemma shown_other [simp]:
  "shown (B\<lparr>fb_orders := os\<rparr>) = shown B" "shown (B\<lparr>fb_updates := u\<rparr>) = shown B" "shown (B\<lparr>fb_valid := v\<rparr>) = shown B"
  by (simp_all add: shown_def fun_eq_iff)

lemma books_ok_updates [simp]: "books_ok (B\<lparr>fb_updates := u\<rparr>) = books_ok B"
    "books_ok (B\<lparr>fb_updates := u, fb_orders := os\<rparr>) = books_ok (B\<lparr>fb_orders := os\<rparr>)"
  by (simp_all add: books_ok_def agree_def route_ok_def book_ok_def selected_def shown_def)

subsection \<open>A new book\<close>

definition feed_env_ok :: "nat \<Rightarrow> feed_env \<Rightarrow> bool" where
  "feed_env_ok bytes env \<longleftrightarrow> (\<forall>a. fenv_block env = Some a \<longrightarrow> 0 < a \<and> a + bytes \<le> 2 ^ 64)"

lemma new_book:
  assumes "OrderBook_new (fenv_block env) bytes = Some b" "feed_env_ok bytes env"
  shows "wf_book b" "book_orders b = empty_book" "book_capacity b \<le> bytes"
proof -
  obtain a where a: "fenv_block env = Some a"
    using assms(1) by (auto simp: OrderBook_new_def FixedSlotPool_new_def split: option.splits if_splits)
  note new = OrderBook_new_wf [of a bytes b]
  show "wf_book b" using new assms a by (simp add: feed_env_ok_def)
  show "book_orders b = empty_book"
    using new assms a by (auto simp: feed_env_ok_def book_orders_def empty_book_def fun_eq_iff)
  show "book_capacity b \<le> bytes"
    using assms(1) a by (auto simp: OrderBook_new_def FixedSlotPool_new_def book_capacity_def node_slots_def pool_slots_def alignof_list_node_def
        dest!: std_align_SomeD(4) split: option.splits if_splits) (meson div_le_dividend le_trans)
qed

subsection \<open>Changing one book\<close>

definition stays :: "BookKey \<Rightarrow> Tracked option \<Rightarrow> bool" where
  "stays k r \<longleftrightarrow> (\<forall>t. r = Some t \<longrightarrow> tr_book t = k)"

lemma stays_simps [simp]: "stays k None" "stays k (Some t) \<longleftrightarrow> tr_book t = k"
  by (simp_all add: stays_def)

lemma stays_routed: "stays k r \<Longrightarrow> k' \<noteq> k \<Longrightarrow> routed k' oid r = None"
  by (auto simp: stays_def routed_def split: option.splits)

lemma books_ok_routes:
  assumes ok: "books_ok B" and st: "om_sorted (<) os"
    and rt: "\<And>key t. map_of os key = Some t \<Longrightarrow> route_ok B key t"
    and other: "\<And>v c oid. (v, c) \<noteq> (bk_venue k, bk_channel k) \<Longrightarrow> map_of os (v, c, oid) = map_of (fb_orders B) (v, c, oid)"
    and same: "\<And>oid. map_of os (bk_venue k, bk_channel k, oid) = route B k oid \<or>
      stays k (map_of os (bk_venue k, bk_channel k, oid)) \<and> stays k (route B k oid)"
  shows "\<not> selected B (bk_symbol k) \<Longrightarrow> books_ok (B\<lparr>fb_orders := os\<rparr>)"
    and "selected B (bk_symbol k) \<Longrightarrow> wf_book b \<Longrightarrow> book_capacity b \<le> fb_pool_bytes B \<Longrightarrow>
      (\<And>oid. spec_find oid (book_orders b) = routed k oid (map_of os (bk_venue k, bk_channel k, oid))) \<Longrightarrow>
      books_ok (B\<lparr>fb_books := om_put (<) k b (fb_books B), fb_orders := os\<rparr>)"
proof -
  note D = books_okD [OF ok]
  have keep: "routed k' oid (map_of os (bk_venue k, bk_channel k, oid)) = routed k' oid (route B k oid)" if "k' \<noteq> k" for k' oid
    using same [of oid] stays_routed [OF _ that] by metis
  show "books_ok (B\<lparr>fb_orders := os\<rparr>)" if uns: "\<not> selected B (bk_symbol k)"
  proof -
    have "agree (B\<lparr>fb_orders := os\<rparr>)"
      by (rule agree_step [OF D(5), where k = k]) (use other keep uns in auto)
    then show ?thesis
      using D st rt by (simp add: books_ok_def route_ok_def book_ok_def selected_def)
  qed
  show "books_ok (B\<lparr>fb_books := om_put (<) k b (fb_books B), fb_orders := os\<rparr>)"
    if sel: "selected B (bk_symbol k)" and wf: "wf_book b" and cap: "book_capacity b \<le> fb_pool_bytes B"
      and here: "\<And>oid. spec_find oid (book_orders b) = routed k oid (map_of os (bk_venue k, bk_channel k, oid))"
  proof -
    let ?B = "B\<lparr>fb_books := om_put (<) k b (fb_books B), fb_orders := os\<rparr>"
    have sh: "shown ?B k' = (if k' = k then book_orders b else shown B k')" for k'
      by (simp add: shown_def)
    then have "agree ?B"
      by (intro agree_step [OF D(5), where k = k]) (use other keep here in auto)
    moreover have "book_ok ?B k' b'" if "map_of (fb_books ?B) k' = Some b'" for k' b'
      using that D(3) [of k' b'] sel wf cap by (auto simp: book_ok_def selected_def split: if_splits)
    ultimately show ?thesis
      using D st rt by (auto simp: books_ok_def route_ok_def selected_def om_less.sorted_put)
  qed
qed

text \<open>A tracked order of a selected symbol is in its book.\<close>

lemma tracked_book:
  assumes ok: "books_ok B" and tr: "map_of (fb_orders B) (v, c, oid) = Some old"
  shows "tr_book old = BookKey v c (bk_symbol (tr_book old))"
    and "\<not> selected B (bk_symbol (tr_book old)) \<Longrightarrow> map_of (fb_books B) (tr_book old) = None"
    and "selected B (bk_symbol (tr_book old)) \<Longrightarrow> narrow old \<and> (\<exists>b. map_of (fb_books B) (tr_book old) = Some b \<and> wf_book b \<and>
      book_capacity b \<le> fb_pool_bytes B \<and> spec_find oid (book_orders b) = Some (listed oid old))"
proof -
  have rt: "route_ok B (v, c, oid) old" using books_okD(4) [OF ok tr] .
  then show key: "tr_book old = BookKey v c (bk_symbol (tr_book old))"
    by (cases "tr_book old") (simp add: route_ok_def)
  show "map_of (fb_books B) (tr_book old) = None" if "\<not> selected B (bk_symbol (tr_book old))"
    using books_okD(3) [OF ok] that by (cases "map_of (fb_books B) (tr_book old)") (auto simp: book_ok_def)
  assume sel: "selected B (bk_symbol (tr_book old))"
  have vc: "bk_venue (tr_book old) = v" "bk_channel (tr_book old) = c" using rt by (simp_all add: route_ok_def)
  have "spec_find oid (shown B (tr_book old)) = Some (listed oid old)"
    using agreeD [OF ok sel, of oid] tr vc by simp
  then obtain b where "map_of (fb_books B) (tr_book old) = Some b" "spec_find oid (book_orders b) = Some (listed oid old)"
    by (auto simp: shown_def empty_book_def spec_find_def split: option.splits)
  then show "narrow old \<and> (\<exists>b. map_of (fb_books B) (tr_book old) = Some b \<and> wf_book b \<and>
      book_capacity b \<le> fb_pool_bytes B \<and> spec_find oid (book_orders b) = Some (listed oid old))"
    using rt sel books_okD(3) [OF ok] by (auto simp: route_ok_def book_ok_def)
qed

subsection \<open>Operations on the book of a tracked order\<close>

text \<open>
  The book forgets \<open>oid\<close> and then holds what the entry \<open>r\<close> says under \<open>nid\<close>, whenever the operation
  succeeds; it never reads through a dangling iterator.
\<close>

definition book_step ::
    "OrderId \<Rightarrow> OrderId \<Rightarrow> Tracked option \<Rightarrow> OrderBook \<Rightarrow> books_error + (ApplyResult \<times> OrderBook) option \<Rightarrow> bool" where
  "book_step oid nid r b x \<longleftrightarrow>
     (case x of
        Inl e \<Rightarrow> e \<noteq> Dangling
      | Inr None \<Rightarrow> False
      | Inr (Some (res, b')) \<Rightarrow> res = Ok \<longrightarrow>
          wf_book b' \<and> book_capacity b' = book_capacity b \<and> (\<forall>t. r = Some t \<longrightarrow> narrow t) \<and>
          (\<forall>i. spec_find i (book_orders b') =
             (if i = nid then map_option (listed nid) r else if i = oid then None else spec_find i (book_orders b))))"

lemma apply_book_step:
  assumes wf: "wf_book b" and nw: "\<forall>t. r = Some t \<longrightarrow> narrow t"
    and sp: "\<And>room A. spec_apply room ev (book_orders b) = (Ok, A) \<Longrightarrow>
      \<forall>i. spec_find i A = (if i = nid then map_option (listed nid) r else if i = oid then None else spec_find i (book_orders b))"
  shows "book_step oid nid r b (Inr (apply_event h ev b))"
proof -
  obtain res b' room where "apply_event h ev b = Some (res, b')" "wf_book b'" "book_capacity b' = book_capacity b"
      and eq: "(res, book_orders b') = spec_apply room ev (book_orders b)"
    using lob.apply_cases [OF wf, of h ev] by metis
  then show ?thesis using nw sp [of room "book_orders b'"] eq [symmetric] by (simp add: book_step_def del: split_paired_All)
qed

lemma replace_book_step:
  assumes wf: "wf_book b" and nw: "\<forall>t. r = Some t \<longrightarrow> narrow t"
    and sp: "\<And>room A. spec_replace room oid nid s price qty keep (book_orders b) = (Ok, A) \<Longrightarrow>
      \<forall>i. spec_find i A = (if i = nid then map_option (listed nid) r else if i = oid then None else spec_find i (book_orders b))"
  shows "book_step oid nid r b (Inr (book_replace h oid nid s price qty keep b))"
proof -
  obtain res b' room where "book_replace h oid nid s price qty keep b = Some (res, b')" "wf_book b'" "book_capacity b' = book_capacity b"
      and eq: "(res, book_orders b') = spec_replace room oid nid s price qty keep (book_orders b)"
    using lob.replace_law [OF wf, of h oid nid s price qty keep] by auto
  then show ?thesis using nw sp [of room "book_orders b'"] eq [symmetric] by (simp add: book_step_def del: split_paired_All)
qed

lemma cancel_book_step: "wf_book b \<Longrightarrow> book_step oid oid None b (Inr (apply_event h (CancelOrder oid) b))"
  by (rule apply_book_step) (auto simp: spec_apply_def spec_find_delete split: option.splits)

text \<open>Narrowing within range loses nothing.\<close>

lemma unat_narrow: "x \<le> 0xffffffff \<Longrightarrow> unat (ucast (x :: u64) :: u32) = unat x"
  by (simp add: unsigned_ucast_eq word_le_nat_alt take_bit_nat_eq_self)

lemma narrow_eq:
  assumes "x \<le> 0xffffffff" "y \<le> (0xffffffff :: u64)"
  shows "(ucast x :: u32) = ucast y \<longleftrightarrow> x = y" "(ucast x :: u32) < ucast y \<longleftrightarrow> x < y"
  using assms by (simp_all add: word_unat_eq_iff word_less_nat_alt unat_narrow)

lemma narrow_minus:
  assumes "y \<le> x" "x \<le> (0xffffffff :: u64)"
  shows "(ucast (x - y) :: u32) = ucast x - ucast y"
proof -
  have y: "y \<le> 0xffffffff" and d: "x - y \<le> 0xffffffff"
    using assms by (auto simp: word_le_nat_alt unat_sub)
  have "unat (ucast x - ucast y :: u32) = unat x - unat y"
    using assms y by (simp add: unat_sub word_le_nat_alt unat_narrow)
  then show ?thesis using assms d by (simp add: word_unat_eq_iff unat_narrow unat_sub)
qed

lemma narrow_zero: "x \<le> 0xffffffff \<Longrightarrow> (ucast (x :: u64) :: u32) = 0 \<longleftrightarrow> x = 0"
  using narrow_eq(1) [of x 0] by simp

lemma narrow_view: "x \<le> 0xffffffff \<Longrightarrow> ucast (ucast (x :: u64) :: u32) = x"
  by (simp add: word_unat_eq_iff unat_narrow)

definition requantified :: "Tracked \<Rightarrow> u64 \<Rightarrow> Tracked option" where
  "requantified old q = (if q = 0 then None else Some (old\<lparr>tr_quantity := q\<rparr>))"

lemma execute_book_step:
  assumes wf: "wf_book b" and nw: "narrow old" and found: "spec_find oid (book_orders b) = Some (listed oid old)"
    and q: "0 < q" "q \<le> tr_quantity old"
  shows "book_step oid oid (requantified old (tr_quantity old - q)) b (Inr (apply_event h (ExecuteOrder oid (ucast q)) b))"
proof (rule apply_book_step [OF wf])
  have small: "q \<le> 0xffffffff" "tr_quantity old - q \<le> tr_quantity old"
    using q nw by (auto simp: narrow_def word_le_nat_alt unat_sub)
  show "\<forall>t. requantified old (tr_quantity old - q) = Some t \<longrightarrow> narrow t"
    using nw small(2) by (auto simp: requantified_def narrow_def split: if_splits)
  note eqs = narrow_eq [OF small(1), of "tr_quantity old"] narrow_zero [OF small(1)] narrow_minus [OF q(2)]
  show "\<forall>i. spec_find i A = (if i = oid then map_option (listed oid) (requantified old (tr_quantity old - q))
      else if i = oid then None else spec_find i (book_orders b))"
    if "spec_apply room (ExecuteOrder oid (ucast q)) (book_orders b) = (Ok, A)" for room A
    using that found nw eqs
    by (auto simp: spec_apply_def listed_def requantified_def narrow_def spec_find_delete spec_find_set_quantity split: if_splits)
qed

lemma keep_book_step:
  assumes wf: "wf_book b" and nw: "narrow old" and found: "spec_find oid (book_orders b) = Some (listed oid old)"
    and q: "q \<noteq> 0" "q \<le> 0xffffffff" and p: "feed_add (tr_price old) q = Inr (p', q')"
  shows "book_step oid oid (requantified old q) b (Inr (book_replace h oid oid (tr_side old) p' q' True b))"
proof (rule replace_book_step [OF wf])
  show "\<forall>t. requantified old q = Some t \<longrightarrow> narrow t"
    using nw q by (auto simp: requantified_def narrow_def)
  show "\<forall>i. spec_find i A = (if i = oid then map_option (listed oid) (requantified old q)
      else if i = oid then None else spec_find i (book_orders b))"
    if "spec_replace room oid oid (tr_side old) p' q' True (book_orders b) = (Ok, A)" for room A
    using that found p q
    by (auto simp: spec_replace_def feed_add_def listed_def requantified_def spec_find_set_quantity split: if_splits)
qed

lemma move_book_step:
  assumes wf: "wf_book b" and found: "spec_find oid (book_orders b) = Some (listed oid old)"
    and fresh: "nid = oid \<or> spec_find nid (book_orders b) = None" and side: "tr_side old \<noteq> Side_Other"
    and add: "feed_add price q = Inr (p', q')" and keep: "keep \<Longrightarrow> nid = oid \<and> price = tr_price old"
  shows "book_step oid nid (Some (old\<lparr>tr_price := price, tr_quantity := q\<rparr>)) b
    (Inr (book_replace h oid nid (tr_side old) p' q' keep b))"
proof (rule replace_book_step [OF wf])
  show "\<forall>t. Some (old\<lparr>tr_price := price, tr_quantity := q\<rparr>) = Some t \<longrightarrow> narrow t"
    using add by (auto simp: narrow_def feed_add_def split: if_splits)
  show "\<forall>i. spec_find i A = (if i = nid then map_option (listed nid) (Some (old\<lparr>tr_price := price, tr_quantity := q\<rparr>))
      else if i = oid then None else spec_find i (book_orders b))"
    if sp: "spec_replace room oid nid (tr_side old) p' q' keep (book_orders b) = (Ok, A)" for room A
  proof -
    let ?v = "\<lparr>view_id = nid, view_side = tr_side old, view_price = p', view_quantity = q'\<rparr>"
    have pq: "p' = ucast price" "q' = ucast q" using add by (auto simp: feed_add_def split: if_splits)
    have "spec_find nid (spec_delete oid (book_orders b)) = None" using fresh by (auto simp: spec_find_delete)
    then have "spec_find i (spec_insert ?v (spec_delete oid (book_orders b))) =
        (if i = nid then Some ?v else if i = oid then None else spec_find i (book_orders b))" for i
      using spec_find_insert [of ?v "spec_delete oid (book_orders b)" i] side by (simp add: spec_find_delete)
    then show ?thesis
      using sp found keep pq
      by (auto simp: spec_replace_def listed_def spec_find_set_quantity split: if_splits)
  qed
qed

subsection \<open>Every message keeps the invariant\<close>

definition same_setup :: "Books \<Rightarrow> Books \<Rightarrow> bool" where
  "same_setup B B' \<longleftrightarrow> fb_filter B' = fb_filter B \<and> fb_pool_bytes B' = fb_pool_bytes B \<and> fb_valid B' = fb_valid B"

definition keeps :: "Books \<Rightarrow> books_error option \<times> Books \<Rightarrow> bool" where
  "keeps B res \<longleftrightarrow> fst res \<noteq> Some Dangling \<and> same_setup B (snd res) \<and> (fst res = None \<longrightarrow> books_ok (snd res))"

lemma keepsI: "r \<noteq> Dangling \<Longrightarrow> keeps B (Some r, B)"
  by (simp add: keeps_def same_setup_def)

lemma setup_simps [simp]:
  "same_setup B B" "same_setup B (B'\<lparr>fb_orders := os\<rparr>) = same_setup B B'" "same_setup B (B'\<lparr>fb_updates := u\<rparr>) = same_setup B B'"
  "same_setup B (B'\<lparr>fb_books := bs\<rparr>) = same_setup B B'"
  by (simp_all add: same_setup_def)

lemma follow_step:
  assumes ok: "books_ok B" and tr: "map_of (fb_orders B) (v, c, oid) = Some old" and so: "om_sorted (<) os"
    and os: "map_of os = (map_of (fb_orders B))((v, c, oid) := None, (v, c, nid) := r)" and st: "stays (tr_book old) r"
    and fresh: "nid = oid \<or> map_of (fb_orders B) (v, c, nid) = None"
    and book: "\<And>b. narrow old \<Longrightarrow> wf_book b \<Longrightarrow> spec_find oid (book_orders b) = Some (listed oid old) \<Longrightarrow>
      nid = oid \<or> spec_find nid (book_orders b) = None \<Longrightarrow> book_step oid nid r b (op b)"
  obtains e B1 where "on_book old op B = (Some e, B1)" "e \<noteq> Dangling" "same_setup B B1"
    | B1 where "on_book old op B = (None, B1)" "fb_orders B1 = fb_orders B" "same_setup B B1" "books_ok (B1\<lparr>fb_orders := os\<rparr>)"
proof -
  let ?k = "tr_book old"
  note T = tracked_book [OF ok tr]
  have vc: "bk_venue ?k = v" "bk_channel ?k = c" using books_okD(4) [OF ok tr] by (simp_all add: route_ok_def)
  have other: "map_of os (v', c', i) = map_of (fb_orders B) (v', c', i)" if "(v', c') \<noteq> (bk_venue ?k, bk_channel ?k)" for v' c' i
    using that vc by (auto simp: os)
  have same: "map_of os (bk_venue ?k, bk_channel ?k, i) = route B ?k i \<or>
      stays ?k (map_of os (bk_venue ?k, bk_channel ?k, i)) \<and> stays ?k (route B ?k i)" for i
  proof -
    have "map_of os (v, c, i) = (if i = nid then r else if i = oid then None else map_of (fb_orders B) (v, c, i))"
      by (simp add: os)
    then show ?thesis using fresh tr st unfolding vc by (cases "i = nid"; cases "i = oid") auto
  qed
  have rt: "route_ok B key t"
    if nw: "selected B (bk_symbol ?k) \<longrightarrow> (\<forall>t. r = Some t \<longrightarrow> narrow t)" and m: "map_of os key = Some t" for key t
  proof (cases "key = (v, c, nid)")
    case True
    then have "r = Some t" using m by (simp add: os)
    then show ?thesis using True nw st vc by (simp add: route_ok_def)
  next
    case False
    then have "map_of (fb_orders B) key = Some t" using m by (simp add: os split: if_splits)
    then show ?thesis by (rule books_okD(4) [OF ok])
  qed
  show thesis
  proof (cases "selected B (bk_symbol ?k)")
    case False
    then have "books_ok (B\<lparr>fb_orders := os\<rparr>)"
      by (intro books_ok_routes(1) [OF ok so rt other same]) auto
    then show thesis using that(2) [of B] T(2) [OF False] by (simp add: on_book_def)
  next
    case True
    obtain b where b: "map_of (fb_books B) ?k = Some b" "wf_book b" "book_capacity b \<le> fb_pool_bytes B"
        "spec_find oid (book_orders b) = Some (listed oid old)" and nw: "narrow old"
      using T(3) [OF True] by blast
    have look: "spec_find i (book_orders b) = routed ?k i (map_of (fb_orders B) (v, c, i))" for i
      using agreeD [OF ok True, of i] b(1) vc by (simp add: shown_def)
    have "nid = oid \<or> spec_find nid (book_orders b) = None" using fresh look by auto
    note st' = book [OF nw b(2,4) this]
    consider e where "op b = Inl e" "e \<noteq> Dangling" | res b' where "op b = Inr (Some (res, b'))"
      using st' by (auto simp: book_step_def split: sum.splits option.splits)
    then show thesis
    proof cases
      case 1
      then show thesis using that(1) [of e B] b(1) by (simp add: on_book_def)
    next
      case 2
      let ?B = "B\<lparr>fb_books := om_put (<) ?k b' (fb_books B)\<rparr>"
      show thesis
      proof (cases "res = Ok")
        case False
        then show thesis using that(1) [of _ ?B] b(1) 2 by (simp add: on_book_def applied_def)
      next
        case ok': True
        then have b': "wf_book b'" "book_capacity b' = book_capacity b" "\<forall>t. r = Some t \<longrightarrow> narrow t"
            "\<And>i. spec_find i (book_orders b') = (if i = nid then map_option (listed nid) r else if i = oid then None else spec_find i (book_orders b))"
          using st' 2 by (simp_all add: book_step_def)
        have here: "spec_find i (book_orders b') = routed ?k i (map_of os (bk_venue ?k, bk_channel ?k, i))" for i
          using b'(4) [of i] look st vc by (cases r) (auto simp: os)
        have "books_ok (?B\<lparr>fb_orders := os\<rparr>)"
          using books_ok_routes(2) [OF ok so rt other same True b'(1) _ here] b'(2,3) b(3) by simp
        then show thesis using that(2) [of ?B] b(1) 2 ok' by (simp add: on_book_def applied_def)
      qed
    qed
  qed
qed

lemma delete_keeps:
  assumes ok: "books_ok B" and tr: "map_of (fb_orders B) (v, c, fe_order_id e) = Some old"
  shows "keeps B (books_on_delete env (v, c, fe_order_id e) old e B)"
  by (rule follow_step [OF ok tr om_less.sorted_erase [OF books_okD(2) [OF ok]], where nid = "fe_order_id e" and r = None
        and op = "\<lambda>b. Inr (apply_event (fenv_heap env) (CancelOrder (fe_order_id e)) b)"])
    (auto simp: cancel_book_step books_on_delete_def keeps_def)

lemma set_tracked_map:
  "om_sorted (<) (fb_orders B) \<Longrightarrow> om_sorted (<) (fb_orders (set_tracked key old q B))"
  "map_of (fb_orders (set_tracked key old q B)) = (map_of (fb_orders B))(key := None, key := requantified old q)"
  by (auto simp: set_tracked_def requantified_def om_less.sorted_put om_less.sorted_erase)

lemma set_tracked_eq: "fb_orders B1 = fb_orders B \<Longrightarrow> set_tracked key old q B1 = B1\<lparr>fb_orders := fb_orders (set_tracked key old q B)\<rparr>"
  by (simp add: set_tracked_def)

lemma requantified_stays: "stays (tr_book old) (requantified old q)"
  by (simp add: requantified_def)

lemma quantity_keeps:
  assumes ok: "books_ok B" and tr: "map_of (fb_orders B) (v, c, oid) = Some old"
    and book: "\<And>b. narrow old \<Longrightarrow> wf_book b \<Longrightarrow> spec_find oid (book_orders b) = Some (listed oid old) \<Longrightarrow>
      book_step oid oid (requantified old q) b (op b)"
  shows "keeps B (case on_book old op B of (Some r, B') \<Rightarrow> (Some r, B') | (None, B') \<Rightarrow> (None, set_tracked (v, c, oid) old q B'))"
proof (rule follow_step [OF ok tr set_tracked_map(1) [OF books_okD(2) [OF ok]] set_tracked_map(2) requantified_stays, where op = op])
  show "keeps B (case on_book old op B of (Some r, B') \<Rightarrow> (Some r, B') | (None, B') \<Rightarrow> (None, set_tracked (v, c, oid) old q B'))"
    if "on_book old op B = (None, B1)" "fb_orders B1 = fb_orders B" "same_setup B B1"
      "books_ok (B1\<lparr>fb_orders := fb_orders (set_tracked (v, c, oid) old q B)\<rparr>)" for B1
    using that by (simp add: keeps_def set_tracked_eq [OF that(2)])
qed (use book in \<open>simp_all add: keeps_def\<close>)

lemma decrement_keeps:
  assumes "books_ok B" "map_of (fb_orders B) (v, c, fe_order_id e) = Some old"
  shows "keeps B (books_on_decrement env (v, c, fe_order_id e) old e B)"
proof (cases "0 < fe_quantity e \<and> fe_quantity e \<le> tr_quantity old")
  case True
  then show ?thesis
    unfolding books_on_decrement_def by (simp add: quantity_keeps [OF assms] execute_book_step)
next
  case False
  then show ?thesis unfolding books_on_decrement_def by (simp only: simp_thms if_True keepsI books_error.distinct not_False_eq_True)
qed

lemma remaining_keeps:
  assumes "books_ok B" "map_of (fb_orders B) (v, c, fe_order_id e) = Some old"
  shows "keeps B (books_on_remaining env (v, c, fe_order_id e) old e B)"
proof -
  let ?id = "fe_order_id e" and ?q = "fe_remaining e"
  have step: "book_step ?id ?id (requantified old ?q) b
      (if ?q = 0 then Inr (apply_event (fenv_heap env) (CancelOrder ?id) b)
       else (case feed_add (tr_price old) ?q of
               Inl r \<Rightarrow> Inl r
             | Inr (p, q) \<Rightarrow> Inr (book_replace (fenv_heap env) ?id ?id (tr_side old) p q True b)))"
    if small: "?q \<le> 0xffffffff" and b: "narrow old" "wf_book b" "spec_find ?id (book_orders b) = Some (listed ?id old)" for b
  proof (cases "?q = 0")
    case True
    then show ?thesis using cancel_book_step [OF b(2)] by (simp add: requantified_def)
  next
    case False
    show ?thesis
    proof (cases "feed_add (tr_price old) ?q")
      case (Inl r)
      then show ?thesis using False by (auto simp: book_step_def feed_add_def split: if_splits)
    next
      case (Inr pq)
      then show ?thesis using keep_book_step [OF b(2,1,3) False small] False by (cases pq) simp
    qed
  qed
  show ?thesis
  proof (cases "0 < fe_quantity e \<and> ?q \<le> 0xffffffff")
    case True
    then have small: "?q \<le> 0xffffffff" ..
    have "\<not> \<not> (0 < fe_quantity e \<and> ?q \<le> 0xffffffff)" using True by simp
    then show ?thesis
      unfolding books_on_remaining_def by (simp only: if_False) (rule quantity_keeps [OF assms step [OF small]])
  next
    case False
    then show ?thesis unfolding books_on_remaining_def by (simp only: simp_thms if_True keepsI books_error.distinct not_False_eq_True)
  qed
qed

text \<open>A tracked order of a book has a proper side.\<close>

lemma found_side:
  assumes "wf_book b" "spec_find oid (book_orders b) = Some w"
  shows "view_side w \<noteq> Side_Other"
  using lob.view_ok [OF assms(1)] assms(2) by (auto simp: spec_find_def abs_ok_def dest!: find_SomeD)

lemma replace_keeps:
  assumes ok: "books_ok B" and tr: "map_of (fb_orders B) (v, fe_channel e, fe_order_id e) = Some old"
  shows "keeps B (books_on_replace env v (v, fe_channel e, fe_order_id e) old e B)"
proof -
  let ?id = "fe_order_id e" and ?nid = "fe_new_order_id e" and ?c = "fe_channel e"
  let ?new = "old\<lparr>tr_price := fe_price e, tr_quantity := fe_quantity e\<rparr>"
  let ?op = "\<lambda>b. case feed_add (fe_price e) (fe_quantity e) of
                 Inl r \<Rightarrow> Inl r
               | Inr (p, q) \<Rightarrow> Inr (book_replace (fenv_heap env) ?id ?nid (tr_side old) p q (fe_maintain_priority e) b)"
  let ?os = "if ?nid = ?id then om_put (<) (v, ?c, ?id) ?new (fb_orders B)
    else om_erase (v, ?c, ?id) (om_put (<) (v, ?c, ?nid) ?new (fb_orders B))"
  let ?go = "(?nid = ?id \<or> map_of (fb_orders B) (v, ?c, ?nid) = None) \<and> fe_price e \<noteq> 0 \<and> fe_quantity e \<noteq> 0 \<and>
    (fe_maintain_priority e \<longrightarrow> ?nid = ?id \<and> fe_price e = tr_price old)"
  show ?thesis
  proof (cases ?go)
    case False
    then show ?thesis by (auto simp: books_on_replace_def Let_def intro: keepsI)
  next
    case go: True
    have step: "book_step ?id ?nid (Some ?new) b (?op b)"
      if b: "wf_book b" "spec_find ?id (book_orders b) = Some (listed ?id old)" "?nid = ?id \<or> spec_find ?nid (book_orders b) = None" for b
    proof (cases "feed_add (fe_price e) (fe_quantity e)")
      case (Inl r)
      then show ?thesis by (auto simp: book_step_def feed_add_def split: if_splits)
    next
      case (Inr pq)
      have "tr_side old \<noteq> Side_Other" using found_side [OF b(1,2)] by (simp add: listed_def)
      then show ?thesis using move_book_step [OF b, of "fe_price e" "fe_quantity e"] Inr go by (cases pq) simp
    qed
    have sorted: "om_sorted (<) ?os" using books_okD(2) [OF ok] by (simp add: om_less.sorted_put om_less.sorted_erase)
    have lookup: "map_of ?os = (map_of (fb_orders B))((v, ?c, ?id) := None, (v, ?c, ?nid) := Some ?new)"
      by (auto simp: fun_eq_iff)
    show ?thesis
      by (rule follow_step [OF ok tr sorted lookup, where op = ?op])
        (use go step in \<open>auto simp: books_on_replace_def books_track_def Let_def keeps_def\<close>)
  qed
qed

lemma insert_cases:
  assumes ok: "books_ok B" and env: "feed_env_ok (fb_pool_bytes B) env" and sel: "selected B (bk_symbol k)"
    and fresh: "route B k (fe_order_id e) = None"
  obtains r B1 where "books_insert env k e B = (Some r, B1)" "r \<noteq> Dangling" "same_setup B B1"
    | b u where "books_insert env k e B = (None, B\<lparr>fb_books := om_put (<) k b (fb_books B), fb_updates := u\<rparr>)" "wf_book b"
      "book_capacity b \<le> fb_pool_bytes B" "fe_price e \<le> 0xffffffff" "fe_quantity e \<le> 0xffffffff"
      "\<And>i. spec_find i (book_orders b) = (if i = fe_order_id e
         then Some (listed i \<lparr>tr_book = k, tr_side = fe_side e, tr_price = fe_price e, tr_quantity = fe_quantity e\<rparr>)
         else spec_find i (shown B k))"
proof (cases "feed_add (fe_price e) (fe_quantity e)")
  case (Inl r)
  then show thesis using that(1) [of r B] by (auto simp: books_insert_def feed_add_def split: if_splits)
next
  case (Inr pq)
  have add: "feed_add (fe_price e) (fe_quantity e) = Inr (ucast (fe_price e), ucast (fe_quantity e))"
      and small: "fe_price e \<le> 0xffffffff" "fe_quantity e \<le> 0xffffffff"
    using Inr by (auto simp: feed_add_def split: if_splits)
  let ?slot = "case map_of (fb_books B) k of Some b \<Rightarrow> Some b
    | None \<Rightarrow> if \<not> fenv_node env then None else OrderBook_new (fenv_block env) (fb_pool_bytes B)"
  show thesis
  proof (cases ?slot)
    case None
    then show thesis using that(1) [of Feed_Bad_Alloc B] add by (simp add: books_insert_def)
  next
    case (Some b)
    have b: "wf_book b" "book_capacity b \<le> fb_pool_bytes B" "book_orders b = shown B k"
      using Some books_okD(3) [OF ok, of k] new_book [OF _ env]
      by (auto simp: book_ok_def shown_def split: option.splits if_splits)
    let ?ev = "AddOrder (fe_order_id e) (fe_side e) (ucast (fe_price e)) (ucast (fe_quantity e))"
    obtain res b' room where ap: "apply_event (fenv_heap env) ?ev b = Some (res, b')" "wf_book b'" "book_capacity b' = book_capacity b"
        "(res, book_orders b') = spec_apply room ?ev (book_orders b)"
      using lob.apply_cases [OF b(1), of "fenv_heap env" ?ev] by metis
    have run: "books_insert env k e B = (case applied k (Some (res, b')) B of
        (Some r, B') \<Rightarrow> (Some r, B') | (None, B') \<Rightarrow> (None, B'\<lparr>fb_updates := fb_updates B' + 1\<rparr>))"
      unfolding books_insert_def add sum.case prod.case Some option.case ap(1) ..
    show thesis
    proof (cases "res = Ok")
      case False
      then show thesis using that(1) run by (simp add: applied_def)
    next
      case True
      let ?v = "\<lparr>view_id = fe_order_id e, view_side = fe_side e, view_price = ucast (fe_price e), view_quantity = ucast (fe_quantity e)\<rparr>"
      have "book_orders b' = spec_insert ?v (shown B k)" "fe_side e \<noteq> Side_Other"
        using ap(4) True b(3) by (auto simp: spec_apply_def split: if_splits)
      moreover have "spec_find (fe_order_id e) (shown B k) = None"
        using agreeD [OF ok sel, of "fe_order_id e"] fresh by simp
      ultimately have "spec_find i (book_orders b') = (if i = fe_order_id e then Some ?v else spec_find i (shown B k))" for i
        using spec_find_insert [of ?v "shown B k" i] by simp
      then show thesis
        using that(2) [of "fb_updates B + 1" b'] run True ap(2,3) b(2) small by (simp add: applied_def listed_def)
    qed
  qed
qed

lemma add_keeps:
  assumes ok: "books_ok B" and env: "feed_env_ok (fb_pool_bytes B) env"
  shows "keeps B (books_on_add env v e B)"
proof -
  let ?k = "BookKey v (fe_channel e) (fe_symbol e)" and ?key = "(v, fe_channel e, fe_order_id e)"
  let ?t = "\<lparr>tr_book = ?k, tr_side = fe_side e, tr_price = fe_price e, tr_quantity = fe_quantity e\<rparr>"
  let ?os = "om_put (<) ?key ?t (fb_orders B)"
  let ?go = "fe_symbol e \<noteq> [] \<and> map_of (fb_orders B) ?key = None \<and> fe_price e \<noteq> 0 \<and> fe_quantity e \<noteq> 0"
  show ?thesis
  proof (cases ?go)
    case False
    then show ?thesis by (auto simp: books_on_add_def Let_def intro: keepsI)
  next
    case go: True
    have run: "books_on_add env v e B = (case (if selected B (fe_symbol e) then books_insert env ?k e B else (None, B)) of
        (Some r, B') \<Rightarrow> (Some r, B') | (None, B') \<Rightarrow> books_track env ?key ?t B')"
      using go by (simp add: books_on_add_def Let_def)
    have rt: "route_ok B key t" if "selected B (fe_symbol e) \<longrightarrow> narrow ?t" "map_of ?os key = Some t" for key t
      using that books_okD(4) [OF ok, of key t] by (auto simp: route_ok_def split: if_splits)
    note step = books_ok_routes [OF ok om_less.sorted_put [OF books_okD(2) [OF ok]], where k = ?k, of ?key ?t]
    have other: "(v', c') \<noteq> (bk_venue ?k, bk_channel ?k) \<Longrightarrow> map_of ?os (v', c', i) = map_of (fb_orders B) (v', c', i)" for v' c' i
      by auto
    have same: "map_of ?os (bk_venue ?k, bk_channel ?k, i) = route B ?k i \<or>
        stays ?k (map_of ?os (bk_venue ?k, bk_channel ?k, i)) \<and> stays ?k (route B ?k i)" for i
      using go by simp
    show ?thesis
    proof (cases "selected B (fe_symbol e)")
      case False
      have "books_ok (B\<lparr>fb_orders := ?os\<rparr>)" by (rule step(1)) (use False rt other same in auto)
      then show ?thesis using False by (simp add: run keeps_def books_track_def)
    next
      case True
      have tr: "keeps B (books_track env ?key ?t (B\<lparr>fb_books := om_put (<) ?k b (fb_books B), fb_updates := u\<rparr>))"
        if "wf_book b" "book_capacity b \<le> fb_pool_bytes B" "narrow ?t"
          "\<And>i. spec_find i (book_orders b) = (if i = fe_order_id e then Some (listed i ?t) else spec_find i (shown B ?k))" for b u
      proof -
        have "spec_find i (book_orders b) = routed ?k i (map_of ?os (bk_venue ?k, bk_channel ?k, i))" for i
          using that(4) [of i] agreeD [OF ok, of ?k i] True by (simp add: routed_def)
        then have "books_ok (B\<lparr>fb_books := om_put (<) ?k b (fb_books B), fb_orders := ?os\<rparr>)"
          by (intro step(2)) (use True rt other same that in auto)
        then show ?thesis by (simp add: books_track_def keeps_def)
      qed
      show ?thesis
        by (rule insert_cases [OF ok env, of ?k e]) (use True go tr run in \<open>simp_all add: keeps_def narrow_def\<close>)
    qed
  qed
qed

lemma map_of_filter_key: "map_of (filter (\<lambda>(k, v). P k) m) k = (if P k then map_of m k else None)"
  by (induction m) auto

lemma sorted_filter: "om_sorted (<) m \<Longrightarrow> om_sorted (<) (filter P m)"
  by (simp add: om_sorted_def sorted_wrt_map sorted_wrt_filter)

lemma clear_ok:
  assumes ok: "books_ok B"
  shows "books_ok (books_on_clear v e B)"
proof -
  let ?B = "books_on_clear v e B" and ?out = "\<lambda>k. bk_venue k = v \<and> bk_channel k = fe_channel e"
  have bs: "map_of (fb_books ?B) k = (if ?out k then None else map_of (fb_books B) k)" for k
    using map_of_filter_key [of "\<lambda>k. \<not> ?out k" "fb_books B" k] by (simp add: books_on_clear_def)
  have os: "map_of (fb_orders ?B) (v', c, i) = (if v' = v \<and> c = fe_channel e then None else map_of (fb_orders B) (v', c, i))" for v' c i
    using map_of_filter_key [of "\<lambda>(v', c, _). \<not> (v' = v \<and> c = fe_channel e)" "fb_orders B" "(v', c, i)"]
    by (simp add: books_on_clear_def case_prod_unfold)
  have sel: "selected ?B = selected B" by (simp add: books_on_clear_def selected_def fun_eq_iff)
  have "agree ?B"
    using books_okD(5) [OF ok] by (auto simp: agree_def sel os shown_def bs spec_find_def empty_book_def)
  moreover have "om_sorted (<) (fb_books ?B)" "om_sorted (<) (fb_orders ?B)"
    using books_okD(1,2) [OF ok] by (simp_all add: books_on_clear_def sorted_filter)
  moreover have "fb_pool_bytes ?B = fb_pool_bytes B" by (simp add: books_on_clear_def)
  ultimately show ?thesis
    using books_okD(3,4) [OF ok] by (auto simp: books_ok_def bs os sel book_ok_def route_ok_def split: if_splits)
qed

lemma keeps_count:
  "keeps B res \<Longrightarrow> keeps B (case res of (Some r, B') \<Rightarrow> (Some r, B')
     | (None, B') \<Rightarrow> (None, if f then B'\<lparr>fb_updates := fb_updates B' + 1\<rparr> else B'))"
  by (cases res; cases "fst res") (auto simp: keeps_def)

lemma apply_keeps:
  assumes ok: "books_ok B" and env: "feed_env_ok (fb_pool_bytes B) env"
  shows "keeps B (books_apply env v e B)"
proof -
  have same: "keeps B (None, B)" using ok by (simp add: keeps_def)
  have clear: "keeps B (None, books_on_clear v e B)"
    using clear_ok [OF ok, of v e] by (simp add: keeps_def books_on_clear_def same_setup_def)
  have follow: "keeps B (books_follow_up env v (v, fe_channel e, fe_order_id e) old e B)"
    if tr: "map_of (fb_orders B) (v, fe_channel e, fe_order_id e) = Some old" for old
    unfolding books_follow_up_def Let_def
    using delete_keeps [OF ok tr] decrement_keeps [OF ok tr] remaining_keeps [OF ok tr] replace_keeps [OF ok tr]
    by (auto intro!: keeps_count keepsI)
  show ?thesis
    unfolding books_apply_def using same clear follow add_keeps [OF ok env]
    by (auto intro: keepsI split: option.splits)
qed

section \<open>Reachable books\<close>

inductive books_reachable :: "Books \<Rightarrow> bool" where
  books_start: "Books_new symbol_filter bytes = Inr B \<Longrightarrow> books_reachable B"
| books_message: "books_reachable B \<Longrightarrow> feed_env_ok (fb_pool_bytes B) env \<Longrightarrow> books_reachable (snd (books_consume env venue e B))"

lemma reachable_books_ok: "books_reachable B \<Longrightarrow> fb_valid B \<Longrightarrow> books_ok B"
proof (induction rule: books_reachable.induct)
  case (books_start symbol_filter bytes B)
  then show ?case
    by (auto simp: Books_new_def books_ok_def om_sorted_def agree_def shown_def spec_find_def empty_book_def split: if_splits)
next
  case (books_message B env venue e)
  have valid: "fb_valid B" using books_message.prems by (auto simp: books_consume_def split: if_splits prod.splits option.splits)
  have "keeps B (books_apply env venue e B)"
    by (rule apply_keeps) (use books_message valid in auto)
  then show ?case
    using books_message.prems valid
    by (auto simp: books_consume_def keeps_def split: prod.splits option.splits)
qed

subsection \<open>The run-time check accepts them\<close>

definition shown_route :: "Books \<Rightarrow> OrderKey \<times> Tracked \<Rightarrow> bool" where
  "shown_route B p \<longleftrightarrow> selected B (bk_symbol (tr_book (snd p)))"

lemma routes_accepted:
  assumes ok: "books_ok B" and sub: "\<forall>(key, t) \<in> set os. map_of (fb_orders B) key = Some t"
  shows "validate_routes B os n = Some (Inr (n + length (filter (shown_route B) os)))"
  using sub
proof (induction os arbitrary: n)
  case (Cons p os)
  obtain v c oid t where p: "p = ((v, c, oid), t)" by (cases p) auto
  have tr: "map_of (fb_orders B) (v, c, oid) = Some t" using Cons.prems p by simp
  show ?case
  proof (cases "selected B (bk_symbol (tr_book t))")
    case True
    obtain b where b: "map_of (fb_books B) (tr_book t) = Some b" "wf_book b" "spec_find oid (book_orders b) = Some (listed oid t)"
        and nw: "narrow t"
      using tracked_book(3) [OF ok tr True] by blast
    have "book_order oid b = Some (Some (listed oid t))" using book_order_find(1) [OF wf_bookD [OF b(2)]] b(3) by simp
    then show ?thesis using Cons True b(1) nw by (simp add: p shown_route_def listed_def narrow_def narrow_view)
  qed (use Cons in \<open>simp add: p shown_route_def\<close>)
qed simp

lemma books_accepted:
  assumes "\<forall>(k, b) \<in> set bs. wf_book b \<and> order_count b \<le> 2 ^ 32"
  shows "validate_feed_books bs n = Inr (n + sum_list (map (\<lambda>(_, b). order_count b) bs))"
  using assms by (induction bs arbitrary: n) (auto simp: validate_accepts [OF wf_bookD])

text \<open>The orders of the books and the tracked orders of the selected symbols correspond one to one.\<close>

lemma found_count:
  assumes "wf_book b"
  shows "finite {i. spec_find i (book_orders b) \<noteq> None}" "card {i. spec_find i (book_orders b) \<noteq> None} = order_count b"
proof -
  have wf: "wf_core b" by (rule wf_bookD [OF assms])
  have eq: "{i. spec_find i (book_orders b) \<noteq> None} = fst ` set (orders_by_id b)"
    using spec_find_absent [OF wf] by (auto simp: map_of_eq_None_iff)
  then show "finite {i. spec_find i (book_orders b) \<noteq> None}" by simp
  show "card {i. spec_find i (book_orders b) \<noteq> None} = order_count b"
    unfolding eq using om_less.sorted_distinct [of "orders_by_id b"] wf
    by (simp add: wf_core_def order_count_def distinct_card flip: set_map)
qed

lemma routes_counted:
  assumes ok: "books_ok B"
  shows "length (filter (shown_route B) (fb_orders B)) = sum_list (map (\<lambda>(_, b). order_count b) (fb_books B))"
proof -
  let ?S = "set (filter (shown_route B) (fb_orders B))" and ?ids = "\<lambda>k. {i. spec_find i (shown B k) \<noteq> None}"
  let ?f = "\<lambda>(key :: OrderKey, t). (tr_book t, snd (snd key))"
  have dist: "distinct (map fst (fb_books B))" "distinct (map fst (fb_orders B))"
    using books_okD(1,2) [OF ok] by (auto intro: om_less.sorted_distinct)
  have entry: "\<exists>i. key = (bk_venue (tr_book t), bk_channel (tr_book t), i) \<and> map_of (fb_orders B) key = Some t \<and> selected B (bk_symbol (tr_book t))"
    if "(key, t) \<in> ?S" for key t
  proof -
    have m: "map_of (fb_orders B) key = Some t" using that dist(2) by simp
    obtain v c i where key: "key = (v, c, i)" by (cases key) auto
    have "v = bk_venue (tr_book t)" "c = bk_channel (tr_book t)"
      using books_okD(4) [OF ok m] by (simp_all add: route_ok_def key)
    moreover have "selected B (bk_symbol (tr_book t))" using that by (simp add: shown_route_def)
    ultimately show ?thesis using m key by blast
  qed
  have inj: "inj_on ?f ?S"
  proof (rule inj_onI)
    fix p q assume pq: "p \<in> ?S" "q \<in> ?S" "?f p = ?f q"
    obtain key t key' t' where e: "p = (key, t)" "q = (key', t')" by (cases p; cases q) auto
    obtain i where i: "key = (bk_venue (tr_book t), bk_channel (tr_book t), i)" "map_of (fb_orders B) key = Some t"
      using entry [OF pq(1) [unfolded e]] by (elim exE conjE)
    obtain i' where i': "key' = (bk_venue (tr_book t'), bk_channel (tr_book t'), i')" "map_of (fb_orders B) key' = Some t'"
      using entry [OF pq(2) [unfolded e]] by (elim exE conjE)
    have "tr_book t = tr_book t'" "i = i'" using pq(3) by (simp_all add: e i(1) i'(1))
    then have "key = key'" using i(1) i'(1) by simp
    then show "p = q" using i(2) i'(2) e by simp
  qed
  have img: "?f ` ?S = (SIGMA k : fst ` set (fb_books B). ?ids k)"
  proof (intro set_eqI iffI)
    fix x assume "x \<in> ?f ` ?S"
    then obtain key t where kt: "(key, t) \<in> ?S" "x = (tr_book t, snd (snd key))" by auto
    obtain i where key: "key = (bk_venue (tr_book t), bk_channel (tr_book t), i)" and tr: "map_of (fb_orders B) key = Some t"
        and sel: "selected B (bk_symbol (tr_book t))"
      using entry [OF kt(1)] by (elim exE conjE)
    obtain b where b: "map_of (fb_books B) (tr_book t) = Some b" "spec_find i (book_orders b) = Some (listed i t)"
      using tracked_book(3) [OF ok tr [unfolded key] sel] by blast
    have "tr_book t \<in> fst ` set (fb_books B)" using map_of_SomeD [OF b(1)] by force
    then show "x \<in> (SIGMA k : fst ` set (fb_books B). ?ids k)" using kt(2) key b by (simp add: shown_def)
  next
    fix x assume "x \<in> (SIGMA k : fst ` set (fb_books B). ?ids k)"
    then obtain k i b where x: "x = (k, i)" "(k, b) \<in> set (fb_books B)" "spec_find i (shown B k) \<noteq> None" by auto
    have sel: "selected B (bk_symbol k)" using x(2) dist(1) books_okD(3) [OF ok, of k b] by (simp add: book_ok_def)
    obtain t where t: "route B k i = Some t" "tr_book t = k"
      using x(3) agreeD [OF ok sel, of i] by (auto simp: routed_def split: option.splits if_splits)
    have "((bk_venue k, bk_channel k, i), t) \<in> ?S" using map_of_SomeD [OF t(1)] t(2) sel by (simp add: shown_route_def)
    then show "x \<in> ?f ` ?S" by (rule rev_image_eqI) (simp add: t x(1))
  qed
  have each: "finite (?ids k) \<and> card (?ids k) = order_count b" if "(k, b) \<in> set (fb_books B)" for k b
  proof -
    have "map_of (fb_books B) k = Some b" using that dist(1) by simp
    then show ?thesis using found_count [of b] books_okD(3) [OF ok, of k b] by (simp add: book_ok_def shown_def)
  qed
  have "length (filter (shown_route B) (fb_orders B)) = card ?S"
    using dist(2) by (intro distinct_card [symmetric] distinct_filter) (simp add: distinct_map)
  also have "\<dots> = card (SIGMA k : fst ` set (fb_books B). ?ids k)" using card_image [OF inj] img by simp
  also have "\<dots> = (\<Sum>k \<in> fst ` set (fb_books B). card (?ids k))" using each by (intro card_SigmaI) auto
  also have "\<dots> = sum_list (map (\<lambda>k. card (?ids k)) (map fst (fb_books B)))"
    using sum.distinct_set_conv_list [OF dist(1), of "\<lambda>k. card (?ids k)"] by simp
  also have "\<dots> = sum_list (map (\<lambda>(_, b). order_count b) (fb_books B))"
    using each by (intro arg_cong [of _ _ sum_list]) (simp add: case_prod_unfold)
  finally show ?thesis .
qed

text \<open>
  C36. Whatever messages a feed delivers, the rebuilt books that are still valid agree with the routing
  table: the consistency check accepts them. So every tracked order of a selected symbol rests in the book of
  its venue, channel and symbol with its price, quantity and side, the books hold no other order, and each
  book passes its own check. The next message, whatever it is, reads through no dangling iterator. The pool
  budget of a book is at most 4 GiB.
\<close>

theorem feed_books_consistent:
  assumes "books_reachable B" "fb_valid B" "fb_pool_bytes B \<le> 2 ^ 32" "feed_env_ok (fb_pool_bytes B) env"
  shows "books_validate B = Some (Inr ()) \<and> fst (books_consume env venue e B) \<noteq> Some Dangling"
proof (rule conjI)
  have ok: "books_ok B" by (rule reachable_books_ok [OF assms(1,2)])
  have "wf_book b \<and> order_count b \<le> 2 ^ 32" if "(k, b) \<in> set (fb_books B)" for k b
  proof -
    have "map_of (fb_books B) k = Some b" using that books_okD(1) [OF ok] by (simp add: om_less.sorted_distinct)
    then have "wf_book b" "book_capacity b \<le> fb_pool_bytes B" using books_okD(3) [OF ok] by (auto simp: book_ok_def)
    then show ?thesis using capacity_bound [of b] assms(3) by simp
  qed
  then have bs: "validate_feed_books (fb_books B) 0 = Inr (sum_list (map (\<lambda>(_, b). order_count b) (fb_books B)))"
    using books_accepted [of "fb_books B" 0] by auto
  have "\<forall>(key, t) \<in> set (fb_orders B). map_of (fb_orders B) key = Some t"
    using books_okD(2) [OF ok] by (auto simp: om_less.sorted_distinct)
  then show "books_validate B = Some (Inr ())"
    using routes_accepted [OF ok, of "fb_orders B" 0] bs routes_counted [OF ok] assms(2) by (simp add: books_validate_def)
  show "fst (books_consume env venue e B) \<noteq> Some Dangling"
    using apply_keeps [OF ok assms(4), of venue e] by (auto simp: books_consume_def keeps_def split: prod.splits option.splits)
qed

definition demo_feed_env :: feed_env where
  "demo_feed_env = \<lparr>fenv_heap = demo_heap, fenv_node = True, fenv_block = Some 4096, fenv_route = True\<rparr>"

definition demo_feed :: Books where
  "demo_feed = snd (books_consume demo_feed_env ''X''
     (feed_event\<lparr>fe_type := Ev_Add, fe_symbol := ''A'', fe_order_id := 1, fe_side := Bid, fe_price := 100, fe_quantity := 5\<rparr>)
     \<lparr>fb_filter = [], fb_pool_bytes = 160, fb_valid = True, fb_updates = 0, fb_books = [], fb_orders = []\<rparr>)"

lemma demo_feed_env_ok: "feed_env_ok 160 demo_feed_env"
  by (simp add: feed_env_ok_def demo_feed_env_def)

lemma demo_feed_reachable: "books_reachable demo_feed"
  unfolding demo_feed_def
  by (intro books_message books_start [of "[]" 160]) (simp_all add: Books_new_def demo_feed_env_ok)

lemma demo_feed_value:
  "fb_valid demo_feed" "fb_pool_bytes demo_feed = 160"
  "fb_orders demo_feed = [((''X'', 0, 1), \<lparr>tr_book = BookKey ''X'' 0 ''A'', tr_side = Bid, tr_price = 100, tr_quantity = 5\<rparr>)]"
proof -
  have "[0..<5] = [0, 1, 2, 3, 4]" "replicate 5 False = [False, False, False, False, False]"
    by (simp_all add: upt_conv_Cons eval_nat_numeral)
  then show "fb_valid demo_feed" "fb_pool_bytes demo_feed = 160"
    "fb_orders demo_feed = [((''X'', 0, 1), \<lparr>tr_book = BookKey ''X'' 0 ''A'', tr_side = Bid, tr_price = 100, tr_quantity = 5\<rparr>)]"
    by (simp_all add: demo_feed_def demo_feed_env_def books_consume_def books_apply_def books_on_add_def books_insert_def
        feed_event_def selected_def feed_add_def applied_def books_track_def book_eval)
qed

theorem feed_books_consistent_witness:
  "fb_orders demo_feed \<noteq> [] \<and> books_validate demo_feed = Some (Inr ()) \<and>
   fst (books_consume demo_feed_env ''X'' (feed_event\<lparr>fe_type := Ev_Delete, fe_order_id := 1\<rparr>) demo_feed) \<noteq> Some Dangling"
  using feed_books_consistent [OF demo_feed_reachable, of demo_feed_env "''X''" "feed_event\<lparr>fe_type := Ev_Delete, fe_order_id := 1\<rparr>"]
  by (simp add: demo_feed_value demo_feed_env_ok)

end
