(* ===== verification/Feed_Input.thy ===== *)
theory Feed_Input
  imports Feed_Decode
begin

unbundle bit_operations_syntax

text \<open>
  src/feed/input.cpp: the records of a feed archive, read through zlib. \<open>gzread\<close> with \<open>gzerror\<close> is a parameter: a
  function from the state of the file and the number of bytes wanted to the bytes delivered, or the error
  reported, and the next state. \<open>gz_ok\<close> states what zlib documents of it.
\<close>

section \<open>Reading\<close>

datatype Format = Itch50 | Pitch

datatype gz_result = Gz_Error string | Gz_Bytes "u8 list"

type_synonym 's gzread = "'s \<Rightarrow> nat \<Rightarrow> gz_result \<times> 's"

text \<open>
  The loop of \<open>read\<close>, with the bytes read so far; \<open>Inr None\<close> is the end of the file at a record boundary. A
  positive count makes progress, so the loop ends for every behaviour of \<open>gzread\<close>.
\<close>

function input_read :: "'s gzread \<Rightarrow> nat \<Rightarrow> bool \<Rightarrow> u8 list \<Rightarrow> 's \<Rightarrow> (u8 list option) feed \<times> 's" where
  "input_read gz n boundary used s =
     (if \<not> length used < n then (Inr (Some used), s)
      else case gz s (n - length used) of
          (Gz_Error e, s') \<Rightarrow> (Inl (Feed_Error (''Feed decompression/read error: '' @ e)), s')
        | (Gz_Bytes bs, s') \<Rightarrow>
            if bs = [] then
              (if boundary \<and> used = [] then (Inr None, s') else (Inl (Feed_Error ''Truncated feed record''), s'))
            else input_read gz n boundary (used @ bs) s')"
  by pat_completeness auto

termination
proof (relation "measure (\<lambda>(gz, n, boundary, used, s). n - length used)")
  show "((gz, n, boundary, used @ bs, s'), gz, n, boundary, used, s) \<in> measure (\<lambda>(gz, n, boundary, used, s). n - length used)"
    if "\<not> \<not> length used < n" "bs \<noteq> []" for gz n boundary used bs s and s' :: 's
    using that by (auto simp: length_greater_0_conv [symmetric] simp del: length_greater_0_conv)
qed simp

declare input_read.simps [simp del]

definition input_next :: "Format \<Rightarrow> 's gzread \<Rightarrow> 's \<Rightarrow> (u8 list option) feed \<times> 's" where
  "input_next format gz s =
     (case input_read gz 2 True [] s of
        (Inl e, s1) \<Rightarrow> (Inl e, s1)
      | (Inr None, s1) \<Rightarrow> (Inr None, s1)
      | (Inr (Some prefix), s1) \<Rightarrow>
          (case feed_integer prefix 0 2 (format = Pitch) of
             Inl e \<Rightarrow> (Inl e, s1)
           | Inr len \<Rightarrow>
               if unat len < (if format = Pitch then 8 else 1) then (Inl (Feed_Error ''Invalid archive record length''), s1)
               else
                 let head = (if format = Pitch then prefix else []) in
                 (case input_read gz (unat len) False head s1 of
                    (Inl e, s2) \<Rightarrow> (Inl e, s2)
                  | (Inr None, s2) \<Rightarrow> (Inr (Some head), s2)
                  | (Inr (Some record), s2) \<Rightarrow> (Inr (Some record), s2))))"

text \<open>A caller takes records until the end, at most \<open>k\<close> of them.\<close>

fun input_take :: "nat \<Rightarrow> Format \<Rightarrow> 's gzread \<Rightarrow> 's \<Rightarrow> (u8 list list \<times> bool) feed" where
  "input_take 0 format gz s = Inr ([], False)"
| "input_take (Suc k) format gz s =
     (case input_next format gz s of
        (Inl e, s') \<Rightarrow> Inl e
      | (Inr None, s') \<Rightarrow> Inr ([], True)
      | (Inr (Some record), s') \<Rightarrow>
          (case input_take k format gz s' of Inl e \<Rightarrow> Inl e | Inr (records, ended) \<Rightarrow> Inr (record # records, ended)))"

section \<open>Archives\<close>

text \<open>
  Documented behaviour of \<open>gzread\<close> on an intact file with \<open>content\<close> left: it delivers the next bytes, at most as
  many as wanted, in portions of its own choosing, and none only at the end.
\<close>

definition gz_ok :: "'s gzread \<Rightarrow> ('s \<Rightarrow> u8 list) \<Rightarrow> bool" where
  "gz_ok gz content \<longleftrightarrow> (\<forall>s n. 0 < n \<longrightarrow> (\<exists>bs s'. gz s n = (Gz_Bytes bs, s') \<and> length bs \<le> n \<and>
     content s = bs @ content s' \<and> (bs = [] \<longrightarrow> content s = [])))"

lemma gz_okE:
  assumes "gz_ok gz content" "0 < n"
  obtains bs s' where "gz s n = (Gz_Bytes bs, s')" "length bs \<le> n" "content s = bs @ content s'" "bs = [] \<Longrightarrow> content s = []"
  using assms unfolding gz_ok_def by blast

lemma read_all:
  assumes ok: "gz_ok gz content" and n: "length used \<le> n" "n - length used \<le> length (content s)"
  shows "\<exists>s'. input_read gz n b used s = (Inr (Some (used @ take (n - length used) (content s))), s') \<and>
    content s' = drop (n - length used) (content s)"
  using n
proof (induction "n - length used" arbitrary: used s rule: less_induct)
  case less
  show ?case
  proof (cases "length used < n")
    case False
    then show ?thesis using less.prems by (subst input_read.simps) simp
  next
    case True
    obtain bs s1 where gz: "gz s (n - length used) = (Gz_Bytes bs, s1)" "length bs \<le> n - length used"
        "content s = bs @ content s1" "bs = [] \<Longrightarrow> content s = []"
      using gz_okE [OF ok, of "n - length used" s] True by auto
    have bs: "bs \<noteq> []" using gz(4) less.prems(2) True by auto
    have run: "input_read gz n b used s = input_read gz n b (used @ bs) s1"
      using True gz(1) bs by (subst input_read.simps) simp
    have "0 < length bs" using bs by simp
    then have m: "n - length (used @ bs) < n - length used" "length (used @ bs) \<le> n" "n - length (used @ bs) \<le> length (content s1)"
      using True gz(2,3) less.prems by (simp_all add: diff_less_mono2)
    have split: "n - length used = length bs + (n - length (used @ bs))" using gz(2) by simp
    show ?thesis
      using less.hyps [OF m(1) m(2,3)] unfolding run gz(3) split by (simp add: append_assoc)
  qed
qed

lemma read_end:
  assumes ok: "gz_ok gz content" and "content s = []" "0 < n"
  shows "\<exists>s'. input_read gz n True [] s = (Inr None, s')"
proof -
  obtain bs s1 where "gz s n = (Gz_Bytes bs, s1)" "content s = bs @ content s1"
    using gz_okE [OF ok assms(3), of s] by blast
  then show ?thesis using assms(2,3) by (subst input_read.simps) simp
qed

text \<open>The record format: the length prefix of an ITCH record is not part of it, the one of a PITCH packet is.\<close>

definition record_ok :: "Format \<Rightarrow> u8 list \<Rightarrow> bool" where
  "record_ok format r \<longleftrightarrow> length r < 2 ^ 16 \<and>
     (if format = Pitch then 8 \<le> length r \<and> r ! 0 = of_nat (length r mod 256) \<and> r ! 1 = of_nat (length r div 256) else r \<noteq> [])"

definition archived :: "Format \<Rightarrow> u8 list \<Rightarrow> u8 list" where
  "archived format r =
     (if format = Pitch then r else of_nat (length r div 256) # of_nat (length r mod 256) # r)"

lemma two_bytes:
  assumes "n < 2 ^ 16"
  shows "feed_integer [of_nat (n div 256), of_nat (n mod 256)] 0 2 False = Inr (of_nat n)"
    "feed_integer [of_nat (n mod 256), of_nat (n div 256)] 0 2 True = Inr (of_nat n)"
proof -
  have join: "push_bit 8 (ucast (of_nat a :: u8)) OR ucast (of_nat b :: u8) = (of_nat (256 * a + b) :: u64)" if "a < 256" "b < 256" for a b
  proof -
    have byte: "ucast (of_nat k :: u8) = (of_nat k :: u64)" if "k < 256" for k
      using that by (simp add: word_unat_eq_iff unsigned_ucast_eq unat_of_nat take_bit_nat_eq_self)
    have dis: "push_bit 8 (ucast (of_nat a :: u8)) AND ucast (of_nat b :: u8) = (0 :: u64)"
      by (rule bit_word_eqI) (auto simp: bit_simps)
    have "push_bit 8 (ucast (of_nat a :: u8)) = (of_nat (256 * a) :: u64)"
      using that by (simp add: push_bit_eq_mult byte)
    then show ?thesis using disjunctive_add_eq_or [OF dis] that by (simp add: byte)
  qed
  have "n div 256 < 256" "n mod 256 < 256" "256 * (n div 256) + n mod 256 = n" using assms by auto
  then show "feed_integer [of_nat (n div 256), of_nat (n mod 256)] 0 2 False = Inr (of_nat n)"
    "feed_integer [of_nat (n mod 256), of_nat (n div 256)] 0 2 True = Inr (of_nat n)"
    using join [of "n div 256" "n mod 256"] by (simp_all add: feed_integer_def upt_conv_Cons numeral_2_eq_2)
qed

lemma next_record:
  assumes ok: "gz_ok gz content" and r: "record_ok format r" and c: "content s = archived format r @ rest"
  shows "\<exists>s'. input_next format gz s = (Inr (Some r), s') \<and> content s' = rest"
proof -
  let ?n = "length r"
  have len: "?n < 2 ^ 16" "unat (of_nat ?n :: u64) = ?n" using r by (simp_all add: record_ok_def unat_of_nat)
  show ?thesis
  proof (cases "format = Pitch")
    case True
    obtain x y zs where xs: "r = x # y # zs" "6 \<le> length zs" using r True by (cases r; cases "tl r") (auto simp: record_ok_def)
    have xy: "x = of_nat (?n mod 256)" "y = of_nat (?n div 256)" using r True xs by (simp_all add: record_ok_def)
    obtain s1 where one: "input_read gz 2 True [] s = (Inr (Some [x, y]), s1)" "content s1 = zs @ rest"
      using read_all [OF ok, of "[]" 2 s True] c True xs by (auto simp: archived_def numeral_2_eq_2)
    obtain s2 where two: "input_read gz ?n False [x, y] s1 = (Inr (Some r), s2)" "content s2 = rest"
      using read_all [OF ok, of "[x, y]" ?n s1 False] one(2) xs by auto
    have num: "feed_integer [x, y] 0 2 True = Inr (of_nat ?n)" using two_bytes(2) [OF len(1)] xy by simp
    show ?thesis
      using one two num len(2) True xs by (simp add: input_next_def)
  next
    case False
    let ?p = "[of_nat (?n div 256), of_nat (?n mod 256)] :: u8 list"
    obtain s1 where one: "input_read gz 2 True [] s = (Inr (Some ?p), s1)" "content s1 = r @ rest"
      using read_all [OF ok, of "[]" 2 s True] c False by (auto simp: archived_def numeral_2_eq_2)
    obtain s2 where two: "input_read gz ?n False [] s1 = (Inr (Some r), s2)" "content s2 = rest"
      using read_all [OF ok, of "[]" ?n s1 False] one(2) by auto
    have "r \<noteq> []" using r False by (simp add: record_ok_def)
    then show ?thesis
      using one two two_bytes(1) [OF len(1)] len(2) False by (cases r) (simp_all add: input_next_def)
  qed
qed

text \<open>
  C37. However zlib portions the data, the records of an intact archive of either format are delivered one by one,
  exactly as archived, followed by the end of the input and nothing else.
\<close>

theorem archive_roundtrip:
  assumes "gz_ok gz content" "list_all (record_ok format) records" "content s = concat (map (archived format) records)"
  shows "input_take (Suc (length records)) format gz s = Inr (records, True)"
  using assms(2,3)
proof (induction records arbitrary: s)
  case Nil
  then show ?case using read_end [OF assms(1), of s 2] by (auto simp: input_next_def)
next
  case (Cons r records)
  obtain s' where "input_next format gz s = (Inr (Some r), s')" "content s' = concat (map (archived format) records)"
    using next_record [OF assms(1), of format r s] Cons.prems by auto
  then show ?case using Cons.IH [of s'] Cons.prems by simp
qed

text \<open>A source that delivers one byte at a time.\<close>

definition byte_source :: "u8 list gzread" where
  "byte_source s n = (Gz_Bytes (take (min n 1) s), drop (min n 1) s)"

lemma byte_source_ok: "gz_ok byte_source (\<lambda>s. s)"
  by (auto simp: gz_ok_def byte_source_def min_def)

lemma archive_roundtrip_witness:
  "input_take 3 Itch50 byte_source [0, 2, 7, 8, 0, 1, 9] = Inr ([[7, 8], [9]], True)"
  using archive_roundtrip [OF byte_source_ok, of Itch50 "[[7, 8], [9]]" "[0, 2, 7, 8, 0, 1, 9]"]
  by (simp add: record_ok_def archived_def numeral_3_eq_3)

end
