(* ===== verification/Strategy.thy ===== *)
theory Strategy
  imports Replica "HOL-Library.Signed_Division"
begin

text \<open>
  include/order_book/trading/strategy.hpp and src/trading/strategy.cpp: what a trading client keeps of its own
  orders and positions, its risk check before a command is sent, and the quotes of the two sample strategies.

  The quotes are computed in signed 64-bit integers; an operation whose result does not fit is undefined
  behaviour and gives \<open>None\<close>. Division truncates (\<open>sdiv\<close>). The \<open>long double\<close> values are rationals, as in
  the engine; the sums of the risk check are integers.
\<close>

section \<open>The order manager\<close>

record OrderManager =
  om_last_report :: Sequence
  om_orders :: "(OrderId \<times> Message) list"
  om_positions :: "(InstrumentId \<times> Position) list"

definition manager_new :: OrderManager where
  "manager_new = \<lparr>om_last_report = 0, om_orders = [], om_positions = []\<rparr>"

text \<open>An order whose quantity is reported; one with nothing left is forgotten.\<close>

definition set_remaining :: "Message \<Rightarrow> OrderManager \<Rightarrow> OrderManager" where
  "set_remaining m M = M\<lparr>om_orders :=
     (if m_remaining m = 0 then om_erase (m_order_id m) (om_orders M)
      else om_update (m_order_id m) (\<lambda>o'. o'\<lparr>m_quantity := m_remaining m\<rparr>) (om_orders M))\<rparr>"

definition manager_position :: "InstrumentId \<Rightarrow> OrderManager \<Rightarrow> Position" where
  "manager_position i M = (case map_of (om_positions M) i of None \<Rightarrow> flat_position | Some p \<Rightarrow> p)"

definition manager_consume :: "Message \<Rightarrow> OrderManager \<Rightarrow> bool \<times> OrderManager" where
  "manager_consume m M0 =
     (if m_kind m \<noteq> Report \<or> m_report m = Rpt_Status \<or> m_sequence m \<le> om_last_report M0 then (False, M0)
      else
        let M = M0\<lparr>om_last_report := m_sequence m\<rparr> in
        (True,
         if m_report m = Rpt_Accepted \<or> m_report m = Rpt_Replaced
         then M\<lparr>om_orders := om_put (<) (m_order_id m) (m\<lparr>m_quantity := m_remaining m\<rparr>) (om_orders M)\<rparr>
         else if m_report m = Rpt_Fill
         then set_remaining m (M\<lparr>om_positions := om_put (<) (m_instrument_id m)
                (position_fill (m_side m) (m_price m) (m_quantity m) (manager_position (m_instrument_id m) M)) (om_positions M)\<rparr>)
         else if m_report m = Rpt_Cancelled then M\<lparr>om_orders := om_erase (m_order_id m) (om_orders M)\<rparr>
         else if m_report m = Rpt_Complete \<and> m_reject m = Rej_None \<and> m_order_id m \<noteq> 0 then set_remaining m M
         else M))"

text \<open>The open orders and the quantity reserved on the command's side, without the order a replace gives up.\<close>

definition manager_scan :: "Message \<Rightarrow> (OrderId \<times> Message) list \<Rightarrow> int \<times> nat" where
  "manager_scan c orders =
     foldl (\<lambda>(reserved, open) (oid, order).
         if m_action c = Act_Replace \<and> oid = m_order_id c then (reserved, open)
         else (if m_instrument_id order = m_instrument_id c \<and> m_side order = m_side c
               then reserved + int (unat (m_quantity order)) else reserved, Suc open))
       (0, 0) orders"

definition manager_mark :: "Message \<Rightarrow> MarketReplica \<Rightarrow> Position \<Rightarrow> rat" where
  "manager_mark c market p =
     (let own = (if m_price c \<noteq> 0 then of_nat (unat (m_price c)) else pos_average_price p) in
      case replica_book (m_instrument_id c) market of
        None \<Rightarrow> own
      | Some b \<Rightarrow>
          (case (best_bid b, best_ask b) of
             (Some bid, Some ask) \<Rightarrow> (of_nat (unat bid) + of_nat (unat ask)) / 2
           | _ \<Rightarrow> own))"

definition manager_check :: "Message \<Rightarrow> InstrumentRules \<Rightarrow> MarketReplica \<Rightarrow> rat \<Rightarrow> OrderManager \<Rightarrow> Reject" where
  "manager_check c rules market max_loss M =
     (if m_action c = Act_Cancel \<or> m_action c = Act_CancelAll then Rej_None
      else if \<not> r_synchronized market then Rej_KillSwitch
      else if m_quantity c = 0 \<or> max_order_quantity rules < m_quantity c then Rej_RiskQuantity
      else
        let p = manager_position (m_instrument_id c) M in
        if position_pnl (manager_mark c market p) p < - max_loss then Rej_KillSwitch
        else if max_notional rules < ucast (if m_order_type c = Market then max_price rules else m_price c) * ucast (m_quantity c)
        then Rej_RiskNotional
        else
          let (reserved, open) = manager_scan c (om_orders M) in
          if max_open_orders rules \<le> open then Rej_RiskOpenOrders
          else if max_position rules <
            \<bar>pos_quantity p + (if m_side c = Bid then 1 else - 1) * (reserved + int (unat (m_quantity c)))\<bar>
          then Rej_RiskPosition
          else Rej_None)"

section \<open>Quotes\<close>

record Quote =
  q_side :: Side
  q_price :: Price
  q_quantity :: Quantity

record StrategyConfig =
  sc_instrument :: InstrumentId
  sc_clip :: Quantity
  sc_fair_price :: Price
  sc_edge :: Price
  sc_tick :: Price
  sc_inventory_limit :: int
  sc_use_microprice :: bool
  sc_use_trade_ratio :: bool
  sc_trade_ratio :: rat

definition default_strategy :: StrategyConfig where
  "default_strategy = \<lparr>sc_instrument = 1, sc_clip = 5, sc_fair_price = 100, sc_edge = 2, sc_tick = 1,
     sc_inventory_limit = 50, sc_use_microprice = False, sc_use_trade_ratio = False, sc_trade_ratio = 1 / 2\<rparr>"

text \<open>The value of a signed 64-bit operation.\<close>

definition i64 :: "int \<Rightarrow> int option" where
  "i64 x = (if - (2 ^ 63) \<le> x \<and> x < 2 ^ 63 then Some x else None)"

abbreviation wide :: "u32 \<Rightarrow> int" where
  "wide x \<equiv> uint x"

definition round_to :: "int \<Rightarrow> int \<Rightarrow> int option" where
  "round_to x tick = do { q \<leftarrow> i64 (x sdiv tick); i64 (q * tick) }"

definition maker_quotes :: "StrategyConfig \<Rightarrow> int \<Rightarrow> Quote list option" where
  "maker_quotes c inventory =
     (if sc_tick c = 0 \<or> sc_edge c = 0 \<or> sc_clip c = 0 \<or> sc_inventory_limit c \<le> 0 then Some []
      else do {
        clips \<leftarrow> i64 (inventory sdiv wide (sc_clip c));
        skew \<leftarrow> i64 (clips * wide (sc_tick c));
        fair \<leftarrow> i64 (wide (sc_fair_price c) - skew);
        low \<leftarrow> i64 (fair - wide (sc_edge c));
        bid \<leftarrow> round_to low (wide (sc_tick c));
        high0 \<leftarrow> i64 (fair + wide (sc_edge c));
        high1 \<leftarrow> i64 (high0 + wide (sc_tick c));
        high \<leftarrow> i64 (high1 - 1);
        ask \<leftarrow> round_to high (wide (sc_tick c));
        buys \<leftarrow> (if 0 < bid \<and> bid < ask \<and> bid \<le> 0xffffffff
                then do { after \<leftarrow> i64 (inventory + wide (sc_clip c));
                          Some (if after \<le> sc_inventory_limit c
                                then [\<lparr>q_side = Bid, q_price = of_int bid, q_quantity = sc_clip c\<rparr>] else []) }
                else Some []);
        sells \<leftarrow> (if bid < ask \<and> 0 < ask \<and> ask \<le> 0xffffffff
                then do { after \<leftarrow> i64 (inventory - wide (sc_clip c));
                          Some (if - sc_inventory_limit c \<le> after
                                then [\<lparr>q_side = Ask, q_price = of_int ask, q_quantity = sc_clip c\<rparr>] else []) }
                else Some []);
        Some (buys @ sells)
      })"

definition taker_quote :: "StrategyConfig \<Rightarrow> OrderBook option \<Rightarrow> int \<Rightarrow> Quote option option" where
  "taker_quote c book inventory =
     (case book of
        None \<Rightarrow> Some None
      | Some b \<Rightarrow>
          if sc_clip c = 0 \<or> sc_inventory_limit c \<le> 0 then Some None
          else do {
            buy \<leftarrow> (case best_ask b of
                None \<Rightarrow> Some False
              | Some ask \<Rightarrow>
                  if ucast ask + ucast (sc_edge c) \<le> (ucast (sc_fair_price c) :: u64)
                  then do { after \<leftarrow> i64 (inventory + wide (sc_clip c)); Some (after \<le> sc_inventory_limit c) }
                  else Some False);
            if buy then Some (map_option (\<lambda>ask. \<lparr>q_side = Bid, q_price = ask, q_quantity = sc_clip c\<rparr>) (best_ask b))
            else do {
              sell \<leftarrow> (case best_bid b of
                  None \<Rightarrow> Some False
                | Some bid \<Rightarrow>
                    if ucast (sc_fair_price c) + ucast (sc_edge c) \<le> (ucast bid :: u64)
                    then do { after \<leftarrow> i64 (inventory - wide (sc_clip c)); Some (- sc_inventory_limit c \<le> after) }
                    else Some False);
              Some (if sell then map_option (\<lambda>bid. \<lparr>q_side = Ask, q_price = bid, q_quantity = sc_clip c\<rparr>) (best_bid b)
                    else None)
            }
          })"

section \<open>The maker's quotes\<close>

lemma i64_in [simp]: "- (2 ^ 63) \<le> x \<Longrightarrow> x < 2 ^ 63 \<Longrightarrow> i64 x = Some x"
  by (simp add: i64_def)

lemma sdiv_abs: "0 < t \<Longrightarrow> \<bar>x sdiv t\<bar> * t \<le> \<bar>x\<bar>" for x t :: int
  by (auto simp: signed_divide_int_def abs_mult abs_sgn_eq pos_imp_zdiv_nonneg_iff div_times_less_eq_dividend
      simp flip: minus_mod_eq_div_mult)

lemma sdiv_abs_le: "0 < t \<Longrightarrow> \<bar>x sdiv t\<bar> \<le> \<bar>x\<bar>" for x t :: int
  using sdiv_abs [of t x] mult_right_mono [of 1 t "\<bar>x sdiv t\<bar>"] by (simp add: mult.commute)

lemma sdiv_nonneg: "0 < t \<Longrightarrow> 0 \<le> x \<Longrightarrow> x sdiv t = x div t" for x t :: int
  by (cases "x = 0") (auto simp: signed_divide_int_def)

lemma sdiv_nonpos: "0 < t \<Longrightarrow> x \<le> 0 \<Longrightarrow> x sdiv t * t \<le> 0" for x t :: int
  by (auto simp: signed_divide_int_def sgn_if mult_nonneg_nonneg pos_imp_zdiv_nonneg_iff)

lemma round_to_value:
  assumes "0 < t" "\<bar>x\<bar> < 2 ^ 63"
  shows "round_to x t = Some (x sdiv t * t)"
proof -
  have "\<bar>x sdiv t\<bar> \<le> \<bar>x\<bar>" "\<bar>x sdiv t * t\<bar> \<le> \<bar>x\<bar>"
    using sdiv_abs_le [OF assms(1), of x] sdiv_abs [OF assms(1), of x] assms(1) by (simp_all add: abs_mult)
  then show ?thesis using assms(2) by (simp add: round_to_def)
qed

text \<open>Rounding down to a tick, when the result is positive; a positive number plus a tick less one is rounded up.\<close>

lemma round_bounds:
  assumes "0 < t" "0 < x sdiv t * (t :: int)"
  shows "x sdiv t * t \<le> x" "x < x sdiv t * t + t"
proof -
  have "0 \<le> x" using sdiv_nonpos [OF assms(1), of x] assms(2) by linarith
  then have "x sdiv t * t = x - x mod t" using sdiv_nonneg [OF assms(1)] by (simp add: minus_mod_eq_div_mult)
  then show "x sdiv t * t \<le> x" "x < x sdiv t * t + t" using assms(1) pos_mod_bound [of t x] pos_mod_sign [of t x] by linarith+
qed

definition skewed_fair :: "StrategyConfig \<Rightarrow> int \<Rightarrow> int" where
  "skewed_fair c inventory = wide (sc_fair_price c) - (inventory sdiv wide (sc_clip c)) * wide (sc_tick c)"

text \<open>What a quote promises: on a tick, at least the edge away from the skewed fair price but less than a tick more,
  and within the inventory limit once it is filled.\<close>

definition good_quote :: "StrategyConfig \<Rightarrow> int \<Rightarrow> Quote \<Rightarrow> bool" where
  "good_quote c inventory q \<longleftrightarrow>
     q_quantity q = sc_clip c \<and> wide (sc_tick c) dvd wide (q_price q) \<and>
     (if q_side q = Bid
      then wide (q_price q) + wide (sc_edge c) \<le> skewed_fair c inventory \<and>
           skewed_fair c inventory < wide (q_price q) + wide (sc_edge c) + wide (sc_tick c) \<and>
           inventory + wide (sc_clip c) \<le> sc_inventory_limit c
      else q_side q = Ask \<and> skewed_fair c inventory + wide (sc_edge c) \<le> wide (q_price q) \<and>
           wide (q_price q) < skewed_fair c inventory + wide (sc_edge c) + wide (sc_tick c) \<and>
           - sc_inventory_limit c \<le> inventory - wide (sc_clip c))"

lemma wide_of_int: "0 \<le> x \<Longrightarrow> x \<le> 0xffffffff \<Longrightarrow> wide (of_int x) = x"
  by (simp add: unsigned_of_int take_bit_int_eq_self)

lemma wide_bounds: "0 \<le> wide x" "wide x < 2 ^ 32" "x \<noteq> 0 \<Longrightarrow> 0 < wide x"
  using unsigned_less [of x, where 'a = int] by (simp_all add: word_neq_0_conv [unfolded word_less_def] del: word_neq_0_conv)



end
