(* ===== verification/Features.thy ===== *)
theory Features
  imports Replica
begin

text \<open>
  include/order_book/trading/features.hpp and src/trading/features.cpp: the signals a strategy reads, computed
  from the book around each published update. The \<open>long double\<close> values are rationals.
\<close>

section \<open>State and operations\<close>

record Features =
  ft_microprice :: "rat option"
  ft_aggressive_ratio :: "rat option"
  ft_trade_id :: u64
  ft_aggressor :: Side

definition no_features :: Features where
  "no_features = \<lparr>ft_microprice = None, ft_aggressive_ratio = None, ft_trade_id = 0, ft_aggressor = Bid\<rparr>"

record Pending =
  pd_trade :: u64
  pd_quantity :: u64

record FeatureEngine =
  fe_values :: "(InstrumentId \<times> Features) list"
  fe_pending :: "(InstrumentId \<times> Pending) list"

definition features_new :: FeatureEngine where
  "features_new = \<lparr>fe_values = [], fe_pending = []\<rparr>"

definition features_get :: "InstrumentId \<Rightarrow> FeatureEngine \<Rightarrow> Features" where
  "features_get i F = (case map_of (fe_values F) i of None \<Rightarrow> no_features | Some f \<Rightarrow> f)"

definition put_features :: "InstrumentId \<Rightarrow> Features \<Rightarrow> FeatureEngine \<Rightarrow> FeatureEngine" where
  "put_features i f F = F\<lparr>fe_values := om_put (<) i f (fe_values F)\<rparr>"

abbreviation as_rat :: "'a::len word \<Rightarrow> rat" where
  "as_rat x \<equiv> of_nat (unat x)"

definition features_refresh :: "InstrumentId \<Rightarrow> OrderBook option \<Rightarrow> FeatureEngine \<Rightarrow> FeatureEngine" where
  "features_refresh i book F =
     put_features i ((features_get i F)\<lparr>ft_microprice :=
       (case book of
          None \<Rightarrow> None
        | Some b \<Rightarrow>
            (case (best_bid b, best_ask b) of
               (Some bid, Some ask) \<Rightarrow>
                 let bid_quantity = best_quantity Bid b; ask_quantity = best_quantity Ask b in
                 Some ((as_rat bid * as_rat ask_quantity + as_rat ask * as_rat bid_quantity) /
                       (as_rat bid_quantity + as_rat ask_quantity))
             | _ \<Rightarrow> None))\<rparr>) F"

definition features_before :: "Message \<Rightarrow> OrderBook option \<Rightarrow> FeatureEngine \<Rightarrow> FeatureEngine" where
  "features_before m book F =
     (if m_kind m = Delta \<and> m_update m = Upd_Execute
      then F\<lparr>fe_pending := om_put (<) (m_instrument_id m)
               \<lparr>pd_trade = m_trade_id m, pd_quantity = (case book of None \<Rightarrow> 0 | Some b \<Rightarrow> best_quantity (m_side m) b)\<rparr>
               (fe_pending F)\<rparr>
      else F)"

definition features_after :: "Message \<Rightarrow> OrderBook option \<Rightarrow> FeatureEngine \<Rightarrow> FeatureEngine" where
  "features_after m book F0 =
     (let i = m_instrument_id m; F = features_refresh i book F0 in
      if m_kind m \<noteq> Delta \<or> m_update m \<noteq> Upd_Trade then F
      else
        let f = (features_get i F)\<lparr>ft_trade_id := m_trade_id m, ft_aggressor := m_side m, ft_aggressive_ratio := None\<rparr> in
        case map_of (fe_pending F) i of
          None \<Rightarrow> put_features i f F
        | Some p \<Rightarrow>
            if pd_trade p = m_trade_id m
            then (put_features i (if pd_quantity p \<noteq> 0
                    then f\<lparr>ft_aggressive_ratio := Some (as_rat (m_quantity m) / as_rat (pd_quantity p))\<rparr> else f) F)
                 \<lparr>fe_pending := om_erase i (fe_pending F)\<rparr>
            else put_features i f F)"

definition features_reset :: "FeatureEngine \<Rightarrow> FeatureEngine" where
  "features_reset F = \<lparr>fe_values = [], fe_pending = []\<rparr>"

section \<open>The microprice\<close>

lemma best_level_quantity:
  assumes wf: "wf_core b" and few: "order_count b \<le> 2 ^ 32" and s: "s \<noteq> Side_Other" and some: "head (book_orders b s) = Some v"
  shows "0 < unat (best_quantity s b)"
proof -
  have mem: "v \<in> set (book_orders b s)" and tk: "v \<in> set (takeWhile (\<lambda>w. view_price w = view_price v) (book_orders b s))"
    using some by (cases "book_orders b s"; simp add: head_def)+
  have "view_quantity v \<noteq> 0" using book_orders_ok [OF wf] mem s by (cases s) (auto simp: abs_ok_def)
  then have "0 < unat (view_quantity v)" by (simp add: unat_gt_0)
  also have "\<dots> \<le> (\<Sum>w \<leftarrow> takeWhile (\<lambda>w. view_price w = view_price v) (book_orders b s). unat (view_quantity w))"
    using tk by (intro member_le_sum_list) auto
  finally show ?thesis using best_quantity_depth [OF wf few s] some by simp
qed

lemma weighted_between:
  fixes x y p q :: rat
  assumes "x < y" "0 < p" "0 < q"
  shows "x < (x * q + y * p) / (p + q)" "(x * q + y * p) / (p + q) < y"
  using assms by (simp_all add: field_simps)

text \<open>
  For a reachable book of at most \<open>2 ^ 32\<close> orders with both sides present and not crossed, the microprice is
  defined, without a division by zero, and lies strictly between the best bid and the best ask; a refresh touches
  no other instrument.
\<close>

theorem microprice_inside_spread:
  assumes "book_reachable b" "order_count b \<le> 2 ^ 32" "best_bid b = Some bid" "best_ask b = Some ask" "bid < ask"
  shows "\<exists>p. ft_microprice (features_get i (features_refresh i (Some b) F)) = Some p \<and> as_rat bid < p \<and> p < as_rat ask \<and>
    0 < unat (best_quantity Bid b) + unat (best_quantity Ask b) \<and>
    (\<forall>j. j \<noteq> i \<longrightarrow> features_get j (features_refresh i (Some b) F) = features_get j F)"
proof -
  note wf = reachable_core [OF assms(1)]
  obtain v w where "head (book_orders b Bid) = Some v" "head (book_orders b Ask) = Some w"
    using best_prices [OF wf] assms(3,4) by (cases "head (book_orders b Bid)"; cases "head (book_orders b Ask)") auto
  then have q: "0 < unat (best_quantity Bid b)" "0 < unat (best_quantity Ask b)"
    by (auto intro: best_level_quantity [OF wf assms(2)])
  have "as_rat bid < as_rat ask" using assms(5) by (simp only: of_nat_less_iff word_less_nat_alt)
  note w = weighted_between [OF this, of "as_rat (best_quantity Bid b)" "as_rat (best_quantity Ask b)"]
  show ?thesis
    using w [unfolded of_nat_0_less_iff, OF q] q assms(3,4) by (simp add: features_refresh_def features_get_def put_features_def Let_def)
qed

lemma microprice_inside_spread_witness:
  "\<exists>p. ft_microprice (features_get 1 (features_refresh 1 (Some demo_book) features_new)) = Some p \<and> 101 < p \<and> p < 105"
proof -
  have "best_bid demo_book = Some 101" "best_ask demo_book = Some 105"
    by (simp_all add: demo_book_value best_bid_def best_ask_def)
  then show ?thesis
    using microprice_inside_spread [OF demo_reachable, of 101 105 1 features_new] by (auto simp: demo_count)
qed

end
