(* ===== verification/Config.thy ===== *)
theory Config
  imports Engine Decimal
begin

unbundle bit_operations_syntax

text \<open>
  src/trading/engine.cpp, the instrument rules: reading them from a file and the fingerprint that ties a
  journal to them. The environment delivers the lines \<open>std::getline\<close> yields and whether the end of the
  file was reached; a file that cannot be opened is \<open>None\<close>. Exceptions are values.
\<close>

section \<open>Reading\<close>

text \<open>\<open>std::getline\<close> repeated until the stream is exhausted: an empty field after the last delimiter is not delivered.\<close>

function getlines :: "char \<Rightarrow> string \<Rightarrow> string list" where
  "getlines delim s =
     (if s = [] then []
      else takeWhile (\<lambda>c. c \<noteq> delim) s # getlines delim (tl (dropWhile (\<lambda>c. c \<noteq> delim) s)))"
  by auto

termination
proof (relation "measure (length \<circ> snd)")
  show "((delim, tl (dropWhile (\<lambda>c. c \<noteq> delim) s)), delim, s) \<in> measure (length \<circ> snd)" if "s \<noteq> []" for delim s
    using that length_dropWhile_le [of "\<lambda>c. c \<noteq> delim" s] by (cases s) (auto simp: less_Suc_eq_le)
qed simp

declare getlines.simps [simp del]

datatype config_error = Cannot_Open | Invalid_Number | Field_Count | Field_Overflow | Limit_Overflow
  | Duplicate_Instrument | Read_Failed

definition config_number :: "string \<Rightarrow> u64 option" where
  "config_number s = (case from_chars 64 s of ([], Inr v) \<Rightarrow> Some (of_nat v) | _ \<Rightarrow> None)"

definition config_skipped :: "string \<Rightarrow> bool" where
  "config_skipped line \<longleftrightarrow> line = [] \<or> hd line = CHR ''#'' \<or> take 11 line = ''instrument,''"

definition strip_return :: "string \<Rightarrow> string" where
  "strip_return line = (if line \<noteq> [] \<and> last line = CHR 0x0D then butlast line else line)"

definition config_rules :: "u64 list \<Rightarrow> config_error + InstrumentId \<times> InstrumentRules" where
  "config_rules values =
     (if length values \<noteq> 9 \<or> values ! 0 = 0 then Inl Field_Count
      else if list_ex (\<lambda>i. 0xffffffff < values ! i) [1, 2, 3, 4, 5] then Inl Field_Overflow
      else if 1000000000000 < values ! 7 \<or> 4096 < values ! 8 then Inl Limit_Overflow
      else Inr (values ! 0,
        \<lparr>tick_size = ucast (values ! 1), lot_size = ucast (values ! 2), min_price = ucast (values ! 3),
         max_price = ucast (values ! 4), max_order_quantity = ucast (values ! 5), max_notional = values ! 6,
         max_position = uint (values ! 7), max_open_orders = unat (values ! 8)\<rparr>))"

text \<open>One line: the fields are converted in order, so a bad number is reported before a bad count.\<close>

definition config_line :: "string \<Rightarrow> config_error + InstrumentId \<times> InstrumentRules" where
  "config_line line =
     (case those (map config_number (getlines CHR '','' line)) of
        None \<Rightarrow> Inl Invalid_Number
      | Some values \<Rightarrow> config_rules values)"

fun config_loop :: "string list \<Rightarrow> Instruments \<Rightarrow> config_error + Instruments" where
  "config_loop [] result = Inr result"
| "config_loop (raw # lines) result =
     (let line = strip_return raw in
      if config_skipped line then config_loop lines result
      else case config_line line of
          Inl r \<Rightarrow> Inl r
        | Inr (i, r) \<Rightarrow> if om_contains result i then Inl Duplicate_Instrument
                       else config_loop lines (om_emplace i r result))"

definition load_instruments :: "(string list \<times> bool) option \<Rightarrow> config_error + Instruments" where
  "load_instruments input =
     (case input of
        None \<Rightarrow> Inl Cannot_Open
      | Some (lines, at_end) \<Rightarrow>
          (case config_loop lines [] of Inl r \<Rightarrow> Inl r | Inr result \<Rightarrow> if at_end then Inr result else Inl Read_Failed))"

section \<open>The fingerprint\<close>

definition fingerprint_mix :: "u64 \<Rightarrow> u64 \<Rightarrow> u64" where
  "fingerprint_mix hash value =
     fst (foldl (\<lambda>(h, v) _. ((h XOR (v AND 0xff)) * 1099511628211, drop_bit 8 v)) (hash, value) [0..<8])"

definition rule_fields :: "InstrumentId \<times> InstrumentRules \<Rightarrow> u64 list" where
  "rule_fields p = (case p of (i, r) \<Rightarrow>
     [i, ucast (tick_size r), ucast (lot_size r), ucast (min_price r), ucast (max_price r), ucast (max_order_quantity r),
      max_notional r, of_int (max_position r), of_nat (max_open_orders r)])"

definition config_fingerprint :: "Instruments \<Rightarrow> u64" where
  "config_fingerprint instruments =
     foldl (\<lambda>hash p. foldl fingerprint_mix hash (rule_fields p)) (fingerprint_mix 14695981039346656037 1) instruments"

section \<open>Round trip\<close>

text \<open>The line that describes a rule: its fields in decimal, in the order the loader expects.\<close>

definition rule_line :: "InstrumentId \<times> InstrumentRules \<Rightarrow> string" where
  "rule_line p = concat (map (\<lambda>x. to_string_nat (unat x) @ '','') (butlast (rule_fields p))) @ to_string_nat (unat (last (rule_fields p)))"

definition rules_loadable :: "InstrumentId \<times> InstrumentRules \<Rightarrow> bool" where
  "rules_loadable p \<longleftrightarrow> fst p \<noteq> 0 \<and> 0 \<le> max_position (snd p) \<and> max_position (snd p) \<le> 1000000000000 \<and> max_open_orders (snd p) \<le> 4096"

lemma digits_no_comma: "CHR '','' \<notin> set (to_string_nat n)"
  using to_string_nat_digits [of "CHR '',''" n] by (auto simp: is_digit_def)

lemma getlines_step:
  "delim \<notin> set xs \<Longrightarrow> getlines delim (xs @ delim # ys) = xs # getlines delim ys"
  by (subst getlines.simps) (auto simp: takeWhile_append dropWhile_append)

lemma getlines_last:
  assumes "delim \<notin> set xs" "xs \<noteq> []"
  shows "getlines delim xs = [xs]"
proof -
  have none: "takeWhile (\<lambda>c. c \<noteq> delim) xs = xs" "dropWhile (\<lambda>c. c \<noteq> delim) xs = []"
    using assms(1) by (simp_all add: takeWhile_eq_all_conv) metis+
  show ?thesis using assms(2) by (subst getlines.simps) (simp add: none getlines.simps [of _ "[]"])
qed

lemma getlines_fields:
  "getlines CHR '','' (concat (map (\<lambda>x. to_string_nat (unat x) @ '','') xs) @ to_string_nat (unat y)) =
     map (\<lambda>x. to_string_nat (unat x)) (xs @ [y])"
  by (induction xs) (simp_all add: getlines_last getlines_step digits_no_comma)

lemma config_numbers:
  "those (map config_number (map (\<lambda>x. to_string_nat (unat x)) xs)) = Some xs"
proof (induction xs)
  case (Cons x xs)
  have "config_number (to_string_nat (unat x)) = Some x"
    using from_chars_to_string [of "unat x" 64] unsigned_less [of x, where 'a = nat] by (simp add: config_number_def)
  then show ?case using Cons by simp
qed simp

lemma ucast_small: "ucast (x :: u32) \<le> (0xffffffff :: u64)" "ucast (ucast (x :: u32) :: u64) = x"
proof -
  have u: "unat (ucast x :: u64) = unat x" and b: "unat x < 2 ^ 32" using unsigned_less [of x, where 'a = nat] by simp_all
  show "ucast x \<le> (0xffffffff :: u64)" using u b by (simp add: word_le_nat_alt)
  show "ucast (ucast x :: u64) = x"
    by (rule bit_word_eqI) (simp add: bit_simps)
qed

lemma config_rules_fields:
  assumes "rules_loadable (i, r)"
  shows "config_rules (rule_fields (i, r)) = Inr (i, r)"
proof -
  have pos: "uint (of_int (max_position r) :: u64) = max_position r" and orders: "unat (of_nat (max_open_orders r) :: u64) = max_open_orders r"
    using assms by (simp_all add: rules_loadable_def unsigned_of_int unat_of_nat take_bit_int_eq_self)
  have "of_int (max_position r) \<le> (1000000000000 :: u64)"
    using assms by (simp add: word_le_def pos rules_loadable_def)
  moreover have "of_nat (max_open_orders r) \<le> (4096 :: u64)"
    using assms by (simp add: word_le_nat_alt orders rules_loadable_def)
  ultimately show ?thesis
    using assms ucast_small by (simp add: config_rules_def rule_fields_def rules_loadable_def pos orders linorder_not_less)
qed

lemma config_line_rule:
  assumes "rules_loadable p"
  shows "config_line (rule_line p) = Inr p"
proof -
  obtain i r where p: "p = (i, r)" by force
  have "getlines CHR '','' (rule_line p) = map (\<lambda>x. to_string_nat (unat x)) (rule_fields p)"
    unfolding rule_line_def getlines_fields by (simp add: rule_fields_def p)
  then show ?thesis using config_rules_fields assms config_numbers [of "rule_fields p"] by (simp add: config_line_def p)
qed

lemma rule_line_read: "strip_return (rule_line p) = rule_line p" "\<not> config_skipped (rule_line p)"
proof -
  obtain xs y x where e: "rule_fields p = xs @ [y]" "xs \<noteq> []" "x = hd xs"
    by (cases p) (auto simp: rule_fields_def intro: that [of "butlast (rule_fields p)" "last (rule_fields p)"])
  have "last (rule_line p) = last (to_string_nat (unat y))" "rule_line p \<noteq> []"
    by (simp_all add: rule_line_def e)
  moreover have "is_digit (last (to_string_nat (unat y)))" by (rule to_string_nat_digits [of _ "unat y"]) simp
  ultimately show "strip_return (rule_line p) = rule_line p" by (auto simp: strip_return_def is_digit_def)
  have "hd (rule_line p) = hd (to_string_nat (unat x))" using e(2,3) by (cases xs) (simp_all add: rule_line_def e(1))
  moreover have "is_digit (hd (to_string_nat (unat x)))" by (rule to_string_nat_digits [of _ "unat x"]) simp
  ultimately have h: "is_digit (hd (rule_line p))" by simp
  have "take 11 (rule_line p) \<noteq> ''instrument,''"
  proof
    assume "take 11 (rule_line p) = ''instrument,''"
    then have "hd (rule_line p) = CHR ''i''" by (cases "rule_line p") auto
    then show False using h by (simp add: is_digit_def)
  qed
  then show "\<not> config_skipped (rule_line p)"
    using h \<open>rule_line p \<noteq> []\<close> by (auto simp: config_skipped_def is_digit_def)
qed

lemma config_loop_rules:
  assumes "om_sorted (<) (ins @ rest)" "list_all rules_loadable rest"
  shows "config_loop (map rule_line rest) ins = Inr (ins @ rest)"
  using assms
proof (induction rest arbitrary: ins)
  case (Cons p rest)
  obtain i r where p: "p = (i, r)" by force
  have fresh: "map_of ins i = None" using Cons.prems(1) by (auto simp: p om_sorted_def sorted_wrt_append map_of_eq_None_iff)
  have "om_emplace i r ins = ins @ [p]"
  proof -
    have "om_put (<) i r ins = ins @ [(i, r)]"
      using Cons.prems(1) by (induction ins) (auto simp: p om_sorted_def sorted_wrt_append)
    then show ?thesis using fresh by (simp add: om_emplace_def p)
  qed
  then show ?case
    using Cons.IH [of "ins @ [p]"] Cons.prems fresh
    by (simp add: rule_line_read config_line_rule p)
qed simp

text \<open>
  Any set of instrument rules within the loader's ranges, written one rule per line in decimal, is read back
  exactly: same instruments, same fields, in order of instrument, with nothing truncated.
\<close>

theorem instruments_roundtrip:
  assumes "om_sorted (<) ins" "list_all rules_loadable ins"
  shows "load_instruments (Some (map rule_line ins, True)) = Inr ins"
  using config_loop_rules [of "[]" ins] assms by (simp add: load_instruments_def)

lemma instruments_roundtrip_witness:
  "load_instruments (Some (map rule_line default_instruments, True)) = Inr default_instruments"
  by (rule instruments_roundtrip)
    (simp_all add: default_instruments_def default_rules_def rules_loadable_def om_sorted_def)

end
