(* ===== verification/Poll_IO.thy ===== *)
theory Poll_IO
  imports Prelude
begin

text \<open>
  src/net/poll_io.hpp: moving fixed-size frames over a nonblocking stream socket. What each system call
  returns is decided by the environment and given as a schedule: \<open>Recv bs\<close> says that \<open>bs\<close> has
  arrived (a shorter \<open>recv\<close> leaves the rest for the next one, no bytes is the end of the stream), and
  \<open>Send k\<close> that the socket takes at most \<open>k\<close> bytes. An exhausted schedule is a socket with
  nothing to deliver, or no room.
\<close>

section \<open>Operations\<close>

datatype recv_call = Recv_Interrupted | Recv_Again | Recv_Failed | Recv "u8 list"

datatype frame_read = Read_Again | Read_Frame | Read_Eof | Read_Error | Read_Torn

definition overwrite :: "u8 list \<Rightarrow> nat \<Rightarrow> u8 list \<Rightarrow> u8 list" where
  "overwrite frame used bytes = take used frame @ bytes @ drop (used + length bytes) frame"

text \<open>The schedule after a \<open>recv\<close> that took the first bytes of an arrival.\<close>

definition unread :: "nat \<Rightarrow> u8 list \<Rightarrow> recv_call list \<Rightarrow> recv_call list" where
  "unread count bytes calls = (if count < length bytes then Recv (drop count bytes) # calls else calls)"

function read_frame :: "nat \<Rightarrow> recv_call list \<Rightarrow> u8 list \<Rightarrow> nat \<Rightarrow> frame_read \<times> u8 list \<times> nat \<times> recv_call list" where
  "read_frame n calls frame used =
     (if n \<le> used then (Read_Frame, frame, 0, calls)
      else case calls of
        [] \<Rightarrow> (Read_Again, frame, used, [])
      | Recv_Interrupted # rest \<Rightarrow> read_frame n rest frame used
      | Recv_Again # rest \<Rightarrow> (Read_Again, frame, used, rest)
      | Recv_Failed # rest \<Rightarrow> (Read_Error, frame, used, rest)
      | Recv bytes # rest \<Rightarrow>
          if bytes = [] then (if used \<noteq> 0 then Read_Torn else Read_Eof, frame, used, calls)
          else
            let count = min (length bytes) (n - used)
            in read_frame n (unread count bytes rest) (overwrite frame used (take count bytes)) (used + count))"
  by pat_completeness auto

termination
proof (relation "measure (\<lambda>(n, calls, frame, used). length calls + (n - used))", goal_cases)
  case (3 n calls frame used c rest bytes count)
  then have "0 < count" by (cases bytes) auto
  then show ?case using 3 by (auto simp: unread_def min_def)
qed auto

declare read_frame.simps [simp del]

datatype send_call = Send_Interrupted | Send_Again | Send_Failed | Send nat

datatype flush_outcome = Flush_Done | Flush_Error | Flush_Stuck

text \<open>\<open>flush\<close> with the passes left of its budget; it also returns the bytes the socket took.\<close>

fun flush :: "nat \<Rightarrow> nat \<Rightarrow> send_call list \<Rightarrow> u8 list list \<Rightarrow> nat \<Rightarrow>
    flush_outcome \<times> u8 list \<times> u8 list list \<times> nat" where
  "flush n budget [] frames sent = (Flush_Done, [], frames, sent)"
| "flush n budget (call # calls) frames sent =
     (if frames = [] \<or> budget = 0 then (Flush_Done, [], frames, sent)
      else case call of
        Send_Interrupted \<Rightarrow> flush n budget calls frames sent
      | Send_Again \<Rightarrow> (Flush_Done, [], frames, sent)
      | Send_Failed \<Rightarrow> (Flush_Error, [], frames, sent)
      | Send k \<Rightarrow>
          let count = min k (n - sent); bytes = take count (drop sent (hd frames)) in
          if count = 0 then (Flush_Stuck, [], frames, sent)
          else
            let (frames', sent') = (if sent + count = n then (tl frames, 0) else (frames, sent + count));
                (r, more, frames'', sent'') = flush n (budget - 1) calls frames' sent'
            in (r, bytes @ more, frames'', sent''))"

section \<open>The byte stream is kept\<close>

definition arriving :: "recv_call list \<Rightarrow> u8 list" where
  "arriving calls = concat (map (\<lambda>c. case c of Recv bytes \<Rightarrow> bytes | _ \<Rightarrow> []) calls)"

lemma arriving_simps [simp]:
  "arriving [] = []" "arriving (Recv bytes # calls) = bytes @ arriving calls" "arriving (Recv_Interrupted # calls) = arriving calls"
  "arriving (Recv_Again # calls) = arriving calls" "arriving (Recv_Failed # calls) = arriving calls"
  by (simp_all add: arriving_def)

lemma arriving_unread [simp]: "count \<le> length bytes \<Longrightarrow> take count bytes @ arriving (unread count bytes calls) = bytes @ arriving calls"
  by (auto simp: unread_def append_assoc [symmetric] simp del: append_assoc)

lemma take_overwrite: "used \<le> length frame \<Longrightarrow> take (used + length bytes) (overwrite frame used bytes) = take used frame @ bytes"
  by (simp add: overwrite_def)

lemma length_overwrite: "used + length bytes \<le> length frame \<Longrightarrow> length (overwrite frame used bytes) = length frame"
  by (simp add: overwrite_def)

text \<open>What a call of \<open>read_frame\<close> leaves, by its outcome.\<close>

definition reads_on :: "nat \<Rightarrow> u8 list \<Rightarrow> frame_read \<times> u8 list \<times> nat \<times> recv_call list \<Rightarrow> bool" where
  "reads_on n stream r \<longleftrightarrow> (case r of (outcome, frame, used, calls) \<Rightarrow>
     length frame = n \<and>
     (if outcome = Read_Frame then used = 0 \<and> stream = frame @ arriving calls
      else used < n \<and> stream = take used frame @ arriving calls \<and> (outcome = Read_Eof \<longrightarrow> used = 0)))"

lemma read_frame_on:
  "length frame = n \<Longrightarrow> used \<le> n \<Longrightarrow> reads_on n (take used frame @ arriving calls) (read_frame n calls frame used)"
proof (induction n calls frame used rule: read_frame.induct)
  case (1 n calls frame used)
  show ?case
  proof (cases "n \<le> used")
    case True
    then show ?thesis using "1.prems" by (simp add: read_frame.simps reads_on_def)
  next
    case False
    show ?thesis
    proof (cases calls)
      case Nil
      then show ?thesis using False "1.prems" by (simp add: read_frame.simps reads_on_def)
    next
      case (Cons c rest)
      show ?thesis
      proof (cases c)
        case Recv_Interrupted
        then show ?thesis using "1.IH"(1) [OF False Cons] False Cons "1.prems" by (simp add: read_frame.simps [of n "Recv_Interrupted # rest"])
      next
        case (Recv bytes)
        show ?thesis
        proof (cases "bytes = []")
          case True
          then show ?thesis using False Cons Recv "1.prems" by (simp add: read_frame.simps reads_on_def)
        next
          case ne: False
          let ?k = "min (length bytes) (n - used)"
          have "reads_on n (take (used + ?k) (overwrite frame used (take ?k bytes)) @ arriving (unread ?k bytes rest))
              (read_frame n (unread ?k bytes rest) (overwrite frame used (take ?k bytes)) (used + ?k))"
            using "1.IH"(2) [OF False Cons Recv ne refl] "1.prems" False by (simp add: length_overwrite)
          moreover have "take (used + ?k) (overwrite frame used (take ?k bytes)) = take used frame @ take ?k bytes"
            using take_overwrite [of used frame "take ?k bytes"] "1.prems" by simp
          moreover have "take ?k bytes @ arriving (unread ?k bytes rest) = bytes @ arriving rest" by simp
          ultimately show ?thesis using False Cons Recv ne by (simp add: read_frame.simps [of n "Recv bytes # rest"] Let_def)
        qed
      qed (use False Cons "1.prems" in \<open>simp_all add: read_frame.simps reads_on_def\<close>)
    qed
  qed
qed

text \<open>What is left to send: the queued frames from the offset on.\<close>

definition unsent :: "u8 list list \<Rightarrow> nat \<Rightarrow> u8 list" where
  "unsent frames sent = drop sent (concat frames)"

definition output_ok :: "nat \<Rightarrow> u8 list list \<Rightarrow> nat \<Rightarrow> bool" where
  "output_ok n frames sent \<longleftrightarrow> list_all (\<lambda>f. length f = n) frames \<and> sent < n \<and> (frames = [] \<longrightarrow> sent = 0)"

lemma unsent_advance:
  assumes "output_ok n frames sent" "frames \<noteq> []" "count = min k (n - sent)"
    "(frames', sent') = (if sent + count = n then (tl frames, 0) else (frames, sent + count))"
  shows "output_ok n frames' sent'" "unsent frames sent = take count (drop sent (hd frames)) @ unsent frames' sent'"
proof -
  obtain f fs where f: "frames = f # fs" using assms(2) by (cases frames) auto
  have len: "length f = n" "sent < n" using assms(1) by (auto simp: output_ok_def f)
  show "output_ok n frames' sent'" using assms by (auto simp: output_ok_def f split: if_splits)
  have split: "drop sent f = take count (drop sent f) @ drop (sent + count) f"
    by (metis add.commute append_take_drop_id drop_drop)
  show "unsent frames sent = take count (drop sent (hd frames)) @ unsent frames' sent'"
    using assms(3,4) len split by (auto simp: unsent_def f split: if_splits)
qed

lemma flush_on:
  "output_ok n frames sent \<Longrightarrow> flush n budget calls frames sent = (r, bytes, frames', sent') \<Longrightarrow>
   output_ok n frames' sent' \<and> bytes @ unsent frames' sent' = unsent frames sent \<and> length frames' \<le> length frames \<and>
   set frames' \<subseteq> set frames"
proof (induction n budget calls frames sent arbitrary: r bytes frames' sent' rule: flush.induct)
  case (2 n budget call calls frames sent)
  show ?case
  proof (cases "frames = [] \<or> budget = 0")
    case False
    show ?thesis
    proof (cases call)
      case Send_Interrupted
      then show ?thesis using 2 False by auto
    next
      case (Send k)
      let ?k = "min k (n - sent)"
      show ?thesis
      proof (cases "?k = 0")
        case stuck: False
        obtain fs s where step: "(if sent + ?k = n then (tl frames, 0) else (frames, sent + ?k)) = (fs, s)" by force
        obtain more where run: "flush n (budget - 1) calls fs s = (r, more, frames', sent')"
            "bytes = take ?k (drop sent (hd frames)) @ more"
          using "2.prems"(2) False Send stuck step by (auto simp: Let_def split: prod.splits)
        have ne: "frames \<noteq> []" using False by simp
        note adv = unsent_advance [OF "2.prems"(1) ne refl step [symmetric]]
        have "output_ok n frames' sent' \<and> more @ unsent frames' sent' = unsent fs s \<and> length frames' \<le> length fs \<and> set frames' \<subseteq> set fs"
          by (rule "2.IH"(2) [OF False Send refl refl stuck step [symmetric] refl adv(1) run(1)])
        moreover have "length fs \<le> length frames" "set fs \<subseteq> set frames"
          using step ne by (auto split: if_splits dest: list.set_sel(2))
        ultimately show ?thesis using adv run(2) by auto
      qed (use 2 False Send in \<open>auto simp: Let_def\<close>)
    qed (use 2 False in auto)
  qed (use 2 in auto)
qed auto

end
