(* ===== verification/Tcp.thy ===== *)
theory Tcp
  imports Poll_IO
begin

text \<open>
  src/net/tcp.cpp: sending and receiving whole buffers over a blocking stream socket. The results of the
  system calls are given as in Poll_IO; on a blocking socket \<open>EAGAIN\<close> is the expiry of a timeout, an error like the
  others, and an exhausted schedule is a call that has not returned.
\<close>

section \<open>Operations\<close>

datatype send_outcome = Sent | Send_Error | Send_No_Progress | Send_Waiting

text \<open>The outcome, the bytes the socket took, and the calls left.\<close>

fun send_all :: "send_call list \<Rightarrow> u8 list \<Rightarrow> send_outcome \<times> u8 list \<times> send_call list" where
  "send_all calls [] = (Sent, [], calls)"
| "send_all [] (b # bs) = (Send_Waiting, [], [])"
| "send_all (call # calls) (b # bs) =
     (case call of
        Send_Interrupted \<Rightarrow> send_all calls (b # bs)
      | Send_Again \<Rightarrow> (Send_Error, [], calls)
      | Send_Failed \<Rightarrow> (Send_Error, [], calls)
      | Send k \<Rightarrow>
          let count = min k (length (b # bs)) in
          if count = 0 then (Send_No_Progress, [], calls)
          else case send_all calls (drop count (b # bs)) of (r, more, rest) \<Rightarrow> (r, take count (b # bs) @ more, rest))"

datatype receive_outcome = Received | Receive_Eof | Receive_Error | Receive_Torn | Receive_Waiting

text \<open>\<open>got\<close> is the part of the buffer that is filled.\<close>

function receive_exact :: "nat \<Rightarrow> recv_call list \<Rightarrow> u8 list \<Rightarrow> receive_outcome \<times> u8 list \<times> recv_call list" where
  "receive_exact wanted calls got =
     (if wanted \<le> length got then (Received, got, calls)
      else case calls of
        [] \<Rightarrow> (Receive_Waiting, got, [])
      | Recv_Interrupted # rest \<Rightarrow> receive_exact wanted rest got
      | Recv_Again # rest \<Rightarrow> (Receive_Error, got, rest)
      | Recv_Failed # rest \<Rightarrow> (Receive_Error, got, rest)
      | Recv bytes # rest \<Rightarrow>
          if bytes = [] then (if got = [] then Receive_Eof else Receive_Torn, got, calls)
          else
            let count = min (length bytes) (wanted - length got)
            in receive_exact wanted (unread count bytes rest) (got @ take count bytes))"
  by pat_completeness auto

termination
proof (relation "measure (\<lambda>(wanted, calls, got). length calls + (wanted - length got))", goal_cases)
  case (3 wanted calls got c rest bytes count)
  then have "0 < count" by (cases bytes) auto
  then show ?case using 3 by (auto simp: unread_def min_def)
qed auto

declare receive_exact.simps [simp del]

section \<open>The byte stream is kept\<close>

lemma send_all_on: "send_all calls bs = (r, sent, rest) \<Longrightarrow> \<exists>left. bs = sent @ left \<and> (r = Sent \<longleftrightarrow> left = [])"
proof (induction calls bs arbitrary: r sent rest rule: send_all.induct)
  case (3 call calls b bs)
  show ?case
  proof (cases call)
    case (Send k)
    let ?k = "min k (length (b # bs))"
    show ?thesis
    proof (cases "?k = 0")
      case False
      obtain more where run: "send_all calls (drop ?k (b # bs)) = (r, more, rest)" "sent = take ?k (b # bs) @ more"
        using "3.prems" False Send by (auto simp: Let_def split: prod.splits if_splits)
      obtain left where "drop ?k (b # bs) = more @ left \<and> (r = Sent \<longleftrightarrow> left = [])"
        using "3.IH"(2) [OF Send refl False run(1)] by blast
      then show ?thesis using run(2) append_take_drop_id [of ?k "b # bs"] by (metis append_assoc)
    qed (use 3 Send in \<open>auto simp: Let_def\<close>)
  qed (use 3 in auto)
qed auto

definition receives_on :: "nat \<Rightarrow> u8 list \<Rightarrow> receive_outcome \<times> u8 list \<times> recv_call list \<Rightarrow> bool" where
  "receives_on wanted stream r \<longleftrightarrow> (case r of (outcome, got, calls) \<Rightarrow>
     stream = got @ arriving calls \<and> length got \<le> wanted \<and> (outcome = Received \<longleftrightarrow> length got = wanted) \<and>
     (outcome = Receive_Eof \<longrightarrow> got = []))"

lemma receive_exact_on:
  "length got \<le> wanted \<Longrightarrow> receives_on wanted (got @ arriving calls) (receive_exact wanted calls got)"
proof (induction wanted calls got rule: receive_exact.induct)
  case (1 wanted calls got)
  show ?case
  proof (cases "wanted \<le> length got")
    case True
    then show ?thesis using "1.prems" by (simp add: receive_exact.simps receives_on_def)
  next
    case False
    show ?thesis
    proof (cases calls)
      case Nil
      then show ?thesis using False by (simp add: receive_exact.simps receives_on_def)
    next
      case (Cons c rest)
      show ?thesis
      proof (cases c)
        case Recv_Interrupted
        then show ?thesis using "1.IH"(1) [OF False Cons] False Cons "1.prems"
          by (simp add: receive_exact.simps [of wanted "Recv_Interrupted # rest"])
      next
        case (Recv bytes)
        show ?thesis
        proof (cases "bytes = []")
          case ne: False
          let ?k = "min (length bytes) (wanted - length got)"
          have "receives_on wanted ((got @ take ?k bytes) @ arriving (unread ?k bytes rest))
              (receive_exact wanted (unread ?k bytes rest) (got @ take ?k bytes))"
            using "1.IH"(2) [OF False Cons Recv ne refl] "1.prems" False by simp
          moreover have "take ?k bytes @ arriving (unread ?k bytes rest) = bytes @ arriving rest" by simp
          ultimately show ?thesis using False Cons Recv ne
            by (simp add: receive_exact.simps [of wanted "Recv bytes # rest"] Let_def)
        qed (use False Cons Recv in \<open>simp add: receive_exact.simps receives_on_def\<close>)
      qed (use False Cons in \<open>simp_all add: receive_exact.simps receives_on_def\<close>)
    qed
  qed
qed

text \<open>A socket that only delivers data, in any portions, possibly interrupted: nothing fails before the data is used up.\<close>

definition delivers :: "recv_call list \<Rightarrow> bool" where
  "delivers calls \<longleftrightarrow> list_all (\<lambda>c. c \<notin> {Recv_Again, Recv_Failed, Recv []}) calls"

lemma delivers_unread: "delivers calls \<Longrightarrow> delivers (unread k bytes calls)"
  by (auto simp: delivers_def unread_def)

lemma receive_exact_delivers:
  "delivers calls \<Longrightarrow> length got \<le> wanted \<Longrightarrow> wanted \<le> length got + length (arriving calls) \<Longrightarrow>
   \<exists>rest. receive_exact wanted calls got = (Received, take wanted (got @ arriving calls), rest) \<and> delivers rest \<and>
     arriving rest = drop wanted (got @ arriving calls)"
proof (induction wanted calls got rule: receive_exact.induct)
  case (1 wanted calls got)
  show ?case
  proof (cases "wanted \<le> length got")
    case True
    then show ?thesis using "1.prems" by (simp add: receive_exact.simps)
  next
    case False
    obtain c rest where calls: "calls = c # rest" using False "1.prems"(3) by (cases calls) auto
    show ?thesis
    proof (cases c)
      case Recv_Interrupted
      have "delivers rest" using "1.prems"(1) by (simp add: calls delivers_def)
      from "1.IH"(1) [OF False calls Recv_Interrupted this "1.prems"(2)] show ?thesis using "1.prems"(3) False
        by (simp add: calls Recv_Interrupted receive_exact.simps [of wanted "Recv_Interrupted # rest"])
    next
      case (Recv bytes)
      let ?k = "min (length bytes) (wanted - length got)"
      have ne: "bytes \<noteq> []" and rest: "delivers rest" using "1.prems"(1) by (auto simp: calls Recv delivers_def)
      have stream: "(got @ take ?k bytes) @ arriving (unread ?k bytes rest) = got @ bytes @ arriving rest" by simp
      have len: "length (got @ take ?k bytes) \<le> wanted" using False by simp
      have "wanted \<le> length (got @ take ?k bytes) + length (arriving (unread ?k bytes rest))"
        using "1.prems"(3) arg_cong [OF stream, of length] by (simp add: calls Recv del: arriving_unread)
      from "1.IH"(2) [OF False calls Recv ne refl delivers_unread [OF rest] len this] show ?thesis
        unfolding stream using False ne
        by (simp add: calls Recv receive_exact.simps [of wanted "Recv bytes # rest"] Let_def)
    qed (use "1.prems"(1) in \<open>simp_all add: calls delivers_def\<close>)
  qed
qed

section \<open>Frames through a stream\<close>

text \<open>A receiver that takes \<open>k\<close> frames of \<open>n\<close> bytes.\<close>

fun receive_frames :: "nat \<Rightarrow> nat \<Rightarrow> recv_call list \<Rightarrow> u8 list list" where
  "receive_frames n 0 calls = []"
| "receive_frames n (Suc k) calls =
     (case receive_exact n calls [] of (Received, frame, rest) \<Rightarrow> frame # receive_frames n k rest | _ \<Rightarrow> [])"

lemma receive_frames_exact:
  "delivers calls \<Longrightarrow> list_all (\<lambda>f. length f = n) frames \<Longrightarrow> arriving calls = concat frames @ more \<Longrightarrow>
   receive_frames n (length frames) calls = frames"
proof (induction frames arbitrary: calls)
  case (Cons f frames)
  have "n \<le> length ([] :: u8 list) + length (arriving calls)" using Cons.prems by simp
  from receive_exact_delivers [OF Cons.prems(1) _ this] obtain rest where
      r: "receive_exact n calls [] = (Received, f, rest)" "delivers rest" "arriving rest = concat frames @ more"
    using Cons.prems by auto
  then show ?case using Cons by simp
qed simp

text \<open>
  Frames sent with \<open>send_all\<close> arrive with \<open>receive_exact\<close>: when every call of the sender succeeds and
  the receiver's socket delivers what was sent, in whatever portions and with whatever interruptions on both sides, the receiver gets the same frames in the same order.
\<close>

theorem frames_transported:
  assumes "list_all (\<lambda>f. length f = n) frames" "list_all2 (\<lambda>f s. fst (send_all s f) = Sent) frames sends"
    "arriving recvs = concat (map2 (\<lambda>f s. fst (snd (send_all s f))) frames sends)" "delivers recvs"
  shows "receive_frames n (length frames) recvs = frames"
proof -
  have "fst (send_all s f) = Sent \<Longrightarrow> fst (snd (send_all s f)) = f" for s f
    using send_all_on [of s f] by (cases "send_all s f") auto
  with assms(2) have "concat (map2 (\<lambda>f s. fst (snd (send_all s f))) frames sends) = concat frames"
    by (induction rule: list_all2_induct) auto
  then show ?thesis using receive_frames_exact [OF assms(4,1), of "[]"] assms(3) by simp
qed

theorem frames_transported_witness:
  "receive_frames 2 2 [Recv [1, 2, 3], Recv_Interrupted, Recv [4]] = [[1, 2], [3, 4]]"
  using frames_transported [of 2 "[[1, 2], [3, 4]]" "[[Send 1, Send_Interrupted, Send 5], [Send 2]]"
      "[Recv [1, 2, 3], Recv_Interrupted, Recv [4]]"]
  by (simp add: delivers_def numeral_2_eq_2)

end
