(* ===== verification/Queue_Spec.thy ===== *)
theory Queue_Spec
  imports LF_Queue
begin

text \<open>
  The queues between the threads of the exchange and of the client, as their users see them. The locale
  \<open>bounded_queue\<close> states what a user relies on: a push appends or reports that the queue is full, a
  pop takes the oldest element or reports that there is none. It is interpreted on the lock-free queue
  at the capacity both programs instantiate it with.
\<close>

locale bounded_queue =
  fixes cap :: nat
    and wf :: "'q \<Rightarrow> bool"
    and held :: "'q \<Rightarrow> 'a list"
    and push :: "'a \<Rightarrow> 'q \<Rightarrow> bool \<times> 'q"
    and pop :: "'q \<Rightarrow> 'a option \<times> 'q"
  assumes bounded: "wf q \<Longrightarrow> length (held q) \<le> cap"
    and push_room: "wf q \<Longrightarrow> length (held q) < cap \<Longrightarrow> fst (push x q) \<and> wf (snd (push x q)) \<and> held (snd (push x q)) = held q @ [x]"
    and push_full: "wf q \<Longrightarrow> length (held q) = cap \<Longrightarrow> push x q = (False, q)"
    and pop_none: "wf q \<Longrightarrow> held q = [] \<Longrightarrow> pop q = (None, q)"
    and pop_some: "wf q \<Longrightarrow> held q = x # xs \<Longrightarrow> fst (pop q) = Some x \<and> wf (snd (pop q)) \<and> held (snd (pop q)) = xs"
begin

lemma push_ok: "wf q \<Longrightarrow> push x q = (True, q') \<Longrightarrow> wf q' \<and> held q' = held q @ [x] \<and> length (held q) < cap"
  using push_room [of q x] push_full [of q x] bounded [of q] by (cases "length (held q) = cap") auto

lemma push_refused: "wf q \<Longrightarrow> push x q = (False, q') \<Longrightarrow> q' = q \<and> length (held q) = cap"
  using push_room [of q x] push_full [of q x] bounded [of q] by (cases "length (held q) = cap") auto

lemma pop_ok: "wf q \<Longrightarrow> pop q = (Some x, q') \<Longrightarrow> wf q' \<and> held q = x # held q'"
  using pop_none [of q] pop_some [of q] by (cases "held q") auto

lemma pop_refused: "wf q \<Longrightarrow> pop q = (None, q') \<Longrightarrow> q' = q \<and> held q = []"
  using pop_none [of q] pop_some [of q] by (cases "held q") auto

end

section \<open>The lock-free queue as a bounded queue\<close>

definition queued :: "nat \<Rightarrow> 'a LFQueue \<Rightarrow> 'a list" where
  "queued n q = map (\<lambda>j. buffers q ! slot n (cons_idx q + of_nat j)) [0..<unat (prod_idx q - cons_idx q)]"

definition queue_ok :: "nat \<Rightarrow> 'a LFQueue \<Rightarrow> bool" where
  "queue_ok n q \<longleftrightarrow> (\<exists>xs. contents n q xs)"

lemma unat_of_nat_u64: "k < 2 ^ 64 \<Longrightarrow> unat (of_nat k :: u64) = k"
  by (simp add: unat_of_nat take_bit_nat_eq_self)

lemma contents_queued:
  assumes n: "capacity_ok n" and q: "contents n q xs"
  shows "queued n q = xs"
proof -
  obtain a where a: "prod_idx q = of_nat (a + length xs)" "cons_idx q = of_nat a" "length xs \<le> n"
    "\<And>j. j < length xs \<Longrightarrow> buffers q ! ((a + j) mod n) = xs ! j" using q by (auto simp: contents_def)
  have "unat (prod_idx q - cons_idx q) = length xs"
  proof -
    have "prod_idx q - cons_idx q = of_nat (length xs)" unfolding a(1,2) of_nat_add by (rule add_diff_cancel_left')
    moreover have "length xs < 2 ^ 64" using a(3) capacity_lt [OF n] by linarith
    ultimately show ?thesis by (simp only: unat_of_nat_u64)
  qed
  moreover have "slot n (cons_idx q + of_nat j) = (a + j) mod n" for j
    using slot_mod [OF n, of "a + j"] unfolding a(2) of_nat_add .
  ultimately have "queued n q = map (\<lambda>j. buffers q ! ((a + j) mod n)) [0..<length xs]" by (simp only: queued_def)
  also have "\<dots> = map (\<lambda>j. xs ! j) [0..<length xs]" by (rule map_cong) (simp_all only: a(4) set_upt atLeastLessThan_iff)
  finally show ?thesis by (simp only: map_nth)
qed

lemma queue_new_contents: "contents n (queue_new n x) []"
  unfolding contents_def by (intro exI [of _ 0]) (simp add: queue_new_def)

lemma queue_new_ok: "queue_ok n (queue_new n x)"
  unfolding queue_ok_def using queue_new_contents [of n x] by (intro exI)

lemma queue_new_queued [simp]: "queued n (queue_new n x) = []"
  by (simp add: queued_def queue_new_def)

text \<open>The capacity of every queue of the trading system.\<close>

definition queue_capacity :: nat where "queue_capacity = 4096"

lemma queue_capacity_ok: "capacity_ok queue_capacity"
  unfolding capacity_ok_def queue_capacity_def by (intro exI [of _ 12]) simp

lemma queue_okE:
  assumes "queue_ok queue_capacity q"
  shows "contents queue_capacity q (queued queue_capacity q)"
  using assms contents_queued [OF queue_capacity_ok] by (auto simp: queue_ok_def)

interpretation lfq: bounded_queue queue_capacity "queue_ok queue_capacity" "queued queue_capacity"
  "try_push queue_capacity" "try_pop queue_capacity"
proof
  fix q :: "'b LFQueue" and x
  assume ok: "queue_ok queue_capacity q"
  note c = queue_okE [OF ok]
  show "length (queued queue_capacity q) \<le> queue_capacity" using c by (auto simp: contents_def)
  show "fst (try_push queue_capacity x q) \<and> queue_ok queue_capacity (snd (try_push queue_capacity x q)) \<and>
      queued queue_capacity (snd (try_push queue_capacity x q)) = queued queue_capacity q @ [x]"
    if "length (queued queue_capacity q) < queue_capacity"
    using push_contents [OF queue_capacity_ok c, of x] that contents_queued [OF queue_capacity_ok]
    by (auto simp: queue_ok_def)
  show "try_push queue_capacity x q = (False, q)" if "length (queued queue_capacity q) = queue_capacity"
    using push_contents(1) [OF queue_capacity_ok c, of x] that by simp
  show "try_pop queue_capacity q = (None, q)" if "queued queue_capacity q = []"
    using pop_contents(1) [OF queue_capacity_ok c] that by (auto simp: try_pop_def split: if_splits)
  show "fst (try_pop queue_capacity q) = Some y \<and> queue_ok queue_capacity (snd (try_pop queue_capacity q)) \<and>
      queued queue_capacity (snd (try_pop queue_capacity q)) = ys"
    if "queued queue_capacity q = y # ys" for y ys
    using pop_contents [OF queue_capacity_ok c] that contents_queued [OF queue_capacity_ok]
    by (auto simp: queue_ok_def)
qed

end
