(* ===== verification/Client_Workers.thy ===== *)
theory Client_Workers
  imports Tcp Messages Queue_Spec
begin

text \<open>
  src/trading/client.cpp, the two workers of the trading client. The gateway thread moves requests from a
  queue to the order connection and reports from the connection to a queue; the subscriber thread moves
  market datagrams to a queue. Each is modelled by one pass of its loop, with what the queues, the clock
  and the system calls answer during that pass.
\<close>

section \<open>The gateway thread\<close>

record Gateway =
  g_input :: "u8 list"
  g_used :: nat
  g_sent :: nat
  g_output :: "u8 list list"
  g_read_started :: int
  g_write_started :: int

definition Gateway_new :: "int \<Rightarrow> int \<Rightarrow> Gateway" where
  "Gateway_new t1 t2 = \<lparr>g_input = replicate frame_size 0, g_used = 0, g_sent = 0, g_output = [], g_read_started = t1, g_write_started = t2\<rparr>"

text \<open>
  \<open>GP_Ready\<close> gives \<open>POLLIN\<close>, \<open>POLLOUT\<close> and an error or hang-up of the socket, and \<open>POLLIN\<close> of the
  notification. A push waits until there is room; it is given up when the client stops, and the
  notification after it can fail.
\<close>

datatype gateway_poll = GP_Interrupted | GP_Failed | GP_Ready bool bool bool bool

datatype push_result = Pushed | Push_Stopped | Push_Unwoken

record gateway_env =
  ge_requests :: "Message list"
  ge_write_now :: int
  ge_poll :: gateway_poll
  ge_cleared :: bool
  ge_sends :: "send_call list"
  ge_recvs :: "recv_call list"
  ge_read_now :: int
  ge_pushes :: "push_result list"
  ge_now :: int

text \<open>Taking requests: those left in the queue, or \<open>None\<close> where \<open>encode\<close> throws.\<close>

fun gateway_take :: "int \<Rightarrow> Message list \<Rightarrow> Gateway \<Rightarrow> (Message list \<times> Gateway) option" where
  "gateway_take now [] g = Some ([], g)"
| "gateway_take now (request # requests) g =
     (if length (g_output g) < 4096
      then (case encode request of
          None \<Rightarrow> None
        | Some frame \<Rightarrow> gateway_take now requests
            (g\<lparr>g_write_started := (if g_output g = [] then now else g_write_started g), g_output := g_output g @ [frame]\<rparr>))
      else Some (request # requests, g))"

text \<open>The reading loop with the passes left: \<open>False\<close> where it throws, the reports pushed, what is left to read.\<close>

fun gateway_read ::
    "nat \<Rightarrow> int \<Rightarrow> recv_call list \<Rightarrow> push_result list \<Rightarrow> Gateway \<Rightarrow> bool \<times> Message list \<times> recv_call list \<times> Gateway" where
  "gateway_read 0 now recvs pushes g = (True, [], recvs, g)"
| "gateway_read (Suc budget) now recvs pushes g =
     (let g1 = (if g_used g = 0 then g\<lparr>g_read_started := now\<rparr> else g) in
      case read_frame frame_size recvs (g_input g1) (g_used g1) of (r, input, used, rest) \<Rightarrow>
        let g2 = g1\<lparr>g_input := input, g_used := used\<rparr> in
        if r = Read_Again then (True, [], rest, g2)
        else if r \<noteq> Read_Frame then (False, [], rest, g2)
        else (case decode input of
            None \<Rightarrow> (False, [], rest, g2)
          | Some m \<Rightarrow>
              if m_kind m \<noteq> Report then (False, [], rest, g2)
              else (case pushes of
                  Push_Stopped # _ \<Rightarrow> (True, [], rest, g2)
                | Push_Unwoken # _ \<Rightarrow> (False, [m], rest, g2)
                | _ \<Rightarrow> (case gateway_read budget now rest (tl pushes) g2 of (ok, ms, rest', g3) \<Rightarrow> (ok, m # ms, rest', g3)))))"

definition gateway_late :: "int \<Rightarrow> Gateway \<Rightarrow> bool" where
  "gateway_late now g \<longleftrightarrow> (g_used g \<noteq> 0 \<and> 2000000000 < now - g_read_started g) \<or>
     (g_output g \<noteq> [] \<and> 3000000000 < now - g_write_started g)"

text \<open>
  One pass of the loop: whether the thread goes on (an exception ends it), the requests left in the queue, the bytes the socket
  took, the reports pushed, and what is left to read.
\<close>

record gateway_result =
  gr_running :: bool
  gr_requests :: "Message list"
  gr_bytes :: "u8 list"
  gr_reports :: "Message list"
  gr_recvs :: "recv_call list"

definition gateway_pass :: "gateway_env \<Rightarrow> Gateway \<Rightarrow> gateway_result \<times> Gateway" where
  "gateway_pass env g =
     (case gateway_take (ge_write_now env) (ge_requests env) g of
        None \<Rightarrow> (\<lparr>gr_running = False, gr_requests = [], gr_bytes = [], gr_reports = [], gr_recvs = ge_recvs env\<rparr>, g)
      | Some (requests, g1) \<Rightarrow>
          let idle = \<lparr>gr_running = True, gr_requests = requests, gr_bytes = [], gr_reports = [], gr_recvs = ge_recvs env\<rparr> in
          (case ge_poll env of
             GP_Interrupted \<Rightarrow> (idle, g1)
           | GP_Failed \<Rightarrow> (idle\<lparr>gr_running := False\<rparr>, g1)
           | GP_Ready readable writable broken woken \<Rightarrow>
               if woken \<and> \<not> ge_cleared env then (idle\<lparr>gr_running := False\<rparr>, g1)
               else
                 let (fr, bytes, out, sent) =
                       (if writable then flush frame_size 64 (ge_sends env) (g_output g1) (g_sent g1)
                        else (Flush_Done, [], g_output g1, g_sent g1));
                     g2 = g1\<lparr>g_output := out, g_sent := sent\<rparr> in
                 if fr \<noteq> Flush_Done then (idle\<lparr>gr_running := False, gr_bytes := bytes\<rparr>, g2)
                 else
                   let (ok, ms, recvs, g3) =
                         (if readable then gateway_read 64 (ge_read_now env) (ge_recvs env) (ge_pushes env) g2
                          else (True, [], ge_recvs env, g2)) in
                   (idle\<lparr>gr_running := (ok \<and> \<not> broken \<and> \<not> gateway_late (ge_now env) g3), gr_bytes := bytes,
                      gr_reports := ms, gr_recvs := recvs\<rparr>, g3)))"

section \<open>The subscriber thread\<close>

record packet =
  pk_bytes :: "u8 list"
  pk_truncated :: bool

text \<open>What is queued for a datagram; anything unusable becomes a message the replica refuses.\<close>

definition subscriber_message :: "packet \<Rightarrow> Message" where
  "subscriber_message p =
     (case (if \<not> pk_truncated p \<and> length (pk_bytes p) = frame_size then decode (pk_bytes p) else None) of
        Some m \<Rightarrow> if m_kind m = Delta \<or> m_kind m = Heartbeat then m else default_message\<lparr>m_kind := Kind_Other\<rparr>
      | None \<Rightarrow> default_message\<lparr>m_kind := Kind_Other\<rparr>)"

datatype subscriber_poll = SP_Interrupted | SP_Failed | SP_Idle | SP_Packet "packet option"

text \<open>One pass: whether the thread goes on, and the message pushed.\<close>

definition subscriber_pass :: "subscriber_poll \<Rightarrow> push_result \<Rightarrow> bool \<times> Message list" where
  "subscriber_pass p r =
     (case p of
        SP_Failed \<Rightarrow> (False, [])
      | SP_Packet (Some d) \<Rightarrow> if r = Push_Stopped then (False, []) else (True, [subscriber_message d])
      | _ \<Rightarrow> (True, []))"

section \<open>The workers neither lose nor invent messages\<close>

text \<open>
  A run of passes. Requests queued and bytes arrived meanwhile join what the pass before has left; the
  run goes on while the thread does.
\<close>

fun gateway_run :: "gateway_env list \<Rightarrow> Message list \<Rightarrow> recv_call list \<Rightarrow> Gateway \<Rightarrow> gateway_result \<times> Gateway" where
  "gateway_run [] requests recvs g =
     (\<lparr>gr_running = True, gr_requests = requests, gr_bytes = [], gr_reports = [], gr_recvs = recvs\<rparr>, g)"
| "gateway_run (env # envs) requests recvs g =
     (case gateway_pass (env\<lparr>ge_requests := requests @ ge_requests env, ge_recvs := recvs @ ge_recvs env\<rparr>) g of (r, g1) \<Rightarrow>
        if gr_running r
        then (case gateway_run envs (gr_requests r) (gr_recvs r) g1 of (r', g2) \<Rightarrow>
          (r'\<lparr>gr_bytes := gr_bytes r @ gr_bytes r', gr_reports := gr_reports r @ gr_reports r'\<rparr>, g2))
        else (r, g1))"

definition gateway_ok :: "Gateway \<Rightarrow> bool" where
  "gateway_ok g \<longleftrightarrow> length (g_input g) = frame_size \<and> g_used g < frame_size \<and> output_ok frame_size (g_output g) (g_sent g)"

definition frames_of :: "Message list \<Rightarrow> u8 list" where
  "frames_of ms = concat (map encode_frame ms)"

lemma frames_of_simps [simp]:
  "frames_of [] = []" "frames_of (m # ms) = encode_frame m @ frames_of ms" "frames_of (ms @ ms') = frames_of ms @ frames_of ms'"
  by (simp_all add: frames_of_def)

lemma arriving_append [simp]: "arriving (a @ b) = arriving a @ arriving b"
  by (simp add: arriving_def)

lemma unsent_append: "output_ok n frames sent \<Longrightarrow> unsent (frames @ fs) sent = unsent frames sent @ concat fs"
  by (cases frames) (auto simp: unsent_def output_ok_def)

lemma gateway_take_on:
  "gateway_take now requests g = Some (rest, g') \<Longrightarrow> gateway_ok g \<Longrightarrow>
   \<exists>taken. requests = taken @ rest \<and> list_all message_ok taken \<and> gateway_ok g' \<and>
     unsent (g_output g') (g_sent g') = unsent (g_output g) (g_sent g) @ frames_of taken \<and>
     g_input g' = g_input g \<and> g_used g' = g_used g"
proof (induction now requests g rule: gateway_take.induct)
  case (2 now request requests g)
  show ?case
  proof (cases "length (g_output g) < 4096")
    case True
    then have ok: "message_ok request" using "2.prems"(1) encode_throws by (cases "message_ok request") auto
    note enc = encode_ok [OF ok]
    let ?g = "g\<lparr>g_write_started := (if g_output g = [] then now else g_write_started g), g_output := g_output g @ [encode_frame request]\<rparr>"
    have g: "gateway_ok ?g" using "2.prems"(2) by (auto simp: gateway_ok_def output_ok_def frame_size_def)
    have "gateway_take now requests ?g = Some (rest, g')" using "2.prems"(1) True enc by simp
    from "2.IH" [OF True enc this g] obtain taken where t: "requests = taken @ rest" "list_all message_ok taken" "gateway_ok g'"
        "unsent (g_output g') (g_sent g') = unsent (g_output ?g) (g_sent ?g) @ frames_of taken"
        "g_input g' = g_input g" "g_used g' = g_used g" by auto
    have "unsent (g_output ?g) (g_sent ?g) = unsent (g_output g) (g_sent g) @ encode_frame request"
      using "2.prems"(2) unsent_append [of frame_size "g_output g" "g_sent g"] by (simp add: gateway_ok_def)
    then show ?thesis using t ok by (intro exI [of _ "request # taken"]) simp
  qed (use 2 in \<open>auto intro: exI [of _ "[]"]\<close>)
qed (auto intro: exI [of _ "[]"])

lemma gateway_read_on:
  "gateway_read budget now recvs pushes g = (True, ms, rest, g') \<Longrightarrow> gateway_ok g \<Longrightarrow> Push_Stopped \<notin> set pushes \<Longrightarrow>
   gateway_ok g' \<and> g_output g' = g_output g \<and> g_sent g' = g_sent g \<and> list_all (\<lambda>m. m_kind m = Report) ms \<and>
   take (g_used g) (g_input g) @ arriving recvs = frames_of ms @ take (g_used g') (g_input g') @ arriving rest"
proof (induction budget arbitrary: recvs pushes g ms rest g')
  case (Suc budget)
  let ?g1 = "if g_used g = 0 then g\<lparr>g_read_started := now\<rparr> else g"
  obtain r input used recvs' where rd: "read_frame frame_size recvs (g_input ?g1) (g_used ?g1) = (r, input, used, recvs')"
    by (metis prod_cases4)
  let ?g2 = "?g1\<lparr>g_input := input, g_used := used\<rparr>"
  have same: "g_input ?g1 = g_input g" "g_used ?g1 = g_used g" "g_output ?g2 = g_output g" "g_sent ?g2 = g_sent g" by auto
  have on: "reads_on frame_size (take (g_used g) (g_input g) @ arriving recvs) (r, input, used, recvs')"
    using read_frame_on [of "g_input g" frame_size "g_used g" recvs] Suc.prems(2) rd
    unfolding same by (simp add: gateway_ok_def)
  have pos: "0 < frame_size" by (simp add: frame_size_def)
  have g2: "gateway_ok ?g2" using Suc.prems(2) on pos same(3,4)
    by (auto simp: gateway_ok_def reads_on_def split: if_splits)
  note run = Suc.prems(1) [unfolded gateway_read.simps Let_def rd prod.case]
  show ?case
  proof (cases "r = Read_Again")
    case True
    then have out: "ms = []" "rest = recvs'" "g' = ?g2" using run by auto
    show ?thesis unfolding out using g2 same on True by (simp add: reads_on_def)
  next
    case na: False
    then have fr: "r = Read_Frame" using run by (auto split: if_splits)
    obtain m where m: "decode input = Some m" "m_kind m = Report" using run na fr by (auto split: option.splits if_splits)
    have len: "length input = frame_size" "used = 0" "take (g_used g) (g_input g) @ arriving recvs = input @ arriving recvs'"
      using on fr by (auto simp: reads_on_def)
    have frame: "encode_frame m = input" using decode_canonical [of input m] m(1) len(1) by (simp add: frame_size_def)
    have "pushes = [] \<or> hd pushes = Pushed"
      using run na fr m Suc.prems(3) by (cases pushes; cases "hd pushes") auto
    then obtain ms' where step: "gateway_read budget now recvs' (tl pushes) ?g2 = (True, ms', rest, g')" "ms = m # ms'"
      using run na fr m by (cases pushes) (auto split: prod.splits)
    have "Push_Stopped \<notin> set (tl pushes)" using Suc.prems(3) by (cases pushes) auto
    from Suc.IH [OF step(1) g2 this] show ?thesis unfolding step(2) using len(2,3) same m(2) by (simp add: frame)
  qed
qed simp

text \<open>Nothing is lost in a pass that keeps the thread running.\<close>

lemma gateway_pass_on:
  assumes pass: "gateway_pass env g = (r, g')" and run: "gr_running r" and ok: "gateway_ok g"
    and push: "Push_Stopped \<notin> set (ge_pushes env)"
  shows "\<exists>taken. ge_requests env = taken @ gr_requests r \<and> list_all message_ok taken \<and> gateway_ok g' \<and>
    gr_bytes r @ unsent (g_output g') (g_sent g') = unsent (g_output g) (g_sent g) @ frames_of taken \<and>
    list_all (\<lambda>m. m_kind m = Report) (gr_reports r) \<and>
    take (g_used g) (g_input g) @ arriving (ge_recvs env) =
      frames_of (gr_reports r) @ take (g_used g') (g_input g') @ arriving (gr_recvs r)"
proof -
  obtain rest g1 where take: "gateway_take (ge_write_now env) (ge_requests env) g = Some (rest, g1)"
    using pass run by (auto simp: gateway_pass_def split: option.splits)
  obtain taken where t: "ge_requests env = taken @ rest" "list_all message_ok taken" "gateway_ok g1"
      "unsent (g_output g1) (g_sent g1) = unsent (g_output g) (g_sent g) @ frames_of taken"
      "g_input g1 = g_input g" "g_used g1 = g_used g"
    using gateway_take_on [OF take ok] by blast
  note body = pass [unfolded gateway_pass_def take option.case prod.case Let_def]
  show ?thesis
  proof (cases "ge_poll env")
    case GP_Interrupted
    then have "r = \<lparr>gr_running = True, gr_requests = rest, gr_bytes = [], gr_reports = [], gr_recvs = ge_recvs env\<rparr>" "g' = g1"
      using body by auto
    then show ?thesis using t by (intro exI [of _ taken]) simp
  next
    case GP_Failed
    then show ?thesis using body run by auto
  next
    case (GP_Ready readable writable broken woken)
    have awake: "\<not> (woken \<and> \<not> ge_cleared env)" using body run GP_Ready by (auto split: if_splits)
    obtain fr bytes out sent where fl: "(if writable then flush frame_size 64 (ge_sends env) (g_output g1) (g_sent g1)
        else (Flush_Done, [], g_output g1, g_sent g1)) = (fr, bytes, out, sent)" by (metis prod_cases4)
    let ?g2 = "g1\<lparr>g_output := out, g_sent := sent\<rparr>"
    have out: "output_ok frame_size out sent" "bytes @ unsent out sent = unsent (g_output g1) (g_sent g1)"
      using fl t(3) flush_on [of frame_size "g_output g1" "g_sent g1" 64 "ge_sends env" fr bytes out sent]
      by (auto simp: gateway_ok_def split: if_splits)
    have g2: "gateway_ok ?g2" using t(3) out(1) by (simp add: gateway_ok_def)
    have frd: "fr = Flush_Done" using body run GP_Ready awake fl by (auto split: if_splits)
    obtain ok3 ms recvs g3 where rd: "(if readable then gateway_read 64 (ge_read_now env) (ge_recvs env) (ge_pushes env) ?g2
        else (True, [], ge_recvs env, ?g2)) = (ok3, ms, recvs, g3)" by (metis prod_cases4)
    have res: "g' = g3" "r = \<lparr>gr_running = True, gr_requests = rest, gr_bytes = bytes, gr_reports = ms, gr_recvs = recvs\<rparr>" "ok3"
      using body run GP_Ready awake fl frd rd by auto
    have "gateway_ok g3 \<and> g_output g3 = out \<and> g_sent g3 = sent \<and> list_all (\<lambda>m. m_kind m = Report) ms \<and>
        take (g_used g) (g_input g) @ arriving (ge_recvs env) = frames_of ms @ take (g_used g3) (g_input g3) @ arriving recvs"
      using rd res(3) g2 t(5,6) gateway_read_on [OF _ g2 push, of 64 "ge_read_now env" "ge_recvs env" ms recvs g3]
      by (auto split: if_splits)
    then show ?thesis unfolding res using t out(2) by (intro exI [of _ taken]) simp
  qed
qed

lemma gateway_run_on:
  "gateway_run envs requests recvs g = (r, g') \<Longrightarrow> gr_running r \<Longrightarrow> gateway_ok g \<Longrightarrow>
   list_all (\<lambda>env. Push_Stopped \<notin> set (ge_pushes env)) envs \<Longrightarrow>
   \<exists>taken. requests @ concat (map ge_requests envs) = taken @ gr_requests r \<and> list_all message_ok taken \<and> gateway_ok g' \<and>
     gr_bytes r @ unsent (g_output g') (g_sent g') = unsent (g_output g) (g_sent g) @ frames_of taken \<and>
     list_all (\<lambda>m. m_kind m = Report) (gr_reports r) \<and>
     take (g_used g) (g_input g) @ arriving (recvs @ concat (map ge_recvs envs)) =
       frames_of (gr_reports r) @ take (g_used g') (g_input g') @ arriving (gr_recvs r)"
proof (induction envs arbitrary: requests recvs g r)
  case (Cons env envs)
  let ?env = "env\<lparr>ge_requests := requests @ ge_requests env, ge_recvs := recvs @ ge_recvs env\<rparr>"
  obtain r1 g1 where p: "gateway_pass ?env g = (r1, g1)" by force
  have go: "gr_running r1" using Cons.prems(1,2) p by (auto split: if_splits)
  obtain r2 where run: "gateway_run envs (gr_requests r1) (gr_recvs r1) g1 = (r2, g')"
      "r = r2\<lparr>gr_bytes := gr_bytes r1 @ gr_bytes r2, gr_reports := gr_reports r1 @ gr_reports r2\<rparr>"
    using Cons.prems(1) p go by (auto split: prod.splits)
  from gateway_pass_on [OF p go Cons.prems(3)] obtain t1 where
      t1: "requests @ ge_requests env = t1 @ gr_requests r1" "list_all message_ok t1" "gateway_ok g1"
      "gr_bytes r1 @ unsent (g_output g1) (g_sent g1) = unsent (g_output g) (g_sent g) @ frames_of t1"
      "list_all (\<lambda>m. m_kind m = Report) (gr_reports r1)"
      "take (g_used g) (g_input g) @ arriving (recvs @ ge_recvs env) =
        frames_of (gr_reports r1) @ take (g_used g1) (g_input g1) @ arriving (gr_recvs r1)"
    using Cons.prems(4) by auto
  from Cons.IH [OF run(1) _ t1(3)] obtain t2 where
      t2: "gr_requests r1 @ concat (map ge_requests envs) = t2 @ gr_requests r2" "list_all message_ok t2" "gateway_ok g'"
      "gr_bytes r2 @ unsent (g_output g') (g_sent g') = unsent (g_output g1) (g_sent g1) @ frames_of t2"
      "list_all (\<lambda>m. m_kind m = Report) (gr_reports r2)"
      "take (g_used g1) (g_input g1) @ arriving (gr_recvs r1 @ concat (map ge_recvs envs)) =
        frames_of (gr_reports r2) @ take (g_used g') (g_input g') @ arriving (gr_recvs r2)"
    using Cons.prems(2,4) run(2) by auto
  have "requests @ concat (map ge_requests (env # envs)) = (t1 @ t2) @ gr_requests r"
    using t1(1) t2(1) run(2) by simp (metis append_assoc)
  moreover have "gr_bytes r @ unsent (g_output g') (g_sent g') = unsent (g_output g) (g_sent g) @ frames_of (t1 @ t2)"
    using t1(4) t2(4) run(2) by simp
  moreover have "take (g_used g) (g_input g) @ arriving (recvs @ concat (map ge_recvs (env # envs))) =
       frames_of (gr_reports r) @ take (g_used g') (g_input g') @ arriving (gr_recvs r)"
    using t1(6) t2(6) run(2) by simp (metis append_assoc)
  moreover have "list_all message_ok (t1 @ t2)" "list_all (\<lambda>m. m_kind m = Report) (gr_reports r)" "gateway_ok g'"
    using t1 t2 run(2) by simp_all
  ultimately show ?case by blast
qed auto

lemma Gateway_new_ok: "gateway_ok (Gateway_new t1 t2)"
  by (simp add: gateway_ok_def Gateway_new_def output_ok_def frame_size_def)

lemma Gateway_new_idle: "unsent (g_output (Gateway_new t1 t2)) (g_sent (Gateway_new t1 t2)) = []" "g_used (Gateway_new t1 t2) = 0"
  by (simp_all add: Gateway_new_def unsent_def)

text \<open>
  C22. The gateway thread is a faithful pipe. As long as it runs, whatever portions the socket takes and delivers: what it has sent, with what it still
  holds, is the frames of the requests it took from the queue, in order, and the reports it pushed are
  the messages of the frames received, in order; an unfinished frame waits in the input buffer.
\<close>

theorem gateway_faithful:
  assumes "gateway_run envs [] [] (Gateway_new t1 t2) = (r, g)" "gr_running r"
    "list_all (\<lambda>env. Push_Stopped \<notin> set (ge_pushes env)) envs"
  shows "\<exists>taken. concat (map ge_requests envs) = taken @ gr_requests r \<and>
    gr_bytes r @ unsent (g_output g) (g_sent g) = frames_of taken \<and>
    arriving (concat (map ge_recvs envs)) = frames_of (gr_reports r) @ take (g_used g) (g_input g) @ arriving (gr_recvs r)"
proof -
  note on = gateway_run_on [OF assms(1,2) Gateway_new_ok assms(3)]
  show ?thesis using on unfolding Gateway_new_idle by auto
qed

definition demo_gateway_env :: gateway_env where
  "demo_gateway_env = \<lparr>ge_requests = [default_message\<lparr>m_client_id := 1\<rparr>], ge_write_now = 0, ge_poll = GP_Ready True True False False,
     ge_cleared = True, ge_sends = [Send 50], ge_recvs = [Recv [1, 2, 3]], ge_read_now = 0, ge_pushes = [], ge_now = 0\<rparr>"

lemma demo_gateway_run: "gr_running (fst (gateway_run [demo_gateway_env] [] [] (Gateway_new 0 0)))"
  by code_simp

theorem gateway_faithful_witness:
  "\<exists>r g taken. gateway_run [demo_gateway_env] [] [] (Gateway_new 0 0) = (r, g) \<and> gr_running r \<and>
    ge_requests demo_gateway_env = taken @ gr_requests r \<and> gr_bytes r @ unsent (g_output g) (g_sent g) = frames_of taken"
proof -
  obtain r g where run: "gateway_run [demo_gateway_env] [] [] (Gateway_new 0 0) = (r, g)" by force
  then have go: "gr_running r" using demo_gateway_run by simp
  show ?thesis using gateway_faithful [OF run go] run go by (auto simp: demo_gateway_env_def)
qed

end
