(* ===== verification/Client.thy ===== *)
theory Client
  imports Strategy Features Client_Workers
begin

text \<open>
  include/order_book/trading/client.hpp and src/trading/client.cpp: the strategy thread of the trading
  client. It owns the order manager, the market replica and the features, submits commands, consumes reports and
  recovers the market from snapshots.

  An operation is a function of the client and of a \<open>world\<close> that holds, in the order they will be asked
  for, the readings of the clock (in nanoseconds), the answers of the queues, the results of system calls and the
  snapshot connections. The queues are first in first out (LF_Queue), so what is popped is what the workers
  pushed, in order. An exception is \<open>Threw\<close>, and the state it leaves is part of the result; \<open>Cut\<close> is an operation
  still under way when the readings of the clock are used up. The report handler of the user is the list of reports given to it.
\<close>

section \<open>State\<close>

record ClientConfig =
  cc_client_id :: ClientId
  cc_tcp_port :: u16
  cc_multicast_port :: u16
  cc_group :: string
  cc_interface :: string
  cc_limits :: InstrumentRules
  cc_max_loss :: rat

record TradingClient =
  tc_config :: ClientConfig
  tc_market :: MarketReplica
  tc_manager :: OrderManager
  tc_features :: FeatureEngine
  tc_request_id :: u64
  tc_epoch :: u64
  tc_recoveries :: u64
  tc_last_market :: int
  tc_closed :: bool
  tc_handled :: "Message list"
  tc_submitted :: "Message list"

text \<open>
  \<open>tc_handled\<close> are the reports given to the handler and \<open>tc_submitted\<close> the commands queued for the gateway.
  A connection is whether it could be made, whether its timeouts could be set, and the results of sending and receiving on it.
\<close>

record connection =
  cn_opened :: bool
  cn_timed :: bool
  cn_sends :: "send_call list"
  cn_recvs :: "recv_call list"

text \<open>\<open>RP_Ready\<close>: \<open>POLLIN\<close>, an error or hang-up, and whether the notification could be cleared.\<close>

datatype report_poll = RP_Interrupted | RP_Failed | RP_Ready bool bool bool

record world =
  w_clock :: "int list"
  w_errors :: "bool list"
  w_market :: "Message option list"
  w_reports :: "Message option list"
  w_room :: "bool list"
  w_stops :: "bool list"
  w_wakes :: "bool list"
  w_polls :: "report_poll list"
  w_connections :: "connection list"
  w_threads :: bool
  w_blocks :: "InstrumentId \<Rightarrow> nat option"
  w_heaps :: "nat \<Rightarrow> nat \<Rightarrow> heap_env"
  w_calls :: nat

datatype client_error = Worker_Error | Invalid_Client_Config | Session_Refused Reject | Client_History | Gateway_Disconnected
  | Malformed_Gateway_Frame | Cannot_Connect | Socket_Failed | Thread_Failed | Snapshot_Too_Large | Exchange_Restarted
  | Restore_Failed replica_error | Replica_Memory | Recovery_Deadline | Report_Poll_Failed | Unexpected_Report
  | Risk_Refused Reject | Client_Is_Closed | Queue_Deadline | Wake_Failed | Command_Deadline

datatype 'a outcome = Done 'a | Threw client_error | Cut

type_synonym 'a act = "TradingClient \<times> world \<Rightarrow> 'a outcome \<times> TradingClient \<times> world"

section \<open>Operations with a world\<close>

definition return_act :: "'a \<Rightarrow> 'a act" where
  "return_act x s = (Done x, s)"

definition throw_act :: "client_error \<Rightarrow> 'a act" where
  "throw_act e s = (Threw e, s)"

definition seq :: "'a act \<Rightarrow> ('a \<Rightarrow> 'b act) \<Rightarrow> 'b act" where
  "seq m f s = (case m s of (Done x, s') \<Rightarrow> f x s' | (Threw e, s') \<Rightarrow> (Threw e, s') | (Cut, s') \<Rightarrow> (Cut, s'))"

definition client :: "(TradingClient \<Rightarrow> TradingClient) \<Rightarrow> unit act" where
  "client f s = (Done (), f (fst s), snd s)"

definition reading :: "(TradingClient \<Rightarrow> 'a) \<Rightarrow> 'a act" where
  "reading f s = (Done (f (fst s)), s)"

text \<open>The next answer of a script of the world, or \<open>d\<close>.\<close>

definition ask :: "(world \<Rightarrow> 'a list) \<Rightarrow> (('a list \<Rightarrow> 'a list) \<Rightarrow> world \<Rightarrow> world) \<Rightarrow> 'a \<Rightarrow> 'a act" where
  "ask get upd d s = (Done (case get (snd s) of [] \<Rightarrow> d | x # _ \<Rightarrow> x), fst s, upd tl (snd s))"

definition now :: "int act" where
  "now s = (case w_clock (snd s) of [] \<Rightarrow> (Cut, s) | t # ts \<Rightarrow> (Done t, fst s, (snd s)\<lparr>w_clock := ts\<rparr>))"

text \<open>
  A loop with the variables \<open>l\<close>: the body goes on with new ones (\<open>Inl\<close>) or leaves with a result (\<open>Inr\<close>).
  Every body below reads the clock before it goes on, so there cannot be more rounds than readings.
\<close>

primrec rounds :: "nat \<Rightarrow> ('l \<Rightarrow> ('l + 'a) act) \<Rightarrow> 'l \<Rightarrow> 'a act" where
  "rounds 0 body l = (\<lambda>s. (Cut, s))"
| "rounds (Suc n) body l = seq (body l) (\<lambda>r. case r of Inl l' \<Rightarrow> rounds n body l' | Inr x \<Rightarrow> return_act x)"

definition loop :: "('l \<Rightarrow> ('l + 'a) act) \<Rightarrow> 'l \<Rightarrow> 'a act" where
  "loop body l s = rounds (Suc (length (w_clock (snd s)))) body l s"

section \<open>The transport\<close>

definition check :: "unit act" where
  "check = seq (ask w_errors w_errors_update False) (\<lambda>failed. if failed then throw_act Worker_Error else return_act ())"

definition pop_market :: "Message option act" where
  "pop_market = ask w_market w_market_update None"

definition pop_reports :: "Message option act" where
  "pop_reports = ask w_reports w_reports_update None"

definition poll_reports :: "report_poll act" where
  "poll_reports = ask w_polls w_polls_update (RP_Ready False False True)"

definition room_round :: "int \<Rightarrow> (unit + unit) act" where
  "room_round deadline = seq (ask w_room w_room_update True) (\<lambda>room.
     if room then return_act (Inr ())
     else seq check (\<lambda>_. seq now (\<lambda>t. seq (ask w_stops w_stops_update False) (\<lambda>stopped.
       if deadline < t \<or> stopped then throw_act Queue_Deadline else return_act (Inl ())))))"

definition await_room :: "int \<Rightarrow> unit act" where
  "await_room deadline = loop (\<lambda>_. room_round deadline) ()"

definition transport_send :: "Message \<Rightarrow> unit act" where
  "transport_send command = seq now (\<lambda>start. seq (await_room (start + 3000000000)) (\<lambda>_.
     seq (client (\<lambda>c. c\<lparr>tc_submitted := tc_submitted c @ [command]\<rparr>)) (\<lambda>_.
     seq (ask w_wakes w_wakes_update True) (\<lambda>woken. if woken then check else throw_act Wake_Failed))))"

definition connect :: "connection act" where
  "connect = seq (ask w_connections w_connections_update \<lparr>cn_opened = False, cn_timed = False, cn_sends = [], cn_recvs = []\<rparr>)
     (\<lambda>q. if cn_opened q then return_act q else throw_act Cannot_Connect)"

definition timeout :: "connection \<Rightarrow> unit act" where
  "timeout q = (if cn_timed q then return_act () else throw_act Socket_Failed)"

text \<open>The sockets have a timeout of two seconds: a call that does not return fails.\<close>

definition send_message :: "connection \<Rightarrow> Message \<Rightarrow> unit act" where
  "send_message q m =
     (case encode m of
        None \<Rightarrow> throw_act Socket_Failed
      | Some frame \<Rightarrow> if fst (send_all (cn_sends q) frame) = Sent then return_act () else throw_act Socket_Failed)"

definition received :: "recv_call list \<Rightarrow> client_error + Message \<times> recv_call list" where
  "received calls =
     (case receive_exact frame_size calls [] of (r, frame, rest) \<Rightarrow>
        if r = Received
        then (case decode frame of None \<Rightarrow> Inl Malformed_Gateway_Frame | Some m \<Rightarrow> Inr (m, rest))
        else Inl (if r = Receive_Eof then Gateway_Disconnected else Socket_Failed))"

definition receive :: "recv_call list \<Rightarrow> (Message \<times> recv_call list) act" where
  "receive calls = (case received calls of Inl e \<Rightarrow> throw_act e | Inr x \<Rightarrow> return_act x)"

section \<open>Recovering the market\<close>

definition invalidate_market :: "unit act" where
  "invalidate_market = client (\<lambda>c. c\<lparr>tc_market := replica_invalidate (tc_market c)\<rparr>)"

definition restore_market :: "Message list \<Rightarrow> unit act" where
  "restore_market rows s =
     (let (c, w) = s; w' = w\<lparr>w_calls := Suc (w_calls w)\<rparr> in
      case replica_restore (w_blocks w) (w_heaps w (w_calls w)) rows (tc_market c) of
        (Some e, R) \<Rightarrow> (Threw (Restore_Failed e), c\<lparr>tc_market := R\<rparr>, w')
      | (None, R) \<Rightarrow>
          (Done (), c\<lparr>tc_market := R, tc_features :=
             foldl (\<lambda>F row. if m_kind row = SnapshotOrder
                 then features_refresh (m_instrument_id row) (replica_book (m_instrument_id row) R) F else F)
               (features_reset (tc_features c)) rows\<rparr>, w'))"

text \<open>An update from the multicast, with the features before and after it.\<close>

definition apply_market :: "Message \<Rightarrow> bool act" where
  "apply_market m s =
     (let (c, w) = s; w' = w\<lparr>w_calls := Suc (w_calls w)\<rparr>; R = tc_market c; i = m_instrument_id m;
          fresh = (m_kind m = Delta \<and> m_epoch m = r_epoch R \<and> r_sequence R < m_sequence m);
          F = (if fresh then features_before m (replica_book i R) (tc_features c) else tc_features c) in
      case replica_consume (w_blocks w) (w_heaps w (w_calls w) 0) m R of
        None \<Rightarrow> (Threw Replica_Memory, c\<lparr>tc_features := F\<rparr>, w')
      | Some (ok, R') \<Rightarrow>
          (Done ok, c\<lparr>tc_market := R', tc_features :=
             (if ok \<and> fresh then features_after m (replica_book i R') F else F)\<rparr>, w'))"

definition snapshot_round :: "int \<Rightarrow> recv_call list \<times> Message list \<Rightarrow> (recv_call list \<times> Message list + bool) act" where
  "snapshot_round deadline l = (case l of (calls, snapshot) \<Rightarrow> seq now (\<lambda>t.
     if deadline \<le> t then return_act (Inr False)
     else seq (receive calls) (\<lambda>(m, rest).
       let rows = snapshot @ [m] in
       if 1000000 < length rows then throw_act Snapshot_Too_Large
       else if m_kind m \<noteq> SnapshotEnd then return_act (Inl (rest, rows))
       else seq (reading tc_epoch) (\<lambda>epoch.
         if m_epoch m \<noteq> epoch then throw_act Exchange_Restarted
         else seq (restore_market rows) (\<lambda>_. return_act (Inr True))))))"

definition receive_snapshot :: "int \<Rightarrow> recv_call list \<Rightarrow> bool act" where
  "receive_snapshot deadline calls = loop (snapshot_round deadline) (calls, [])"

text \<open>The buffered suffix; using up the budget counts as invalid.\<close>

primrec verify_suffix :: "nat \<Rightarrow> bool act" where
  "verify_suffix 0 = return_act False"
| "verify_suffix (Suc budget) = seq pop_market (\<lambda>r. case r of
     None \<Rightarrow> return_act True
   | Some m \<Rightarrow> seq check (\<lambda>_. seq (apply_market m) (\<lambda>ok. if ok then verify_suffix budget else return_act False)))"

definition recover_round :: "int \<Rightarrow> (unit + unit) act" where
  "recover_round deadline = seq now (\<lambda>t.
     if deadline \<le> t then throw_act Recovery_Deadline
     else seq connect (\<lambda>q. seq (timeout q) (\<lambda>_. seq (send_message q (default_message\<lparr>m_action := Act_Snapshot\<rparr>)) (\<lambda>_.
       seq (receive_snapshot deadline (cn_recvs q)) (\<lambda>complete.
         if \<not> complete then throw_act Recovery_Deadline
         else seq (reading tc_closed) (\<lambda>closed.
           seq (if closed then return_act True else verify_suffix 4096) (\<lambda>valid.
             if valid
             then seq now (\<lambda>t'. seq (client (\<lambda>c. c\<lparr>tc_last_market := t', tc_recoveries := tc_recoveries c + 1\<rparr>))
               (\<lambda>_. return_act (Inr ())))
             else seq invalidate_market (\<lambda>_. return_act (Inl ())))))))))"

definition recover :: "unit act" where
  "recover = seq invalidate_market (\<lambda>_. seq now (\<lambda>start. loop (\<lambda>_. recover_round (start + 3000000000)) ()))"

text \<open>One round of the draining loop: \<open>Inr\<close> says whether to recover.\<close>

definition drain_one :: "(unit + bool) act" where
  "drain_one = seq pop_market (\<lambda>r. case r of
       None \<Rightarrow> return_act (Inr False)
     | Some m \<Rightarrow> seq (apply_market m) (\<lambda>ok.
         if \<not> ok then return_act (Inr True)
         else seq now (\<lambda>t. seq (client (\<lambda>c. c\<lparr>tc_last_market := t\<rparr>)) (\<lambda>_. return_act (Inl ())))))"

definition drain_round :: "int \<Rightarrow> (unit + bool) act" where
  "drain_round until = seq now (\<lambda>t. if until \<le> t then return_act (Inr False) else seq check (\<lambda>_. drain_one))"

definition drain_market :: "unit act" where
  "drain_market = seq now (\<lambda>start. seq (loop (\<lambda>_. drain_round (start + 5000000)) ())
     (\<lambda>needs_recovery.
       if needs_recovery then recover
       else seq now (\<lambda>t. seq (reading tc_last_market) (\<lambda>last_market.
         if 500000000 < t - last_market then recover else return_act ()))))"

section \<open>Reports and commands\<close>

definition report_round :: "int \<Rightarrow> (unit + Message option) act" where
  "report_round deadline = seq pop_reports (\<lambda>r. case r of
       Some m \<Rightarrow> return_act (Inr (Some m))
     | None \<Rightarrow> seq check (\<lambda>_. seq now (\<lambda>t.
         if deadline \<le> t then return_act (Inr None)
         else seq poll_reports (\<lambda>p. case p of
             RP_Interrupted \<Rightarrow> return_act (Inl ())
           | RP_Failed \<Rightarrow> throw_act Report_Poll_Failed
           | RP_Ready readable broken cleared \<Rightarrow>
               if readable \<and> \<not> cleared \<or> broken then throw_act Report_Poll_Failed else return_act (Inl ())))))"

definition next_report :: "int \<Rightarrow> Message option act" where
  "next_report deadline = loop (\<lambda>_. report_round deadline) ()"

definition consume_report :: "Message \<Rightarrow> Message option act" where
  "consume_report m = seq (reading (\<lambda>c. m_kind m = Report \<and> m_client_id m = cc_client_id (tc_config c) \<and> m_epoch m = tc_epoch c)) (\<lambda>own.
     if \<not> own then throw_act Unexpected_Report
     else seq (client (\<lambda>c. case manager_consume m (tc_manager c) of (used, M) \<Rightarrow>
         c\<lparr>tc_manager := M, tc_handled := tc_handled c @ (if used then [m] else [])\<rparr>)) (\<lambda>_. return_act (Some m)))"

definition receive_report :: "int \<Rightarrow> Message option act" where
  "receive_report wait = seq check (\<lambda>_. seq now (\<lambda>start. seq (next_report (start + wait)) (\<lambda>r. case r of
     None \<Rightarrow> return_act None | Some m \<Rightarrow> consume_report m)))"

primrec receive_reports :: "nat \<Rightarrow> unit act" where
  "receive_reports 0 = return_act ()"
| "receive_reports (Suc budget) = seq (receive_report 0) (\<lambda>r. case r of
     None \<Rightarrow> return_act () | Some _ \<Rightarrow> receive_reports budget)"

definition poll_round :: "int \<Rightarrow> (unit + unit) act" where
  "poll_round deadline = seq (receive_reports 4096) (\<lambda>_. seq drain_market (\<lambda>_. seq now (\<lambda>_. seq now (\<lambda>t.
     return_act (if t < deadline then Inl () else Inr ())))))"

definition client_poll :: "int \<Rightarrow> unit act" where
  "client_poll duration = seq now (\<lambda>start. loop (\<lambda>_. poll_round (start + duration)) ())"

definition cancellation :: "Message \<Rightarrow> bool" where
  "cancellation command \<longleftrightarrow> m_action command = Act_Cancel \<or> m_action command = Act_CancelAll"

text \<open>The reports to a command until it is complete.\<close>

definition await_round :: "Message \<Rightarrow> int \<Rightarrow> Message list \<Rightarrow> (Message list + Message list) act" where
  "await_round command deadline result = seq now (\<lambda>t.
     if deadline \<le> t then throw_act Command_Deadline
     else seq (receive_report 10000000) (\<lambda>r.
       let own = (case r of Some m \<Rightarrow> if m_request_id m = m_request_id command then [m] else [] | None \<Rightarrow> []) in
       if list_ex (\<lambda>m. m_report m = Rpt_Complete) own then return_act (Inr (result @ own))
       else seq (if cancellation command then return_act () else drain_market) (\<lambda>_. return_act (Inl (result @ own)))))"

definition await :: "Message \<Rightarrow> int \<Rightarrow> Message list act" where
  "await command deadline = loop (await_round command deadline) []"

definition number_command :: "Message \<Rightarrow> Message act" where
  "number_command command = seq (client (\<lambda>c. c\<lparr>tc_request_id := tc_request_id c + 1\<rparr>)) (\<lambda>_.
     reading (\<lambda>c. command\<lparr>m_kind := Command, m_client_id := cc_client_id (tc_config c), m_request_id := tc_request_id c\<rparr>))"

definition dispatch :: "Message \<Rightarrow> Message list act" where
  "dispatch command = seq (number_command command) (\<lambda>m. seq (reading tc_closed) (\<lambda>closed.
     if closed then throw_act Client_Is_Closed
     else seq (transport_send m) (\<lambda>_. seq now (\<lambda>start. await m (start + 3000000000)))))"

definition client_submit :: "Message \<Rightarrow> Message list act" where
  "client_submit command =
     seq (if cancellation command then receive_reports 4096 else client_poll 0) (\<lambda>_.
     seq (reading (\<lambda>c. manager_check command (cc_limits (tc_config c)) (tc_market c) (cc_max_loss (tc_config c)) (tc_manager c))) (\<lambda>risk.
       if risk \<noteq> Rej_None then throw_act (Risk_Refused risk) else dispatch command))"

section \<open>Life of a client\<close>

definition TradingClient_init :: "ClientConfig \<Rightarrow> int \<Rightarrow> TradingClient" where
  "TradingClient_init config t = \<lparr>tc_config = config, tc_market = replica_new, tc_manager = manager_new, tc_features = features_new,
     tc_request_id = 0, tc_epoch = 0, tc_recoveries = 0, tc_last_market = t, tc_closed = False, tc_handled = [], tc_submitted = []\<rparr>"

definition start_threads :: "unit act" where
  "start_threads s = (if w_threads (snd s) then Done () else Threw Thread_Failed, s)"

definition TradingClient_new :: "ClientConfig \<Rightarrow> unit act" where
  "TradingClient_new config = seq connect (\<lambda>gateway. seq now (\<lambda>t. seq (client (\<lambda>_. TradingClient_init config t)) (\<lambda>_.
     if cc_client_id config = 0 \<or> cc_max_loss config < 0 then throw_act Invalid_Client_Config
     else seq (timeout gateway) (\<lambda>_. seq (send_message gateway (default_message\<lparr>m_action := Act_Status, m_client_id := cc_client_id config\<rparr>)) (\<lambda>_.
       seq (receive (cn_recvs gateway)) (\<lambda>(status, _).
         if m_kind status \<noteq> Report \<or> m_report status \<noteq> Rpt_Status then throw_act (Session_Refused (m_reject status))
         else if m_request_id status \<noteq> 0 then throw_act Client_History
         else seq (client (\<lambda>c. c\<lparr>tc_request_id := m_request_id status, tc_epoch := m_epoch status\<rparr>)) (\<lambda>_.
           seq start_threads (\<lambda>_. recover))))))))"

definition client_close :: "bool \<Rightarrow> unit act" where
  "client_close cancel_orders = seq (reading tc_closed) (\<lambda>closed.
     if closed then return_act ()
     else seq (reading (\<lambda>c. om_orders (tc_manager c) \<noteq> [])) (\<lambda>pending.
       seq (if cancel_orders \<and> pending
            then seq (client_submit (default_message\<lparr>m_action := Act_CancelAll\<rparr>)) (\<lambda>_. return_act ()) else return_act ()) (\<lambda>_.
       seq check (\<lambda>_. client (\<lambda>c. c\<lparr>tc_closed := True\<rparr>)))))"

text \<open>The calls of a user, in any order; each meets a world of its own and an exception does not end the client.\<close>

datatype client_call = Call_Recover | Call_Poll int | Call_Submit Message | Call_Close bool

fun call_act :: "client_call \<Rightarrow> unit act" where
  "call_act Call_Recover = recover"
| "call_act (Call_Poll duration) = client_poll duration"
| "call_act (Call_Submit command) = seq (client_submit command) (\<lambda>_. return_act ())"
| "call_act (Call_Close cancel_orders) = client_close cancel_orders"

fun client_run :: "(client_call \<times> world) list \<Rightarrow> TradingClient \<Rightarrow> TradingClient" where
  "client_run [] c = c"
| "client_run ((call, w) # calls) c = client_run calls (fst (snd (call_act call (c, w))))"

end
