(* ===== verification/Client_Logic.thy ===== *)
theory Client_Logic
  imports Client "HOL-Library.Sublist"
begin

text \<open>
  Reasoning about the strategy thread. \<open>wp m Q E s\<close> says that from \<open>s\<close> the operation \<open>m\<close> returns with \<open>Q\<close>, or
  throws or is cut off with \<open>E\<close>; the rules of \<open>wp\<close> reduce it to the steps of the operation, and a loop to an invariant.
\<close>

named_theorems wp

definition wp :: "'a act \<Rightarrow> ('a \<Rightarrow> TradingClient \<times> world \<Rightarrow> bool) \<Rightarrow> (TradingClient \<times> world \<Rightarrow> bool) \<Rightarrow> TradingClient \<times> world \<Rightarrow> bool" where
  "wp m Q E s = (case m s of (Done x, s') \<Rightarrow> Q x s' | (_, s') \<Rightarrow> E s')"

lemma wp_return [wp]: "wp (return_act x) Q E = Q x"
  by (simp add: fun_eq_iff wp_def return_act_def)

lemma wp_throw [wp]: "wp (throw_act e) Q E = E"
  by (simp add: fun_eq_iff wp_def throw_act_def)

lemma wp_seq [wp]: "wp (seq m f) Q E = wp m (\<lambda>x. wp (f x) Q E) E"
  by (simp add: fun_eq_iff wp_def seq_def split: prod.splits outcome.splits)

lemma wp_client [wp]: "wp (client f) Q E s = Q () (f (fst s), snd s)"
  by (simp add: wp_def client_def)

lemma wp_reading [wp]: "wp (reading f) Q E s = Q (f (fst s)) s"
  by (simp add: wp_def reading_def)

lemma wp_ask [wp]: "wp (ask get upd d) Q E s = Q (case get (snd s) of [] \<Rightarrow> d | x # _ \<Rightarrow> x) (fst s, upd tl (snd s))"
  by (simp add: wp_def ask_def)

lemma wp_now [wp]: "wp now Q E s = (case w_clock (snd s) of [] \<Rightarrow> E s | t # ts \<Rightarrow> Q t (fst s, (snd s)\<lparr>w_clock := ts\<rparr>))"
  by (simp add: wp_def now_def split: list.splits)

lemma wp_if [wp]: "wp (if b then m else n) Q E s = (if b then wp m Q E s else wp n Q E s)"
  by simp

lemma wp_option [wp]:
  "wp (case r of None \<Rightarrow> m | Some x \<Rightarrow> f x) Q E s = (case r of None \<Rightarrow> wp m Q E s | Some x \<Rightarrow> wp (f x) Q E s)"
  by (simp split: option.splits)

lemma wp_sum [wp]:
  "wp (case r of Inl e \<Rightarrow> m e | Inr x \<Rightarrow> f x) Q E s = (case r of Inl e \<Rightarrow> wp (m e) Q E s | Inr x \<Rightarrow> wp (f x) Q E s)"
  by (simp split: sum.splits)

lemma wp_prod [wp]: "wp (case r of (x, y) \<Rightarrow> f x y) Q E s = (case r of (x, y) \<Rightarrow> wp (f x y) Q E s)"
  by (simp split: prod.splits)

lemma wp_poll [wp]:
  "wp (case r of RP_Interrupted \<Rightarrow> m | RP_Failed \<Rightarrow> n | RP_Ready a b d \<Rightarrow> f a b d) Q E s =
   (case r of RP_Interrupted \<Rightarrow> wp m Q E s | RP_Failed \<Rightarrow> wp n Q E s | RP_Ready a b d \<Rightarrow> wp (f a b d) Q E s)"
  by (simp split: report_poll.splits)

lemma wp_mono: "wp m Q E s \<Longrightarrow> (\<And>x s'. Q x s' \<Longrightarrow> Q' x s') \<Longrightarrow> (\<And>s'. E s' \<Longrightarrow> E' s') \<Longrightarrow> wp m Q' E' s"
  by (auto simp: wp_def split: prod.splits outcome.splits)

lemma wp_conj: "wp m Q E s \<Longrightarrow> wp m Q' E' s \<Longrightarrow> wp m (\<lambda>x s. Q x s \<and> Q' x s) (\<lambda>s. E s \<and> E' s) s"
  by (auto simp: wp_def split: prod.splits outcome.splits)

lemma wp_after:
  "wp m P E s \<Longrightarrow> (\<And>x s'. P x s' \<Longrightarrow> wp (f x) Q E s') \<Longrightarrow> wp (seq m f) Q E s"
  unfolding wp_seq by (erule wp_mono)

lemma wp_rounds:
  assumes "\<And>l s. I l s \<Longrightarrow> wp (body l) (\<lambda>r s'. case r of Inl l' \<Rightarrow> I l' s' | Inr x \<Rightarrow> Q x s') E s" "\<And>l s. I l s \<Longrightarrow> E s"
  shows "I l s \<Longrightarrow> wp (rounds n body l) Q E s"
proof (induction n arbitrary: l s)
  case 0
  then show ?case using assms(2) by (simp add: wp_def)
next
  case (Suc n)
  have "wp (body l) (\<lambda>r s'. case r of Inl l' \<Rightarrow> I l' s' | Inr x \<Rightarrow> Q x s') E s" using assms(1) Suc.prems by blast
  then show ?case unfolding rounds.simps wp_seq
    by (rule wp_mono) (auto simp: wp_return split: sum.splits intro: Suc.IH)
qed

lemma wp_loop:
  assumes "I l s" "\<And>l s. I l s \<Longrightarrow> wp (body l) (\<lambda>r s'. case r of Inl l' \<Rightarrow> I l' s' | Inr x \<Rightarrow> Q x s') E s" "\<And>l s. I l s \<Longrightarrow> E s"
  shows "wp (loop body l) Q E s"
  using wp_rounds [of I body Q E l s "Suc (length (w_clock (snd s)))"] assms by (simp add: wp_def loop_def)

section \<open>Invariants of the strategy thread\<close>

text \<open>A world that has answered more questions.\<close>

definition later :: "world \<Rightarrow> world \<Rightarrow> bool" where
  "later w w' \<longleftrightarrow> suffix (w_clock w') (w_clock w) \<and> suffix (w_market w') (w_market w) \<and>
     suffix (w_connections w') (w_connections w) \<and> w_blocks w' = w_blocks w"

lemma suffix_tl [simp]: "suffix (tl xs) xs"
  by (cases xs) (simp_all add: suffix_Cons)

lemma later_simps [simp]:
  "later w w" "later w (w_errors_update f w)" "later w (w_reports_update g w)" "later w (w_room_update f w)"
  "later w (w_stops_update f w)" "later w (w_wakes_update f w)" "later w (w_polls_update p w)" "later w (w\<lparr>w_calls := k\<rparr>)"
  "later w (w_market_update tl w)" "later w (w_connections_update tl w)"
  "w_clock w = t # ts \<Longrightarrow> later w (w\<lparr>w_clock := ts\<rparr>)"
  by (auto simp: later_def suffix_Cons)

lemma later_trans: "later w w' \<Longrightarrow> later w' w'' \<Longrightarrow> later w w''"
  by (auto simp: later_def intro: suffix_order.trans)

text \<open>Waiting for room in the queue leaves the client alone.\<close>

lemma await_room_waits: "wp (await_room d) (\<lambda>_ s'. fst s' = fst s \<and> later (snd s) (snd s')) (\<lambda>s'. fst s' = fst s \<and> later (snd s) (snd s')) s"
  unfolding await_room_def room_round_def
proof (rule wp_loop [where I = "\<lambda>_ s'. fst s' = fst s \<and> later (snd s) (snd s')"], goal_cases)
  case (2 l s')
  obtain w where s': "s' = (fst s, w)" and w: "later (snd s) w" using 2 by (cases s') auto
  let ?w1 = "w_room_update tl w"
  let ?w2 = "w_errors_update tl ?w1"
  have w1: "later (snd s) ?w1" and w2: "later (snd s) ?w2"
    by (rule later_trans [OF w later_simps(4)])
      (rule later_trans [OF later_trans [OF w later_simps(4)] later_simps(2)])
  have w3: "later (snd s) (w_stops_update tl (?w2\<lparr>w_clock := ts\<rparr>))" if "w_clock w = t # ts" for t ts
    by (rule later_trans [OF w2], rule later_trans [OF later_simps(11) later_simps(5)]) (use that in simp)
  show ?case using w1 w2 w3 by (simp add: s' wp check_def split: list.split)
qed auto

text \<open>Rows received one after the other on a connection.\<close>

inductive rows_from :: "recv_call list \<Rightarrow> Message list \<Rightarrow> recv_call list \<Rightarrow> bool" for start where
  rows_none: "rows_from start [] start"
| rows_more: "rows_from start rows calls \<Longrightarrow> received calls = Inr (m, rest) \<Longrightarrow> rows_from start (rows @ [m]) rest"

definition own_report :: "Message \<Rightarrow> TradingClient \<Rightarrow> bool" where
  "own_report m c \<longleftrightarrow> m_kind m = Report \<and> m_client_id m = cc_client_id (tc_config c) \<and> m_epoch m = tc_epoch c"

definition numbered :: "Message \<Rightarrow> TradingClient \<Rightarrow> Message" where
  "numbered m c = m\<lparr>m_kind := Command, m_client_id := cc_client_id (tc_config c), m_request_id := tc_request_id c + 1\<rparr>"

lemma wp_number: "wp (number_command m) Q E s = Q (numbered m (fst s)) ((fst s)\<lparr>tc_request_id := tc_request_id (fst s) + 1\<rparr>, snd s)"
  by (simp add: number_command_def numbered_def wp)

text \<open>
  The contract of an invariant: it survives each change the strategy thread makes while it follows the market and its reports. \<open>datagram\<close>
  and \<open>stream\<close> are what it may assume of the messages popped from the market queue and of the bytes of a snapshot connection.
\<close>

locale client_frame =
  fixes I :: "TradingClient \<times> world \<Rightarrow> bool" and datagram :: "Message \<Rightarrow> bool" and stream :: "recv_call list \<Rightarrow> bool"
  assumes later: "I (c, w) \<Longrightarrow> later w w' \<Longrightarrow> I (c, w')"
    and datagrams: "I (c, w) \<Longrightarrow> Some m \<in> set (w_market w) \<Longrightarrow> datagram m"
    and streams: "I (c, w) \<Longrightarrow> q \<in> set (w_connections w) \<Longrightarrow> stream (cn_recvs q)"
    and invalidated: "I (c, w) \<Longrightarrow> I (c\<lparr>tc_market := replica_invalidate (tc_market c)\<rparr>, w)"
    and restored: "I (c, w) \<Longrightarrow> stream calls \<Longrightarrow> rows_from calls rows rest \<Longrightarrow> rows \<noteq> [] \<Longrightarrow> m_epoch (last rows) = tc_epoch c \<Longrightarrow>
      m_kind (last rows) = SnapshotEnd \<Longrightarrow> replica_restore (w_blocks w) hs rows (tc_market c) = (r, R) \<Longrightarrow>
      I (c\<lparr>tc_market := R\<rparr>, w)"
    and consumed: "I (c, w) \<Longrightarrow> datagram m \<Longrightarrow> replica_consume (w_blocks w) h m (tc_market c) = Some (ok, R) \<Longrightarrow>
      I (c\<lparr>tc_market := R\<rparr>, w)"
    and features: "I (c, w) \<Longrightarrow> I (c\<lparr>tc_features := F\<rparr>, w)"
    and marked: "I (c, w) \<Longrightarrow> I (c\<lparr>tc_last_market := t\<rparr>, w)"
    and recovered: "I (c, w) \<Longrightarrow> I (c\<lparr>tc_last_market := t, tc_recoveries := k\<rparr>, w)"
    and reported: "I (c, w) \<Longrightarrow> own_report m c \<Longrightarrow> manager_consume m (tc_manager c) = (used, M) \<Longrightarrow>
      I (c\<lparr>tc_manager := M, tc_handled := tc_handled c @ (if used then [m] else [])\<rparr>, w)"
begin

definition keeps :: "'a act \<Rightarrow> bool" where
  "keeps m \<longleftrightarrow> (\<forall>s. I s \<longrightarrow> wp m (\<lambda>_. I) I s)"

lemma kept: "(\<And>s. I s \<Longrightarrow> wp m (\<lambda>_. I) I s) \<Longrightarrow> keeps m"
  by (simp add: keeps_def)

lemma keepsD: "keeps m \<Longrightarrow> I s \<Longrightarrow> wp m (\<lambda>_. I) I s"
  unfolding keeps_def by blast

lemma laterI: "I s \<Longrightarrow> later (snd s) w' \<Longrightarrow> I (fst s, w')"
  using later by (cases s) auto

lemma nowI: "I s \<Longrightarrow> w_clock (snd s) = t # ts \<Longrightarrow> I (fst s, (snd s)\<lparr>w_clock := ts\<rparr>)"
  by (simp add: laterI)

text \<open>The rules: an operation keeps the invariant when its parts do.\<close>

lemma keeps_seq: "keeps m \<Longrightarrow> (\<And>x. keeps (f x)) \<Longrightarrow> keeps (seq m f)"
  unfolding keeps_def wp_seq by (blast intro: wp_mono)

lemma keeps_loop: "(\<And>l. keeps (body l)) \<Longrightarrow> keeps (loop body l)"
proof (rule kept, rule wp_loop [where I = "\<lambda>_. I"])
  fix l s
  assume "\<And>l. keeps (body l)" "I s"
  then have "wp (body l) (\<lambda>_. I) I s" unfolding keeps_def by blast
  then show "wp (body l) (\<lambda>r s'. case r of Inl l' \<Rightarrow> I s' | Inr x \<Rightarrow> I s') I s" by (rule wp_mono) (auto split: sum.split)
qed

lemma keeps_basic:
  "keeps (return_act x)" "keeps (throw_act e)" "keeps (reading f)" "keeps now"
  "(\<And>w. later w (upd tl w)) \<Longrightarrow> keeps (ask get upd d)"
  by (auto simp: keeps_def wp split: list.split intro: later)

lemma keeps_cases:
  "keeps m \<Longrightarrow> keeps n \<Longrightarrow> keeps (if b then m else n)"
  "keeps m \<Longrightarrow> (\<And>x. keeps (g x)) \<Longrightarrow> keeps (case r of None \<Rightarrow> m | Some x \<Rightarrow> g x)"
  by (auto split: option.split)

lemma keeps_client: "(\<And>c w. I (c, w) \<Longrightarrow> I (f c, w)) \<Longrightarrow> keeps (client f)"
  by (auto simp: keeps_def wp)

lemmas keeps_rules = keeps_seq keeps_loop keeps_basic keeps_cases

lemma keeps_check: "keeps check"
  unfolding check_def by (intro keeps_rules) simp

lemma keeps_connect: "(\<And>q. stream (cn_recvs q) \<Longrightarrow> keeps (f q)) \<Longrightarrow> keeps (seq connect f)"
proof (rule kept)
  fix s
  assume f: "\<And>q. stream (cn_recvs q) \<Longrightarrow> keeps (f q)" and I: "I s"
  have "wp connect (\<lambda>q s'. I s' \<and> stream (cn_recvs q)) I s"
    using streams [of "fst s" "snd s"] I by (cases "w_connections (snd s)") (auto simp: connect_def wp laterI)
  then show "wp (seq connect f) (\<lambda>_. I) I s" unfolding wp_seq
    by (rule wp_mono) (use f in \<open>auto simp: keeps_def\<close>)
qed

lemma keeps_pop: "keeps (f None) \<Longrightarrow> (\<And>m. datagram m \<Longrightarrow> keeps (f (Some m))) \<Longrightarrow> keeps (seq pop_market f)"
proof (rule kept)
  fix s
  assume f: "keeps (f None)" "\<And>m. datagram m \<Longrightarrow> keeps (f (Some m))" and I: "I s"
  have "I (fst s, w_market_update tl (snd s))" using I by (simp add: laterI)
  moreover have "datagram m" if "w_market (snd s) = Some m # ms" for m ms
    using datagrams [of "fst s" "snd s" m] I that by simp
  ultimately show "wp (seq pop_market f) (\<lambda>_. I) I s"
    using f by (auto simp: wp pop_market_def keeps_def split: list.split option.split) (metis option.exhaust)
qed

lemma keeps_invalidate: "keeps invalidate_market"
  unfolding invalidate_market_def by (rule keeps_client) (rule invalidated)

lemma restore_inv:
  assumes "I s" "stream calls" "rows_from calls rows rest" "rows \<noteq> []" "m_epoch (last rows) = tc_epoch (fst s)" "m_kind (last rows) = SnapshotEnd"
  shows "wp (restore_market rows) (\<lambda>_. I) I s"
proof -
  obtain c w where s: "s = (c, w)" by force
  obtain r R where R: "replica_restore (w_blocks w) (w_heaps w (w_calls w)) rows (tc_market c) = (r, R)" by force
  note keep = restored [OF later [OF assms(1) [unfolded s]] assms(2-4) _ assms(6)]
  have "I (c\<lparr>tc_market := R\<rparr>, w\<lparr>w_calls := Suc (w_calls w)\<rparr>)"
    using keep [of "w\<lparr>w_calls := Suc (w_calls w)\<rparr>"] R assms(5) by (auto simp: s)
  then show ?thesis using R features by (cases r) (auto simp: s wp_def restore_market_def dest: features)
qed

lemma keeps_apply: "datagram m \<Longrightarrow> keeps (apply_market m)"
proof (rule kept)
  fix s
  assume I: "I s" and m: "datagram m"
  obtain c w where s: "s = (c, w)" by force
  note I' = later [OF I [unfolded s], of "w\<lparr>w_calls := Suc (w_calls w)\<rparr>"]
  show "wp (apply_market m) (\<lambda>_. I) I s"
  proof (cases "replica_consume (w_blocks w) (w_heaps w (w_calls w) 0) m (tc_market c)")
    case None
    then show ?thesis using I' features [OF I'] by (simp add: s wp_def apply_market_def Let_def)
  next
    case (Some r)
    obtain ok R where r: "r = (ok, R)" by force
    have "I (c\<lparr>tc_market := R\<rparr>, w\<lparr>w_calls := Suc (w_calls w)\<rparr>)" using consumed [OF I' m] Some r by simp
    from features [OF this] show ?thesis using Some r by (simp add: s wp_def apply_market_def Let_def)
  qed
qed

lemma keeps_snapshot: "stream calls0 \<Longrightarrow> keeps (receive_snapshot deadline calls0)"
  unfolding receive_snapshot_def snapshot_round_def
proof (rule kept, rule wp_loop [where I = "\<lambda>(calls, rows) s. I s \<and> rows_from calls0 rows calls"], goal_cases)
  case (2 s0 l s)
  obtain calls rows where l: "l = (calls, rows)" by force
  have J: "I s" "rows_from calls0 rows calls" and st: "stream calls0" using 2 l by auto
  have step: "wp (restore_market (rows @ [m])) (\<lambda>_. I) I (fst s, (snd s)\<lparr>w_clock := ts\<rparr>)"
    if "w_clock (snd s) = t # ts" "received calls = Inr (m, rest)" "m_kind m = SnapshotEnd" "m_epoch m = tc_epoch (fst s)" for t ts m rest
    by (rule restore_inv [OF nowI [OF J(1) that(1)] st rows_more [OF J(2) that(2)]]) (use that in auto)
  show ?case using J rows_more [OF J(2)]
    by (auto simp: l wp receive_def Let_def nowI split: list.split sum.split intro!: wp_mono [OF step])
qed (auto simp: rows_none)

lemma keeps_suffix: "keeps (verify_suffix budget)"
proof (induction budget)
  case (Suc budget)
  have "keeps (seq check (\<lambda>_. seq (apply_market m) (\<lambda>ok. if ok then verify_suffix budget else return_act False)))"
    if "datagram m" for m by (intro keeps_rules keeps_check keeps_apply that Suc)
  then show ?case by (simp, intro keeps_pop) (simp_all add: keeps_basic)
qed (simp add: keeps_basic)

lemma keeps_send: "keeps (send_message q m)"
  unfolding send_message_def by (intro keeps_rules)

lemma keeps_recover: "keeps recover"
  unfolding recover_def recover_round_def timeout_def
  by (intro keeps_rules keeps_connect keeps_invalidate keeps_snapshot keeps_suffix keeps_send keeps_client recovered)

lemma keeps_drain_one: "keeps drain_one"
proof -
  have "keeps (seq (apply_market m) (\<lambda>ok. if \<not> ok then return_act (Inr True)
      else seq now (\<lambda>t'. seq (client (\<lambda>c. c\<lparr>tc_last_market := t'\<rparr>)) (\<lambda>_. return_act (Inl ())))))"
    if "datagram m" for m by (intro keeps_rules keeps_apply keeps_client marked that)
  then show ?thesis unfolding drain_one_def by (intro keeps_pop) (simp_all add: keeps_basic)
qed

lemma keeps_drain: "keeps drain_market"
  unfolding drain_market_def drain_round_def by (intro keeps_rules keeps_check keeps_drain_one keeps_recover)

lemma keeps_next: "keeps (next_report deadline)"
  unfolding next_report_def report_round_def pop_reports_def poll_reports_def
  by (intro keeps_rules keeps_check) (auto split: report_poll.split simp: keeps_basic)

lemma keeps_consume: "keeps (consume_report m)"
proof (rule kept)
  fix s
  assume "I s"
  then show "wp (consume_report m) (\<lambda>_. I) I s"
    using reported [of "fst s" "snd s" m] by (cases s) (auto simp: consume_report_def own_report_def wp split: prod.split)
qed

lemma keeps_report: "keeps (receive_report wait)"
  unfolding receive_report_def by (intro keeps_rules keeps_check keeps_next keeps_consume)

lemma keeps_reports: "keeps (receive_reports budget)"
  by (induction budget) (auto intro!: keeps_rules keeps_report)

lemma keeps_poll: "keeps (client_poll duration)"
  unfolding client_poll_def poll_round_def by (intro keeps_rules keeps_reports keeps_drain)

lemma keeps_await: "keeps (await command deadline)"
  unfolding await_def await_round_def Let_def by (intro keeps_rules keeps_report keeps_drain)

end

text \<open>An invariant that also survives numbering a command, queueing it and closing the client.\<close>

locale client_invariant = client_frame +
  assumes submitted: "I (c, w) \<Longrightarrow> ms = [] \<or> ms = [numbered m c] \<and> \<not> tc_closed c \<Longrightarrow>
      I (c\<lparr>tc_request_id := tc_request_id c + 1, tc_submitted := tc_submitted c @ ms\<rparr>, w)"
    and closed: "I (c, w) \<Longrightarrow> I (c\<lparr>tc_closed := True\<rparr>, w)"
begin

lemma queueing_inv:
  assumes I: "I (c, w)" and c: "\<not> tc_closed c"
  shows "wp (transport_send (numbered m c)) (\<lambda>_. I) I (c\<lparr>tc_request_id := tc_request_id c + 1\<rparr>, w)"
proof -
  let ?c = "c\<lparr>tc_request_id := tc_request_id c + 1\<rparr>"
  have idle: "I (?c, w')" if "later w w'" for w' using submitted [OF later [OF I that], of "[]" m] by simp
  have queue: "I (?c\<lparr>tc_submitted := tc_submitted ?c @ [numbered m c]\<rparr>, w')" if "later w w'" for w'
    using submitted [OF later [OF I that], of "[numbered m c]" m] c by simp
  have after: "wp (seq (client (\<lambda>c'. c'\<lparr>tc_submitted := tc_submitted c' @ [numbered m c]\<rparr>)) (\<lambda>_.
      seq (ask w_wakes w_wakes_update True) (\<lambda>woken. if woken then check else throw_act Wake_Failed))) (\<lambda>_. I) I (?c, w')"
    if "later w w'" for w'
  proof -
    have "later w (w_wakes_update tl w')" "later w (w_errors_update tl (w_wakes_update tl w'))"
      using that later_trans later_simps(6) later_simps(2) by blast+
    then show ?thesis using queue by (simp add: wp check_def)
  qed
  have wait: "wp (seq (await_room d) (\<lambda>_. seq (client (\<lambda>c'. c'\<lparr>tc_submitted := tc_submitted c' @ [numbered m c]\<rparr>)) (\<lambda>_.
      seq (ask w_wakes w_wakes_update True) (\<lambda>woken. if woken then check else throw_act Wake_Failed)))) (\<lambda>_. I) I (?c, w')"
    if "later w w'" for d w'
    unfolding wp_seq [of "await_room d"]
  proof (rule wp_mono [OF await_room_waits [of d "(?c, w')"]], goal_cases)
    case (1 x s')
    then show ?case using after [of "snd s'"] later_trans [OF that] by (cases s') auto
  next
    case (2 s')
    then show ?case using idle [of "snd s'"] later_trans [OF that] by (cases s') auto
  qed
  show ?thesis unfolding transport_send_def wp_seq [of now] wp_now
    using wait idle by (auto split: list.split)
qed

lemma keeps_dispatch: "keeps (dispatch command)"
proof (rule kept)
  fix s
  assume "I s"
  then obtain c w where s: "s = (c, w)" and I: "I (c, w)" by (cases s) auto
  have rest: "keeps (seq now (\<lambda>start. await m (start + 3000000000)))" for m by (intro keeps_rules keeps_await)
  have "wp (seq (transport_send (numbered command c)) (\<lambda>_. seq now (\<lambda>start. await (numbered command c) (start + 3000000000))))
      (\<lambda>_. I) I (c\<lparr>tc_request_id := tc_request_id c + 1\<rparr>, w)" if "\<not> tc_closed c"
    unfolding wp_seq [of "transport_send _"]
    by (rule wp_mono [OF queueing_inv [OF I that]]) (use rest in \<open>auto simp: keeps_def\<close>)
  then show "wp (dispatch command) (\<lambda>_. I) I s" using submitted [OF I, of "[]" command]
    by (simp add: s dispatch_def wp_number wp_seq [of "number_command _"] wp_seq [of "reading _"] wp_reading wp_throw)
qed

lemma keeps_submit: "keeps (client_submit command)"
  unfolding client_submit_def by (intro keeps_rules keeps_reports keeps_poll keeps_dispatch)

lemma keeps_close: "keeps (client_close cancel_orders)"
  unfolding client_close_def by (intro keeps_rules keeps_submit keeps_check keeps_client closed)

lemma keeps_call: "keeps (call_act call)"
  by (cases call) (auto intro: keeps_recover keeps_poll keeps_submit keeps_close keeps_rules)

lemma call_inv: "I (c, w) \<Longrightarrow> \<exists>w'. I (fst (snd (call_act call (c, w))), w')"
proof -
  assume "I (c, w)"
  then have inv: "wp (call_act call) (\<lambda>_. I) I (c, w)" by (rule keepsD [OF keeps_call])
  obtain r c' w' where "call_act call (c, w) = (r, c', w')" by (metis prod_cases3)
  then show ?thesis using inv by (cases r) (auto simp: wp_def)
qed

text \<open>A new client, from the state after the handshake.\<close>

lemma new_inv:
  assumes start: "\<And>t ep w'. later (w_connections_update tl w) w' \<Longrightarrow> I ((TradingClient_init config t)\<lparr>tc_epoch := ep\<rparr>, w')"
  shows "wp (TradingClient_new config) (\<lambda>_. I) (\<lambda>_. True) (c, w)"
proof -
  have rec: "wp recover (\<lambda>_. I) (\<lambda>_. True) s" if "I s" for s
    by (rule wp_mono [OF keepsD [OF keeps_recover that]]) auto
  have "I ((TradingClient_init config t)\<lparr>tc_request_id := 0, tc_epoch := ep\<rparr>, (w_connections_update tl w)\<lparr>w_clock := ts\<rparr>)"
    if "w_clock w = t # ts" for t ts ep
    using start [of "(w_connections_update tl w)\<lparr>w_clock := ts\<rparr>" ep t] that by (simp add: TradingClient_init_def)
  note rec' = rec [OF this]
  have threads: "wp start_threads Q E s = (if w_threads (snd s) then Q () s else E s)" for Q E s by (simp add: wp_def start_threads_def)
  show ?thesis
    unfolding TradingClient_new_def connect_def timeout_def send_message_def receive_def
    by (auto simp: wp threads rec' split: list.split option.split sum.split)
qed

end

end
