(* ===== verification/Client_Market.thy ===== *)
theory Client_Market
  imports Client_Logic Replica_Restore
begin

text \<open>
  What a client sees of the market. The multicast may lose, repeat, delay or garble datagrams and the client may
  recover at any time; as long as the deltas that reach it come from the feed and the snapshots from the
  engine, a replica that calls itself synchronized holds exactly the books after some prefix of the feed.
\<close>

section \<open>What the network delivers\<close>

text \<open>
  A feed: the updates since the start of the exchange, with the epoch, the first sequence number and the books they start
  from. \<open>snapshot_of\<close> is an engine the exchange had after some of the updates.
\<close>

record feed =
  fd_updates :: "Message list"
  fd_epoch :: u64
  fd_sequence :: Sequence
  fd_market :: market

definition feed_ok :: "feed \<Rightarrow> bool" where
  "feed_ok fd \<longleftrightarrow> stamps (fd_epoch fd) (fd_sequence fd) (fd_updates fd) \<and> unat (fd_sequence fd) + length (fd_updates fd) < 2 ^ 64"

definition feed_at :: "feed \<Rightarrow> nat \<Rightarrow> market option" where
  "feed_at fd k = feed_run (take k (fd_updates fd)) (fd_market fd)"

definition engine_at :: "feed \<Rightarrow> MatchingEngine \<Rightarrow> bool" where
  "engine_at fd e \<longleftrightarrow> eng_inv e \<and> e_epoch e = fd_epoch fd \<and>
     (\<exists>k \<le> length (fd_updates fd). e_sequence e = fd_sequence fd + of_nat k \<and> feed_at fd k = Some (views (e_books e)))"

definition from_feed :: "feed \<Rightarrow> Message \<Rightarrow> bool" where
  "from_feed fd m \<longleftrightarrow> (m_kind m = Delta \<and> m_epoch m = fd_epoch fd \<longrightarrow> m \<in> set (fd_updates fd))"

definition snapshot_stream :: "feed \<Rightarrow> recv_call list \<Rightarrow> bool" where
  "snapshot_stream fd calls \<longleftrightarrow> (\<exists>e. engine_at fd e \<and> prefix (arriving calls) (frames_of (engine_snapshot e)))"

definition feed_world :: "feed \<Rightarrow> world \<Rightarrow> bool" where
  "feed_world fd w \<longleftrightarrow> blocks_ok (w_blocks w) \<and> (\<forall>m. Some m \<in> set (w_market w) \<longrightarrow> from_feed fd m) \<and>
     (\<forall>q \<in> set (w_connections w). snapshot_stream fd (cn_recvs q))"

section \<open>Rows received are rows sent\<close>

lemma received_frame:
  assumes "received calls = Inr (m, rest)"
  shows "arriving calls = encode_frame m @ arriving rest"
proof -
  obtain frame where r: "receive_exact frame_size calls [] = (Received, frame, rest)" "decode frame = Some m"
    using assms by (auto simp: received_def split: prod.splits if_splits option.splits)
  have "arriving calls = frame @ arriving rest" "length frame = frame_size"
    using receive_exact_on [of "[]" frame_size calls] r(1) by (auto simp: receives_on_def)
  then show ?thesis using decode_canonical [of frame m] r(2) by (simp add: frame_size_def)
qed

lemma rows_from_frames: "rows_from start rows rest \<Longrightarrow> arriving start = frames_of rows @ arriving rest"
  by (induction rule: rows_from.induct) (simp_all add: received_frame)

lemma rows_from_ok: "rows_from start rows rest \<Longrightarrow> list_all message_ok rows"
proof (induction rule: rows_from.induct)
  case (rows_more rows calls m rest)
  obtain frame where r: "receive_exact frame_size calls [] = (Received, frame, rest)" "decode frame = Some m"
    using rows_more.hyps(2) by (auto simp: received_def split: prod.splits if_splits option.splits)
  have "length frame = 96" using receive_exact_on [of "[]" frame_size calls] r(1) by (auto simp: receives_on_def frame_size_def)
  then show ?case using decode_canonical [of frame m] r(2) rows_more.IH by simp
qed simp

lemma frames_prefix:
  "prefix (frames_of rows) (frames_of sent) \<Longrightarrow> list_all message_ok rows \<Longrightarrow> list_all message_ok sent \<Longrightarrow> prefix rows sent"
proof (induction rows arbitrary: sent)
  case (Cons m rows)
  obtain m' sent' where s: "sent = m' # sent'"
    using prefix_length_le [OF Cons.prems(1)] by (cases sent) auto
  obtain zs where "encode_frame m' @ frames_of sent' = encode_frame m @ frames_of rows @ zs"
    using Cons.prems(1) by (auto simp: s prefix_def)
  then have "encode_frame m' = encode_frame m \<and> frames_of sent' = frames_of rows @ zs"
    using append_eq_append_conv [of "encode_frame m'" "encode_frame m" "frames_of sent'" "frames_of rows @ zs"] by simp
  then have "encode_frame m' = encode_frame m" "prefix (frames_of rows) (frames_of sent')" by (auto simp: prefix_def)
  moreover have "m = m'"
    using decode_encode_ok [of m] decode_encode_ok [of m'] calculation(1) Cons.prems(2,3) by (simp add: s)
  ultimately show ?case using Cons.IH [of sent'] Cons.prems(2,3) by (simp add: s)
qed simp

lemma snapshot_rows_ok:
  assumes "eng_inv e"
  shows "list_all message_ok (engine_snapshot e)"
proof -
  have "message_ok m" if "m \<in> set (snapshot_rows e)" for m
    using that owned_live [OF eng_invD(1) [OF assms]]
    unfolding snapshot_set [OF assms] by (auto simp: public_row_def message_ok_def default_message_def)
  then show ?thesis by (auto simp: engine_snapshot_def Let_def message_ok_def default_message_def list_all_iff)
qed

lemma rows_are_snapshot:
  assumes fd: "snapshot_stream fd calls" and rows: "rows_from calls rows rest" "rows \<noteq> []" "m_kind (last rows) = SnapshotEnd"
  shows "\<exists>e. engine_at fd e \<and> rows = engine_snapshot e"
proof -
  obtain e where e: "engine_at fd e" "prefix (arriving calls) (frames_of (engine_snapshot e))"
    using fd by (auto simp: snapshot_stream_def)
  have inv: "eng_inv e" using e(1) by (simp add: engine_at_def)
  have "prefix (frames_of rows) (frames_of (engine_snapshot e))"
    using e(2) rows_from_frames [OF rows(1)] prefix_order.trans by (auto simp: prefix_def)
  then have "prefix rows (engine_snapshot e)" using rows_from_ok [OF rows(1)] snapshot_rows_ok [OF inv] by (rule frames_prefix)
  then obtain more where more: "engine_snapshot e = rows @ more" by (auto simp: prefix_def)
  have "more = []"
  proof (rule ccontr)
    assume "more \<noteq> []"
    then have "last rows \<in> set (butlast (engine_snapshot e))" using rows(2) by (simp add: more butlast_append)
    then show False using rows(3) snapshot_ids(2) [OF inv] by (auto simp: engine_snapshot_def Let_def butlast_append)
  qed
  then show ?thesis using e(1) more by auto
qed

section \<open>The replica is exact or lost\<close>

definition exact :: "feed \<Rightarrow> MarketReplica \<Rightarrow> bool" where
  "exact fd R \<longleftrightarrow> (r_synchronized R \<longrightarrow> r_epoch R = fd_epoch fd \<and> sound (r_books R) \<and>
     (\<exists>k \<le> length (fd_updates fd). r_sequence R = fd_sequence fd + of_nat k \<and> feed_at fd k = Some (views (r_books R))))"

lemma exact_invalid: "exact fd (replica_invalidate R)" "exact fd replica_new"
  by (simp_all add: exact_def replica_invalidate_def replica_new_def)

lemma stamps_nth:
  "stamps ep s ms \<Longrightarrow> i < length ms \<Longrightarrow> m_kind (ms ! i) = Delta \<and> m_epoch (ms ! i) = ep \<and> m_sequence (ms ! i) = s + of_nat (Suc i)"
proof (induction ep s ms arbitrary: i rule: stamps.induct)
  case (2 ep s m ms)
  then show ?case by (cases i) (auto simp: algebra_simps)
qed simp

lemma of_nat_u64_inj: "i < 2 ^ 64 \<Longrightarrow> j < 2 ^ 64 \<Longrightarrow> (of_nat i :: u64) = of_nat j \<Longrightarrow> i = j"
  by (metis unat_of_nat_u64)

lemma feed_at_Suc: "k < length (fd_updates fd) \<Longrightarrow> feed_at fd (Suc k) = Option.bind (feed_at fd k) (feed_step (fd_updates fd ! k))"
  by (simp add: feed_at_def take_Suc_conv_app_nth feed_run_append)
    (metis (no_types, lifting) Option.bind_cong bind_runit feed_run.simps)

lemma exact_consume:
  assumes ok: "feed_ok fd" "exact fd R" "from_feed fd m" "blocks_ok blocks" and c: "replica_consume blocks h m R = Some (b, R')"
  shows "exact fd R'"
proof (cases "r_synchronized R \<and> r_synchronized R'")
  case True
  then obtain k where k: "r_epoch R = fd_epoch fd" "sound (r_books R)" "k \<le> length (fd_updates fd)"
      "r_sequence R = fd_sequence fd + of_nat k" "feed_at fd k = Some (views (r_books R))"
    using ok(2) by (auto simp: exact_def)
  show ?thesis
  proof (cases "R' = R")
    case False
    obtain bs where d: "m_kind m = Delta" "m_epoch m = r_epoch R" "m_sequence m - r_sequence R = 1"
        "replica_delta blocks h m (r_books R) = Some (Ok, bs)" "R' = R\<lparr>r_books := bs, r_sequence := m_sequence m\<rparr>"
      using c True False by (auto simp: replica_consume_def Let_def split: if_splits bind_splits)
    have "m \<in> set (fd_updates fd)" using ok(3) d k(1) by (simp add: from_feed_def)
    then obtain i where i: "i < length (fd_updates fd)" "fd_updates fd ! i = m" by (auto simp: in_set_conv_nth)
    have "m_sequence m = fd_sequence fd + of_nat (Suc i)" using stamps_nth [of _ _ "fd_updates fd" i] ok(1) i by (auto simp: feed_ok_def)
    moreover have "m_sequence m = fd_sequence fd + of_nat (Suc k)" using d(3) k(4) by (simp add: algebra_simps)
    ultimately have "i = k" using of_nat_u64_inj [of i k] ok(1) i(1) k(3) by (simp add: feed_ok_def)
    then show ?thesis using delta_exact [OF k(2) ok(4) d(4)] d(1,2,5) k i feed_at_Suc [of k fd] \<open>m_sequence m = fd_sequence fd + of_nat (Suc k)\<close>
      by (auto simp: exact_def intro!: exI [of _ "Suc k"])
  qed (use ok(2) in simp)
next
  case False
  then have "\<not> r_synchronized R'" using c by (auto simp: replica_consume_def Let_def split: if_splits bind_splits)
  then show ?thesis by (simp add: exact_def)
qed

lemma exact_restore:
  assumes "engine_at fd e" "blocks_ok blocks" "replica_restore blocks hs (engine_snapshot e) R0 = (r, R)"
  shows "exact fd R"
proof (cases r)
  case None
  have "mirrors R e" using restore_mirrors [OF _ assms(2)] assms(1,3) None by (simp add: engine_at_def)
  then show ?thesis using assms(1) by (auto simp: exact_def engine_at_def mirrors_def sound_def)
next
  case (Some err)
  then have "\<not> r_synchronized R" using assms(3) by (auto simp: replica_restore_def Let_def split: if_splits sum.splits)
  then show ?thesis by (simp add: exact_def)
qed

definition market_inv :: "feed \<Rightarrow> TradingClient \<times> world \<Rightarrow> bool" where
  "market_inv fd s \<longleftrightarrow> feed_ok fd \<and> exact fd (tc_market (fst s)) \<and> feed_world fd (snd s)"

lemma feed_world_later: "feed_world fd w \<Longrightarrow> later w w' \<Longrightarrow> feed_world fd w'"
  unfolding feed_world_def later_def by (metis set_mono_suffix subsetD)

interpretation mkt: client_invariant "market_inv fd" "from_feed fd" "snapshot_stream fd" for fd
proof (unfold_locales, goal_cases)
  case (1 c w w')
  then show ?case using feed_world_later by (auto simp: market_inv_def)
next
  case (5 c w calls rows rest hs r R)
  then obtain e where "engine_at fd e" "rows = engine_snapshot e" using rows_are_snapshot by blast
  then show ?case using 5 exact_restore [of fd e "w_blocks w" hs "tc_market c" r R] by (auto simp: market_inv_def feed_world_def)
next
  case (6 c w m h ok R)
  then show ?case using exact_consume [of fd "tc_market c" m "w_blocks w" h ok R] by (auto simp: market_inv_def feed_world_def)
qed (auto simp: market_inv_def feed_world_def exact_invalid)

end
