(* ===== verification/Client_Recover.thy ===== *)
theory Client_Recover
  imports Client_Market
begin

text \<open>
  Recovery brings the replica back: when the exchange answers the query with the snapshot of its engine before the
  deadline, memory is granted and nothing is buffered, \<open>recover\<close> returns with a replica that mirrors the engine.
\<close>

section \<open>Receiving the snapshot\<close>

lemma received_next:
  assumes "delivers calls" "arriving calls = encode_frame m @ bytes" "message_ok m"
  shows "\<exists>rest. received calls = Inr (m, rest) \<and> delivers rest \<and> arriving rest = bytes"
proof -
  obtain rest where "receive_exact frame_size calls [] = (Received, encode_frame m, rest)" "delivers rest" "arriving rest = bytes"
    using receive_exact_delivers [OF assms(1), of "[]" frame_size] assms(2) by (auto simp: frame_size_def)
  then show ?thesis using decode_encode_ok [OF assms(3)] by (simp add: received_def)
qed

lemma wp_loop_rounds: "wp (loop body l) Q E s = wp (rounds (Suc (length (w_clock (snd s)))) body l) Q E s"
  by (simp add: wp_def loop_def)

lemma snapshot_rounds:
  assumes "delivers calls" "arriving calls = frames_of (todo @ [z]) @ bytes" "list_all message_ok (todo @ [z])"
    "list_all (\<lambda>m. m_kind m \<noteq> SnapshotEnd) todo" "m_kind z = SnapshotEnd" "m_epoch z = tc_epoch c"
    "length (rows @ todo @ [z]) \<le> 1000000" "length todo < n" "w_clock w = ts @ ts2" "length ts = Suc (length todo)"
    "list_all (\<lambda>t. t < deadline) ts" "wp (restore_market (rows @ todo @ [z])) (\<lambda>_. Q True) E (c, w\<lparr>w_clock := ts2\<rparr>)"
  shows "wp (rounds n (snapshot_round deadline) (calls, rows)) Q E (c, w)"
  using assms
proof (induction todo arbitrary: calls rows ts w n)
  case Nil
  obtain rest where r: "received calls = Inr (z, rest)" using received_next [OF Nil(1), of z bytes] Nil(2,3) by auto
  obtain t where "ts = [t]" using Nil(10) by (cases ts) auto
  moreover obtain k where "n = Suc k" using Nil(8) by (cases n) auto
  ultimately show ?case using Nil r by (simp add: wp snapshot_round_def [of _ "(calls, rows)"] receive_def)
next
  case (Cons m todo)
  obtain rest where r: "received calls = Inr (m, rest)" "delivers rest" "arriving rest = frames_of (todo @ [z]) @ bytes"
    using received_next [OF Cons.prems(1), of m "frames_of (todo @ [z]) @ bytes"] Cons.prems(2,3) by auto
  obtain t ts' where ts: "ts = t # ts'" using Cons.prems(10) by (cases ts) auto
  obtain k where n: "n = Suc k" using Cons.prems(8) by (cases n) auto
  have "wp (rounds k (snapshot_round deadline) (rest, rows @ [m])) Q E (c, w\<lparr>w_clock := ts' @ ts2\<rparr>)"
    by (rule Cons.IH [OF r(2,3)]) (use Cons.prems ts n in auto)
  then show ?case using Cons.prems ts n r by (simp add: wp snapshot_round_def [of _ "(calls, rows)"] receive_def)
qed

lemma receive_snapshot_succeeds:
  assumes "delivers calls" "arriving calls = frames_of (rows @ [z]) @ bytes" "list_all message_ok (rows @ [z])"
    "list_all (\<lambda>m. m_kind m \<noteq> SnapshotEnd) rows" "m_kind z = SnapshotEnd" "m_epoch z = tc_epoch c"
    "length (rows @ [z]) \<le> 1000000" "w_clock w = ts @ ts2" "length ts = Suc (length rows)" "list_all (\<lambda>t. t < deadline) ts"
    "wp (restore_market (rows @ [z])) (\<lambda>_. Q True) E (c, w\<lparr>w_clock := ts2\<rparr>)"
  shows "wp (receive_snapshot deadline calls) Q E (c, w)"
  unfolding receive_snapshot_def wp_loop_rounds
  by (rule snapshot_rounds [of calls rows z bytes c "[]" _ w ts ts2]) (use assms in auto)

section \<open>Recovering\<close>

lemma suffix_empty:
  assumes "0 < budget" "w_market (snd s) = []"
  shows "wp (verify_suffix budget) Q E s = Q True s"
proof -
  obtain k where k: "budget = Suc k" using assms(1) by (cases budget) auto
  have eq: "w_market_update tl (snd s) = snd s" using assms(2) by (cases "snd s") simp
  show ?thesis unfolding k verify_suffix.simps pop_market_def wp_seq wp_ask assms(2) eq by (simp add: wp)
qed

text \<open>The exchange answers in time with the snapshot of \<open>e\<close>: the premises on the world.\<close>

definition answers :: "MatchingEngine \<Rightarrow> connection \<Rightarrow> bool" where
  "answers e q \<longleftrightarrow> cn_opened q \<and> cn_timed q \<and> fst (send_all (cn_sends q) (encode_frame (default_message\<lparr>m_action := Act_Snapshot\<rparr>))) = Sent \<and>
     delivers (cn_recvs q) \<and> arriving (cn_recvs q) = frames_of (engine_snapshot e)"

definition fits :: "MatchingEngine \<Rightarrow> world \<Rightarrow> bool" where
  "fits e w \<longleftrightarrow> blocks_ok (w_blocks w) \<and> (\<forall>i k. heap_grants (w_heaps w i k)) \<and> length (e_resting e) < 999999 \<and>
     (\<forall>i. depth (views (e_books e)) i \<le> holds_up_to (w_blocks w) [] i)"

lemma restore_wp:
  assumes inv: "eng_inv e" "e_epoch e \<noteq> 0" and fit: "fits e w"
  shows "wp (restore_market (engine_snapshot e)) (\<lambda>_ s. mirrors (tc_market (fst s)) e \<and> snd s = w\<lparr>w_calls := Suc (w_calls w)\<rparr> \<and> tc_closed (fst s) = tc_closed c)
    (\<lambda>_. False) (c, w)"
proof -
  have w: "blocks_ok (w_blocks w)" "\<forall>k. heap_grants (w_heaps w (w_calls w) k)" "length (e_resting e) < 2 ^ 32"
      "\<forall>i. depth (views (e_books e)) i \<le> holds_up_to (w_blocks w) [] i"
    using fit by (auto simp: fits_def)
  obtain R where R: "replica_restore (w_blocks w) (w_heaps w (w_calls w)) (engine_snapshot e) (tc_market c) = (None, R)"
    using restore_succeeds [OF inv w(1)] w by blast
  then show ?thesis using restore_mirrors [OF inv(1) w(1) R] by (simp add: wp_def restore_market_def)
qed

lemma recover_wp:
  assumes inv: "eng_inv e" "e_epoch e \<noteq> 0" "e_epoch e = tc_epoch c" and q: "answers e q" "w_connections w = q # qs" and fit: "fits e w"
    and clock: "w_clock w = start # t # ts @ t' # ts2" "t < start + 3000000000" "length ts = length (engine_snapshot e)"
      "list_all (\<lambda>t. t < start + 3000000000) ts" and none: "w_market w = []"
  shows "wp recover (\<lambda>_ s. mirrors (tc_market (fst s)) e) (\<lambda>_. False) (c, w)"
proof -
  let ?c = "c\<lparr>tc_market := replica_invalidate (tc_market c)\<rparr>"
  let ?w = "w\<lparr>w_connections := qs, w_clock := ts @ t' # ts2\<rparr>"
  let ?w1 = "w\<lparr>w_connections := qs, w_clock := t' # ts2\<rparr>"
  let ?Q = "\<lambda>s. mirrors (tc_market (fst s)) e"
  obtain rows z where rz: "engine_snapshot e = rows @ [z]" "m_kind z = SnapshotEnd" "m_epoch z = e_epoch e"
      "list_all (\<lambda>m. m_kind m \<noteq> SnapshotEnd) rows"
    using snapshot_ids(2) [OF inv(1)] by (auto simp: engine_snapshot_def Let_def list_all_iff)
  have snap: "wp (receive_snapshot (start + 3000000000) (cn_recvs q))
      (\<lambda>complete s. complete \<and> ?Q s \<and> snd s = ?w1\<lparr>w_calls := Suc (w_calls w)\<rparr> \<and> tc_closed (fst s) = tc_closed c) (\<lambda>_. False) (?c, ?w)"
  proof (rule receive_snapshot_succeeds [of _ rows z "[]" _ _ ts "t' # ts2"])
    have "fits e ?w1" using fit by (simp add: fits_def)
    from restore_wp [OF inv(1,2) this, of ?c] show "wp (restore_market (rows @ [z]))
        (\<lambda>_ s. True \<and> ?Q s \<and> snd s = ?w1\<lparr>w_calls := Suc (w_calls w)\<rparr> \<and> tc_closed (fst s) = tc_closed c) (\<lambda>_. False) (?c, ?w\<lparr>w_clock := t' # ts2\<rparr>)"
      unfolding rz(1) by simp
    show "length (rows @ [z]) \<le> 1000000" using fit snapshot_length [OF inv(1)] arg_cong [OF rz(1), of length]
      by (simp add: fits_def engine_snapshot_def Let_def)
  qed (use q rz inv snapshot_rows_ok [OF inv(1)] clock in \<open>simp_all add: answers_def\<close>)
  have tail: "wp (seq (reading tc_closed) (\<lambda>closed. seq (if closed then return_act True else verify_suffix 4096) (\<lambda>valid.
      if valid then seq now (\<lambda>t'. seq (client (\<lambda>c. c\<lparr>tc_last_market := t', tc_recoveries := tc_recoveries c + 1\<rparr>)) (\<lambda>_. return_act (Inr ())))
      else seq invalidate_market (\<lambda>_. return_act (Inl ()))))) (\<lambda>r s. r = Inr () \<and> ?Q s) (\<lambda>_. False) s"
    if "?Q s" "snd s = ?w1\<lparr>w_calls := Suc (w_calls w)\<rparr>" for s
    using that none by (simp add: wp suffix_empty)
  have "wp (recover_round (start + 3000000000)) (\<lambda>r s. r = Inr () \<and> ?Q s) (\<lambda>_. False) (?c, w\<lparr>w_clock := t # ts @ t' # ts2\<rparr>)"
  proof -
    have "message_ok (default_message\<lparr>m_action := Act_Snapshot\<rparr>)" by (simp add: message_ok_def default_message_def)
    note query = encode_ok [OF this]
    have conn: "w_connections_update tl (w\<lparr>w_clock := x\<rparr>) = w\<lparr>w_connections := qs, w_clock := x\<rparr>" for x
      using q(2) by (cases w) simp
    show ?thesis unfolding recover_round_def
      using q clock(2) by (simp add: wp connect_def timeout_def send_message_def query answers_def conn)
        (rule wp_mono [OF snap], use tail in \<open>auto simp: wp\<close>)
  qed
  then show ?thesis using clock(1) by (simp add: recover_def wp invalidate_market_def wp_loop_rounds) (rule wp_mono, assumption, auto simp: wp)
qed


section \<open>A world for the witnesses\<close>

definition demo_connection :: "u8 list \<Rightarrow> connection" where
  "demo_connection bytes = \<lparr>cn_opened = True, cn_timed = True, cn_sends = [Send 96], cn_recvs = [Recv bytes]\<rparr>"

definition demo_world :: "connection list \<Rightarrow> world" where
  "demo_world qs = \<lparr>w_clock = [0, 0, 0, 0, 0, 0, 0], w_errors = [], w_market = [], w_reports = [], w_room = [], w_stops = [], w_wakes = [],
     w_polls = [], w_connections = qs, w_threads = True, w_blocks = demo_blocks, w_heaps = (\<lambda>_ _. demo_heap), w_calls = 0\<rparr>"

definition demo_client_config :: ClientConfig where
  "demo_client_config = \<lparr>cc_client_id = 5, cc_tcp_port = 9100, cc_multicast_port = 9101, cc_group = ''239.255.0.2'',
     cc_interface = ''127.0.0.1'', cc_limits = default_rules, cc_max_loss = 100000\<rparr>"

lemma demo_fields [simp]:
  "cn_opened (demo_connection bytes)" "cn_timed (demo_connection bytes)" "cn_sends (demo_connection bytes) = [Send 96]"
  "cn_recvs (demo_connection bytes) = [Recv bytes]" "w_threads (demo_world qs)"
  "cc_client_id demo_client_config = 5" "cc_max_loss demo_client_config = 100000"
  by (simp_all add: demo_connection_def demo_world_def demo_client_config_def)

lemma send_all_once: "bs \<noteq> [] \<Longrightarrow> length bs \<le> k \<Longrightarrow> send_all [Send k] bs = (Sent, bs, [])"
  by (cases bs) (auto simp: min_def)

lemma encode_frame_ne: "encode_frame m \<noteq> []"
  using length_encode_frame [of m] by (metis list.size(3) zero_neq_numeral)

lemma send_frame: "fst (send_all [Send 96] (encode_frame m)) = Sent"
  using send_all_once [OF encode_frame_ne [of m], of 96] by simp

lemma demo_answers: "answers e (demo_connection (frames_of (engine_snapshot e)))"
  by (simp add: answers_def send_frame delivers_def engine_snapshot_def Let_def encode_frame_ne)

lemma demo_inv: "eng_inv demo_engine"
  using reachable_inv [OF demo_engine_reachable] by blast

lemma demo_snapshot_length: "length (engine_snapshot demo_engine) = 2"
  using snapshot_length [OF demo_inv] by (simp add: engine_snapshot_def Let_def demo_engine_empty)

lemma demo_fits: "w_blocks w = demo_blocks \<Longrightarrow> w_heaps w = (\<lambda>_ _. demo_heap) \<Longrightarrow> fits demo_engine w"
  using rows_of_snapshot [OF demo_inv] snapshot_length [OF demo_inv]
  by (simp add: fits_def demo_engine_empty rows_of_def heap_grants_def demo_heap_def blocks_ok_def demo_blocks_def block_ok_def
      CAPACITY_BYTES_def sizeof_OrderEntry_def)


end
