(* ===== verification/Engine_Replay.thy ===== *)
theory Engine_Replay
  imports Engine_Theorems
begin

text \<open>
  Recovery replays the journaled commands on a new engine, with a new epoch and without the status requests,
  which the server does not journal. Two engines are \<open>alike\<close> when they differ at most in the epoch, in the
  numbering of the reports, and in those two fields of the reports cached for a resend; every command
  takes alike engines to alike engines, and a status request leaves an engine alike.
\<close>

section \<open>Alike engines\<close>

definition blank :: "Message \<Rightarrow> Message" where
  "blank m = m\<lparr>m_epoch := 0, m_sequence := 0\<rparr>"

definition blank_update :: "Message \<Rightarrow> Message" where
  "blank_update m = m\<lparr>m_epoch := 0\<rparr>"

definition blank_client :: "ClientState \<Rightarrow> ClientState" where
  "blank_client s = s\<lparr>cs_cached := map blank (cs_cached s)\<rparr>"

definition blank_clients :: "(ClientId \<times> ClientState) list \<Rightarrow> (ClientId \<times> ClientState) list" where
  "blank_clients cs = map (\<lambda>(k, s). (k, blank_client s)) cs"

definition alike :: "MatchingEngine \<Rightarrow> MatchingEngine \<Rightarrow> bool" where
  "alike e e' \<longleftrightarrow> e_instruments e = e_instruments e' \<and> e_books e = e_books e' \<and> e_resting e = e_resting e' \<and>
     e_by_client e = e_by_client e' \<and> e_positions e = e_positions e' \<and> e_sequence e = e_sequence e' \<and>
     e_next_order e = e_next_order e' \<and> e_next_trade e = e_next_trade e' \<and> e_stats e = e_stats e' \<and>
     blank_clients (e_clients e) = blank_clients (e_clients e')"

definition alike_work :: "work \<Rightarrow> work \<Rightarrow> bool" where
  "alike_work w w' \<longleftrightarrow> alike (snd w) (snd w') \<and> map blank (b_reports (fst w)) = map blank (b_reports (fst w')) \<and>
     map blank_update (b_updates (fst w)) = map blank_update (b_updates (fst w'))"

lemma alike_refl [simp]: "alike e e"
  by (simp add: alike_def)

lemma alike_sym: "alike e e' \<Longrightarrow> alike e' e"
  by (simp add: alike_def)

lemma alike_trans: "alike e e' \<Longrightarrow> alike e' e'' \<Longrightarrow> alike e e''"
  by (simp add: alike_def)

named_theorems alike_intros \<open>operations keep engines alike\<close>

lemma rel_bind [alike_intros]:
  "rel_option R x x' \<Longrightarrow> (\<And>y y'. R y y' \<Longrightarrow> rel_option S (f y) (f' y')) \<Longrightarrow> rel_option S (x \<bind> f) (x' \<bind> f')"
  by (cases x; cases x') auto

lemma rel_same: "(\<And>y. x = Some y \<Longrightarrow> rel_option S (f y) (f' y)) \<Longrightarrow> rel_option S (x \<bind> f) (x \<bind> f')"
  by (cases x) auto

lemma rel_if:
  "rel_option R x x' \<Longrightarrow> rel_option R y y' \<Longrightarrow> rel_option R (if a then x else y) (if a then x' else y')"
  by simp

lemma clients_lookup [simp]: "map_of (blank_clients cs) k = map_option blank_client (map_of cs k)"
  by (induction cs) (auto simp: blank_clients_def)

lemma clients_put [simp]: "blank_clients (om_put (<) k s cs) = om_put (<) k (blank_client s) (blank_clients cs)"
  by (induction cs) (auto simp: blank_clients_def)

lemma clients_alike:
  assumes "blank_clients cs = blank_clients cs'"
  shows "map_of cs k = None \<longleftrightarrow> map_of cs' k = None"
    "map_of cs k = Some s \<Longrightarrow> \<exists>s'. map_of cs' k = Some s' \<and> blank_client s = blank_client s'"
  using clients_lookup [of cs k] clients_lookup [of cs' k] assms by (auto simp del: clients_lookup)

lemma blank_client_eq:
  "blank_client s = blank_client s' \<longleftrightarrow> cs_last_request s = cs_last_request s' \<and> cs_max_order_id s = cs_max_order_id s' \<and>
     cs_last_command s = cs_last_command s' \<and> map blank (cs_cached s) = map blank (cs_cached s')"
  by (cases s; cases s') (simp add: blank_client_def)

lemma clients_rel: "blank_clients cs = blank_clients cs' \<Longrightarrow>
    rel_option (\<lambda>s s'. blank_client s = blank_client s') (map_of cs k) (map_of cs' k)"
  using clients_alike [of cs cs' k] by (cases "map_of cs k"; cases "map_of cs' k") auto

lemma put_alike:
  "alike e e' \<Longrightarrow> blank_client s = blank_client s' \<Longrightarrow>
   alike (e\<lparr>e_clients := om_put (<) k s (e_clients e)\<rparr>) (e'\<lparr>e_clients := om_put (<) k s' (e_clients e')\<rparr>)"
  by (simp add: alike_def)

section \<open>Operations\<close>

lemma report_alike: "alike_work w w' \<Longrightarrow> alike_work (engine_report m t r w) (engine_report m t r w')"
  by (cases w; cases w') (simp add: alike_work_def alike_def engine_report_def Let_def blank_def)

lemma update_alike: "alike_work w w' \<Longrightarrow> alike_work (engine_update m t w) (engine_update m t w')"
  by (cases w; cases w') (simp add: alike_work_def alike_def engine_update_def Let_def blank_update_def)

lemma reject_alike: "alike_work w w' \<Longrightarrow> alike_work (engine_reject c r w) (engine_reject c r w')"
  by (cases w; cases w') (simp add: alike_work_def alike_def engine_reject_def engine_report_def Let_def blank_def)

lemma book_apply_alike:
  "alike e e' \<Longrightarrow> rel_option (\<lambda>(r, x) (r', x'). r = r' \<and> alike x x') (book_apply h i ev e) (book_apply h i ev e')"
  by (auto simp: book_apply_def alike_def rel_option_iff split: option.splits bind_splits)

lemma book_require_alike: "alike e e' \<Longrightarrow> rel_option alike (book_require h i ev e) (book_require h i ev e')"
  unfolding book_require_def by (rule rel_bind [OF book_apply_alike]) auto

lemma alike_books: "alike_work (b, e) (b', e') \<Longrightarrow> alike e1 e1' \<Longrightarrow> alike_work (b, e1) (b', e1')"
  by (simp add: alike_work_def)

lemma alike_fields:
  assumes "alike_work w w'"
  shows "e_instruments (snd w') = e_instruments (snd w)" "e_books (snd w') = e_books (snd w)" "e_resting (snd w') = e_resting (snd w)"
    "e_by_client (snd w') = e_by_client (snd w)" "e_positions (snd w') = e_positions (snd w)" "e_next_order (snd w') = e_next_order (snd w)"
    "e_next_trade (snd w') = e_next_trade (snd w)"
  using assms by (simp_all add: alike_work_def alike_def)

text \<open>A step that rewrites fields both engines share.\<close>

lemma alike_set: "alike_work (b, e) (b', e') \<Longrightarrow>
    (\<And>x x'. alike x x' \<Longrightarrow> alike (f x) (f x')) \<Longrightarrow> alike_work (b, f e) (b', f e')"
  by (simp add: alike_work_def)

lemma rel_work:
  "alike_work w w' \<Longrightarrow> (\<And>b e b' e'. alike_work (b, e) (b', e') \<Longrightarrow> rel_option S (f b e) (f' b' e')) \<Longrightarrow>
   rel_option S (case w of (b, e) \<Rightarrow> f b e) (case w' of (b, e) \<Rightarrow> f' b e)"
  by (cases w; cases w') auto

lemma rel_require:
  assumes "alike_work (b, e) (b', e')" "\<And>x x'. alike_work (b, x) (b', x') \<Longrightarrow> rel_option S (f x) (f' x')"
  shows "rel_option S (book_require h i ev e \<bind> f) (book_require h i ev e' \<bind> f')"
proof (rule rel_bind [OF book_require_alike])
  show "alike e e'" using assms(1) by (simp add: alike_work_def)
  show "rel_option S (f x) (f' x')" if "alike x x'" for x x' using assms that by (simp add: alike_work_def)
qed

lemmas alike_defs = alike_work_def alike_def

lemma cancel_alike:
  assumes "alike_work w w'"
  shows "rel_option alike_work (engine_cancel h oid request w) (engine_cancel h oid request w')"
  unfolding engine_cancel_def Let_def
  apply (rule rel_work [OF assms])
  subgoal premises al for b e b' e'
    unfolding alike_fields [OF al, unfolded snd_conv]
    by (rule rel_same, rule rel_require [OF al], rule rel_work, rule report_alike, rule update_alike, assumption) (simp add: alike_defs)
  done

lemma check_alike:
  assumes "alike e e'"
  shows "submit_check e' c old_id = submit_check e c old_id"
proof -
  have eq: "e_instruments e' = e_instruments e" "e_resting e' = e_resting e" "e_positions e' = e_positions e"
    and cl: "blank_clients (e_clients e) = blank_clients (e_clients e')"
    using assms by (simp_all add: alike_def)
  have pos: "engine_position k i e' = engine_position k i e" for k i by (simp add: engine_position_def eq)
  consider "map_of (e_clients e) (m_client_id c) = None" "map_of (e_clients e') (m_client_id c) = None"
    | s s' where "map_of (e_clients e) (m_client_id c) = Some s" "map_of (e_clients e') (m_client_id c) = Some s'"
        "cs_max_order_id s' = cs_max_order_id s"
    using clients_alike [OF cl, of "m_client_id c"]
    by (cases "map_of (e_clients e) (m_client_id c)") (auto simp: blank_client_eq)
  then show ?thesis
  proof cases
    case 1
    show ?thesis unfolding submit_check_def eq pos 1 ..
  next
    case (2 s s')
    show ?thesis unfolding submit_check_def eq pos 2(1,2) option.case 2(3) ..
  qed
qed

lemma reduce_alike:
  assumes "alike_work w w'"
  shows "rel_option alike_work (submit_reduce h c old_id old w) (submit_reduce h c old_id old w')"
  unfolding submit_reduce_def Let_def
  apply (rule rel_work [OF assms])
  subgoal premises al for b e b' e'
    apply (rule rel_bind [where R = alike_work])
    subgoal
      using al by (auto intro!: rel_require update_alike)
    subgoal for w w'
      by (rule rel_work, assumption) (simp, rule report_alike, simp add: alike_defs)
    done
  done

lemma plan_alike:
  assumes "alike e e'"
  shows "submit_plan e' c = submit_plan e c"
proof -
  have eq: "e_books e' = e_books e" "e_resting e' = e_resting e" using assms by (simp_all add: alike_def)
  have visit: "plan_visit e' c = plan_visit e c" by (simp add: fun_eq_iff plan_visit_def eq split: option.splits)
  show ?thesis unfolding submit_plan_def eq visit ..
qed

lemma positions_alike:
  "alike_work (b, e) (b', e') \<Longrightarrow> rel_option alike (fill_positions c maker f e) (fill_positions c maker f e')"
  unfolding fill_positions_def Let_def
  by (auto simp: alike_defs split: bind_splits)

definition alike_fill :: "Quantity \<times> work \<Rightarrow> Quantity \<times> work \<Rightarrow> bool" where
  "alike_fill st st' \<longleftrightarrow> fst st = fst st' \<and> alike_work (snd st) (snd st')"

lemma fill_one_alike:
  assumes "alike_fill st st'"
  shows "rel_option alike_fill (fill_one h c incoming f st) (fill_one h c incoming f st')"
proof -
  obtain q b e b' e' where st: "st = (q, b, e)" "st' = (q, b', e')" and al: "alike_work (b, e) (b', e')"
    using assms by (cases st; cases st') (auto simp: alike_fill_def)
  show ?thesis
    unfolding fill_one_def st prod.case Let_def alike_fields [OF al, unfolded snd_conv]
    apply (rule rel_same)
    apply (rule rel_require [where b = b and b' = b'])
    subgoal using al by (simp add: alike_defs)
    subgoal premises m for maker e2 e2'
      unfolding alike_fields [OF m(2), unfolded snd_conv]
      apply (rule rel_work)
       apply (intro update_alike report_alike m)
      subgoal premises n for b3 e3 b3' e3'
        unfolding alike_fields [OF n, unfolded snd_conv]
        apply (rule rel_work)
         apply (intro update_alike report_alike)
        subgoal using n by (simp add: alike_defs)
        subgoal premises p for b5 e5 b5' e5'
          by (rule rel_bind [OF positions_alike [OF p]]) (use p in \<open>auto simp: alike_fill_def alike_defs\<close>)
        done
      done
    done
qed

lemma fill_all_alike:
  "alike_fill st st' \<Longrightarrow> rel_option alike_fill (fill_all h c incoming fs st) (fill_all h c incoming fs st')"
proof (induction fs arbitrary: st st')
  case (Cons f fs)
  show ?case
    unfolding fill_all.simps by (rule rel_bind [OF fill_one_alike [OF Cons.prems]]) (rule Cons.IH)
qed simp

lemma remainder_alike:
  assumes "alike e e'"
  shows "rel_option (rel_sum alike alike) (rest_remainder h c old_id incoming leaves e) (rest_remainder h c old_id incoming leaves e')"
proof -
  have eq: "e_next_order e' = e_next_order e" "e_resting e' = e_resting e" "e_by_client e' = e_by_client e"
    using assms by (simp_all add: alike_def)
  show ?thesis
    unfolding rest_remainder_def Let_def eq
    by (rule rel_bind [OF book_apply_alike]) (use assms in \<open>auto simp: alike_def eq\<close>)
qed

lemma retire_alike:
  assumes "alike_work w w'"
  shows "rel_option alike_work (retire_old h c old_id new_id keep w) (retire_old h c old_id new_id keep w')"
  unfolding retire_old_def Let_def
  apply (rule rel_work [OF assms])
  subgoal premises al for b e b' e'
    unfolding alike_fields [OF al, unfolded snd_conv]
    by (rule rel_same, rule rel_require [OF al], rule rel_work, rule update_alike, assumption) (auto simp: alike_defs)
  done

lemma close_alike: "alike_work w w' \<Longrightarrow> alike_work (commit_close c new_id leaves w) (commit_close c new_id leaves w')"
  by (simp add: commit_close_def update_alike report_alike)

lemma next_order_positions: "e_next_order (e\<lparr>e_positions := ps\<rparr>) = e_next_order e"
  by simp

lemma commit_alike:
  assumes "alike_work w w'"
  shows "rel_option alike_work (submit_commit h c old_id planned leaves w) (submit_commit h c old_id planned leaves w')"
  unfolding submit_commit_def Let_def next_order_positions
  apply (rule rel_work [OF assms])
  subgoal premises al for b e b' e'
    unfolding alike_fields [OF al, unfolded snd_conv]
    apply (rule rel_bind [where R = "rel_sum alike alike"])
    subgoal using al by (auto intro!: remainder_alike simp: alike_defs)
    subgoal premises r for x x'
      using r
    proof (cases x; cases x')
      fix e1 e1' assume x: "x = Inl e1" "x' = Inl e1'"
      then have "alike_work (b, e1) (b', e1')" using r al by (simp add: alike_work_def)
      then show ?thesis by (simp add: x reject_alike)
    next
      fix e1 e1' assume x: "x = Inr e1" "x' = Inr e1'"
      then have a1: "alike_work (b, e1) (b', e1')" using r al by (simp add: alike_work_def)
      show ?thesis
        unfolding x sum.case
        apply (rule rel_bind [where R = alike_work])
        subgoal using a1 alike_fields(6) [OF al] by (auto intro!: retire_alike simp: alike_defs)
        subgoal premises s for w3 w3'
          apply (rule rel_work [OF s])
          subgoal premises t for b3 e3 b3' e3'
            apply (rule rel_bind [OF clients_rel])
            subgoal using t by (simp add: alike_defs)
            subgoal premises u for s s'
              apply (rule rel_bind [OF fill_all_alike])
              subgoal
                unfolding alike_fill_def fst_conv snd_conv
                by (intro conjI refl report_alike) (use t u in \<open>simp add: alike_work_def put_alike blank_client_eq\<close>)
              subgoal for st st'
                by (cases st; cases st') (simp add: alike_fill_def close_alike)
              done
            done
          done
        done
    qed auto
    done
  done

lemma match_alike:
  assumes "alike_work w w'"
  shows "rel_option alike_work (submit_match h c old_id w) (submit_match h c old_id w')"
proof -
  have "alike (snd w) (snd w')" using assms by (simp add: alike_work_def)
  note plan = plan_alike [OF this]
  show ?thesis
    unfolding submit_match_def plan
    by (rule rel_same) (auto intro!: reject_alike commit_alike assms split: prod.splits)
qed

lemma submit_alike:
  assumes "alike_work w w'"
  shows "rel_option alike_work (engine_submit h c old_id w) (engine_submit h c old_id w')"
proof -
  have "alike (snd w) (snd w')" using assms by (simp add: alike_work_def)
  note check = check_alike [OF this]
  show ?thesis
    unfolding engine_submit_def check alike_fields [OF assms]
    by (rule rel_same) (auto intro!: rel_same reject_alike reduce_alike match_alike assms split: option.splits)
qed

lemma cancel_all_alike:
  "alike_work w w' \<Longrightarrow> rel_option alike_work (cancel_all h ids request w) (cancel_all h ids request w')"
proof (induction ids arbitrary: w w')
  case (Cons i ids)
  show ?case unfolding cancel_all.simps by (rule rel_bind [OF cancel_alike [OF Cons.prems]]) (rule Cons.IH)
qed simp

lemma dispatch_alike:
  assumes "alike_work w w'"
  shows "rel_option alike_work (engine_dispatch h c w) (engine_dispatch h c w')"
proof -
  have orders: "client_orders c (snd w') = client_orders c (snd w)" by (simp add: client_orders_def alike_fields [OF assms])
  show ?thesis
    unfolding engine_dispatch_def orders alike_fields [OF assms]
    by (auto intro!: rel_same submit_alike reject_alike cancel_alike cancel_all_alike assms split: option.splits)
qed

lemma blank_filter: "map blank (filter (\<lambda>m. m_client_id m = k) ms) = filter (\<lambda>m. m_client_id m = k) (map blank ms)"
  by (induction ms) (auto simp: blank_def)

lemma complete_alike:
  assumes "alike_work w w'"
  shows "rel_option alike_work (engine_complete c w) (engine_complete c w')"
  unfolding engine_complete_def Let_def alike_fields [OF assms]
  apply (rule rel_same)
  apply (rule rel_work [OF report_alike [OF assms]])
  subgoal premises t for m b e b' e'
    apply (rule rel_bind [OF clients_rel])
    subgoal using t by (simp add: alike_defs)
    subgoal premises u for s s'
    proof -
      have "map blank (filter (\<lambda>m. m_client_id m = m_client_id c) (b_reports b)) = map blank (filter (\<lambda>m. m_client_id m = m_client_id c) (b_reports b'))"
        using t(2) by (simp add: blank_filter alike_work_def)
      then have "blank_client (s\<lparr>cs_last_request := m_request_id c, cs_last_command := c,
          cs_cached := filter (\<lambda>m. m_client_id m = m_client_id c) (b_reports b)\<rparr>) =
        blank_client (s'\<lparr>cs_last_request := m_request_id c, cs_last_command := c,
          cs_cached := filter (\<lambda>m. m_client_id m = m_client_id c) (b_reports b')\<rparr>)"
        using u by (simp add: blank_client_eq)
      then show ?thesis using t(2) put_alike by (simp add: alike_work_def)
    qed
    done
  done

lemma emplace_alike:
  "alike e e' \<Longrightarrow> alike (e\<lparr>e_clients := om_emplace k s (e_clients e)\<rparr>) (e'\<lparr>e_clients := om_emplace k s (e_clients e')\<rparr>)"
  using clients_alike [of "e_clients e" "e_clients e'" k] by (auto simp: alike_def om_emplace_def)

lemma last_request_alike: "alike e e' \<Longrightarrow> engine_last_request k e' = engine_last_request k e"
  using clients_alike [of "e_clients e" "e_clients e'" k]
  by (auto simp: alike_def engine_last_request_def blank_client_eq split: option.splits)

lemma process_alike:
  assumes "alike e e'"
  shows "rel_option alike_work (engine_process h c e) (engine_process h c e')"
proof -
  let ?w = "\<lambda>e. (\<lparr>b_reports = [], b_updates = []\<rparr>, e) :: work"
  let ?e1 = "\<lambda>e. e\<lparr>e_clients := om_emplace (m_client_id c) new_client (e_clients e)\<rparr>"
  have w: "alike_work (?w x) (?w x')" if "alike x x'" for x x' using that by (simp add: alike_work_def)
  have e1: "alike (?e1 e) (?e1 e')" by (rule emplace_alike [OF assms])
  have "e_clients (?e1 x) = om_emplace (m_client_id c) new_client (e_clients x)" for x by simp
  then have cl: "blank_clients (om_emplace (m_client_id c) new_client (e_clients e)) = blank_clients (om_emplace (m_client_id c) new_client (e_clients e'))"
    using e1 by (simp add: alike_def)
  show ?thesis
  proof (cases "m_kind c \<noteq> Command \<or> m_action c = Act_Snapshot \<or> m_action c = Act_Status \<or> m_client_id c = 0 \<or> m_request_id c = 0")
    case True
    then show ?thesis
      using assms by (auto simp: engine_process_def Let_def last_request_alike intro!: reject_alike report_alike w)
  next
    case False
    obtain s s' where s: "map_of (om_emplace (m_client_id c) new_client (e_clients e)) (m_client_id c) = Some s"
        "map_of (om_emplace (m_client_id c) new_client (e_clients e')) (m_client_id c) = Some s'" "blank_client s = blank_client s'"
      using clients_alike [OF cl, of "m_client_id c"] by (auto simp: om_emplace_def split: if_splits)
    have run: "engine_process h c x = (let e1 = ?e1 x in
        if m_request_id c = cs_last_request t \<and> c = cs_last_command t
        then Some (\<lparr>b_reports = cs_cached t, b_updates = []\<rparr>, e1)
        else if m_request_id c \<le> cs_last_request t \<or> m_request_id c - cs_last_request t \<noteq> 1
        then Some (engine_report c Rpt_Complete Rej_None (engine_reject c Rej_Sequence (?w e1)))
        else engine_dispatch h c (?w (e1\<lparr>e_stats := (e_stats e1)\<lparr>st_commands := st_commands (e_stats e1) + 1\<rparr>\<rparr>)) \<bind> engine_complete c)"
      if "map_of (om_emplace (m_client_id c) new_client (e_clients x)) (m_client_id c) = Some t" for x t
    proof -
      have guards: "(m_kind c \<noteq> Command \<or> m_action c = Act_Snapshot) = False" "(m_action c = Act_Status) = False"
          "(m_client_id c = 0 \<or> m_request_id c = 0) = False"
        using False by simp_all
      have found: "map_of (e_clients (?e1 x)) (m_client_id c) = Some t" using that by simp
      show ?thesis unfolding engine_process_def Let_def guards if_False found option.case ..
    qed
    have eqs: "cs_last_request s' = cs_last_request s" "cs_last_command s' = cs_last_command s"
        "map blank (cs_cached s) = map blank (cs_cached s')"
      using s(3) by (simp_all add: blank_client_eq)
    have counted: "alike_work (?w ((?e1 e)\<lparr>e_stats := (e_stats (?e1 e))\<lparr>st_commands := st_commands (e_stats (?e1 e)) + 1\<rparr>\<rparr>))
        (?w ((?e1 e')\<lparr>e_stats := (e_stats (?e1 e'))\<lparr>st_commands := st_commands (e_stats (?e1 e')) + 1\<rparr>\<rparr>))"
      using e1 by (simp add: alike_defs)
    have cached: "alike_work (\<lparr>b_reports = cs_cached s, b_updates = []\<rparr>, ?e1 e) (\<lparr>b_reports = cs_cached s', b_updates = []\<rparr>, ?e1 e')"
      using e1 eqs(3) by (simp add: alike_work_def)
    have refused: "alike_work (engine_report c Rpt_Complete Rej_None (engine_reject c Rej_Sequence (?w (?e1 e))))
        (engine_report c Rpt_Complete Rej_None (engine_reject c Rej_Sequence (?w (?e1 e'))))"
      by (intro report_alike reject_alike w e1)
    have served: "rel_option alike_work
        (engine_dispatch h c (?w ((?e1 e)\<lparr>e_stats := (e_stats (?e1 e))\<lparr>st_commands := st_commands (e_stats (?e1 e)) + 1\<rparr>\<rparr>)) \<bind> engine_complete c)
        (engine_dispatch h c (?w ((?e1 e')\<lparr>e_stats := (e_stats (?e1 e'))\<lparr>st_commands := st_commands (e_stats (?e1 e')) + 1\<rparr>\<rparr>)) \<bind> engine_complete c)"
      by (rule rel_bind [OF dispatch_alike [OF counted]]) (rule complete_alike)
    show ?thesis
      unfolding run [OF s(1)] run [OF s(2)] Let_def eqs(1,2)
      by (intro rel_if option.rel_intros cached refused served)
  qed
qed

section \<open>Replay\<close>

lemma status_alike:
  assumes "m_kind c = Command" "m_action c = Act_Status" "engine_process h c e = Some (b, e')"
  shows "alike e' e"
  using assms by (auto simp: engine_process_def engine_report_def Let_def alike_def)

lemma run_alike:
  assumes "alike e e'" "list_all (\<lambda>(h, c). m_kind c = Command) cs"
  shows "rel_option alike (engine_run cs e) (engine_run (filter (\<lambda>(h, c). m_action c \<noteq> Act_Status) cs) e')"
  using assms
proof (induction cs arbitrary: e e')
  case Nil
  then show ?case by simp
next
  case (Cons p cs)
  obtain h c where p: "p = (h, c)" by force
  show ?case
  proof (cases "m_action c = Act_Status")
    case True
    have "engine_process h c e \<noteq> None" using True Cons.prems(2) by (simp add: p engine_process_def Let_def)
    then obtain b e1 where run: "engine_process h c e = Some (b, e1)" by auto
    have "alike e1 e'" using status_alike [OF _ True run] Cons.prems alike_trans by (auto simp: p)
    then show ?thesis using Cons.IH [of e1 e'] Cons.prems(2) True run by (simp add: p)
  next
    case False
    have "rel_option alike (engine_process h c e \<bind> (\<lambda>(_, x). engine_run cs x))
        (engine_process h c e' \<bind> (\<lambda>(_, x). engine_run (filter (\<lambda>(h, c). m_action c \<noteq> Act_Status) cs) x))"
      by (rule rel_bind [OF process_alike [OF Cons.prems(1)]])
        (use Cons.IH Cons.prems(2) in \<open>auto simp: p alike_work_def split: prod.splits\<close>)
    then show ?thesis using False by (simp add: p)
  qed
qed

end
