(* ===== verification/Server.thy ===== *)
theory Server
  imports Engine_Replay Journal Config Queue_Spec Poll_IO
begin

unbundle bit_operations_syntax

text \<open>
  include/order_book/trading/server.hpp and src/trading/server.cpp: the exchange. Three threads share
  three bounded queues and three flags: the reactor owns the client connections and turns frames into
  requests and responses into frames, the engine thread journals and matches the requests, the
  publisher multicasts the book updates.

  \<open>Exchange\<close> is the state of the whole program, with a program counter and the live locals of each
  thread. \<open>engine_step\<close>, \<open>publisher_step\<close> and \<open>reactor_step\<close> run one thread up to its next access to
  what the threads share, so a run is any interleaving of these steps; what the environment decides (the
  clock, the results of system calls, allocations) is the argument of a step. An exception is caught at
  the end of each thread, as the source does. Two history fields, \<open>x_commands\<close> and \<open>x_emitted\<close>, record
  the processed commands with the allocations they met and the updates of the engine; no step reads
  them. The log file, whose only effect is on the final status, is an argument of \<open>exchange_status\<close>.
\<close>

section \<open>State\<close>

record ServerConfig =
  cfg_tcp_port :: u16
  cfg_multicast_port :: u16
  cfg_group :: string
  cfg_interface :: string
  cfg_journal :: string
  cfg_log :: string
  cfg_metrics :: string
  cfg_instruments :: Instruments

record Envelope =
  env_connection :: u64
  env_message :: Message

text \<open>A connection without its descriptor. Times are in nanoseconds.\<close>

record Connection =
  c_input :: "u8 list"
  c_used :: nat
  c_offset :: nat
  c_output :: "u8 list list"
  c_client :: ClientId
  c_closing :: bool
  c_read_closed :: bool
  c_admitted :: nat
  c_progress :: int
  c_read_progress :: int

definition Connection_new :: "int \<Rightarrow> int \<Rightarrow> Connection" where
  "Connection_new now1 now2 = \<lparr>c_input = replicate frame_size 0, c_used = 0, c_offset = 0, c_output = [], c_client = 0,
     c_closing = False, c_read_closed = False, c_admitted = 0, c_progress = now1, c_read_progress = now2\<rparr>"

text \<open>The events \<open>poll\<close> reports for a connection; \<open>poll_error\<close> stands for \<open>POLLERR | POLLNVAL\<close>.\<close>

record events =
  can_read :: bool
  can_write :: bool
  poll_error :: bool
  hung_up :: bool

datatype engine_pc = E_Top | E_Load | E_Pop bool | E_Send "Envelope list" "Message list" | E_Leave | E_Done

datatype publisher_pc = B_Top | B_Pop bool | B_Beat | B_Done

datatype reactor_pc = R_Top | R_Load | R_Deliver bool bool nat | R_Poll bool bool
  | R_Accept nat bool "(u64 \<times> events) list" | R_Wake bool "(u64 \<times> events) list"
  | R_Serve "(u64 \<times> events) list" "u64 list" | R_Leave | R_Done

record Exchange =
  x_epoch :: u64
  x_engine :: MatchingEngine
  x_journal :: "u8 list option"
  x_requests :: "Envelope LFQueue"
  x_responses :: "Envelope LFQueue"
  x_updates :: "Message LFQueue"
  x_ingress_done :: bool
  x_engine_done :: bool
  x_fatal :: bool
  x_engine_error :: bool
  x_publisher_error :: bool
  x_io_error :: bool
  x_engine_pc :: engine_pc
  x_publisher_pc :: publisher_pc
  x_reactor_pc :: reactor_pc
  x_heartbeat :: Message
  x_heartbeat_at :: int
  x_datagrams :: u64
  x_multicast :: "u8 list list"
  x_connections :: "(u64 \<times> Connection) list"
  x_routes :: "(ClientId \<times> u64) list"
  x_next_connection :: u64
  x_accepted :: u64
  x_slow_clients :: u64
  x_malformed :: u64
  x_draining :: bool
  x_drain_until :: int
  x_commands :: "(heap_env \<times> Message) list"
  x_emitted :: "Message list"

section \<open>Start and recovery\<close>

definition exchange_epoch :: "u32 \<Rightarrow> u32 \<Rightarrow> u64" where
  "exchange_epoch hi lo = push_bit 32 (ucast hi) OR ucast (lo OR 1)"

datatype start_error = Bad_Instruments | Journal_Error journal_error | Replay_Failed | Recovery_Invariant string

text \<open>The recovered commands with the allocations their replay meets.\<close>

fun attach :: "(nat \<Rightarrow> heap_env) \<Rightarrow> Message list \<Rightarrow> (heap_env \<times> Message) list" where
  "attach hs [] = []"
| "attach hs (c # cs) = (hs 0, c) # attach (\<lambda>k. hs (Suc k)) cs"

definition exchange_new ::
    "int \<Rightarrow> u64 \<Rightarrow> MatchingEngine \<Rightarrow> u8 list option \<Rightarrow> (heap_env \<times> Message) list \<Rightarrow> Exchange" where
  "exchange_new now epoch engine journal commands =
     \<lparr>x_epoch = epoch, x_engine = engine, x_journal = journal,
      x_requests = queue_new queue_capacity \<lparr>env_connection = 0, env_message = default_message\<rparr>,
      x_responses = queue_new queue_capacity \<lparr>env_connection = 0, env_message = default_message\<rparr>,
      x_updates = queue_new queue_capacity default_message,
      x_ingress_done = False, x_engine_done = False, x_fatal = False,
      x_engine_error = False, x_publisher_error = False, x_io_error = False,
      x_engine_pc = E_Top, x_publisher_pc = B_Top, x_reactor_pc = R_Top,
      x_heartbeat = default_message\<lparr>m_kind := Heartbeat, m_epoch := epoch, m_sequence := e_sequence engine\<rparr>,
      x_heartbeat_at = now, x_datagrams = 0, x_multicast = [],
      x_connections = [], x_routes = [], x_next_connection = 1, x_accepted = 0,
      x_slow_clients = 0, x_malformed = 0, x_draining = False, x_drain_until = 0,
      x_commands = commands, x_emitted = []\<rparr>"

definition exchange_journal ::
    "journal_env \<Rightarrow> ServerConfig \<Rightarrow> u8 list \<Rightarrow> journal_error + Message list \<times> u8 list option" where
  "exchange_journal jenv config disk =
     (if cfg_journal config = ''-'' then Inr ([], None)
      else case Journal_new jenv (config_fingerprint (cfg_instruments config)) disk of
        (Inl err, _) \<Rightarrow> Inl err
      | (Inr recovered, disk') \<Rightarrow> Inr (recovered, Some disk'))"

definition exchange_start ::
    "(InstrumentId \<Rightarrow> nat option) \<Rightarrow> journal_env \<Rightarrow> (nat \<Rightarrow> heap_env) \<Rightarrow> int \<Rightarrow> u64 \<Rightarrow> ServerConfig \<Rightarrow> u8 list \<Rightarrow>
     start_error + Exchange" where
  "exchange_start blocks jenv hs now epoch config disk =
     (case MatchingEngine_new blocks (cfg_instruments config) epoch of
        None \<Rightarrow> Inl Bad_Instruments
      | Some engine \<Rightarrow>
          (case exchange_journal jenv config disk of
             Inl err \<Rightarrow> Inl (Journal_Error err)
           | Inr (recovered, journal) \<Rightarrow>
               (case engine_run (attach hs recovered) engine of
                  None \<Rightarrow> Inl Replay_Failed
                | Some engine' \<Rightarrow>
                    (case engine_validate engine' of
                       Inl reason \<Rightarrow> Inl (Recovery_Invariant reason)
                     | Inr _ \<Rightarrow> Inr (exchange_new now epoch engine' journal (attach hs recovered))))))"

section \<open>The engine thread\<close>

record engine_env =
  ee_heap :: heap_env
  ee_journal_writes :: "io_call list"
  ee_journal_synced :: bool
  ee_wake_ok :: bool

definition engine_throws :: "Exchange \<Rightarrow> Exchange" where
  "engine_throws x = x\<lparr>x_engine_error := True, x_fatal := True, x_engine_pc := E_Leave\<rparr>"

text \<open>After the loop: the final validation.\<close>

definition engine_finish :: "Exchange \<Rightarrow> Exchange" where
  "engine_finish x =
     (case engine_validate (x_engine x) of
        Inl _ \<Rightarrow> engine_throws x
      | Inr _ \<Rightarrow> x\<lparr>x_engine_pc := E_Leave\<rparr>)"

definition journal_command :: "engine_env \<Rightarrow> Message \<Rightarrow> Exchange \<Rightarrow> bool \<times> Exchange" where
  "journal_command env c x =
     (case x_journal x of
        None \<Rightarrow> (True, x)
      | Some disk \<Rightarrow>
          if m_action c = Act_Status then (True, x)
          else case journal_append (ee_journal_writes env) (ee_journal_synced env) c disk of
            (err, disk') \<Rightarrow> (err = None, x\<lparr>x_journal := Some disk'\<rparr>))"

definition addressed :: "u64 \<Rightarrow> Message \<Rightarrow> Message \<Rightarrow> Envelope" where
  "addressed connection c m =
     \<lparr>env_connection = (if m_client_id m = m_client_id c then connection else 0), env_message = m\<rparr>"

definition serve_request :: "engine_env \<Rightarrow> Envelope \<Rightarrow> Exchange \<Rightarrow> Exchange" where
  "serve_request env envelope x =
     (let c = env_message envelope in
      if m_action c = Act_Snapshot
      then x\<lparr>x_engine_pc := E_Send
             (map (\<lambda>m. \<lparr>env_connection = env_connection envelope, env_message = m\<rparr>) (engine_snapshot (x_engine x))) []\<rparr>
      else case journal_command env c x of
        (False, x1) \<Rightarrow> engine_throws x1
      | (True, x1) \<Rightarrow>
          (case engine_process (ee_heap env) c (x_engine x1) of
             None \<Rightarrow> engine_throws x1
           | Some (batch, engine') \<Rightarrow>
               x1\<lparr>x_engine := engine',
                  x_commands := x_commands x1 @ [(ee_heap env, c)],
                  x_emitted := x_emitted x1 @ b_updates batch,
                  x_engine_pc := E_Send (map (addressed (env_connection envelope) c) (b_reports batch)) (b_updates batch)\<rparr>))"

definition engine_step :: "engine_env \<Rightarrow> Exchange \<Rightarrow> Exchange" where
  "engine_step env x =
     (case x_engine_pc x of
        E_Top \<Rightarrow> if x_fatal x then engine_finish x else x\<lparr>x_engine_pc := E_Load\<rparr>
      | E_Load \<Rightarrow> x\<lparr>x_engine_pc := E_Pop (x_ingress_done x)\<rparr>
      | E_Pop input_finished \<Rightarrow>
          (case try_pop queue_capacity (x_requests x) of
             (None, _) \<Rightarrow> if input_finished \<or> x_fatal x then engine_finish x else x\<lparr>x_engine_pc := E_Top\<rparr>
           | (Some envelope, q) \<Rightarrow> serve_request env envelope (x\<lparr>x_requests := q\<rparr>))
      | E_Send (r # rs) us \<Rightarrow>
          (case try_push queue_capacity r (x_responses x) of
             (True, q) \<Rightarrow>
               if ee_wake_ok env then x\<lparr>x_responses := q, x_engine_pc := E_Send rs us\<rparr>
               else engine_throws (x\<lparr>x_responses := q\<rparr>)
           | (False, _) \<Rightarrow> if x_fatal x then x\<lparr>x_engine_pc := E_Send [] us\<rparr> else x)
      | E_Send [] (u # us) \<Rightarrow>
          (case try_push queue_capacity u (x_updates x) of
             (True, q) \<Rightarrow> x\<lparr>x_updates := q, x_engine_pc := E_Send [] us\<rparr>
           | (False, _) \<Rightarrow> if x_fatal x then x\<lparr>x_engine_pc := E_Top\<rparr> else x)
      | E_Send [] [] \<Rightarrow> x\<lparr>x_engine_pc := E_Top\<rparr>
      | E_Leave \<Rightarrow> x\<lparr>x_engine_done := True, x_engine_pc := E_Done\<rparr>
      | E_Done \<Rightarrow> x)"

section \<open>The publisher thread\<close>

record publisher_env =
  pe_sent :: bool
  pe_checked :: int
  pe_now :: int

definition publisher_throws :: "Exchange \<Rightarrow> Exchange" where
  "publisher_throws x = x\<lparr>x_publisher_error := True, x_fatal := True, x_publisher_pc := B_Done\<rparr>"

text \<open>\<open>publisher.send(encode(m))\<close> and the count; \<open>None\<close> when either throws.\<close>

definition multicast :: "publisher_env \<Rightarrow> Message \<Rightarrow> Exchange \<Rightarrow> Exchange option" where
  "multicast env m x =
     (case encode m of
        None \<Rightarrow> None
      | Some frame \<Rightarrow>
          if pe_sent env then Some (x\<lparr>x_multicast := x_multicast x @ [frame], x_datagrams := x_datagrams x + 1\<rparr>)
          else None)"

definition publisher_step :: "publisher_env \<Rightarrow> Exchange \<Rightarrow> Exchange" where
  "publisher_step env x =
     (case x_publisher_pc x of
        B_Top \<Rightarrow> x\<lparr>x_publisher_pc := B_Pop (x_engine_done x)\<rparr>
      | B_Pop matching_finished \<Rightarrow>
          (case try_pop queue_capacity (x_updates x) of
             (Some m, q) \<Rightarrow>
               (case multicast env m (x\<lparr>x_updates := q\<rparr>) of
                  None \<Rightarrow> publisher_throws (x\<lparr>x_updates := q\<rparr>)
                | Some x1 \<Rightarrow> x1\<lparr>x_heartbeat := (x_heartbeat x1)\<lparr>m_sequence := m_sequence m\<rparr>, x_publisher_pc := B_Beat\<rparr>)
           | (None, _) \<Rightarrow> x\<lparr>x_publisher_pc := (if matching_finished then B_Done else B_Beat)\<rparr>)
      | B_Beat \<Rightarrow>
          let after = (\<lambda>x. x\<lparr>x_publisher_pc := (if x_fatal x then B_Done else B_Top)\<rparr>) in
          if x_heartbeat_at x \<le> pe_checked env
          then (case multicast env (x_heartbeat x) x of
                  None \<Rightarrow> publisher_throws x
                | Some x1 \<Rightarrow> after (x1\<lparr>x_heartbeat_at := pe_now env + 100000000\<rparr>))
          else after x
      | B_Done \<Rightarrow> x)"

section \<open>Connections\<close>

definition closes_request :: "Message \<Rightarrow> bool" where
  "closes_request m \<longleftrightarrow> (m_kind m = Report \<and> (m_report m = Rpt_Complete \<or> m_report m = Rpt_Status)) \<or> m_kind m = SnapshotEnd"

text \<open>The lambda \<open>append\<close>: whether the client was too slow, and the connection; \<open>None\<close> when \<open>encode\<close> throws.\<close>

definition connection_append :: "int \<Rightarrow> Message \<Rightarrow> Connection \<Rightarrow> (bool \<times> Connection) option" where
  "connection_append now m c =
     (if 4096 \<le> length (c_output c) then Some (True, c\<lparr>c_closing := True, c_output := []\<rparr>)
      else case encode m of
        None \<Rightarrow> None
      | Some frame \<Rightarrow> Some (False,
          c\<lparr>c_progress := (if c_output c = [] then now else c_progress c),
            c_admitted := (if closes_request m \<and> c_admitted c \<noteq> 0 then c_admitted c - 1 else c_admitted c),
            c_output := c_output c @ [frame]\<rparr>))"

definition count_slow :: "bool \<Rightarrow> Exchange \<Rightarrow> Exchange" where
  "count_slow slow x = (if slow then x\<lparr>x_slow_clients := x_slow_clients x + 1\<rparr> else x)"

definition put_connection :: "u64 \<Rightarrow> Connection \<Rightarrow> Exchange \<Rightarrow> Exchange" where
  "put_connection i c x = x\<lparr>x_connections := om_update i (\<lambda>_. c) (x_connections x)\<rparr>"

definition response_target :: "Envelope \<Rightarrow> Exchange \<Rightarrow> u64 option" where
  "response_target r x =
     (if env_connection r = 0 then map_of (x_routes x) (m_client_id (env_message r)) else Some (env_connection r))"

definition deliver :: "int \<Rightarrow> Envelope \<Rightarrow> Exchange \<Rightarrow> Exchange option" where
  "deliver now r x =
     (case response_target r x of
        None \<Rightarrow> Some x
      | Some target \<Rightarrow>
          (case map_of (x_connections x) target of
             None \<Rightarrow> Some x
           | Some c \<Rightarrow>
               if c_closing c then Some x
               else map_option (\<lambda>(slow, c'). put_connection target c' (count_slow slow x))
                      (connection_append now (env_message r) c)))"

record service_env =
  sv_sends :: "send_call list"
  sv_recv :: recv_call
  sv_flush_now :: int
  sv_read_now :: int
  sv_append_now :: int
  sv_check_read :: int
  sv_check_write :: int

text \<open>Writing what is queued; the flag says that the connection is dead.\<close>

definition service_write :: "service_env \<Rightarrow> events \<Rightarrow> Connection \<Rightarrow> bool \<times> Connection" where
  "service_write env ev c =
     (if can_write ev \<and> c_output c \<noteq> []
      then case flush frame_size 64 (sv_sends env) (c_output c) (c_offset c) of (r, _, out, off) \<Rightarrow>
        (poll_error ev \<or> r \<noteq> Flush_Done,
         c\<lparr>c_output := out, c_offset := off,
           c_progress := (if length out \<noteq> length (c_output c) \<or> off \<noteq> c_offset c then sv_flush_now env else c_progress c)\<rparr>)
      else (poll_error ev, c))"

definition service_read :: "service_env \<Rightarrow> bool \<Rightarrow> Connection \<Rightarrow> bool \<times> Connection" where
  "service_read env dead c =
     (if c_used c < frame_size
      then case sv_recv env of
        Recv bytes \<Rightarrow>
          let got = take (frame_size - c_used c) bytes in
          if got = [] then (dead, c\<lparr>c_read_closed := True\<rparr>)
          else (dead, c\<lparr>c_input := overwrite (c_input c) (c_used c) got,
                        c_read_progress := (if c_used c = 0 then sv_read_now env else c_read_progress c),
                        c_used := c_used c + length got\<rparr>)
      | Recv_Failed \<Rightarrow> (True, c)
      | _ \<Rightarrow> (dead, c)
      else (dead, c))"

definition enqueue_request :: "u64 \<Rightarrow> Message \<Rightarrow> Connection \<Rightarrow> Exchange \<Rightarrow> Connection \<times> Exchange" where
  "enqueue_request i m c x =
     (case try_push queue_capacity \<lparr>env_connection = i, env_message = m\<rparr> (x_requests x) of
        (True, q) \<Rightarrow> (c\<lparr>c_used := 0, c_admitted := c_admitted c + 1\<rparr>, x\<lparr>x_requests := q\<rparr>)
      | (False, _) \<Rightarrow> (c, x))"

definition unacceptable :: "Connection \<Rightarrow> Message \<Rightarrow> bool" where
  "unacceptable c m \<longleftrightarrow> m_kind m \<noteq> Command \<or> (m_action m \<noteq> Act_Snapshot \<and> m_client_id m = 0) \<or>
     (c_client c \<noteq> 0 \<and> m_client_id m \<noteq> c_client c)"

definition busy_report :: "u64 \<Rightarrow> Message \<Rightarrow> Message" where
  "busy_report epoch m =
     m\<lparr>m_kind := Report, m_report := Rpt_Rejected, m_reject := Rej_SessionBusy, m_epoch := epoch\<rparr>"

definition service_frame :: "service_env \<Rightarrow> u64 \<Rightarrow> Connection \<Rightarrow> Exchange \<Rightarrow> (bool \<times> Connection \<times> Exchange) option" where
  "service_frame env i c x =
     (let malformed = Some (True, c, x\<lparr>x_malformed := x_malformed x + 1\<rparr>) in
      case decode (c_input c) of
        None \<Rightarrow> malformed
      | Some m \<Rightarrow>
          if unacceptable c m then malformed
          else if c_client c = 0 \<and> m_action m \<noteq> Act_Snapshot
          then if om_contains (x_routes x) (m_client_id m)
               then map_option (\<lambda>(slow, c'). (False, c'\<lparr>c_closing := True\<rparr>, count_slow slow x))
                      (connection_append (sv_append_now env) (busy_report (x_epoch x) m) c)
               else Some (False, enqueue_request i m (c\<lparr>c_client := m_client_id m\<rparr>)
                      (x\<lparr>x_routes := om_put (<) (m_client_id m) i (x_routes x)\<rparr>))
          else Some (False, enqueue_request i m c x))"

definition service_input ::
    "service_env \<Rightarrow> u64 \<Rightarrow> events \<Rightarrow> bool \<Rightarrow> Connection \<Rightarrow> Exchange \<Rightarrow> (bool \<times> Connection \<times> Exchange) option" where
  "service_input env i ev dead c x =
     (if \<not> x_draining x \<and> \<not> c_closing c \<and> \<not> c_read_closed c \<and>
         (can_read ev \<or> hung_up ev \<or> c_used c = frame_size)
      then case service_read env dead c of (dead', c') \<Rightarrow>
        if c_used c' = frame_size \<and> \<not> dead' then service_frame env i c' x else Some (dead', c', x)
      else Some (dead, c, x))"

definition too_slow :: "service_env \<Rightarrow> Connection \<Rightarrow> bool" where
  "too_slow env c \<longleftrightarrow>
     (c_used c \<noteq> 0 \<and> c_used c \<noteq> frame_size \<and> 5000000000 < sv_check_read env - c_read_progress c) \<or>
     (c_output c \<noteq> [] \<and> 5000000000 < sv_check_write env - c_progress c)"

definition finished :: "Connection \<Rightarrow> bool" where
  "finished c \<longleftrightarrow> (c_closing c \<or> (c_read_closed c \<and> c_admitted c = 0)) \<and> c_output c = []"

text \<open>One pass over a connection; the flag asks for its removal, and \<open>None\<close> is an exception.\<close>

definition service_connection :: "service_env \<Rightarrow> u64 \<Rightarrow> events \<Rightarrow> Exchange \<Rightarrow> (bool \<times> Exchange) option" where
  "service_connection env i ev x =
     do {
       c \<leftarrow> map_of (x_connections x) i;
       let (dead1, c1) = service_write env ev c;
       (dead2, c2, x2) \<leftarrow> service_input env i ev dead1 c1 x;
       Some (dead2 \<or> too_slow env c2 \<or> finished c2, put_connection i c2 (count_slow (too_slow env c2) x2))
     }"

fun remove_connections :: "u64 list \<Rightarrow> Exchange \<Rightarrow> Exchange option" where
  "remove_connections [] x = Some x"
| "remove_connections (i # is) x =
     do {
       c \<leftarrow> map_of (x_connections x) i;
       remove_connections is (x\<lparr>x_routes := om_erase (c_client c) (x_routes x), x_connections := om_erase i (x_connections x)\<rparr>)
     }"

section \<open>The reactor\<close>

datatype poll_result = Poll_Interrupted | Poll_Failed | Polled bool bool "u64 \<Rightarrow> events"

datatype accept_result = Accept_Interrupted | Accept_Again | Accept_Failed | Accepted bool

record reactor_env =
  re_stop :: bool
  re_now :: int
  re_later :: int
  re_poll :: poll_result
  re_accept :: accept_result
  re_wake_ok :: bool
  re_service :: service_env

definition reactor_throws :: "Exchange \<Rightarrow> Exchange" where
  "reactor_throws x = x\<lparr>x_io_error := True, x_fatal := True, x_reactor_pc := R_Leave\<rparr>"

definition or_throws :: "Exchange \<Rightarrow> Exchange option \<Rightarrow> Exchange" where
  "or_throws x r = (case r of None \<Rightarrow> reactor_throws x | Some x' \<Rightarrow> x')"

text \<open>\<open>poll\<close> reports the events asked for, and errors and hang-ups always.\<close>

definition polled_events :: "bool \<Rightarrow> (u64 \<Rightarrow> events) \<Rightarrow> u64 \<times> Connection \<Rightarrow> u64 \<times> events" where
  "polled_events draining revents p =
     (case p of (i, c) \<Rightarrow> (i, (revents i)\<lparr>
        can_read := can_read (revents i) \<and> \<not> draining \<and> \<not> c_closing c \<and> \<not> c_read_closed c,
        can_write := can_write (revents i) \<and> c_output c \<noteq> []\<rparr>))"

definition reactor_poll :: "reactor_env \<Rightarrow> Exchange \<Rightarrow> Exchange" where
  "reactor_poll env x =
     (case re_poll env of
        Poll_Interrupted \<Rightarrow> x\<lparr>x_reactor_pc := R_Top\<rparr>
      | Poll_Failed \<Rightarrow> reactor_throws x
      | Polled listening woken revents \<Rightarrow>
          let polls = map (polled_events (x_draining x) revents) (x_connections x) in
          x\<lparr>x_reactor_pc := (if listening \<and> \<not> x_draining x then R_Accept 64 woken polls else R_Wake woken polls)\<rparr>)"

definition reactor_accept :: "reactor_env \<Rightarrow> nat \<Rightarrow> bool \<Rightarrow> (u64 \<times> events) list \<Rightarrow> Exchange \<Rightarrow> Exchange" where
  "reactor_accept env k woken polls x =
     (if k = 0 then x\<lparr>x_reactor_pc := R_Wake woken polls\<rparr>
      else case re_accept env of
        Accept_Interrupted \<Rightarrow> x\<lparr>x_reactor_pc := R_Accept (k - 1) woken polls\<rparr>
      | Accept_Again \<Rightarrow> x\<lparr>x_reactor_pc := R_Wake woken polls\<rparr>
      | Accept_Failed \<Rightarrow> reactor_throws x
      | Accepted no_delay \<Rightarrow>
          if 64 \<le> length (x_connections x) then x\<lparr>x_reactor_pc := R_Accept (k - 1) woken polls\<rparr>
          else if \<not> no_delay then reactor_throws x
          else x\<lparr>x_connections := (if om_contains (x_connections x) (x_next_connection x) then x_connections x
                    else om_put (<) (x_next_connection x) (Connection_new (re_now env) (re_later env)) (x_connections x)),
                 x_next_connection := x_next_connection x + 1, x_accepted := x_accepted x + 1,
                 x_reactor_pc := R_Accept (k - 1) woken polls\<rparr>)"

definition reactor_step :: "reactor_env \<Rightarrow> Exchange \<Rightarrow> Exchange" where
  "reactor_step env x =
     (case x_reactor_pc x of
        R_Top \<Rightarrow>
          if \<not> x_draining x \<and> (re_stop env \<or> x_fatal x)
          then x\<lparr>x_draining := True, x_ingress_done := True, x_drain_until := re_now env + 5000000000, x_reactor_pc := R_Load\<rparr>
          else x\<lparr>x_reactor_pc := R_Load\<rparr>
      | R_Load \<Rightarrow> x\<lparr>x_reactor_pc := R_Deliver (x_engine_done x) True 0\<rparr>
      | R_Deliver matching_finished responses_empty i \<Rightarrow>
          if i = 4096 then x\<lparr>x_reactor_pc := R_Poll matching_finished responses_empty\<rparr>
          else (case try_pop queue_capacity (x_responses x) of
            (None, _) \<Rightarrow> x\<lparr>x_reactor_pc := R_Poll matching_finished responses_empty\<rparr>
          | (Some response, q) \<Rightarrow>
              or_throws (x\<lparr>x_responses := q\<rparr>)
                (map_option (\<lambda>x'. x'\<lparr>x_reactor_pc := R_Deliver matching_finished False (Suc i)\<rparr>)
                   (deliver (re_now env) response (x\<lparr>x_responses := q\<rparr>))))
      | R_Poll matching_finished responses_empty \<Rightarrow>
          if x_draining x \<and> matching_finished \<and> responses_empty \<and>
             \<not> list_ex (\<lambda>(_, c). c_output c \<noteq> []) (x_connections x)
          then x\<lparr>x_reactor_pc := R_Leave\<rparr>
          else if x_draining x \<and> x_drain_until x \<le> re_now env
          then x\<lparr>x_fatal := True, x_reactor_pc := R_Leave\<rparr>
          else reactor_poll env x
      | R_Accept k woken polls \<Rightarrow> reactor_accept env k woken polls x
      | R_Wake woken polls \<Rightarrow>
          if woken \<and> \<not> re_wake_ok env then reactor_throws x else x\<lparr>x_reactor_pc := R_Serve polls []\<rparr>
      | R_Serve ((i, ev) # polls) removed \<Rightarrow>
          or_throws x
            (map_option (\<lambda>(dead, x'). x'\<lparr>x_reactor_pc := R_Serve polls (if dead then removed @ [i] else removed)\<rparr>)
               (service_connection (re_service env) i ev x))
      | R_Serve [] removed \<Rightarrow>
          or_throws x (map_option (\<lambda>x'. x'\<lparr>x_reactor_pc := R_Top\<rparr>) (remove_connections removed x))
      | R_Leave \<Rightarrow> x\<lparr>x_ingress_done := True, x_reactor_pc := R_Done\<rparr>
      | R_Done \<Rightarrow> x)"

section \<open>Runs\<close>

datatype turn = Engine_Turn engine_env | Publisher_Turn publisher_env | Reactor_Turn reactor_env

fun exchange_step :: "turn \<Rightarrow> Exchange \<Rightarrow> Exchange" where
  "exchange_step (Engine_Turn env) x = engine_step env x"
| "exchange_step (Publisher_Turn env) x = publisher_step env x"
| "exchange_step (Reactor_Turn env) x = reactor_step env x"

text \<open>Every interleaving: which thread moves next, and what it meets, is arbitrary.\<close>

inductive exchange_reachable :: "Exchange \<Rightarrow> nat \<Rightarrow> Exchange \<Rightarrow> bool" for start where
  exchange_start: "exchange_reachable start 0 start"
| exchange_move: "exchange_reachable start n x \<Longrightarrow> exchange_reachable start (Suc n) (exchange_step t x)"

section \<open>The end of a run\<close>

definition exchange_metrics :: "Exchange \<Rightarrow> string" where
  "exchange_metrics x =
     (let number = (\<lambda>v :: u64. to_string_nat (unat v)); stats = e_stats (x_engine x); q = CHR 0x22;
          member = (\<lambda>name v. q # name @ [q] @ '':'' @ number v) in
      CHR ''{'' # member ''commands'' (st_commands stats) @ '','' @ member ''rejected'' (st_rejected stats) @ '','' @
      member ''trades'' (st_trades stats) @ '','' @ member ''volume'' (st_volume stats) @ '','' @
      member ''market_sequence'' (e_sequence (x_engine x)) @ '','' @ member ''datagrams'' (x_datagrams x) @ '','' @
      member ''connections'' (x_accepted x) @ '','' @ member ''slow_clients'' (x_slow_clients x) @ '','' @
      member ''malformed'' (x_malformed x) @ ''}'')"

datatype exchange_error = Metrics_Unwritable | Io_Error | Engine_Error | Publisher_Error | Stopped_With_Failure

definition exchange_status :: "ServerConfig \<Rightarrow> bool \<Rightarrow> bool \<Rightarrow> Exchange \<Rightarrow> exchange_error + unit" where
  "exchange_status config metrics_written logger_failed x =
     (if cfg_metrics config \<noteq> [] \<and> \<not> metrics_written then Inl Metrics_Unwritable
      else if x_io_error x then Inl Io_Error
      else if x_engine_error x then Inl Engine_Error
      else if x_publisher_error x then Inl Publisher_Error
      else if x_fatal x \<or> logger_failed then Inl Stopped_With_Failure
      else Inr ())"

end
