(* ===== verification/Server_Inv.thy ===== *)
theory Server_Inv
  imports Server
begin

text \<open>
  What holds at every point of every interleaving of the exchange's threads: the routing table and the
  sessions agree, requests and responses in flight belong to the session of the connection they name,
  connections stay within their bounds, and no lookup of a connection fails.
\<close>

section \<open>The invariant\<close>

text \<open>A report in the output of a session of client \<open>k\<close> is for \<open>k\<close>, except the refusal of a second session.\<close>

definition private_to :: "ClientId \<Rightarrow> Message \<Rightarrow> bool" where
  "private_to k m \<longleftrightarrow> (m_kind m = Report \<longrightarrow> k \<noteq> 0 \<and> m_client_id m = k \<or> m_reject m = Rej_SessionBusy)"

definition conn_ok :: "Connection \<Rightarrow> bool" where
  "conn_ok c \<longleftrightarrow> length (c_input c) = frame_size \<and> c_used c \<le> frame_size \<and> length (c_output c) \<le> 4096 \<and>
     (c_output c \<noteq> [] \<or> \<not> c_closing c \<longrightarrow> output_ok frame_size (c_output c) (c_offset c)) \<and>
     (\<forall>f \<in> set (c_output c). \<exists>m. message_ok m \<and> f = encode_frame m \<and> private_to (c_client c) m)"

definition owner_ok :: "Exchange \<Rightarrow> u64 \<Rightarrow> ClientId \<Rightarrow> bool" where
  "owner_ok x i k \<longleftrightarrow> k \<noteq> 0 \<and> (\<forall>c. map_of (x_connections x) i = Some c \<longrightarrow> c_client c = k)"

definition request_ok :: "Exchange \<Rightarrow> Envelope \<Rightarrow> bool" where
  "request_ok x r \<longleftrightarrow> (let m = env_message r; i = env_connection r in
     m_kind m = Command \<and> message_ok m \<and> i \<noteq> 0 \<and> i < x_next_connection x \<and>
     (m_action m \<noteq> Act_Snapshot \<longrightarrow> owner_ok x i (m_client_id m)))"

definition response_ok :: "Exchange \<Rightarrow> Envelope \<Rightarrow> bool" where
  "response_ok x r \<longleftrightarrow> (let m = env_message r; i = env_connection r in
     i \<noteq> 0 \<longrightarrow> i < x_next_connection x \<and> (m_kind m = Report \<longrightarrow> owner_ok x i (m_client_id m)))"

definition sending :: "engine_pc \<Rightarrow> Envelope list" where
  "sending pc = (case pc of E_Send rs _ \<Rightarrow> rs | _ \<Rightarrow> [])"

definition routes_ok :: "Exchange \<Rightarrow> bool" where
  "routes_ok x \<longleftrightarrow> (\<forall>k i. map_of (x_routes x) k = Some i \<longleftrightarrow>
     k \<noteq> 0 \<and> (\<exists>c. map_of (x_connections x) i = Some c \<and> c_client c = k))"

definition keys_ok :: "Exchange \<Rightarrow> bool" where
  "keys_ok x \<longleftrightarrow> om_sorted (<) (x_connections x) \<and> length (x_connections x) \<le> 64 \<and>
     (\<forall>i c. map_of (x_connections x) i = Some c \<longrightarrow> i \<noteq> 0 \<and> i < x_next_connection x \<and> conn_ok c)"

definition visited :: "reactor_pc \<Rightarrow> u64 list" where
  "visited pc = (case pc of R_Accept _ _ polls \<Rightarrow> map fst polls | R_Wake _ polls \<Rightarrow> map fst polls
     | R_Serve polls removed \<Rightarrow> map fst polls @ removed | _ \<Rightarrow> [])"

definition visits_ok :: "Exchange \<Rightarrow> bool" where
  "visits_ok x \<longleftrightarrow> distinct (visited (x_reactor_pc x)) \<and>
     (\<forall>i \<in> set (visited (x_reactor_pc x)). map_of (x_connections x) i \<noteq> None)"

definition queues_ok :: "Exchange \<Rightarrow> bool" where
  "queues_ok x \<longleftrightarrow> queue_ok queue_capacity (x_requests x) \<and> queue_ok queue_capacity (x_responses x) \<and>
     queue_ok queue_capacity (x_updates x)"

definition requests_ok :: "Exchange \<Rightarrow> bool" where
  "requests_ok x \<longleftrightarrow> (\<forall>r \<in> set (queued queue_capacity (x_requests x)). request_ok x r)"

definition responses_ok :: "Exchange \<Rightarrow> bool" where
  "responses_ok x \<longleftrightarrow>
     (\<forall>r \<in> set (queued queue_capacity (x_responses x)) \<union> set (sending (x_engine_pc x)). response_ok x r)"

definition core_inv :: "Exchange \<Rightarrow> bool" where
  "core_inv x \<longleftrightarrow> queues_ok x \<and> keys_ok x \<and> routes_ok x \<and> requests_ok x \<and> responses_ok x \<and> x_next_connection x \<noteq> 0"

definition session_inv :: "Exchange \<Rightarrow> bool" where
  "session_inv x \<longleftrightarrow> core_inv x \<and> visits_ok x"

lemma session_invD:
  assumes "session_inv x"
  shows "queues_ok x" "keys_ok x" "routes_ok x" "requests_ok x" "responses_ok x" "visits_ok x" "x_next_connection x \<noteq> 0"
  using assms by (simp_all add: session_inv_def core_inv_def)

text \<open>The part of the state the reactor keeps.\<close>

definition same_net :: "Exchange \<Rightarrow> Exchange \<Rightarrow> bool" where
  "same_net x y \<longleftrightarrow> x_connections y = x_connections x \<and> x_routes y = x_routes x \<and> x_next_connection y = x_next_connection x \<and>
     x_reactor_pc y = x_reactor_pc x"

lemma same_net_ok:
  assumes "same_net x y"
  shows "request_ok y = request_ok x" "response_ok y = response_ok x" "keys_ok y = keys_ok x" "routes_ok y = routes_ok x"
    "visits_ok y = visits_ok x"
  using assms
  by (auto simp: same_net_def request_ok_def response_ok_def owner_ok_def keys_ok_def routes_ok_def visits_ok_def fun_eq_iff Let_def)

lemma same_net_inv:
  assumes "session_inv x" "same_net x y" "queues_ok y"
    "set (queued queue_capacity (x_requests y)) \<subseteq> set (queued queue_capacity (x_requests x))"
    "\<forall>r \<in> set (queued queue_capacity (x_responses y)) \<union> set (sending (x_engine_pc y)). response_ok x r"
  shows "session_inv y"
  using session_invD [OF assms(1)] same_net_ok [OF assms(2)] assms(2-)
  by (auto simp: session_inv_def core_inv_def requests_ok_def responses_ok_def same_net_def subset_iff)

section \<open>The engine and publisher threads\<close>

lemma engine_throws_inv:
  assumes "session_inv x"
  shows "session_inv (engine_throws x)"
  by (rule same_net_inv [OF assms])
    (use session_invD [OF assms] in \<open>auto simp: engine_throws_def same_net_def queues_ok_def responses_ok_def sending_def\<close>)

lemma engine_finish_inv:
  assumes "session_inv x"
  shows "session_inv (engine_finish x)"
proof -
  have "session_inv (x\<lparr>x_engine_pc := E_Leave\<rparr>)"
    by (rule same_net_inv [OF assms])
      (use session_invD [OF assms] in \<open>auto simp: same_net_def queues_ok_def responses_ok_def sending_def\<close>)
  then show ?thesis using engine_throws_inv [OF assms] by (auto simp: engine_finish_def split: sum.splits)
qed

lemma journal_command_same: "snd (journal_command env c x) = x\<lparr>x_journal := x_journal (snd (journal_command env c x))\<rparr>"
  by (auto simp: journal_command_def split: option.splits prod.splits)

lemma journal_inv:
  assumes "session_inv x"
  shows "session_inv (x\<lparr>x_journal := j\<rparr>)"
  by (rule same_net_inv [OF assms])
    (use session_invD [OF assms] in \<open>auto simp: same_net_def queues_ok_def responses_ok_def\<close>)

lemma snapshot_kinds: "m \<in> set (engine_snapshot e) \<Longrightarrow> m_kind m \<noteq> Report"
  by (auto simp: engine_snapshot_def snapshot_rows_def Let_def)

lemma addressed_ok: "request_ok x r \<Longrightarrow> m_action (env_message r) \<noteq> Act_Snapshot \<Longrightarrow>
    response_ok x (addressed (env_connection r) (env_message r) m)"
  by (auto simp: request_ok_def response_ok_def addressed_def Let_def)

lemma send_inv:
  assumes "session_inv x" "\<forall>r \<in> set rs. response_ok x r" "same_net x y" "x_requests y = x_requests x"
    "x_responses y = x_responses x" "x_updates y = x_updates x" "x_engine_pc y = E_Send rs us"
  shows "session_inv y"
  by (rule same_net_inv [OF assms(1,3)])
    (use assms(2-) session_invD [OF assms(1)] in \<open>auto simp: queues_ok_def responses_ok_def sending_def\<close>)

lemma serve_request_inv:
  assumes inv: "session_inv x" and r: "request_ok x r"
  shows "session_inv (serve_request env r x)"
proof -
  let ?c = "env_message r" and ?i = "env_connection r"
  obtain ok x1 where j: "journal_command env ?c x = (ok, x1)" by force
  have x1: "x1 = x\<lparr>x_journal := x_journal x1\<rparr>" using journal_command_same [of env ?c x] j by simp
  have inv1: "session_inv x1" by (subst x1) (rule journal_inv [OF inv])
  have r1: "request_ok x1 r" by (subst x1) (use r in \<open>simp add: request_ok_def owner_ok_def Let_def\<close>)
  have snapshot: "\<forall>s \<in> set (map (\<lambda>m. \<lparr>env_connection = ?i, env_message = m\<rparr>) (engine_snapshot (x_engine x))). response_ok x s"
    using r snapshot_kinds by (auto simp: request_ok_def response_ok_def Let_def)
  have reports: "\<forall>s \<in> set (map (addressed ?i ?c) ms). response_ok x1 s" if "m_action ?c \<noteq> Act_Snapshot" for ms
    using addressed_ok [OF r1 that] by auto
  show ?thesis
  proof (cases "m_action ?c = Act_Snapshot")
    case True
    show ?thesis by (rule send_inv [OF inv snapshot]) (use True in \<open>auto simp: serve_request_def same_net_def\<close>)
  next
    case False
    show ?thesis
    proof (cases "\<not> ok \<or> engine_process (ee_heap env) ?c (x_engine x1) = None")
      case True
      then show ?thesis using False j engine_throws_inv [OF inv1] by (auto simp: serve_request_def Let_def split: bool.splits)
    next
      case served: False
      then obtain b e where p: "engine_process (ee_heap env) ?c (x_engine x1) = Some (b, e)" by auto
      show ?thesis
        by (rule send_inv [OF inv1 reports [OF False]]) (use False served j p in \<open>auto simp: serve_request_def Let_def same_net_def\<close>)
    qed
  qed
qed

lemma engine_step_inv:
  assumes inv: "session_inv x"
  shows "session_inv (engine_step env x)"
proof -
  note I = session_invD [OF inv]
  have q: "queue_ok queue_capacity (x_requests x)" "queue_ok queue_capacity (x_responses x)" "queue_ok queue_capacity (x_updates x)"
    using I(1) by (simp_all add: queues_ok_def)
  have quiet: "session_inv (x\<lparr>x_engine_pc := pc\<rparr>)" if "set (sending pc) \<subseteq> set (sending (x_engine_pc x))" for pc
    by (rule same_net_inv [OF inv]) (use I that in \<open>auto simp: same_net_def queues_ok_def responses_ok_def\<close>)
  show ?thesis
  proof (cases "x_engine_pc x")
    case (E_Pop fin)
    obtain r q' where pop: "try_pop queue_capacity (x_requests x) = (r, q')" by force
    show ?thesis
    proof (cases r)
      case None
      then show ?thesis using E_Pop pop engine_finish_inv [OF inv] quiet by (auto simp: engine_step_def sending_def)
    next
      case (Some envelope)
      note t = lfq.pop_ok [OF q(1) pop [unfolded Some]]
      have inv': "session_inv (x\<lparr>x_requests := q'\<rparr>)"
        by (rule same_net_inv [OF inv]) (use I t in \<open>auto simp: same_net_def queues_ok_def responses_ok_def\<close>)
      have "request_ok x envelope" using I(4) t by (simp add: requests_ok_def)
      then have "request_ok (x\<lparr>x_requests := q'\<rparr>) envelope" by (simp add: request_ok_def owner_ok_def Let_def)
      then show ?thesis using serve_request_inv [OF inv'] E_Pop pop Some by (simp add: engine_step_def)
    qed
  next
    case (E_Send rs us)
    show ?thesis
    proof (cases rs)
      case Nil
      obtain ok q' where push: "us \<noteq> [] \<Longrightarrow> try_push queue_capacity (hd us) (x_updates x) = (ok, q')"
        by (metis surj_pair)
      have "session_inv (x\<lparr>x_updates := q', x_engine_pc := E_Send [] (tl us)\<rparr>)" if "us \<noteq> []" ok
        by (rule same_net_inv [OF inv])
          (use I q lfq.push_ok [OF q(3), of "hd us" q'] push that in \<open>auto simp: same_net_def queues_ok_def responses_ok_def sending_def\<close>)
      then show ?thesis using E_Send Nil push quiet [of E_Top] inv
        by (cases us; cases ok) (auto simp: engine_step_def sending_def)
    next
      case (Cons r rs')
      obtain ok q' where push: "try_push queue_capacity r (x_responses x) = (ok, q')" by force
      have pushed: "session_inv (x\<lparr>x_responses := q', x_engine_pc := E_Send rs' us\<rparr>)" if ok
        by (rule same_net_inv [OF inv])
          (use I q lfq.push_ok [OF q(2), of r q'] push that E_Send Cons in \<open>auto simp: same_net_def queues_ok_def responses_ok_def sending_def\<close>)
      have "session_inv (x\<lparr>x_responses := q'\<rparr>)" if ok
        by (rule same_net_inv [OF inv])
          (use I q lfq.push_ok [OF q(2), of r q'] push that E_Send Cons in \<open>auto simp: same_net_def queues_ok_def responses_ok_def sending_def\<close>)
      then show ?thesis using E_Send Cons push pushed engine_throws_inv quiet [of "E_Send [] us"] inv
        by (cases ok) (auto simp: engine_step_def sending_def)
    qed
  next
    case E_Leave
    have "session_inv (x\<lparr>x_engine_done := True, x_engine_pc := E_Done\<rparr>)"
      by (rule same_net_inv [OF inv]) (use I in \<open>auto simp: same_net_def queues_ok_def responses_ok_def sending_def\<close>)
    then show ?thesis using E_Leave by (simp add: engine_step_def)
  qed (use engine_finish_inv [OF inv] quiet inv in \<open>auto simp: engine_step_def sending_def\<close>)
qed

text \<open>The publisher touches nothing the sessions depend on, apart from taking updates.\<close>

lemma publisher_keeps:
  assumes "queues_ok x"
  shows "same_net x (publisher_step env x) \<and> queues_ok (publisher_step env x) \<and> x_requests (publisher_step env x) = x_requests x \<and>
    x_responses (publisher_step env x) = x_responses x \<and> x_engine_pc (publisher_step env x) = x_engine_pc x"
proof -
  obtain r q' where pop: "try_pop queue_capacity (x_updates x) = (r, q')" by force
  have "queue_ok queue_capacity q'"
    using assms lfq.pop_ok [of "x_updates x" _ q'] lfq.pop_refused [of "x_updates x" q'] pop by (cases r) (auto simp: queues_ok_def)
  then show ?thesis using assms pop
    by (auto simp: publisher_step_def publisher_throws_def multicast_def same_net_def queues_ok_def Let_def
        split: publisher_pc.splits option.splits if_splits)
qed

lemma publisher_step_inv:
  assumes "session_inv x"
  shows "session_inv (publisher_step env x)"
  by (rule same_net_inv [OF assms])
    (use publisher_keeps [OF session_invD(1) [OF assms]] session_invD [OF assms] in \<open>auto simp: responses_ok_def\<close>)

section \<open>Changes of the sessions\<close>

text \<open>Connections keep their client once they have one, and new ones take new numbers.\<close>

definition grows :: "Exchange \<Rightarrow> Exchange \<Rightarrow> bool" where
  "grows x y \<longleftrightarrow> x_next_connection x \<le> x_next_connection y \<and>
     (\<forall>i c'. i < x_next_connection x \<longrightarrow> map_of (x_connections y) i = Some c' \<longrightarrow>
        (\<exists>c. map_of (x_connections x) i = Some c \<and> (c_client c \<noteq> 0 \<longrightarrow> c_client c' = c_client c)))"

lemma grows_owner: "grows x y \<Longrightarrow> i < x_next_connection x \<Longrightarrow> owner_ok x i k \<Longrightarrow> owner_ok y i k"
  unfolding grows_def owner_ok_def by metis

lemma grows_request: "grows x y \<Longrightarrow> request_ok x r \<Longrightarrow> request_ok y r"
  using grows_owner by (auto simp: request_ok_def Let_def grows_def)

lemma grows_response: "grows x y \<Longrightarrow> response_ok x r \<Longrightarrow> response_ok y r"
  using grows_owner by (auto simp: response_ok_def Let_def grows_def)

lemma grows_in_flight:
  assumes "core_inv x" "grows x y" "x_responses y = x_responses x" "x_engine_pc y = x_engine_pc x"
    "\<forall>r \<in> set (queued queue_capacity (x_requests y)) - set (queued queue_capacity (x_requests x)). request_ok y r"
  shows "requests_ok y" "responses_ok y"
  using assms grows_request [OF assms(2)] grows_response [OF assms(2)]
  by (auto simp: core_inv_def requests_ok_def responses_ok_def)

lemma core_pc [simp]: "core_inv (x\<lparr>x_reactor_pc := pc\<rparr>) = core_inv x"
  by (simp add: core_inv_def queues_ok_def keys_ok_def routes_ok_def requests_ok_def responses_ok_def request_ok_def
      response_ok_def owner_ok_def [abs_def])

lemma core_flags [simp]:
  "core_inv (x\<lparr>x_ingress_done := b\<rparr>) = core_inv x" "core_inv (x\<lparr>x_fatal := b\<rparr>) = core_inv x" "core_inv (x\<lparr>x_io_error := b\<rparr>) = core_inv x"
  "core_inv (x\<lparr>x_draining := b\<rparr>) = core_inv x" "core_inv (x\<lparr>x_drain_until := t\<rparr>) = core_inv x"
  "core_inv (x\<lparr>x_slow_clients := k\<rparr>) = core_inv x" "core_inv (x\<lparr>x_malformed := k\<rparr>) = core_inv x" "core_inv (x\<lparr>x_accepted := k\<rparr>) = core_inv x"
  by (simp_all add: core_inv_def queues_ok_def keys_ok_def routes_ok_def requests_ok_def responses_ok_def request_ok_def
      response_ok_def owner_ok_def [abs_def])

text \<open>What a pass over connection \<open>i\<close> may do to the rest of the state.\<close>

definition admits :: "u64 \<Rightarrow> Connection \<Rightarrow> Exchange \<Rightarrow> Connection \<Rightarrow> Exchange \<Rightarrow> bool" where
  "admits i c x c' y \<longleftrightarrow>
     x_connections y = x_connections x \<and> x_next_connection y = x_next_connection x \<and> x_responses y = x_responses x \<and>
     x_updates y = x_updates x \<and> x_engine_pc y = x_engine_pc x \<and> x_reactor_pc y = x_reactor_pc x \<and>
     (if c_client c' = c_client c then x_routes y = x_routes x
      else c_client c = 0 \<and> map_of (x_routes x) (c_client c') = None \<and> x_routes y = om_put (<) (c_client c') i (x_routes x)) \<and>
     (x_requests y = x_requests x \<or>
      (\<exists>m. try_push queue_capacity \<lparr>env_connection = i, env_message = m\<rparr> (x_requests x) = (True, x_requests y) \<and>
         m_kind m = Command \<and> message_ok m \<and> (m_action m \<noteq> Act_Snapshot \<longrightarrow> m_client_id m \<noteq> 0 \<and> m_client_id m = c_client c')))"

lemma admits_core:
  assumes inv: "core_inv x" and c: "map_of (x_connections x) i = Some c" and ad: "admits i c x c' y" and ok: "conn_ok c'"
  shows "core_inv (put_connection i c' y)"
proof -
  let ?z = "put_connection i c' y"
  have I: "queues_ok x" "keys_ok x" "routes_ok x" "x_next_connection x \<noteq> 0" using inv by (simp_all add: core_inv_def)
  have at: "map_of (x_connections ?z) = (map_of (x_connections x))(i \<mapsto> c')" using ad c by (simp add: put_connection_def admits_def)
  have i: "i \<noteq> 0" "i < x_next_connection x" using I(2) c by (auto simp: keys_ok_def)
  have g: "grows x ?z" using c ad by (auto simp: grows_def at) (auto simp: put_connection_def admits_def split: if_splits)
  have q: "queue_ok queue_capacity (x_requests x)" using I(1) by (simp add: queues_ok_def)
  have queues: "queues_ok ?z"
    using I(1) ad lfq.push_ok [OF q] by (auto simp: queues_ok_def put_connection_def admits_def)
  have new: "\<forall>r \<in> set (queued queue_capacity (x_requests ?z)) - set (queued queue_capacity (x_requests x)). request_ok ?z r"
  proof
    fix r assume r: "r \<in> set (queued queue_capacity (x_requests ?z)) - set (queued queue_capacity (x_requests x))"
    then have "x_requests y \<noteq> x_requests x" by (auto simp: put_connection_def)
    then obtain m where m: "try_push queue_capacity \<lparr>env_connection = i, env_message = m\<rparr> (x_requests x) = (True, x_requests y)"
        "m_kind m = Command" "message_ok m" "m_action m \<noteq> Act_Snapshot \<longrightarrow> m_client_id m \<noteq> 0 \<and> m_client_id m = c_client c'"
      using ad unfolding admits_def by blast
    then have e: "r = \<lparr>env_connection = i, env_message = m\<rparr>" using r lfq.push_ok [OF q m(1)] by (simp add: put_connection_def) blast
    have "x_next_connection ?z = x_next_connection x" using ad by (simp add: put_connection_def admits_def)
    then show "request_ok ?z r" unfolding e using m i at by (auto simp: request_ok_def owner_ok_def)
  qed
  have "x_responses ?z = x_responses x" "x_engine_pc ?z = x_engine_pc x" using ad by (simp_all add: put_connection_def admits_def)
  note flight = grows_in_flight [OF inv g this new]
  have keys: "keys_ok ?z"
    using I(2) ok ad i by (auto simp: keys_ok_def at) (auto simp: put_connection_def admits_def om_sorted_def)
  have "routes_ok ?z"
  proof (cases "c_client c' = c_client c")
    case True
    then have r: "x_routes ?z = x_routes x" using ad by (simp add: put_connection_def admits_def)
    show ?thesis unfolding routes_ok_def r at using I(3) [unfolded routes_ok_def] c True by auto
  next
    case False
    then have r: "map_of (x_routes ?z) = (map_of (x_routes x))(c_client c' \<mapsto> i)" and z: "c_client c = 0"
        "map_of (x_routes x) (c_client c') = None"
      using ad by (simp_all add: put_connection_def admits_def)
    have nz: "c_client c' \<noteq> 0" using False z by simp
    have "c_client d \<noteq> c_client c'" if "map_of (x_connections x) j = Some d" for j d
      using I(3) [unfolded routes_ok_def] that z(2) nz by (metis option.distinct(1))
    then show ?thesis unfolding routes_ok_def r at using I(3) [unfolded routes_ok_def] c z nz by (auto split: if_splits)
  qed
  then show ?thesis using queues keys flight I(4) ad by (simp add: core_inv_def put_connection_def admits_def)
qed

section \<open>Operations on a connection\<close>

lemma encode_SomeD: "encode m = Some f \<Longrightarrow> message_ok m \<and> f = encode_frame m"
  using encode_ok [of m] encode_throws [of m] by (cases "message_ok m") auto

lemma append_ok:
  assumes c: "conn_ok c" "\<not> c_closing c" "private_to (c_client c) m" and r: "connection_append now m c = Some (slow, c')"
  shows "conn_ok c' \<and> c_client c' = c_client c \<and> c_used c' = c_used c"
proof (cases "4096 \<le> length (c_output c)")
  case True
  then show ?thesis using c r by (auto simp: connection_append_def conn_ok_def)
next
  case False
  then obtain f where f: "encode m = Some f" and c': "c' = c\<lparr>c_progress := (if c_output c = [] then now else c_progress c),
      c_admitted := (if closes_request m \<and> c_admitted c \<noteq> 0 then c_admitted c - 1 else c_admitted c), c_output := c_output c @ [f]\<rparr>"
    using r by (auto simp: connection_append_def split: option.splits)
  have m: "message_ok m" "f = encode_frame m" using encode_SomeD [OF f] by simp_all
  then have "length f = frame_size" by (simp add: frame_size_def)
  then have "output_ok frame_size (c_output c @ [f]) (c_offset c)" using c by (auto simp: conn_ok_def output_ok_def)
  then show ?thesis using c m False unfolding c' conn_ok_def by auto
qed

lemma write_ok:
  assumes "conn_ok c" "service_write env ev c = (dead, c')"
  shows "conn_ok c' \<and> c_client c' = c_client c \<and> c_closing c' = c_closing c"
proof (cases "can_write ev \<and> c_output c \<noteq> []")
  case True
  obtain r bytes out off where f: "flush frame_size 64 (sv_sends env) (c_output c) (c_offset c) = (r, bytes, out, off)"
    by (metis prod_cases4)
  have "output_ok frame_size out off \<and> length out \<le> length (c_output c) \<and> set out \<subseteq> set (c_output c)"
    using flush_on [OF _ f] assms(1) True by (simp add: conn_ok_def)
  then show ?thesis using assms True f by (auto simp: service_write_def conn_ok_def)
qed (use assms in \<open>auto simp: service_write_def\<close>)

lemma read_ok:
  assumes "conn_ok c" "service_read env dead c = (dead', c')"
  shows "conn_ok c' \<and> c_client c' = c_client c \<and> c_closing c' = c_closing c"
  using assms
  by (auto simp: service_read_def conn_ok_def length_overwrite Let_def split: if_splits recv_call.splits)

lemma conn_used_ok: "conn_ok c \<Longrightarrow> conn_ok (c\<lparr>c_used := 0, c_admitted := k\<rparr>)"
  by (simp add: conn_ok_def)

lemma conn_client_ok: "conn_ok c \<Longrightarrow> c_client c = 0 \<Longrightarrow> conn_ok (c\<lparr>c_client := k\<rparr>)"
  by (fastforce simp: conn_ok_def private_to_def)

lemma conn_closing_ok: "conn_ok c \<Longrightarrow> conn_ok (c\<lparr>c_closing := True\<rparr>)"
  by (simp add: conn_ok_def)

lemma busy_private: "private_to k (busy_report epoch m)"
  by (simp add: private_to_def busy_report_def)

lemma enqueue_ok:
  assumes "conn_ok c" "enqueue_request i m c x = (c', y)"
  shows "conn_ok c' \<and> c_client c' = c_client c \<and> (\<exists>q. y = x\<lparr>x_requests := q\<rparr> \<and>
    (q = x_requests x \<or> try_push queue_capacity \<lparr>env_connection = i, env_message = m\<rparr> (x_requests x) = (True, q)))"
  using assms conn_used_ok by (auto simp: enqueue_request_def split: prod.splits bool.splits)

lemma counted_ok:
  "admits i c x c' (x\<lparr>x_malformed := k\<rparr>) = admits i c x c' x" "admits i c x c' (count_slow slow y) = admits i c x c' y"
  by (simp_all add: admits_def count_slow_def)

lemma frame_admits:
  assumes ok: "conn_ok c" and open_: "\<not> c_closing c" and r: "service_frame env i c x = Some (dead, c', y)"
  shows "conn_ok c' \<and> admits i c x c' y"
proof (cases "decode (c_input c)")
  case None
  then show ?thesis using ok r by (auto simp: service_frame_def counted_ok admits_def)
next
  case (Some m)
  have m: "message_ok m" using decode_canonical [OF _ Some] ok by (simp add: conn_ok_def frame_size_def)
  show ?thesis
  proof (cases "unacceptable c m")
    case True
    then show ?thesis using ok r Some by (auto simp: service_frame_def counted_ok admits_def)
  next
    case acceptable: False
    then have a: "m_kind m = Command" "m_action m \<noteq> Act_Snapshot \<Longrightarrow> m_client_id m \<noteq> 0" "c_client c \<noteq> 0 \<Longrightarrow> m_client_id m = c_client c"
      by (auto simp: unacceptable_def)
    show ?thesis
    proof (cases "c_client c = 0 \<and> m_action m \<noteq> Act_Snapshot")
      case fresh: True
      show ?thesis
      proof (cases "om_contains (x_routes x) (m_client_id m)")
        case True
        obtain slow d where d: "connection_append (sv_append_now env) (busy_report (x_epoch x) m) c = Some (slow, d)"
            "c' = d\<lparr>c_closing := True\<rparr>" "y = count_slow slow x"
          using r Some acceptable fresh True by (auto simp: service_frame_def)
        show ?thesis using append_ok [OF ok open_ busy_private d(1)] conn_closing_ok [of d]
          by (simp add: d(2,3) counted_ok) (simp add: admits_def)
      next
        case False
        let ?c = "c\<lparr>c_client := m_client_id m\<rparr>" and ?x = "x\<lparr>x_routes := om_put (<) (m_client_id m) i (x_routes x)\<rparr>"
        have e: "enqueue_request i m ?c ?x = (c', y)" using r Some acceptable fresh False by (simp add: service_frame_def)
        have "conn_ok ?c" using conn_client_ok [OF ok] fresh by simp
        from enqueue_ok [OF this e] show ?thesis using fresh False a m by (auto simp: admits_def)
      qed
    next
      case False
      have e: "enqueue_request i m c x = (c', y)" using r Some acceptable False by (auto simp: service_frame_def)
      from enqueue_ok [OF ok e] show ?thesis using False a m by (auto simp: admits_def)
    qed
  qed
qed

lemma service_admits:
  assumes inv: "core_inv x" and c: "map_of (x_connections x) i = Some c"
  shows "case service_connection env i ev x of None \<Rightarrow> True
    | Some (dead, z) \<Rightarrow> core_inv z \<and> map fst (x_connections z) = map fst (x_connections x) \<and> x_reactor_pc z = x_reactor_pc x"
proof -
  have ok: "conn_ok c" using inv c by (auto simp: core_inv_def keys_ok_def)
  obtain dead1 c1 where w: "service_write env ev c = (dead1, c1)" by force
  note W = write_ok [OF ok w]
  show ?thesis
  proof (cases "service_input env i ev dead1 c1 x")
    case None
    then show ?thesis using c w by (simp add: service_connection_def)
  next
    case (Some t)
    obtain dead2 c2 x2 where t: "t = (dead2, c2, x2)" by (metis prod_cases3)
    have "conn_ok c2 \<and> admits i c1 x c2 x2"
    proof (cases "\<not> x_draining x \<and> \<not> c_closing c1 \<and> \<not> c_read_closed c1 \<and> (can_read ev \<or> hung_up ev \<or> c_used c1 = frame_size)")
      case True
      obtain dead' c' where rd: "service_read env dead1 c1 = (dead', c')" by force
      note R = read_ok [OF conjunct1 [OF W] rd]
      have same: "admits i c' x c2 x2 = admits i c1 x c2 x2" using R by (simp add: admits_def)
      show ?thesis
      proof (cases "c_used c' = frame_size \<and> \<not> dead'")
        case ready: True
        then have "service_frame env i c' x = Some (dead2, c2, x2)" using Some t True rd by (simp add: service_input_def)
        then show ?thesis using frame_admits [of c' env i x dead2 c2 x2] R True same by simp
      next
        case False
        then have "c2 = c' \<and> x2 = x" using Some t True rd by (simp add: service_input_def split: if_splits)
        then show ?thesis using R by (simp add: admits_def)
      qed
    next
      case False
      then have "c2 = c1 \<and> x2 = x" using Some t by (simp add: service_input_def split: if_splits)
      then show ?thesis using W by (simp add: admits_def)
    qed
    moreover have "admits i c1 x c2 x2 = admits i c x c2 x2" using W by (simp add: admits_def)
    ultimately have ad: "conn_ok c2" "admits i c x c2 (count_slow (too_slow env c2) x2)" by (simp_all add: counted_ok)
    have "core_inv (put_connection i c2 (count_slow (too_slow env c2) x2))" by (rule admits_core [OF inv c ad(2,1)])
    then show ?thesis using c w Some t ad(2) by (simp add: service_connection_def admits_def put_connection_def)
  qed
qed

lemma deliver_core:
  assumes inv: "core_inv x" and r: "response_ok x r"
  shows "case deliver now r x of None \<Rightarrow> True
    | Some z \<Rightarrow> core_inv z \<and> map fst (x_connections z) = map fst (x_connections x) \<and> x_reactor_pc z = x_reactor_pc x"
proof (cases "\<exists>t c. response_target r x = Some t \<and> map_of (x_connections x) t = Some c \<and> \<not> c_closing c")
  case True
  then obtain t c where t: "response_target r x = Some t" "map_of (x_connections x) t = Some c" "\<not> c_closing c" by blast
  have ok: "conn_ok c" using inv t(2) by (auto simp: core_inv_def keys_ok_def)
  have "private_to (c_client c) (env_message r)"
  proof (cases "env_connection r = 0")
    case True
    then have "map_of (x_routes x) (m_client_id (env_message r)) = Some t" using t(1) by (simp add: response_target_def)
    then have "m_client_id (env_message r) \<noteq> 0 \<and> c_client c = m_client_id (env_message r)"
      using inv t(2) by (auto simp: core_inv_def routes_ok_def)
    then show ?thesis by (simp add: private_to_def)
  next
    case False
    then have "t = env_connection r" using t(1) by (simp add: response_target_def)
    then show ?thesis using r t(2) False by (auto simp: response_ok_def owner_ok_def private_to_def Let_def)
  qed
  note A = append_ok [OF ok t(3) this]
  show ?thesis
  proof (cases "connection_append now (env_message r) c")
    case None
    then show ?thesis using t by (simp add: deliver_def)
  next
    case (Some p)
    obtain slow c' where p: "p = (slow, c')" by force
    have "admits t c x c' (count_slow slow x)" using A [OF Some [unfolded p]] by (simp add: counted_ok) (simp add: admits_def)
    moreover from this have "core_inv (put_connection t c' (count_slow slow x))"
      using admits_core [OF inv t(2)] A [OF Some [unfolded p]] by blast
    ultimately show ?thesis using t Some p by (simp add: deliver_def admits_def put_connection_def)
  qed
next
  case False
  then have "deliver now r x = Some x" by (auto simp: deliver_def split: option.splits)
  then show ?thesis using inv by simp
qed

lemma remove_core:
  assumes "core_inv x" "distinct is" "\<forall>i \<in> set is. map_of (x_connections x) i \<noteq> None"
  shows "\<exists>z. remove_connections is x = Some z \<and> core_inv z"
  using assms
proof (induction "is" arbitrary: x)
  case (Cons i "is")
  obtain c where c: "map_of (x_connections x) i = Some c" using Cons.prems(3) by auto
  let ?y = "x\<lparr>x_routes := om_erase (c_client c) (x_routes x), x_connections := om_erase i (x_connections x)\<rparr>"
  have I: "queues_ok x" "keys_ok x" "routes_ok x" "x_next_connection x \<noteq> 0" using Cons.prems(1) by (simp_all add: core_inv_def)
  have g: "grows x ?y" by (auto simp: grows_def split: if_splits)
  have flight: "requests_ok ?y" "responses_ok ?y" by (rule grows_in_flight [OF Cons.prems(1) g]; simp)+
  have "length (om_erase i (x_connections x)) \<le> length (x_connections x)" unfolding om_erase_filter by (rule length_filter_le)
  then have "keys_ok ?y" using I(2) om_less.sorted_erase by (auto simp: keys_ok_def)
  moreover have "routes_ok ?y"
  proof -
    have one: "j = i" if "map_of (x_connections x) j = Some d" "c_client d = c_client c" "c_client c \<noteq> 0" for j d
      using I(3) [unfolded routes_ok_def] that c by (metis option.inject)
    show ?thesis using I(3) c one unfolding routes_ok_def by (auto split: if_splits)
  qed
  ultimately have "core_inv ?y" using flight I by (simp add: core_inv_def queues_ok_def)
  moreover have "\<forall>j \<in> set is. map_of (x_connections ?y) j \<noteq> None" using Cons.prems(2,3) by auto
  ultimately show ?case using Cons.IH [of ?y] Cons.prems(2) c by simp
qed simp

lemma accept_core:
  assumes inv: "core_inv x" and room: "x_next_connection x + 1 \<noteq> 0" "length (x_connections x) < 64"
  shows "core_inv (x\<lparr>x_connections := om_put (<) (x_next_connection x) (Connection_new t t') (x_connections x),
      x_next_connection := x_next_connection x + 1, x_accepted := a\<rparr>)" (is "core_inv ?y")
    and "map_of (x_connections x) (x_next_connection x) = None"
proof -
  have I: "queues_ok x" "keys_ok x" "routes_ok x" "x_next_connection x \<noteq> 0" using inv by (simp_all add: core_inv_def)
  show new: "map_of (x_connections x) (x_next_connection x) = None"
    using I(2) by (cases "map_of (x_connections x) (x_next_connection x)") (auto simp: keys_ok_def)
  have less: "i \<le> x_next_connection x \<longleftrightarrow> i < x_next_connection x + 1" for i
  proof -
    have "unat (x_next_connection x + 1) = Suc (unat (x_next_connection x))"
      using unatSuc [of "x_next_connection x"] room(1) by (simp add: add.commute)
    then show ?thesis by (simp add: word_le_nat_alt word_less_nat_alt less_Suc_eq_le)
  qed
  have g: "grows x ?y" using less [of "x_next_connection x"] by (auto simp: grows_def)
  have flight: "requests_ok ?y" "responses_ok ?y" by (rule grows_in_flight [OF inv g]; simp)+
  have fresh: "conn_ok (Connection_new t t')" by (simp add: conn_ok_def Connection_new_def output_ok_def frame_size_def)
  have len: "length (om_put (<) k v m) \<le> Suc (length m)" for k :: u64 and v :: Connection and m by (induction m) auto
  have lt: "i < x_next_connection x + 1" if "i < x_next_connection x" for i using less [THEN iffD1, OF less_imp_le, OF that] .
  have "keys_ok ?y" using I(2,4) room(2) fresh lt less [of "x_next_connection x"] new len [of "x_next_connection x" "Connection_new t t'" "x_connections x"] om_less.sorted_put [of "x_connections x" "x_next_connection x"]
    by (auto simp: keys_ok_def)
  moreover have "routes_ok ?y" using I(3) new by (auto simp: routes_ok_def Connection_new_def)
  ultimately show "core_inv ?y" using flight I room(1) by (simp add: core_inv_def queues_ok_def)
qed

section \<open>The reactor\<close>

lemma throws_inv: "core_inv x \<Longrightarrow> session_inv (reactor_throws x)"
  by (simp add: session_inv_def reactor_throws_def visits_ok_def visited_def)

lemma quiet_inv: "core_inv x \<Longrightarrow> visited pc = [] \<Longrightarrow> session_inv (x\<lparr>x_reactor_pc := pc\<rparr>)"
  by (simp add: session_inv_def visits_ok_def)

lemma visit_inv:
  assumes "core_inv y" "distinct (visited pc)" "set (visited pc) \<subseteq> fst ` set (x_connections y)"
  shows "session_inv (y\<lparr>x_reactor_pc := pc\<rparr>)"
  using assms by (auto simp: session_inv_def visits_ok_def map_of_eq_None_iff subset_iff)

lemma visits_sub:
  assumes "visits_ok x"
  shows "distinct (visited (x_reactor_pc x)) \<and> set (visited (x_reactor_pc x)) \<subseteq> fst ` set (x_connections x)"
  using assms by (auto simp: visits_ok_def map_of_eq_None_iff)

lemma map_fst_polled: "map fst (map (polled_events d r) cs) = map fst cs"
  by (auto simp: polled_events_def)

lemma poll_inv:
  assumes "core_inv x"
  shows "session_inv (reactor_poll env x)"
proof -
  have "distinct (map fst (x_connections x))" using assms om_less.sorted_distinct by (auto simp: core_inv_def keys_ok_def)
  then have "session_inv (x\<lparr>x_reactor_pc := pc\<rparr>)" if "visited pc = map fst (x_connections x)" for pc
    using assms that by (intro visit_inv) simp_all
  then show ?thesis using throws_inv [OF assms] quiet_inv [OF assms]
    by (auto simp: reactor_poll_def Let_def visited_def map_fst_polled simp del: map_map split: poll_result.splits)
qed

lemma accept_inv:
  assumes inv: "session_inv x" and pc: "x_reactor_pc x = R_Accept k woken polls" and room: "x_next_connection x + 1 \<noteq> 0"
  shows "session_inv (reactor_accept env k woken polls x)"
proof -
  have core: "core_inv x" and vis: "distinct (map fst polls)" "set (map fst polls) \<subseteq> fst ` set (x_connections x)"
    using inv visits_sub [of x] pc by (auto simp: session_inv_def visited_def)
  have stay: "session_inv (x\<lparr>x_reactor_pc := R_Wake woken polls\<rparr>)" "session_inv (x\<lparr>x_reactor_pc := R_Accept k' woken polls\<rparr>)" for k'
    using vis by (auto intro!: visit_inv core simp: visited_def)
  have new: "session_inv (x\<lparr>x_connections := om_put (<) (x_next_connection x) (Connection_new t t') (x_connections x),
      x_next_connection := x_next_connection x + 1, x_accepted := a, x_reactor_pc := R_Accept k' woken polls\<rparr>)"
    if "length (x_connections x) < 64" for t t' a k'
    using visit_inv [OF accept_core(1) [where t = t and t' = t' and a = a, OF core room that], of "R_Accept k' woken polls"] vis
    by (auto simp: visited_def set_fst_om_put)
  show ?thesis
    using stay new throws_inv [OF core] accept_core(2) [OF core room]
    by (auto simp: reactor_accept_def split: accept_result.splits)
qed

lemma serve_inv:
  assumes inv: "session_inv x" and pc: "x_reactor_pc x = R_Serve ((i, ev) # polls) removed"
  shows "session_inv (reactor_step env x)"
proof -
  have core: "core_inv x" and vis: "distinct (i # map fst polls @ removed)" "set (i # map fst polls @ removed) \<subseteq> fst ` set (x_connections x)"
    using inv visits_sub [of x] pc by (auto simp: session_inv_def visited_def)
  have "i \<in> fst ` set (x_connections x)" using vis(2) by simp
  then obtain c where c: "map_of (x_connections x) i = Some c" by (metis map_of_eq_None_iff not_None_eq)
  note S = service_admits [OF core c, of "re_service env" ev]
  show ?thesis
  proof (cases "service_connection (re_service env) i ev x")
    case None
    then show ?thesis using pc throws_inv [OF core] by (simp add: reactor_step_def or_throws_def)
  next
    case (Some t)
    obtain dead z where t: "t = (dead, z)" by force
    have z: "core_inv z" "map fst (x_connections z) = map fst (x_connections x)" using S Some t by simp_all
    have "fst ` set (x_connections z) = fst ` set (x_connections x)" using z(2) by (metis set_map)
    then have "session_inv (z\<lparr>x_reactor_pc := R_Serve polls (if dead then removed @ [i] else removed)\<rparr>)"
      using vis by (intro visit_inv z(1)) (auto simp: visited_def)
    then show ?thesis using pc Some t by (simp add: reactor_step_def or_throws_def)
  qed
qed

lemma deliver_inv:
  assumes inv: "session_inv x" and pc: "x_reactor_pc x = R_Deliver fin none k"
  shows "session_inv (reactor_step env x)"
proof -
  have core: "core_inv x" using inv by (simp add: session_inv_def)
  have q: "queue_ok queue_capacity (x_responses x)" using core by (simp add: core_inv_def queues_ok_def)
  obtain r q' where pop: "try_pop queue_capacity (x_responses x) = (r, q')" by force
  have poll: "session_inv (x\<lparr>x_reactor_pc := R_Poll fin none\<rparr>)" by (rule quiet_inv [OF core]) (simp add: visited_def)
  show ?thesis
  proof (cases "k = 4096 \<or> r = None")
    case True
    then show ?thesis using pc pop poll by (auto simp: reactor_step_def)
  next
    case False
    then obtain s where s: "r = Some s" by auto
    note t = lfq.pop_ok [OF q pop [unfolded s]]
    let ?y = "x\<lparr>x_responses := q'\<rparr>"
    have same: "same_net x ?y" by (simp add: same_net_def)
    have "session_inv ?y"
      by (rule same_net_inv [OF inv same]) (use t core in \<open>auto simp: core_inv_def queues_ok_def responses_ok_def\<close>)
    then have y: "core_inv ?y" by (simp add: session_inv_def)
    have "response_ok ?y s" using core t same_net_ok(2) [OF same] by (simp add: core_inv_def responses_ok_def)
    note D = deliver_core [OF y this, of "re_now env"]
    show ?thesis
    proof (cases "deliver (re_now env) s ?y")
      case None
      then show ?thesis using pc pop s False throws_inv [OF y] by (simp add: reactor_step_def or_throws_def)
    next
      case (Some z)
      then have "session_inv (z\<lparr>x_reactor_pc := R_Deliver fin False (Suc k)\<rparr>)" using D by (intro quiet_inv) (simp_all add: visited_def)
      then show ?thesis using pc pop s False Some by (simp add: reactor_step_def or_throws_def)
    qed
  qed
qed

lemma reactor_step_inv:
  assumes inv: "session_inv x" and room: "x_next_connection x + 1 \<noteq> 0"
  shows "session_inv (reactor_step env x)"
proof -
  have core: "core_inv x" using inv by (simp add: session_inv_def)
  show ?thesis
  proof (cases "x_reactor_pc x")
    case R_Top
    have "session_inv (x\<lparr>x_draining := True, x_ingress_done := True, x_drain_until := t, x_reactor_pc := R_Load\<rparr>)" for t
      by (rule quiet_inv) (simp_all add: core visited_def)
    then show ?thesis using R_Top quiet_inv [OF core, of R_Load] by (simp add: reactor_step_def visited_def)
  next
    case R_Load
    then show ?thesis using quiet_inv [OF core] by (simp add: reactor_step_def visited_def)
  next
    case (R_Poll a b)
    have "session_inv (x\<lparr>x_fatal := True, x_reactor_pc := R_Leave\<rparr>)" by (rule quiet_inv) (simp_all add: core visited_def)
    then show ?thesis using R_Poll quiet_inv [OF core, of R_Leave] poll_inv [OF core] by (simp add: reactor_step_def visited_def)
  next
    case (R_Accept k w polls)
    then show ?thesis using accept_inv [OF inv R_Accept room] by (simp add: reactor_step_def)
  next
    case (R_Wake w polls)
    have "session_inv (x\<lparr>x_reactor_pc := R_Serve polls []\<rparr>)"
      using inv visits_sub [of x] R_Wake by (intro visit_inv core) (auto simp: session_inv_def visited_def)
    then show ?thesis using R_Wake throws_inv [OF core] by (simp add: reactor_step_def)
  next
    case (R_Serve polls removed)
    show ?thesis
    proof (cases polls)
      case Nil
      have "distinct removed" "\<forall>i \<in> set removed. map_of (x_connections x) i \<noteq> None"
        using inv R_Serve Nil by (simp_all add: session_inv_def visits_ok_def visited_def)
      then obtain z where z: "remove_connections removed x = Some z" "core_inv z" using remove_core [OF core] by blast
      then show ?thesis using R_Serve Nil quiet_inv [OF z(2), of R_Top] by (simp add: reactor_step_def or_throws_def visited_def)
    next
      case (Cons p ps)
      then show ?thesis using serve_inv [OF inv, of "fst p" "snd p" ps removed env] R_Serve by simp
    qed
  next
    case R_Leave
    have "session_inv (x\<lparr>x_ingress_done := True, x_reactor_pc := R_Done\<rparr>)" by (rule quiet_inv) (simp_all add: core visited_def)
    then show ?thesis using R_Leave by (simp add: reactor_step_def)
  qed (use deliver_inv [OF inv] inv in \<open>auto simp: reactor_step_def\<close>)
qed

end
