(* ===== verification/Journal_Layout.thy ===== *)
theory Journal_Layout
  imports Journal
begin

text \<open>
  Which files a journal accepts: exactly the layouts of the commands it recovers. With the round trip of
  Journal this makes opening the inverse of writing, whatever the reads deliver.
\<close>

section \<open>Reads deliver the file\<close>

lemma read_loop_exact:
  "read_loop sched asked sz acc rest = Inr (r, rest', calls) \<Longrightarrow> sz \<le> asked \<Longrightarrow>
   (case r of None \<Rightarrow> sz = asked \<and> rest = [] \<and> rest' = [] | Some out \<Rightarrow> out @ rest' = acc @ rest \<and> length out = length acc + sz)"
proof (induction "length sched + sz" arbitrary: sched sz acc rest rule: less_induct)
  case less
  show ?case
  proof (cases "sz = 0")
    case True
    then show ?thesis using less.prems by (auto simp: read_loop.simps)
  next
    case sz: False
    define n where "n = min (min (moves sched sz) sz) (length rest)"
    have moved: ?thesis if s: "sched = [] \<or> (\<exists>k c. sched = Transfer k # c)"
    proof (cases "rest = []")
      case True
      then show ?thesis using less.prems read_loop_moves [OF sz s, of asked acc rest] by (auto simp: Let_def split: if_splits)
    next
      case False
      have "moves sched sz \<noteq> 0" using s sz by (auto simp: moves_def)
      then have n: "n \<noteq> 0" "n \<le> sz" "n \<le> length rest" using sz False by (auto simp: n_def)
      then have "length (tl sched) + (sz - n) < length sched + sz" using sz by (cases sched) auto
      moreover have "read_loop (tl sched) asked (sz - n) (acc @ take n rest) (drop n rest) = Inr (r, rest', calls)"
        using less.prems read_loop_moves [OF sz s, of asked acc rest] False by (simp add: Let_def n_def)
      moreover have "sz - n \<le> asked" using less.prems(2) by simp
      ultimately have "case r of None \<Rightarrow> sz - n = asked \<and> drop n rest = [] \<and> rest' = []
          | Some out \<Rightarrow> out @ rest' = (acc @ take n rest) @ drop n rest \<and> length out = length (acc @ take n rest) + (sz - n)"
        by (rule less.hyps)
      then show ?thesis using n less.prems(2) by (cases r) (simp_all, linarith)
    qed
    show ?thesis
    proof (cases sched)
      case (Cons c calls')
      show ?thesis
      proof (cases c)
        case Interrupted
        then show ?thesis using less.hyps [of calls' sz acc rest] less.prems Cons sz by (simp add: read_loop_interrupted)
      next
        case Failed
        then show ?thesis using less.prems Cons sz by (simp add: read_loop.simps)
      qed (use moved Cons in auto)
    qed (use moved in auto)
  qed
qed

lemma read_all_exact:
  "read_all sched sz rest = Inr (r, rest', calls) \<Longrightarrow>
   (case r of None \<Rightarrow> rest = [] \<and> rest' = [] | Some out \<Rightarrow> out @ rest' = rest \<and> length out = sz)"
  using read_loop_exact [of sched sz sz "[]" rest r rest' calls] by (auto simp: read_all_def split: option.splits)

section \<open>Records\<close>

lemma record_message_layout:
  assumes "record_message bytes crc = Inr m" "length bytes = frame_size" "length crc = 4"
  shows "journaled m \<and> bytes @ crc = journal_record (encode_frame m)"
proof -
  have d: "decode bytes = Some m" and s: "stored_checksum crc = checksum bytes" and k: "m_kind m = Command" "m_action m \<noteq> Act_Status" "m_action m \<noteq> Act_Snapshot"
    using assms(1) by (auto simp: record_message_def split: option.splits if_splits)
  have c: "message_ok m" "encode_frame m = bytes" using decode_canonical [OF _ d] assms(2) by (simp_all add: frame_size_def)
  have "crc = crc_bytes (checksum bytes)" using crc_stored [OF assms(3)] s by simp
  then show ?thesis using c k assms(2) by (simp add: journaled_def record_eq)
qed

lemma read_records_layout:
  "read_records sched rest acc = Inr ms \<Longrightarrow> \<exists>new. ms = acc @ new \<and> rest = records new \<and> list_all journaled new"
proof (induction sched rest acc rule: read_records.induct)
  case (1 sched rest acc)
  obtain b rest1 calls1 where r1: "read_all sched frame_size rest = Inr (b, rest1, calls1)"
    using "1.prems" by (cases "read_all sched frame_size rest") (auto simp: read_records.simps [of sched])
  note e1 = read_all_exact [OF r1]
  show ?case
  proof (cases b)
    case None
    then show ?thesis using "1.prems" r1 e1 by (auto simp: read_records.simps [of sched])
  next
    case (Some bytes)
    obtain crc rest2 calls2 m where r2: "read_all calls1 4 rest1 = Inr (Some crc, rest2, calls2)" "record_message bytes crc = Inr m"
        "read_records calls2 rest2 (acc @ [m]) = Inr ms"
      using "1.prems" r1 Some by (auto simp: read_records.simps [of sched] split: sum.splits option.splits prod.splits)
    note e2 = read_all_exact [OF r2(1)]
    have m: "journaled m \<and> bytes @ crc = journal_record (encode_frame m)"
      using record_message_layout [OF r2(2)] e1 e2 Some by simp
    obtain new where new: "ms = (acc @ [m]) @ new" "rest2 = records new" "list_all journaled new"
      using "1.IH" [OF r1 refl Some refl r2(1) refl refl refl r2(2) r2(3)] by auto
    have "rest = (bytes @ crc) @ rest2" using e1 e2 Some by auto
    then show ?thesis using new m by (intro exI [of _ "m # new"]) simp
  qed
qed

lemma Journal_new_layout:
  assumes "Journal_new env hash disk = (Inr ms, disk')"
  shows "disk' = journal_layout hash ms \<and> list_all journaled ms \<and> (disk = [] \<or> disk' = disk)"
proof -
  have io: "open_ok env" "lock_ok env" using assms by (auto simp: Journal_new_def split: if_splits)
  obtain b rest calls where r: "read_all (reads env) 16 disk = Inr (b, rest, calls)"
    using assms io by (cases "read_all (reads env) 16 disk") (auto simp: Journal_new_def Let_def)
  note e = read_all_exact [OF r]
  show ?thesis
  proof (cases b)
    case None
    then have "disk = []" using e by simp
    have w: "write_all (writes env) (expected_header hash) disk = (None, disk')" "read_records calls [] [] = Inr ms"
      using assms io r None by (auto simp: Journal_new_def Let_def split: prod.splits option.splits if_splits)
    obtain n where "disk' = disk @ take n (expected_header hash)" "n = length (expected_header hash)"
      using write_all_prefix [of "writes env" "expected_header hash" disk] w(1) by auto
    moreover obtain new where new: "ms = new" "[] = records new" "list_all journaled new" using read_records_layout [OF w(2)] by auto
    moreover have "new = []" using arg_cong [OF new(2), of length] by simp
    ultimately show ?thesis using \<open>disk = []\<close> by (simp add: journal_layout_def)
  next
    case (Some header)
    then have h: "header = expected_header hash" "read_records calls rest [] = Inr ms" "disk' = disk"
      using assms io r by (auto simp: Journal_new_def Let_def split: if_splits)
    then show ?thesis using read_records_layout [OF h(2)] e Some by (auto simp: journal_layout_def)
  qed
qed

text \<open>Appending a command, by its outcome.\<close>

lemma journal_append_layout:
  assumes "journal_append sched synced m (journal_layout hash ms) = (None, disk')" "journaled m"
  shows "disk' = journal_layout hash (ms @ [m])"
proof -
  let ?r = "journal_record (encode_frame m)" and ?l = "journal_layout hash ms"
  have "write_all sched ?r ?l = (None, disk')"
    using assms by (auto simp: journal_append_def encode_ok journaled_def split: prod.splits option.splits if_splits)
  then show ?thesis using write_all_prefix [of sched ?r ?l] by (auto simp: journal_layout_def)
qed

text \<open>Opening what was written gives the commands back.\<close>

lemma open_written: "env_granted env \<Longrightarrow> list_all journaled ms \<Longrightarrow> Journal_new env hash (journal_layout hash ms) = (Inr ms, journal_layout hash ms)"
  using open_cut [of env ms "length (journal_layout hash ms)" hash] by (auto simp: journal_layout_def)

lemma open_fresh:
  assumes "env_granted env"
  shows "Journal_new env hash [] = (Inr [], journal_layout hash [])"
proof -
  obtain calls where c: "granted calls" "read_all (reads env) 16 [] = Inr (None, [], calls)"
    using read_all_granted [of "reads env" 16 "[]"] assms by (auto simp: env_granted_def)
  have "write_all (writes env) (expected_header hash) [] = (None, expected_header hash)"
    using write_all_granted [of "writes env" "expected_header hash" "[]"] assms by (simp add: env_granted_def)
  then show ?thesis using c read_records_end [OF c(1)] assms by (simp add: Journal_new_def env_granted_def journal_layout_def)
qed

end
