(* ===== verification/Server_Run.thy ===== *)
theory Server_Run
  imports Server_Inv Journal_Layout Replica
begin

text \<open>
  What the exchange has done at any point of a run: the engine is the one the processed commands lead to,
  the journal holds exactly these commands, and the multicast carried a prefix of the engine's updates.
\<close>

section \<open>What a thread leaves alone\<close>

definition engine_part :: "Exchange \<Rightarrow> _" where
  "engine_part x = (x_epoch x, x_engine x, x_journal x, x_engine_pc x, x_engine_done x, x_engine_error x, x_commands x, x_emitted x)"

definition publisher_part :: "Exchange \<Rightarrow> _" where
  "publisher_part x = (x_updates x, x_publisher_pc x, x_publisher_error x, x_heartbeat x, x_heartbeat_at x, x_datagrams x, x_multicast x)"

definition reactor_part :: "Exchange \<Rightarrow> _" where
  "reactor_part x = (x_reactor_pc x, x_ingress_done x, x_draining x, x_connections x, x_routes x, x_next_connection x, x_io_error x)"

lemmas part_defs = engine_part_def publisher_part_def reactor_part_def

lemma part_simps [simp]:
  "engine_part (put_connection i c x) = engine_part x" "engine_part (count_slow b x) = engine_part x"
  "publisher_part (put_connection i c x) = publisher_part x" "publisher_part (count_slow b x) = publisher_part x"
  "x_responses (put_connection i c x) = x_responses x" "x_responses (count_slow b x) = x_responses x"
  "x_draining (put_connection i c x) = x_draining x" "x_draining (count_slow b x) = x_draining x"
  "x_ingress_done (put_connection i c x) = x_ingress_done x" "x_ingress_done (count_slow b x) = x_ingress_done x"
  "x_fatal (put_connection i c x) = x_fatal x" "x_fatal (count_slow b x) = x_fatal x"
  "x_requests (put_connection i c x) = x_requests x" "x_requests (count_slow b x) = x_requests x"
  "x_next_connection (put_connection i c x) = x_next_connection x" "x_next_connection (count_slow b x) = x_next_connection x"
  by (simp_all add: part_defs put_connection_def count_slow_def)

text \<open>The parts of the state an operation of the reactor on a connection keeps.\<close>

definition keeps :: "Exchange \<Rightarrow> Exchange \<Rightarrow> bool" where
  "keeps x y \<longleftrightarrow> engine_part y = engine_part x \<and> publisher_part y = publisher_part x \<and> x_responses y = x_responses x \<and>
     x_draining y = x_draining x \<and> x_ingress_done y = x_ingress_done x \<and> x_fatal y = x_fatal x \<and>
     x_next_connection y = x_next_connection x \<and> (x_draining x \<longrightarrow> x_requests y = x_requests x)"

lemma keeps_refl [simp]: "keeps x x"
  by (simp add: keeps_def)

lemma keeps_trans: "keeps x y \<Longrightarrow> keeps y z \<Longrightarrow> keeps x z"
  by (simp add: keeps_def)

lemma deliver_keeps: "deliver now r x = Some y \<Longrightarrow> keeps x y \<and> x_requests y = x_requests x"
  by (auto simp: deliver_def keeps_def split: option.splits if_splits)

lemma enqueue_keeps: "\<not> x_draining x \<Longrightarrow> keeps x (snd (enqueue_request i m c x))"
  by (auto simp: enqueue_request_def keeps_def part_defs split: prod.splits bool.splits)

lemma frame_keeps:
  assumes "\<not> x_draining x" "service_frame env i c x = Some (dead, c', y)"
  shows "keeps x y"
proof -
  have q: "keeps x (snd (enqueue_request i m d (x\<lparr>x_routes := r\<rparr>)))" for m d r
    using enqueue_keeps [of "x\<lparr>x_routes := r\<rparr>" i m d] assms(1) by (simp add: keeps_def part_defs)
  have "keeps x (x\<lparr>x_malformed := k\<rparr>)" "keeps x (count_slow b x)" for k b by (simp_all add: keeps_def part_defs count_slow_def)
  then show ?thesis using assms(2) q enqueue_keeps [OF assms(1), of i]
    by (auto simp: service_frame_def Let_def split: option.splits if_splits) (metis snd_conv)+
qed

lemma input_keeps:
  assumes "service_input env i ev dead c x = Some (dead', c', y)"
  shows "keeps x y"
  using assms frame_keeps by (auto simp: service_input_def split: if_splits prod.splits)

lemma service_keeps:
  assumes "service_connection env i ev x = Some (dead, y)"
  shows "keeps x y"
proof -
  obtain c where c: "map_of (x_connections x) i = Some c"
    using assms by (cases "map_of (x_connections x) i") (auto simp: service_connection_def)
  obtain d1 c1 where w: "service_write env ev c = (d1, c1)" by force
  obtain d2 c2 x2 where s: "service_input env i ev d1 c1 x = Some (d2, c2, x2)"
      "y = put_connection i c2 (count_slow (too_slow env c2) x2)"
    using assms c w by (cases "service_input env i ev d1 c1 x") (auto simp: service_connection_def)
  show ?thesis using input_keeps [OF s(1)] by (simp add: keeps_def s(2))
qed

lemma remove_keeps: "remove_connections is x = Some y \<Longrightarrow> keeps x y \<and> x_requests y = x_requests x"
proof (induction "is" arbitrary: x)
  case (Cons i "is")
  obtain c where c: "map_of (x_connections x) i = Some c" using Cons.prems by (cases "map_of (x_connections x) i") auto
  from Cons.IH [of "x\<lparr>x_routes := om_erase (c_client c) (x_routes x), x_connections := om_erase i (x_connections x)\<rparr>"] Cons.prems c
  show ?case by (auto simp: keeps_def part_defs)
qed simp

lemma reactor_updates [simp]:
  "engine_part (x\<lparr>x_reactor_pc := pc\<rparr>) = engine_part x" "engine_part (x\<lparr>x_responses := q\<rparr>) = engine_part x"
  "engine_part (x\<lparr>x_draining := b\<rparr>) = engine_part x" "engine_part (x\<lparr>x_ingress_done := b\<rparr>) = engine_part x"
  "engine_part (x\<lparr>x_drain_until := t\<rparr>) = engine_part x" "engine_part (x\<lparr>x_fatal := b\<rparr>) = engine_part x"
  "engine_part (reactor_throws x) = engine_part x"
  "publisher_part (x\<lparr>x_reactor_pc := pc\<rparr>) = publisher_part x" "publisher_part (x\<lparr>x_responses := q\<rparr>) = publisher_part x"
  "publisher_part (x\<lparr>x_draining := b\<rparr>) = publisher_part x" "publisher_part (x\<lparr>x_ingress_done := b\<rparr>) = publisher_part x"
  "publisher_part (x\<lparr>x_drain_until := t\<rparr>) = publisher_part x" "publisher_part (x\<lparr>x_fatal := b\<rparr>) = publisher_part x"
  "publisher_part (reactor_throws x) = publisher_part x" "x_fatal (reactor_throws x)"
  by (simp_all add: part_defs reactor_throws_def)

text \<open>What a step of the reactor keeps of the other threads.\<close>

definition reactor_keeps :: "Exchange \<Rightarrow> Exchange \<Rightarrow> bool" where
  "reactor_keeps x y \<longleftrightarrow> engine_part y = engine_part x \<and> publisher_part y = publisher_part x \<and> (x_fatal x \<longrightarrow> x_fatal y)"

lemma accept_keeps: "reactor_keeps x (reactor_accept env k w polls x)"
  by (simp add: reactor_accept_def reactor_keeps_def split: accept_result.splits) (simp add: part_defs)

lemma poll_keeps: "reactor_keeps x (reactor_poll env x)"
  by (simp add: reactor_poll_def reactor_keeps_def Let_def split: poll_result.splits)

lemma reactor_parts: "reactor_keeps x (reactor_step env x)"
proof (cases "x_reactor_pc x")
  case (R_Deliver a b k)
  obtain r q where pop: "try_pop queue_capacity (x_responses x) = (r, q)" by force
  show ?thesis
  proof (cases "k = 4096 \<or> r = None")
    case True
    then show ?thesis using R_Deliver pop by (auto simp: reactor_step_def reactor_keeps_def)
  next
    case False
    then obtain s where s: "r = Some s" by auto
    show ?thesis
    proof (cases "deliver (re_now env) s (x\<lparr>x_responses := q\<rparr>)")
      case None
      then show ?thesis using R_Deliver pop s False by (simp add: reactor_step_def reactor_keeps_def or_throws_def)
    next
      case (Some y)
      then show ?thesis using R_Deliver pop s False deliver_keeps [OF Some]
        by (simp add: reactor_step_def reactor_keeps_def or_throws_def keeps_def)
    qed
  qed
next
  case (R_Serve polls removed)
  show ?thesis
  proof (cases polls)
    case Nil
    show ?thesis
    proof (cases "remove_connections removed x")
      case None
      then show ?thesis using R_Serve Nil by (simp add: reactor_step_def reactor_keeps_def or_throws_def)
    next
      case (Some y)
      then show ?thesis using R_Serve Nil remove_keeps [OF Some] by (simp add: reactor_step_def reactor_keeps_def or_throws_def keeps_def)
    qed
  next
    case (Cons p ps)
    obtain i ev where p: "p = (i, ev)" by force
    show ?thesis
    proof (cases "service_connection (re_service env) i ev x")
      case None
      then show ?thesis using R_Serve Cons p by (simp add: reactor_step_def reactor_keeps_def or_throws_def)
    next
      case (Some t)
      obtain dead y where t: "t = (dead, y)" by force
      show ?thesis using R_Serve Cons p Some service_keeps [OF Some [unfolded t]]
        by (simp add: t reactor_step_def reactor_keeps_def or_throws_def keeps_def)
    qed
  qed
next
  case (R_Poll a b)
  then show ?thesis using poll_keeps [of x env] by (simp add: reactor_step_def reactor_keeps_def)
next
  case (R_Accept k w polls)
  then show ?thesis using accept_keeps [of x env k w polls] by (simp add: reactor_step_def)
qed (simp_all add: reactor_step_def reactor_keeps_def)

lemma reactor_next:
  "x_next_connection (reactor_step env x) \<in> {x_next_connection x, x_next_connection x + 1}"
proof -
  have throw: "x_next_connection (reactor_throws y) = x_next_connection y" for y by (simp add: reactor_throws_def)
  have accept: "x_next_connection (reactor_accept env k w polls x) \<in> {x_next_connection x, x_next_connection x + 1}" for k w polls
    by (simp add: reactor_accept_def throw split: accept_result.splits)
  have poll: "x_next_connection (reactor_poll env x) = x_next_connection x"
    by (simp add: reactor_poll_def throw Let_def split: poll_result.splits)
  have or: "x_next_connection (or_throws y (map_option f r)) = n"
    if "x_next_connection y = n" "\<And>z. r = Some z \<Longrightarrow> x_next_connection (f z) = n" for y f n and r :: "'a option"
    using that by (auto simp: or_throws_def throw split: option.splits)
  show ?thesis
  proof (cases "x_reactor_pc x")
    case (R_Deliver a b k)
    then show ?thesis using deliver_keeps
      by (auto simp: reactor_step_def keeps_def intro!: or split: prod.splits option.splits)
  next
    case (R_Serve polls removed)
    then show ?thesis using service_keeps remove_keeps
      by (cases polls) (auto simp: reactor_step_def keeps_def intro!: or)
  next
    case (R_Accept k w polls)
    then show ?thesis using accept [of k w polls] by (simp add: reactor_step_def)
  qed (simp_all add: reactor_step_def throw poll)
qed

lemma publisher_parts:
  "engine_part (publisher_step env x) = engine_part x \<and> reactor_part (publisher_step env x) = reactor_part x \<and>
   (x_fatal x \<longrightarrow> x_fatal (publisher_step env x)) \<and> x_requests (publisher_step env x) = x_requests x \<and>
   x_responses (publisher_step env x) = x_responses x"
  by (auto simp: publisher_step_def publisher_throws_def multicast_def part_defs Let_def
      split: publisher_pc.splits option.splits if_splits prod.splits)

lemma journal_command_part:
  "journal_command env c x = (ok, x1) \<Longrightarrow> x1 = x\<lparr>x_journal := x_journal x1\<rparr>"
  using journal_command_same [of env c x] by simp

text \<open>What the engine thread keeps of the other threads.\<close>

definition other_part :: "Exchange \<Rightarrow> _" where
  "other_part x = (reactor_part x, x_epoch x, x_multicast x, x_publisher_pc x, x_publisher_error x, x_heartbeat x)"

lemma engine_updates [simp]:
  "other_part (x\<lparr>x_engine_pc := pc\<rparr>) = other_part x" "other_part (x\<lparr>x_requests := q\<rparr>) = other_part x"
  "other_part (x\<lparr>x_responses := q\<rparr>) = other_part x" "other_part (x\<lparr>x_updates := u\<rparr>) = other_part x"
  "other_part (x\<lparr>x_engine := e\<rparr>) = other_part x" "other_part (x\<lparr>x_commands := cs\<rparr>) = other_part x"
  "other_part (x\<lparr>x_emitted := us\<rparr>) = other_part x" "other_part (x\<lparr>x_engine_done := b\<rparr>) = other_part x"
  "other_part (x\<lparr>x_journal := j\<rparr>) = other_part x" "other_part (engine_throws x) = other_part x" "x_fatal (engine_throws x)"
  by (simp_all add: other_part_def reactor_part_def engine_throws_def)

definition engine_keeps :: "Exchange \<Rightarrow> Exchange \<Rightarrow> bool" where
  "engine_keeps x y \<longleftrightarrow> other_part y = other_part x \<and> (x_fatal x \<longrightarrow> x_fatal y)"

lemma finish_keeps: "engine_keeps x (engine_finish x)"
  by (simp add: engine_finish_def engine_keeps_def split: sum.splits)

lemma serve_keeps: "engine_keeps x (serve_request env r x)"
proof -
  obtain ok x1 where j: "journal_command env (env_message r) x = (ok, x1)" by force
  have k: "engine_keeps x x1" by (subst journal_command_part [OF j]) (simp add: engine_keeps_def)
  show ?thesis
  proof (cases "\<not> ok \<or> engine_process (ee_heap env) (env_message r) (x_engine x1) = None")
    case True
    then show ?thesis using j k by (cases ok) (auto simp: serve_request_def engine_keeps_def Let_def)
  next
    case False
    then show ?thesis using j k by (auto simp: serve_request_def engine_keeps_def Let_def)
  qed
qed

lemma engine_parts: "engine_keeps x (engine_step env x)"
proof (cases "x_engine_pc x")
  case (E_Pop fin)
  obtain r q where pop: "try_pop queue_capacity (x_requests x) = (r, q)" by force
  show ?thesis
  proof (cases r)
    case None
    then show ?thesis using E_Pop pop finish_keeps by (simp add: engine_step_def) (simp add: engine_keeps_def)
  next
    case (Some s)
    then show ?thesis using E_Pop pop serve_keeps [of "x\<lparr>x_requests := q\<rparr>" env s] by (simp add: engine_step_def engine_keeps_def)
  qed
next
  case (E_Send rs us)
  then show ?thesis
    by (cases rs; cases us) (simp_all add: engine_step_def engine_keeps_def split: prod.splits bool.splits)
qed (use finish_keeps [of x] in \<open>simp_all add: engine_step_def engine_keeps_def\<close>)

section \<open>The engine and the journal\<close>

definition journaled_commands :: "Exchange \<Rightarrow> (heap_env \<times> Message) list" where
  "journaled_commands x = filter (\<lambda>(h, c). m_action c \<noteq> Act_Status) (x_commands x)"

definition work_inv :: "(InstrumentId \<Rightarrow> nat option) \<Rightarrow> Instruments \<Rightarrow> Exchange \<Rightarrow> bool" where
  "work_inv blocks ins x \<longleftrightarrow>
     (\<exists>e0. MatchingEngine_new blocks ins (x_epoch x) = Some e0 \<and> engine_run (x_commands x) e0 = Some (x_engine x)) \<and>
     engine_reachable ins (length (x_commands x)) (x_engine x) \<and> list_all (\<lambda>(h, c). m_kind c = Command) (x_commands x) \<and>
     list_all journaled (map snd (journaled_commands x)) \<and>
     (\<forall>disk. x_journal x = Some disk \<and> \<not> x_engine_error x \<longrightarrow>
        disk = journal_layout (config_fingerprint ins) (map snd (journaled_commands x)))"

lemma work_same:
  assumes "work_inv blocks ins x" "x_epoch y = x_epoch x" "x_engine y = x_engine x" "x_commands y = x_commands x"
    "x_engine_error y \<or> (x_journal y = x_journal x \<and> x_engine_error y = x_engine_error x)"
  shows "work_inv blocks ins y"
  using assms by (auto simp: work_inv_def journaled_commands_def)

lemma work_parts: "engine_part y = engine_part x \<Longrightarrow> work_inv blocks ins x \<Longrightarrow> work_inv blocks ins y"
  by (rule work_same) (auto simp: engine_part_def)

lemma engine_run_snoc: "engine_run (cs @ [(h, c)]) e = (engine_run cs e \<bind> (\<lambda>e'. map_option snd (engine_process h c e')))"
  by (induction cs e rule: engine_run.induct) (auto split: option.splits bind_splits)

lemma work_served:
  assumes w: "work_inv blocks ins x" and r: "request_ok x r" "m_action (env_message r) \<noteq> Act_Snapshot"
    and room: "length (x_commands x) < 2 ^ 64 - 2" and j: "journal_command env (env_message r) x = (True, x1)"
    and p: "engine_process (ee_heap env) (env_message r) (x_engine x) = Some (b, e')"
    and y: "x_epoch y = x_epoch x" "x_engine y = e'" "x_commands y = x_commands x @ [(ee_heap env, env_message r)]"
      "x_journal y = x_journal x1" "x_engine_error y = x_engine_error x"
  shows "work_inv blocks ins y"
proof -
  let ?c = "env_message r"
  have W: "engine_reachable ins (length (x_commands x)) (x_engine x)" "list_all journaled (map snd (journaled_commands x))"
    using w by (simp_all add: work_inv_def)
  have c: "m_kind ?c = Command" "message_ok ?c" using r(1) by (simp_all add: request_ok_def Let_def)
  have jc: "journaled_commands y = journaled_commands x @ (if m_action ?c = Act_Status then [] else [(ee_heap env, ?c)])"
    by (simp add: journaled_commands_def y(3))
  have ok: "m_action ?c \<noteq> Act_Status \<Longrightarrow> journaled ?c" using c r(2) by (simp add: journaled_def)
  have "engine_reachable ins (length (x_commands y)) (x_engine y)"
    using engine_reachable.engine_step [OF W(1) room p] by (simp add: y)
  moreover have "\<exists>e0. MatchingEngine_new blocks ins (x_epoch y) = Some e0 \<and> engine_run (x_commands y) e0 = Some (x_engine y)"
    using w p by (auto simp: work_inv_def y engine_run_snoc)
  moreover have "disk = journal_layout (config_fingerprint ins) (map snd (journaled_commands y))"
    if d: "x_journal y = Some disk" "\<not> x_engine_error y" for disk
  proof (cases "m_action ?c = Act_Status")
    case True
    then have "x_journal y = x_journal x" using j y(4) by (auto simp: journal_command_def split: option.splits)
    then show ?thesis using w d True y(5) by (simp add: work_inv_def jc)
  next
    case False
    obtain old where old: "x_journal x = Some old" using j d y(4) by (cases "x_journal x") (auto simp: journal_command_def)
    then have "journal_append (ee_journal_writes env) (ee_journal_synced env) ?c old = (None, disk)"
      using j d y(4) False by (auto simp: journal_command_def split: prod.splits)
    moreover have "old = journal_layout (config_fingerprint ins) (map snd (journaled_commands x))"
      using w d(2) y(5) old by (simp add: work_inv_def)
    ultimately show ?thesis using journal_append_layout [of _ _ ?c _ _ disk] ok [OF False] False by (simp add: jc)
  qed
  ultimately show ?thesis using w c ok by (simp add: work_inv_def jc) (simp add: y)
qed

lemma engine_step_work:
  assumes inv: "session_inv x" and w: "work_inv blocks ins x" and room: "length (x_commands x) < 2 ^ 64 - 2"
  shows "work_inv blocks ins (engine_step env x) \<and> length (x_commands (engine_step env x)) \<le> Suc (length (x_commands x))"
proof -
  have finish: "work_inv blocks ins (engine_finish y) \<and> x_commands (engine_finish y) = x_commands y" if "work_inv blocks ins y" for y
    using that by (auto simp: engine_finish_def engine_throws_def split: sum.splits intro: work_same)
  have same: "work_inv blocks ins y \<and> length (x_commands y) \<le> Suc (length (x_commands x))"
    if "x_epoch y = x_epoch x" "x_engine y = x_engine x" "x_commands y = x_commands x"
      "x_engine_error y \<or> (x_journal y = x_journal x \<and> x_engine_error y = x_engine_error x)" for y
    using work_same [OF w that] that(3) by simp
  show ?thesis
  proof (cases "x_engine_pc x")
    case (E_Pop fin)
    obtain r q where pop: "try_pop queue_capacity (x_requests x) = (r, q)" by force
    show ?thesis
    proof (cases r)
      case None
      then show ?thesis using E_Pop pop finish [OF w] same by (auto simp: engine_step_def)
    next
      case (Some s)
      let ?x = "x\<lparr>x_requests := q\<rparr>" and ?c = "env_message s"
      have s: "request_ok ?x s"
        using lfq.pop_ok [of "x_requests x" s q] pop Some session_invD [OF inv]
        by (auto simp: queues_ok_def requests_ok_def request_ok_def owner_ok_def Let_def)
      have wx: "work_inv blocks ins ?x" using same [of ?x] by simp
      obtain ok x1 where j: "journal_command env ?c ?x = (ok, x1)" by force
      have x1: "x1 = ?x\<lparr>x_journal := x_journal x1\<rparr>" by (rule journal_command_part [OF j])
      have f1: "x_engine x1 = x_engine x" "x_commands x1 = x_commands x" "x_epoch x1 = x_epoch x" "x_engine_error x1 = x_engine_error x"
        by (subst x1, simp)+
      obtain b e' where p: "engine_process (ee_heap env) ?c (x_engine x) = Some (b, e')"
        using engine_process_inv [of "x_engine x" "ee_heap env" ?c] reachable_inv reachable_next [OF _ room] w
        by (fastforce simp: work_inv_def advances_def)
      have y: "engine_step env x = serve_request env s ?x" using E_Pop pop Some by (simp add: engine_step_def)
      consider "m_action ?c = Act_Snapshot" | "m_action ?c \<noteq> Act_Snapshot" "\<not> ok" | "m_action ?c \<noteq> Act_Snapshot" ok by blast
      then show ?thesis
      proof cases
        case 1
        then show ?thesis unfolding y by (intro same) (simp_all add: serve_request_def)
      next
        case 2
        then show ?thesis unfolding y using j f1 by (intro same) (simp_all add: serve_request_def engine_throws_def Let_def)
      next
        case 3
        let ?y = "serve_request env s ?x"
        have "x_epoch ?y = x_epoch ?x" "x_engine ?y = e'" "x_commands ?y = x_commands ?x @ [(ee_heap env, ?c)]"
            "x_journal ?y = x_journal x1" "x_engine_error ?y = x_engine_error ?x"
          using 3 j p f1 by (simp_all add: serve_request_def Let_def)
        moreover have "length (x_commands ?x) < 2 ^ 64 - 2" "engine_process (ee_heap env) ?c (x_engine ?x) = Some (b, e')"
            "journal_command env ?c ?x = (True, x1)"
          using room p j 3 by simp_all
        ultimately have "work_inv blocks ins ?y" using work_served [OF wx s 3(1)] by blast
        then show ?thesis unfolding y using 3 j p f1 by (simp add: serve_request_def Let_def)
      qed
    qed
  next
    case (E_Send rs us)
    then show ?thesis
      by (cases rs; cases us) (auto simp: engine_step_def engine_throws_def intro!: same [THEN conjunct1] split: prod.splits bool.splits)
  qed (use finish [OF w] w in \<open>auto simp: engine_step_def intro!: same [THEN conjunct1]\<close>)
qed

end
