(* ===== verification/Server_Feed.thy ===== *)
theory Server_Feed
  imports Server_Run
begin

text \<open>
  The multicast of the exchange: at every point of a run the deltas sent are the first updates of the
  engine, in order and without a gap; what is missing is still queued, unless a thread has failed.
\<close>

section \<open>What was published\<close>

definition published :: "Exchange \<Rightarrow> Message list" where
  "published x = filter (\<lambda>m. m_kind m = Delta) (List.map_filter decode (x_multicast x))"

definition to_publish :: "engine_pc \<Rightarrow> Message list" where
  "to_publish pc = (case pc of E_Send _ us \<Rightarrow> us | _ \<Rightarrow> [])"

lemma map_filter_snoc: "List.map_filter f (xs @ [y]) = List.map_filter f xs @ (case f y of None \<Rightarrow> [] | Some z \<Rightarrow> [z])"
  by (auto simp: List.map_filter_def split: option.splits)

lemma published_more:
  assumes "multicast env m x = Some y"
  shows "published y = published x @ (if m_kind m = Delta then [m] else [])"
    "\<exists>k f. y = x\<lparr>x_multicast := x_multicast x @ [f], x_datagrams := k\<rparr>"
proof -
  obtain f where f: "encode m = Some f" and y: "y = x\<lparr>x_multicast := x_multicast x @ [f], x_datagrams := x_datagrams x + 1\<rparr>"
    using assms by (auto simp: multicast_def split: option.splits if_splits)
  have "decode f = Some m" using encode_SomeD [OF f] decode_encode_ok by auto
  then show "published y = published x @ (if m_kind m = Delta then [m] else [])" by (simp add: y published_def map_filter_snoc)
  show "\<exists>k f. y = x\<lparr>x_multicast := x_multicast x @ [f], x_datagrams := k\<rparr>" using y by blast
qed

lemma stamps_append: "stamps ep s (as @ bs) \<longleftrightarrow> stamps ep s as \<and> stamps ep (s + of_nat (length as)) bs"
  by (induction as arbitrary: s) (simp_all add: algebra_simps)

text \<open>The updates still on their way; the last part was given up because a thread failed.\<close>

definition on_the_way :: "Exchange \<Rightarrow> Message list \<Rightarrow> bool" where
  "on_the_way x rest \<longleftrightarrow> (if x_publisher_error x then x_fatal x \<and> x_publisher_pc x = B_Done
     else \<exists>lost. rest = queued queue_capacity (x_updates x) @ to_publish (x_engine_pc x) @ lost \<and>
       (lost \<noteq> [] \<longrightarrow> x_fatal x \<and> x_engine_pc x \<in> {E_Top, E_Leave, E_Done}))"

definition feed_inv :: "u64 \<Rightarrow> Sequence \<Rightarrow> market \<Rightarrow> Exchange \<Rightarrow> bool" where
  "feed_inv ep s F x \<longleftrightarrow> stamps ep s (x_emitted x) \<and> e_epoch (x_engine x) = ep \<and>
     e_sequence (x_engine x) = s + of_nat (length (x_emitted x)) \<and>
     feed_run (x_emitted x) F = Some (views (e_books (x_engine x))) \<and>
     m_kind (x_heartbeat x) = Heartbeat \<and> m_epoch (x_heartbeat x) = ep \<and>
     m_sequence (x_heartbeat x) = s + of_nat (length (published x)) \<and>
     (\<exists>rest. x_emitted x = published x @ rest \<and> on_the_way x rest)"

lemma feed_same:
  assumes "feed_inv ep s F x" "x_engine y = x_engine x" "x_emitted y = x_emitted x" "x_multicast y = x_multicast x"
    "x_heartbeat y = x_heartbeat x" "\<And>rest. on_the_way x rest \<Longrightarrow> on_the_way y rest"
  shows "feed_inv ep s F y"
  using assms unfolding feed_inv_def published_def by auto

section \<open>The steps\<close>

lemma reactor_feed:
  assumes "feed_inv ep s F x" "reactor_keeps x y"
  shows "feed_inv ep s F y"
  by (rule feed_same [OF assms(1)])
    (use assms(2) in \<open>auto simp: reactor_keeps_def engine_part_def publisher_part_def on_the_way_def\<close>)

lemma publisher_feed:
  assumes inv: "queues_ok x" and f: "feed_inv ep s F x"
  shows "feed_inv ep s F (publisher_step env x)"
proof (cases "x_publisher_pc x")
  case B_Top
  show ?thesis by (rule feed_same [OF f]) (use B_Top in \<open>auto simp: publisher_step_def on_the_way_def\<close>)
next
  case (B_Pop fin)
  obtain r q where pop: "try_pop queue_capacity (x_updates x) = (r, q)" by force
  have ok: "queue_ok queue_capacity (x_updates x)" using inv by (simp add: queues_ok_def)
  have clean: "\<not> x_publisher_error x" using f B_Pop by (auto simp: feed_inv_def on_the_way_def)
  show ?thesis
  proof (cases r)
    case None
    show ?thesis by (rule feed_same [OF f]) (use B_Pop pop None clean in \<open>auto simp: publisher_step_def on_the_way_def\<close>)
  next
    case (Some m)
    note t = lfq.pop_ok [OF ok pop [unfolded Some]]
    obtain lost where lost: "x_emitted x = published x @ m # queued queue_capacity q @ to_publish (x_engine_pc x) @ lost"
        "lost \<noteq> [] \<longrightarrow> x_fatal x \<and> x_engine_pc x \<in> {E_Top, E_Leave, E_Done}"
      using f clean t by (auto simp: feed_inv_def on_the_way_def)
    have m: "m_kind m = Delta" "m_sequence m = s + of_nat (length (published x)) + 1"
      using f lost(1) by (auto simp: feed_inv_def stamps_append)
    let ?x = "x\<lparr>x_updates := q\<rparr>"
    show ?thesis
    proof (cases "multicast env m ?x")
      case None
      then have y: "publisher_step env x = publisher_throws ?x" using B_Pop pop Some by (simp add: publisher_step_def)
      show ?thesis unfolding y by (rule feed_same [OF f]) (auto simp: publisher_throws_def on_the_way_def)
    next
      case (Some x1)
      then obtain k g where x1: "x1 = ?x\<lparr>x_multicast := x_multicast x @ [g], x_datagrams := k\<rparr>"
        using published_more(2) [OF Some] by auto
      let ?y = "x1\<lparr>x_heartbeat := (x_heartbeat x1)\<lparr>m_sequence := m_sequence m\<rparr>, x_publisher_pc := B_Beat\<rparr>"
      have y: "publisher_step env x = ?y" using B_Pop pop \<open>r = Some m\<close> Some by (simp add: publisher_step_def)
      have pub: "published ?y = published x @ [m]" using published_more(1) [OF Some] m(1) by (simp add: published_def)
      have "on_the_way ?y (queued queue_capacity q @ to_publish (x_engine_pc x) @ lost)"
        using clean lost(2) by (auto simp: on_the_way_def x1)
      then show ?thesis unfolding y feed_inv_def pub using f m lost(1) by (auto simp: feed_inv_def x1)
    qed
  qed
next
  case B_Beat
  let ?after = "\<lambda>x :: Exchange. x\<lparr>x_publisher_pc := (if x_fatal x then B_Done else B_Top)\<rparr>"
  have clean: "\<not> x_publisher_error x" using f B_Beat by (auto simp: feed_inv_def on_the_way_def)
  have quiet: "feed_inv ep s F (?after x)" by (rule feed_same [OF f]) (use clean in \<open>auto simp: on_the_way_def\<close>)
  show ?thesis
  proof (cases "x_heartbeat_at x \<le> pe_checked env")
    case True
    show ?thesis
    proof (cases "multicast env (x_heartbeat x) x")
      case None
      then have y: "publisher_step env x = publisher_throws x" using B_Beat True by (simp add: publisher_step_def)
      show ?thesis unfolding y by (rule feed_same [OF f]) (auto simp: publisher_throws_def on_the_way_def)
    next
      case (Some x1)
      then obtain k g where x1: "x1 = x\<lparr>x_multicast := x_multicast x @ [g], x_datagrams := k\<rparr>"
        using published_more(2) [OF Some] by auto
      let ?y = "?after (x1\<lparr>x_heartbeat_at := pe_now env + 100000000\<rparr>)"
      have y: "publisher_step env x = ?y" using B_Beat True Some by (simp add: publisher_step_def Let_def)
      have pub: "published ?y = published x" using published_more(1) [OF Some] f by (simp add: published_def feed_inv_def)
      have "on_the_way x rest \<Longrightarrow> on_the_way ?y rest" for rest using clean by (auto simp: on_the_way_def x1)
      then show ?thesis unfolding y feed_inv_def pub using f by (auto simp: feed_inv_def x1)
    qed
  next
    case False
    then show ?thesis using B_Beat quiet by (simp add: publisher_step_def)
  qed
next
  case B_Done
  then show ?thesis using f by (simp add: publisher_step_def)
qed

lemma throws_feed: "feed_inv ep s F x \<Longrightarrow> feed_inv ep s F (engine_throws x)"
  by (rule feed_same) (auto simp: engine_throws_def on_the_way_def to_publish_def split: if_splits)

lemma finish_feed:
  assumes "feed_inv ep s F x" "to_publish (x_engine_pc x) = []"
  shows "feed_inv ep s F (engine_finish x)"
proof -
  have "feed_inv ep s F (x\<lparr>x_engine_pc := E_Leave\<rparr>)"
    by (rule feed_same [OF assms(1)]) (use assms(2) in \<open>auto simp: on_the_way_def to_publish_def split: if_splits\<close>)
  then show ?thesis using throws_feed [OF assms(1)] by (simp add: engine_finish_def split: sum.splits)
qed

lemma serve_feed:
  assumes f: "feed_inv ep s F x" and pc: "x_engine_pc x = E_Pop fin" and e: "engine_reachable ins k (x_engine x)" "k < 2 ^ 64 - 2"
  shows "feed_inv ep s F (serve_request env r x)"
proof -
  let ?c = "env_message r" and ?y = "serve_request env r x"
  obtain ok x1 where j: "journal_command env ?c x = (ok, x1)" by force
  have x1: "x1 = x\<lparr>x_journal := x_journal x1\<rparr>" by (rule journal_command_part [OF j])
  have f1: "feed_inv ep s F x1" by (subst x1, rule feed_same [OF f]) (auto simp: on_the_way_def)
  have s1: "x_engine x1 = x_engine x" "x_emitted x1 = x_emitted x" "x_engine_pc x1 = x_engine_pc x" "x_multicast x1 = x_multicast x"
      "x_heartbeat x1 = x_heartbeat x" "x_publisher_error x1 = x_publisher_error x" "x_publisher_pc x1 = x_publisher_pc x"
      "x_updates x1 = x_updates x" "x_fatal x1 = x_fatal x"
    by (subst x1, simp)+
  consider "m_action ?c = Act_Snapshot" | "m_action ?c \<noteq> Act_Snapshot" "\<not> ok \<or> engine_process (ee_heap env) ?c (x_engine x1) = None"
    | b e' where "m_action ?c \<noteq> Act_Snapshot" ok "engine_process (ee_heap env) ?c (x_engine x1) = Some (b, e')"
    by (cases "engine_process (ee_heap env) ?c (x_engine x1)") auto
  then show ?thesis
  proof cases
    case 1
    show ?thesis by (rule feed_same [OF f]) (use 1 pc in \<open>auto simp: serve_request_def on_the_way_def to_publish_def\<close>)
  next
    case 2
    then show ?thesis using j throws_feed [OF f1] by (cases ok) (auto simp: serve_request_def Let_def)
  next
    case 3
    note st = process_streams [OF e 3(3) [unfolded s1]]
    have y: "x_engine ?y = e'" "x_emitted ?y = x_emitted x @ b_updates b" "x_heartbeat ?y = x_heartbeat x" "x_multicast ?y = x_multicast x"
        "x_engine_pc ?y = E_Send (map (addressed (env_connection r) ?c) (b_reports b)) (b_updates b)"
        "x_publisher_error ?y = x_publisher_error x" "x_publisher_pc ?y = x_publisher_pc x" "x_updates ?y = x_updates x" "x_fatal ?y = x_fatal x"
      using 3 j s1 by (simp_all add: serve_request_def Let_def)
    have pub: "published ?y = published x" by (simp add: published_def y)
    obtain rest where rest: "x_emitted x = published x @ rest" "on_the_way x rest" using f by (auto simp: feed_inv_def)
    have "on_the_way ?y (rest @ b_updates b)" using rest(2) pc by (auto simp: on_the_way_def y to_publish_def)
    then have way: "\<exists>rest'. x_emitted x @ b_updates b = published x @ rest' \<and> on_the_way ?y rest'"
      using rest(1) by (intro exI [of _ "rest @ b_updates b"]) simp
    have "feed_run (x_emitted x @ b_updates b) F = Some (views (e_books e'))" "stamps ep s (x_emitted x @ b_updates b)"
        "e_sequence e' = s + of_nat (length (x_emitted x @ b_updates b))" "e_epoch e' = ep"
      using f st by (simp_all add: feed_inv_def feed_run_append stamps_append)
    then show ?thesis unfolding feed_inv_def pub y using f way by (simp add: feed_inv_def)
  qed
qed

lemma engine_feed:
  assumes inv: "session_inv x" and f: "feed_inv ep s F x" and e: "engine_reachable ins k (x_engine x)" "k < 2 ^ 64 - 2"
  shows "feed_inv ep s F (engine_step env x)"
proof -
  have q: "queue_ok queue_capacity (x_updates x)" using session_invD(1) [OF inv] by (simp add: queues_ok_def)
  have same: "feed_inv ep s F y" if "x_engine y = x_engine x" "x_emitted y = x_emitted x" "x_multicast y = x_multicast x"
      "x_heartbeat y = x_heartbeat x" "\<And>rest. on_the_way x rest \<Longrightarrow> on_the_way y rest" for y
    by (rule feed_same [OF f that])
  show ?thesis
  proof (cases "x_engine_pc x")
    case E_Top
    then show ?thesis using finish_feed [OF f] by (auto simp: engine_step_def to_publish_def on_the_way_def intro!: same)
  next
    case E_Load
    then show ?thesis by (auto simp: engine_step_def to_publish_def on_the_way_def intro!: same)
  next
    case (E_Pop fin)
    obtain r q' where pop: "try_pop queue_capacity (x_requests x) = (r, q')" by force
    have x': "feed_inv ep s F (x\<lparr>x_requests := q'\<rparr>)" by (rule same) (auto simp: on_the_way_def)
    have "feed_inv ep s F (x\<lparr>x_engine_pc := E_Top\<rparr>)"
      by (rule same) (use E_Pop in \<open>auto simp: on_the_way_def to_publish_def\<close>)
    then show ?thesis using E_Pop pop finish_feed [OF f] serve_feed [OF x', of fin ins k env] e
      by (cases r) (auto simp: engine_step_def to_publish_def)
  next
    case (E_Send rs us)
    show ?thesis
    proof (cases rs)
      case Nil
      show ?thesis
      proof (cases us)
        case Nil
        then show ?thesis using E_Send \<open>rs = []\<close> by (auto simp: engine_step_def to_publish_def on_the_way_def intro!: same)
      next
        case (Cons u us')
        obtain ok q' where push: "try_push queue_capacity u (x_updates x) = (ok, q')" by force
        have pushed: "feed_inv ep s F (x\<lparr>x_updates := q', x_engine_pc := E_Send [] us'\<rparr>)" if ok
          by (rule same)
            (use lfq.push_ok [OF q, of u q'] push that E_Send Cons in \<open>auto simp: on_the_way_def to_publish_def\<close>)
        have "feed_inv ep s F (x\<lparr>x_engine_pc := E_Top\<rparr>)" if "x_fatal x"
          by (rule same) (use that E_Send in \<open>auto simp: on_the_way_def to_publish_def\<close>)
        then show ?thesis using pushed f E_Send \<open>rs = []\<close> Cons push by (cases ok) (auto simp: engine_step_def)
      qed
    next
      case (Cons r rs')
      obtain ok q' where push: "try_push queue_capacity r (x_responses x) = (ok, q')" by force
      have "feed_inv ep s F (x\<lparr>x_responses := q', x_engine_pc := E_Send rs' us\<rparr>)" "feed_inv ep s F (x\<lparr>x_responses := q'\<rparr>)"
          "feed_inv ep s F (x\<lparr>x_engine_pc := E_Send [] us\<rparr>)"
        by (rule same; use E_Send in \<open>auto simp: on_the_way_def to_publish_def\<close>)+
      then show ?thesis using throws_feed f E_Send Cons push by (cases ok) (auto simp: engine_step_def)
    qed
  next
    case E_Leave
    then show ?thesis by (auto simp: engine_step_def to_publish_def on_the_way_def intro!: same)
  next
    case E_Done
    then show ?thesis using f by (simp add: engine_step_def)
  qed
qed

end
