(* ===== verification/Server_Stop.thy ===== *)
theory Server_Stop
  imports Server_Run
begin

text \<open>
  Shutdown. A stop request closes the ingress; the engine thread leaves only after it has emptied the
  request queue, the publisher only after the engine is done and its queue is empty, and the reactor only
  after every response was delivered and every output flushed, unless something failed.
\<close>

section \<open>The invariant\<close>

definition flushed :: "Exchange \<Rightarrow> bool" where
  "flushed x \<longleftrightarrow> x_draining x \<and> x_engine_done x \<and> queued queue_capacity (x_responses x) = [] \<and>
     (\<forall>(i, c) \<in> set (x_connections x). c_output c = [])"

definition engine_stop :: "Exchange \<Rightarrow> bool" where
  "engine_stop x \<longleftrightarrow> (x_engine_pc x = E_Pop True \<longrightarrow> x_ingress_done x) \<and> (x_engine_done x \<longleftrightarrow> x_engine_pc x = E_Done) \<and>
     (x_engine_pc x \<in> {E_Leave, E_Done} \<and> \<not> x_fatal x \<longrightarrow> x_ingress_done x \<and> queued queue_capacity (x_requests x) = [])"

definition publisher_stop :: "Exchange \<Rightarrow> bool" where
  "publisher_stop x \<longleftrightarrow> (x_publisher_pc x = B_Pop True \<longrightarrow> x_engine_done x) \<and>
     (x_publisher_pc x = B_Done \<and> \<not> x_fatal x \<longrightarrow> x_engine_done x \<and> queued queue_capacity (x_updates x) = [])"

definition reactor_stop :: "Exchange \<Rightarrow> bool" where
  "reactor_stop x \<longleftrightarrow> (x_ingress_done x \<longrightarrow> x_draining x \<or> x_reactor_pc x = R_Done) \<and>
     (case x_reactor_pc x of
        R_Deliver fin none k \<Rightarrow> (fin \<longrightarrow> x_engine_done x) \<and> (none \<longrightarrow> k = 0)
      | R_Poll fin none \<Rightarrow> (fin \<longrightarrow> x_engine_done x) \<and> (fin \<and> none \<longrightarrow> queued queue_capacity (x_responses x) = [])
      | R_Leave \<Rightarrow> x_fatal x \<or> flushed x
      | R_Done \<Rightarrow> x_fatal x \<or> flushed x
      | _ \<Rightarrow> True)"

definition stop_inv :: "Exchange \<Rightarrow> bool" where
  "stop_inv x \<longleftrightarrow> engine_stop x \<and> publisher_stop x \<and> reactor_stop x"

section \<open>The reactor\<close>

text \<open>A step that pushes no request, or pushes one while the ingress is open, keeps what the others rely on.\<close>

lemma reactor_others:
  assumes "stop_inv x" "reactor_keeps x y" "x_ingress_done x \<longrightarrow> x_ingress_done y"
    "x_ingress_done x \<longrightarrow> x_requests y = x_requests x"
  shows "engine_stop y \<and> publisher_stop y"
  using assms
  by (auto simp: stop_inv_def engine_stop_def publisher_stop_def reactor_keeps_def engine_part_def publisher_part_def)

lemma reactor_stop_step:
  assumes inv: "session_inv x" and st: "stop_inv x"
  shows "stop_inv (reactor_step env x)"
proof -
  let ?y = "reactor_step env x"
  have R: "reactor_stop x" using st by (simp add: stop_inv_def)
  have q: "queue_ok queue_capacity (x_responses x)" using session_invD(1) [OF inv] by (simp add: queues_ok_def)
  have throw: "reactor_stop (reactor_throws y)" if "x_ingress_done y = x_ingress_done x" "x_draining y = x_draining x"
      "x_reactor_pc x \<noteq> R_Done" for y
    using R that by (auto simp: reactor_stop_def reactor_throws_def)
  have ing: "x_ingress_done x \<longrightarrow> x_draining x" if "x_reactor_pc x \<noteq> R_Done" using R that by (simp add: reactor_stop_def)
  have main: "reactor_stop ?y \<and> (x_ingress_done x \<longrightarrow> x_ingress_done ?y \<and> x_requests ?y = x_requests x)"
  proof (cases "x_reactor_pc x")
    case (R_Deliver fin none k)
    obtain r q' where pop: "try_pop queue_capacity (x_responses x) = (r, q')" by force
    have fin: "fin \<longrightarrow> x_engine_done x" "none \<longrightarrow> k = 0" using R R_Deliver by (simp_all add: reactor_stop_def)
    show ?thesis
    proof (cases "k = 4096 \<or> r = None")
      case True
      have "fin \<and> none \<longrightarrow> queued queue_capacity (x_responses x) = []"
        using True fin(2) lfq.pop_refused [OF q, of q'] pop by auto
      then show ?thesis using True R_Deliver pop fin(1) ing by (auto simp: reactor_step_def reactor_stop_def)
    next
      case False
      then obtain s where s: "r = Some s" by auto
      let ?x = "x\<lparr>x_responses := q'\<rparr>"
      show ?thesis
      proof (cases "deliver (re_now env) s ?x")
        case None
        then show ?thesis using R_Deliver pop s False throw [of ?x]
          by (simp add: reactor_step_def or_throws_def) (simp add: reactor_throws_def)
      next
        case (Some z)
        have "keeps ?x z" "x_requests z = x_requests x" using deliver_keeps [OF Some] by simp_all
        then show ?thesis using R_Deliver pop s False Some fin(1) ing
          by (auto simp: reactor_step_def or_throws_def reactor_stop_def keeps_def engine_part_def)
      qed
    qed
  next
    case (R_Serve polls removed)
    show ?thesis
    proof (cases polls)
      case Nil
      show ?thesis
      proof (cases "remove_connections removed x")
        case None
        then show ?thesis using R_Serve Nil throw [of x] by (simp add: reactor_step_def or_throws_def) (simp add: reactor_throws_def)
      next
        case (Some z)
        then show ?thesis using R_Serve Nil remove_keeps [OF Some] ing
          by (auto simp: reactor_step_def or_throws_def reactor_stop_def keeps_def)
      qed
    next
      case (Cons p ps)
      obtain i ev where p: "p = (i, ev)" by force
      show ?thesis
      proof (cases "service_connection (re_service env) i ev x")
        case None
        then show ?thesis using R_Serve Cons p throw [of x] by (simp add: reactor_step_def or_throws_def) (simp add: reactor_throws_def)
      next
        case (Some t)
        obtain dead z where t: "t = (dead, z)" by force
        show ?thesis using R_Serve Cons p Some service_keeps [OF Some [unfolded t]] ing
          by (auto simp: t reactor_step_def or_throws_def reactor_stop_def keeps_def)
      qed
    qed
  next
    case (R_Poll fin none)
    have "flushed x" if "x_draining x" fin none "\<not> list_ex (\<lambda>(_, c). c_output c \<noteq> []) (x_connections x)"
      using R R_Poll that by (auto simp: reactor_stop_def flushed_def list_ex_iff)
    moreover have "flushed (x\<lparr>x_reactor_pc := R_Leave\<rparr>) = flushed x" by (simp add: flushed_def)
    moreover have "reactor_stop (reactor_poll env x) \<and> (x_ingress_done x \<longrightarrow> x_ingress_done (reactor_poll env x) \<and> x_requests (reactor_poll env x) = x_requests x)"
      using ing R_Poll throw [of x]
      by (cases "re_poll env") (auto simp: reactor_poll_def reactor_stop_def Let_def, simp_all add: reactor_throws_def)
    ultimately show ?thesis using R_Poll ing by (auto simp: reactor_step_def reactor_stop_def)
  next
    case (R_Accept k w polls)
    then show ?thesis using ing throw [of x]
      by (cases "re_accept env") (auto simp: reactor_step_def reactor_accept_def reactor_stop_def, simp_all add: reactor_throws_def)
  next
    case (R_Wake w polls)
    then show ?thesis using ing throw [of x] by (auto simp: reactor_step_def reactor_stop_def) (simp_all add: reactor_throws_def)
  next
    case R_Leave
    then show ?thesis using R by (auto simp: reactor_step_def reactor_stop_def flushed_def)
  qed (use R in \<open>auto simp: reactor_step_def reactor_stop_def\<close>)
  then show ?thesis using reactor_others [OF st reactor_parts [of x env]] by (simp add: stop_inv_def)
qed

section \<open>The other threads\<close>

lemma publisher_stop_step:
  assumes inv: "queues_ok x" and st: "stop_inv x"
  shows "stop_inv (publisher_step env x)"
proof -
  let ?y = "publisher_step env x"
  note P = publisher_parts [of env x]
  have P': "x_reactor_pc ?y = x_reactor_pc x" "x_ingress_done ?y = x_ingress_done x" "x_draining ?y = x_draining x"
      "x_connections ?y = x_connections x" "x_engine_done ?y = x_engine_done x" "x_engine_pc ?y = x_engine_pc x"
      "x_requests ?y = x_requests x" "x_responses ?y = x_responses x" "x_fatal x \<longrightarrow> x_fatal ?y"
    using P by (simp_all add: reactor_part_def engine_part_def)
  have "engine_stop ?y" using st P' by (auto simp: stop_inv_def engine_stop_def)
  moreover have "reactor_stop ?y"
    using st P' by (auto simp: stop_inv_def reactor_stop_def flushed_def split: reactor_pc.splits)
  moreover have "publisher_stop ?y"
  proof (cases "x_publisher_pc x")
    case (B_Pop fin)
    obtain r q where pop: "try_pop queue_capacity (x_updates x) = (r, q)" by force
    have "r = None \<Longrightarrow> queued queue_capacity (x_updates x) = []"
      using lfq.pop_refused [of "x_updates x" q] pop inv by (simp add: queues_ok_def)
    then show ?thesis using B_Pop pop st
      by (auto simp: publisher_step_def stop_inv_def publisher_stop_def publisher_throws_def multicast_def split: option.splits)
  qed (use st in \<open>auto simp: publisher_step_def stop_inv_def publisher_stop_def publisher_throws_def multicast_def Let_def split: option.splits\<close>)
  ultimately show ?thesis by (simp add: stop_inv_def)
qed

text \<open>While the engine thread still runs, nobody has seen it done.\<close>

lemma running_stop:
  assumes "stop_inv x" "\<not> x_engine_done x" "other_part y = other_part x" "x_fatal x \<longrightarrow> x_fatal y" "engine_stop y"
  shows "stop_inv y"
proof -
  have o: "x_reactor_pc y = x_reactor_pc x" "x_ingress_done y = x_ingress_done x" "x_draining y = x_draining x"
      "x_connections y = x_connections x" "x_publisher_pc y = x_publisher_pc x"
    using assms(3) by (simp_all add: other_part_def reactor_part_def)
  have "publisher_stop y" using assms(1,2,4) o by (auto simp: stop_inv_def publisher_stop_def)
  moreover have "reactor_stop y"
    using assms(1,2,4) o by (auto simp: stop_inv_def reactor_stop_def flushed_def split: reactor_pc.splits)
  ultimately show ?thesis using assms(5) by (simp add: stop_inv_def)
qed

lemma serve_pc:
  "\<exists>rs us. x_engine_pc (serve_request env r x) = E_Send rs us \<or> (x_engine_pc (serve_request env r x) = E_Leave \<and> x_fatal (serve_request env r x))"
proof -
  obtain ok x1 where j: "journal_command env (env_message r) x = (ok, x1)" by force
  show ?thesis
  proof (cases "engine_process (ee_heap env) (env_message r) (x_engine x1)")
    case None
    then show ?thesis using j by (cases ok) (auto simp: serve_request_def engine_throws_def Let_def)
  next
    case (Some t)
    then show ?thesis using j by (cases ok; cases t) (auto simp: serve_request_def engine_throws_def Let_def)
  qed
qed

lemma serve_done: "x_engine_done (serve_request env r x) = x_engine_done x"
proof -
  obtain ok x1 where j: "journal_command env (env_message r) x = (ok, x1)" by force
  have "x_engine_done x1 = x_engine_done x" by (subst journal_command_part [OF j]) simp
  then show ?thesis using j
    by (cases ok; cases "engine_process (ee_heap env) (env_message r) (x_engine x1)")
      (auto simp: serve_request_def engine_throws_def Let_def)
qed

lemma engine_stop_step:
  assumes inv: "session_inv x" and st: "stop_inv x"
  shows "stop_inv (engine_step env x)"
proof -
  let ?y = "engine_step env x"
  have E: "engine_stop x" using st by (simp add: stop_inv_def)
  have keep: "other_part ?y = other_part x" "x_fatal x \<longrightarrow> x_fatal ?y" using engine_parts [of x env] by (simp_all add: engine_keeps_def)
  have ing: "x_ingress_done ?y = x_ingress_done x" using keep(1) by (simp add: other_part_def reactor_part_def)
  have q: "queue_ok queue_capacity (x_requests x)" using session_invD(1) [OF inv] by (simp add: queues_ok_def)
  have finish: "engine_stop (engine_finish x)"
    if "\<not> x_engine_done x" "x_fatal x \<or> (x_ingress_done x \<and> queued queue_capacity (x_requests x) = [])"
    using that by (auto simp: engine_finish_def engine_stop_def engine_throws_def split: sum.splits)
  have run: ?thesis if "x_engine_pc x \<noteq> E_Done" "engine_stop ?y"
    by (rule running_stop [OF st _ keep that(2)]) (use E that(1) in \<open>simp add: engine_stop_def\<close>)
  show ?thesis
  proof (cases "x_engine_pc x")
    case (E_Pop fin)
    have nd: "\<not> x_engine_done x" using E E_Pop by (simp add: engine_stop_def)
    obtain r q' where pop: "try_pop queue_capacity (x_requests x) = (r, q')" by force
    have "engine_stop ?y"
    proof (cases r)
      case None
      have "queued queue_capacity (x_requests x) = []" using lfq.pop_refused [OF q] pop None by simp
      moreover have "fin \<longrightarrow> x_ingress_done x" using E E_Pop by (auto simp: engine_stop_def)
      ultimately show ?thesis using E_Pop pop None finish [OF nd] nd by (auto simp: engine_step_def) (auto simp: engine_stop_def)
    next
      case (Some s)
      then have y: "?y = serve_request env s (x\<lparr>x_requests := q'\<rparr>)" using E_Pop pop by (simp add: engine_step_def)
      have "\<not> x_engine_done ?y" unfolding y serve_done using nd by simp
      then show ?thesis using serve_pc [of env s "x\<lparr>x_requests := q'\<rparr>"] unfolding y by (auto simp: engine_stop_def)
    qed
    then show ?thesis using run E_Pop by simp
  next
    case (E_Send rs us)
    have "engine_stop ?y" using E E_Send
      by (cases rs; cases us) (auto simp: engine_step_def engine_stop_def engine_throws_def split: prod.splits bool.splits)
    then show ?thesis using run E_Send by simp
  next
    case E_Top
    have nd: "\<not> x_engine_done x" using E E_Top by (simp add: engine_stop_def)
    have "engine_stop ?y" using E_Top finish [OF nd] nd by (auto simp: engine_step_def) (auto simp: engine_stop_def)
    then show ?thesis using run E_Top by simp
  next
    case E_Load
    have "engine_stop ?y" using E E_Load by (auto simp: engine_step_def engine_stop_def)
    then show ?thesis using run E_Load by simp
  next
    case E_Leave
    have "engine_stop ?y" using E E_Leave by (auto simp: engine_step_def engine_stop_def)
    then show ?thesis using run E_Leave by simp
  next
    case E_Done
    then show ?thesis using st by (simp add: engine_step_def)
  qed
qed

end
