(* ===== verification/Server_Theorems.thy ===== *)
theory Server_Theorems
  imports Server_Feed Server_Stop Engine_Check
begin

text \<open>
  What the exchange guarantees in every interleaving of its threads, for every behaviour of sockets,
  clock, disk and allocator: sessions are exclusive and private, resources bounded, the feed gapless,
  the journal sufficient for recovery, and a clean shutdown complete.
\<close>

section \<open>Runs from a start\<close>

text \<open>
  An exchange as \<open>run_exchange\<close> starts it. The instruments are a \<open>std::map\<close>, so their list is sorted, and
  the pools of the books are aligned; the recovered commands leave the counters room.
\<close>

definition exchange_boots :: "(InstrumentId \<Rightarrow> nat option) \<Rightarrow> ServerConfig \<Rightarrow> Exchange \<Rightarrow> bool" where
  "exchange_boots blocks config x \<longleftrightarrow>
     (\<exists>jenv hs now epoch disk. exchange_start blocks jenv hs now epoch config disk = Inr x) \<and>
     om_sorted (<) (cfg_instruments config) \<and> (\<forall>i. block_ok (blocks i)) \<and> length (x_commands x) < 2 ^ 64 - 2"

lemma attach_snd [simp]: "map snd (attach hs cs) = cs"
  by (induction cs arbitrary: hs) simp_all

lemma attach_eq: "(\<And>k. k < length cs \<Longrightarrow> hs k = fst (cs ! k)) \<Longrightarrow> attach hs (map snd cs) = cs"
proof (induction cs arbitrary: hs)
  case (Cons c cs)
  have "attach (\<lambda>k. hs (Suc k)) (map snd cs) = cs" by (rule Cons.IH) (use Cons.prems [of "Suc _"] in auto)
  then show ?case using Cons.prems [of 0] by simp
qed simp

lemma run_reachable:
  "engine_reachable ins n e \<Longrightarrow> n + length cs \<le> 2 ^ 64 - 2 \<Longrightarrow> engine_run cs e = Some e' \<Longrightarrow> engine_reachable ins (n + length cs) e'"
proof (induction cs arbitrary: n e)
  case (Cons p cs)
  obtain h c where p: "p = (h, c)" by force
  obtain b e1 where e1: "engine_process h c e = Some (b, e1)" "engine_run cs e1 = Some e'"
    using Cons.prems(3) by (auto simp: p split: bind_splits)
  have "engine_reachable ins (Suc n) e1" using engine_reachable.engine_step [OF Cons.prems(1) _ e1(1)] Cons.prems(2) by simp
  from Cons.IH [OF this _ e1(2)] show ?case using Cons.prems(2) by simp
qed simp

lemma journaled_filter:
  "list_all journaled (map snd cs) \<Longrightarrow> filter (\<lambda>(h, c). m_action c \<noteq> Act_Status) cs = cs \<and> list_all (\<lambda>(h, c). m_kind c = Command) cs"
  by (induction cs) (auto simp: journaled_def)

lemma new_engine_epoch: "MatchingEngine_new blocks ins epoch = Some e \<Longrightarrow> e_epoch e = epoch"
  by (auto simp: MatchingEngine_new_def split: if_splits bind_splits)

lemma run_epoch: "engine_reachable ins n e \<Longrightarrow> n + length cs \<le> 2 ^ 64 - 2 \<Longrightarrow> engine_run cs e = Some e' \<Longrightarrow> e_epoch e' = e_epoch e"
proof (induction cs arbitrary: n e)
  case (Cons p cs)
  obtain h c where p: "p = (h, c)" by force
  obtain b e1 where e1: "engine_process h c e = Some (b, e1)" "engine_run cs e1 = Some e'"
    using Cons.prems(3) by (auto simp: p split: bind_splits)
  have n: "n < 2 ^ 64 - 2" using Cons.prems(2) by simp
  from Cons.IH [OF engine_reachable.engine_step [OF Cons.prems(1) n e1(1)] _ e1(2)] Cons.prems(2)
  show ?case using process_streams [OF Cons.prems(1) n e1(1)] by simp
qed simp

lemma exchange_journal_layout:
  assumes "exchange_journal jenv config disk = Inr (recovered, journal)"
  shows "list_all journaled recovered \<and>
    (\<forall>d. journal = Some d \<longrightarrow> d = journal_layout (config_fingerprint (cfg_instruments config)) recovered)"
  using assms Journal_new_layout [of jenv "config_fingerprint (cfg_instruments config)" disk]
  by (auto simp: exchange_journal_def split: if_splits prod.splits sum.splits)

definition run_inv :: "(InstrumentId \<Rightarrow> nat option) \<Rightarrow> Instruments \<Rightarrow> Exchange \<Rightarrow> nat \<Rightarrow> Exchange \<Rightarrow> bool" where
  "run_inv blocks ins x0 n x \<longleftrightarrow> session_inv x \<and> work_inv blocks ins x \<and>
     feed_inv (x_epoch x0) (e_sequence (x_engine x0)) (views (e_books (x_engine x0))) x \<and> stop_inv x \<and>
     unat (x_next_connection x) \<le> Suc n \<and> length (x_commands x) \<le> length (x_commands x0) + n \<and> x_epoch x = x_epoch x0"

lemma boot_inv:
  assumes "exchange_boots blocks config x"
  shows "run_inv blocks (cfg_instruments config) x 0 x"
proof -
  let ?ins = "cfg_instruments config"
  obtain jenv hs now epoch disk where st: "exchange_start blocks jenv hs now epoch config disk = Inr x"
    and wf: "om_sorted (<) ?ins" "\<forall>i. block_ok (blocks i)" "length (x_commands x) < 2 ^ 64 - 2"
    using assms by (auto simp: exchange_boots_def)
  obtain e0 recovered journal where e0: "MatchingEngine_new blocks ?ins epoch = Some e0"
    and j: "exchange_journal jenv config disk = Inr (recovered, journal)" and r: "engine_run (attach hs recovered) e0 = Some (x_engine x)"
    and x: "x_epoch x = epoch" "x_journal x = journal" "x_commands x = attach hs recovered" "x_engine_error x = False"
      "queued queue_capacity (x_requests x) = []" "queued queue_capacity (x_responses x) = []" "queued queue_capacity (x_updates x) = []"
      "queues_ok x" "x_connections x = []" "x_routes x = []" "x_next_connection x = 1" "x_engine_pc x = E_Top" "x_publisher_pc x = B_Top"
      "x_reactor_pc x = R_Top" "x_ingress_done x = False" "x_engine_done x = False" "x_fatal x = False" "x_publisher_error x = False"
      "x_emitted x = []" "x_multicast x = []"
      "x_heartbeat x = default_message\<lparr>m_kind := Heartbeat, m_epoch := epoch, m_sequence := e_sequence (x_engine x)\<rparr>"
    using st by (auto simp: exchange_start_def exchange_new_def queues_ok_def queue_new_ok split: option.splits sum.splits)
  have session: "session_inv x"
    by (simp add: session_inv_def core_inv_def x keys_ok_def routes_ok_def requests_ok_def responses_ok_def visits_ok_def visited_def sending_def om_sorted_def)
  have e: "engine_reachable ?ins 0 e0" by (rule engine_reachable.engine_new [OF e0 wf(1,2)])
  have len: "0 + length (attach hs recovered) \<le> 2 ^ 64 - 2" using wf(3) x(3) by simp
  note J = exchange_journal_layout [OF j]
  have jc: "journaled_commands x = x_commands x" "list_all (\<lambda>(h, c). m_kind c = Command) (x_commands x)"
    using journaled_filter [of "attach hs recovered"] J by (simp_all add: journaled_commands_def x)
  have "work_inv blocks ?ins x"
    using e0 r run_reachable [OF e len r] J jc by (simp add: work_inv_def x)
  moreover have "feed_inv (x_epoch x) (e_sequence (x_engine x)) (views (e_books (x_engine x))) x"
    using run_epoch [OF e len r] new_engine_epoch [OF e0]
    by (simp add: feed_inv_def x published_def on_the_way_def to_publish_def List.map_filter_def)
  moreover have "stop_inv x" by (simp add: stop_inv_def engine_stop_def publisher_stop_def reactor_stop_def x)
  ultimately show ?thesis using session by (simp add: run_inv_def x(11))
qed

lemma step_inv:
  assumes inv: "run_inv blocks ins x0 n x" and room: "length (x_commands x0) + n < 2 ^ 64 - 2"
  shows "run_inv blocks ins x0 (Suc n) (exchange_step t x)"
proof -
  have I: "session_inv x" "work_inv blocks ins x" "stop_inv x" "unat (x_next_connection x) \<le> Suc n"
      "length (x_commands x) \<le> length (x_commands x0) + n" "x_epoch x = x_epoch x0"
    and f: "feed_inv (x_epoch x0) (e_sequence (x_engine x0)) (views (e_books (x_engine x0))) x"
    using inv by (simp_all add: run_inv_def)
  have e: "engine_reachable ins (length (x_commands x)) (x_engine x)" and k: "length (x_commands x) < 2 ^ 64 - 2"
    using I(2,5) room by (simp_all add: work_inv_def)
  show ?thesis
  proof (cases t)
    case (Engine_Turn env)
    have "other_part (engine_step env x) = other_part x" using engine_parts [of x env] by (simp add: engine_keeps_def)
    then have "x_next_connection (engine_step env x) = x_next_connection x" "x_epoch (engine_step env x) = x_epoch x"
      by (simp_all add: other_part_def reactor_part_def)
    then show ?thesis
      using Engine_Turn I engine_step_inv [OF I(1)] engine_step_work [OF I(1,2) k, of env] engine_feed [OF I(1) f e k]
        engine_stop_step [OF I(1,3)] by (auto simp: run_inv_def)
  next
    case (Publisher_Turn env)
    have part: "engine_part (publisher_step env x) = engine_part x" "reactor_part (publisher_step env x) = reactor_part x"
      using publisher_parts [of env x] by simp_all
    then have "x_next_connection (publisher_step env x) = x_next_connection x" "x_epoch (publisher_step env x) = x_epoch x"
        "x_commands (publisher_step env x) = x_commands x" by (simp_all add: engine_part_def reactor_part_def)
    then show ?thesis
      using Publisher_Turn I publisher_step_inv [OF I(1)] work_parts [OF part(1) I(2)] publisher_feed [OF session_invD(1) [OF I(1)] f]
        publisher_stop_step [OF session_invD(1) [OF I(1)] I(3)] by (simp add: run_inv_def)
  next
    case (Reactor_Turn env)
    have room': "unat (x_next_connection x) + 1 < 2 ^ 64" using I(4) room by simp
    then have next1: "unat (x_next_connection x + 1) = Suc (unat (x_next_connection x))"
      by (simp add: unat_word_ariths)
    then have nz: "x_next_connection x + 1 \<noteq> 0" by auto
    note rk = reactor_parts [of x env]
    have "engine_part (reactor_step env x) = engine_part x" using rk by (simp add: reactor_keeps_def)
    note part = this work_parts [OF this I(2)]
    have "x_epoch (reactor_step env x) = x_epoch x" "x_commands (reactor_step env x) = x_commands x"
      using part(1) by (simp_all add: engine_part_def)
    moreover have "unat (x_next_connection (reactor_step env x)) \<le> Suc (Suc n)"
      using reactor_next [of env x] next1 I(4) by auto
    ultimately show ?thesis
      using Reactor_Turn I part(2) reactor_step_inv [OF I(1) nz] reactor_feed [OF f rk] reactor_stop_step [OF I(1,3)] by (simp add: run_inv_def)
  qed
qed

lemma reachable_run_inv:
  assumes "exchange_reachable x0 n x" "exchange_boots blocks config x0" "length (x_commands x0) + n < 2 ^ 64 - 2"
  shows "run_inv blocks (cfg_instruments config) x0 n x"
  using assms
proof (induction rule: exchange_reachable.induct)
  case exchange_start
  then show ?case using boot_inv by simp
next
  case (exchange_move n x t)
  then show ?case using step_inv [of blocks "cfg_instruments config" x0 n x t] by simp
qed

section \<open>An exchange for the witnesses\<close>

definition demo_config :: ServerConfig where
  "demo_config = \<lparr>cfg_tcp_port = 9100, cfg_multicast_port = 9101, cfg_group = ''239.255.0.2'', cfg_interface = ''127.0.0.1'',
     cfg_journal = ''exchange.journal'', cfg_log = ''exchange.log'', cfg_metrics = [], cfg_instruments = default_instruments\<rparr>"

definition demo_exchange :: Exchange where
  "demo_exchange = (case exchange_start (\<lambda>_. Some 4096) demo_journal_env (\<lambda>_. demo_heap) 0 7 demo_config [] of
     Inr x \<Rightarrow> x | Inl _ \<Rightarrow> undefined)"

fun exchange_steps :: "turn list \<Rightarrow> Exchange \<Rightarrow> Exchange" where
  "exchange_steps [] x = x"
| "exchange_steps (t # ts) x = exchange_steps ts (exchange_step t x)"

lemma steps_reachable: "exchange_reachable x0 n x \<Longrightarrow> exchange_reachable x0 (n + length ts) (exchange_steps ts x)"
proof (induction ts arbitrary: n x)
  case (Cons t ts)
  from Cons.IH [OF exchange_reachable.exchange_move [OF Cons.prems, of t]] show ?case by simp
qed simp

lemma demo_runs: "exchange_reachable demo_exchange (length ts) (exchange_steps ts demo_exchange)"
  using steps_reachable [OF exchange_reachable.exchange_start, of demo_exchange ts] by simp

lemma demo_engine_new: "MatchingEngine_new (\<lambda>_. Some 4096) default_instruments 7 = Some demo_engine"
proof -
  obtain e where e: "MatchingEngine_new (\<lambda>_. Some 4096) default_instruments 7 = Some e"
    by (simp add: MatchingEngine_new_def default_instruments_def default_rules_def rules_ok_def
        OrderBook_default_def OrderBook_new_def FixedSlotPool_new_def CAPACITY_BYTES_def sizeof_OrderEntry_def)
  then show ?thesis by (simp add: demo_engine_def)
qed

lemma demo_env_granted: "env_granted demo_journal_env"
  by (simp add: demo_journal_env_def env_granted_def granted_def)

lemma demo_journal: "exchange_journal demo_journal_env demo_config [] =
    Inr ([], Some (journal_layout (config_fingerprint default_instruments) []))"
  using open_fresh [OF demo_env_granted] by (simp add: exchange_journal_def demo_config_def)

lemma demo_started:
  "exchange_start (\<lambda>_. Some 4096) demo_journal_env (\<lambda>_. demo_heap) 0 7 demo_config [] =
     Inr (exchange_new 0 7 demo_engine (Some (journal_layout (config_fingerprint default_instruments) [])) [])"
proof -
  have "e_resting demo_engine = []" by (rule demo_engine_empty)
  then have "engine_validate demo_engine = Inr ()" using validate_engine reachable_inv [OF demo_engine_reachable] by simp
  moreover have "MatchingEngine_new (\<lambda>_. Some 4096) (cfg_instruments demo_config) 7 = Some demo_engine"
    using demo_engine_new by (simp add: demo_config_def)
  ultimately show ?thesis by (simp add: exchange_start_def demo_journal)
qed

lemma demo_exchange_eq:
  "demo_exchange = exchange_new 0 7 demo_engine (Some (journal_layout (config_fingerprint default_instruments) [])) []"
  by (simp add: demo_exchange_def demo_started)

lemma demo_boots: "exchange_boots (\<lambda>_. Some 4096) demo_config demo_exchange"
proof -
  have "x_commands demo_exchange = []" by (simp add: demo_exchange_eq exchange_new_def)
  moreover have "om_sorted (<) (cfg_instruments demo_config)" by (simp add: demo_config_def default_instruments_def om_sorted_def)
  moreover have "block_ok (Some 4096)" by (simp add: block_ok_def CAPACITY_BYTES_def sizeof_OrderEntry_def)
  ultimately show ?thesis using demo_started unfolding exchange_boots_def demo_exchange_eq [symmetric] by simp blast
qed

section \<open>Two short runs\<close>

definition demo_service :: service_env where
  "demo_service = \<lparr>sv_sends = [], sv_recv = Recv_Again, sv_flush_now = 0, sv_read_now = 0, sv_append_now = 0, sv_check_read = 0, sv_check_write = 0\<rparr>"

definition demo_reactor :: reactor_env where
  "demo_reactor = \<lparr>re_stop = False, re_now = 0, re_later = 0, re_poll = Poll_Interrupted, re_accept = Accept_Again, re_wake_ok = True,
     re_service = demo_service\<rparr>"

definition demo_worker :: engine_env where
  "demo_worker = \<lparr>ee_heap = demo_heap, ee_journal_writes = [], ee_journal_synced = True, ee_wake_ok = True\<rparr>"

definition demo_publisher :: publisher_env where
  "demo_publisher = \<lparr>pe_sent = True, pe_checked = - 1, pe_now = 0\<rparr>"

definition quiet_events :: events where
  "quiet_events = \<lparr>can_read = True, can_write = False, poll_error = False, hung_up = False\<rparr>"

lemmas demo_env_defs = demo_service_def demo_reactor_def demo_worker_def demo_publisher_def quiet_events_def

text \<open>A stop request right after the start.\<close>

definition stop_turns :: "turn list" where
  "stop_turns = [Reactor_Turn (demo_reactor\<lparr>re_stop := True\<rparr>)] @ replicate 5 (Engine_Turn demo_worker) @
     replicate 2 (Publisher_Turn demo_publisher) @ replicate 4 (Reactor_Turn demo_reactor)"

lemma pop_new [simp]: "try_pop n (queue_new n v) = (None, queue_new n v)"
  by (simp add: try_pop_def queue_new_def is_empty_def)

lemma demo_valid: "engine_validate demo_engine = Inr ()"
  using validate_engine reachable_inv [OF demo_engine_reachable] by (simp add: demo_engine_empty)

lemma stop_run:
  "x_engine_pc (exchange_steps stop_turns demo_exchange) = E_Done \<and> x_publisher_pc (exchange_steps stop_turns demo_exchange) = B_Done \<and>
   x_reactor_pc (exchange_steps stop_turns demo_exchange) = R_Done \<and>
   exchange_status demo_config True False (exchange_steps stop_turns demo_exchange) = Inr ()"
  by (simp add: stop_turns_def numeral_eq_Suc demo_exchange_eq exchange_new_def reactor_step_def engine_step_def publisher_step_def
      demo_env_defs engine_finish_def demo_valid exchange_status_def)

text \<open>A client connects, asks for its status, and the reply is queued for it.\<close>

definition demo_hello :: Message where
  "demo_hello = default_message\<lparr>m_action := Act_Status, m_client_id := 5\<rparr>"

definition accept_turns :: "turn list" where
  "accept_turns =
     (let r = Reactor_Turn demo_reactor in
      [r, r, r, Reactor_Turn (demo_reactor\<lparr>re_poll := Polled True False (\<lambda>_. quiet_events)\<rparr>),
       Reactor_Turn (demo_reactor\<lparr>re_accept := Accepted True\<rparr>), r, r, r])"

definition poll_turns :: "turn list" where
  "poll_turns =
     (let r = Reactor_Turn demo_reactor in
      [r, r, r, Reactor_Turn (demo_reactor\<lparr>re_poll := Polled False False (\<lambda>_. quiet_events)\<rparr>), r])"

definition read_turns :: "turn list" where
  "read_turns = poll_turns @
     [Reactor_Turn (demo_reactor\<lparr>re_service := demo_service\<lparr>sv_recv := Recv (encode_frame demo_hello)\<rparr>\<rparr>),
      Reactor_Turn demo_reactor]"

definition reply_turns :: "turn list" where
  "reply_turns =
     (let r = Reactor_Turn demo_reactor; e = Engine_Turn demo_worker in [e, e, e, e, r, r, r])"

definition one_queued :: "'a \<Rightarrow> 'a \<Rightarrow> 'a LFQueue" where
  "one_queued v w = \<lparr>prod_idx = 1, cons_idx = 0, buffers = (replicate queue_capacity w)[0 := v]\<rparr>"

lemma push_new [simp]: "try_push queue_capacity v (queue_new queue_capacity w) = (True, one_queued v w)"
  by (simp add: try_push_def queue_new_def is_full_def slot_def q_mask_def queue_capacity_def one_queued_def)

lemma pop_one [simp]: "try_pop queue_capacity (one_queued v w) = (Some v, (one_queued v w)\<lparr>cons_idx := 1\<rparr>)"
  by (simp add: try_pop_def is_empty_def slot_def q_mask_def queue_capacity_def one_queued_def)

definition demo_status :: Message where
  "demo_status = (demo_hello\<lparr>m_kind := Report, m_report := Rpt_Status, m_epoch := 7, m_sequence := 1\<rparr>)"

lemma hello_ok: "message_ok demo_hello" "message_ok demo_status"
  by (simp_all add: demo_hello_def demo_status_def message_ok_def default_message_def)

lemma hello_fields:
  "m_kind demo_hello = Command" "m_action demo_hello = Act_Status" "m_client_id demo_hello = 5"
  "m_kind demo_status = Report" "m_client_id demo_status = 5" "m_report demo_status = Rpt_Status" "m_reject demo_status = Rej_None"
  by (simp_all add: demo_hello_def demo_status_def default_message_def)

lemma steps_append: "exchange_steps (ts @ us) x = exchange_steps us (exchange_steps ts x)"
  by (induction ts arbitrary: x) simp_all

lemmas reactor_defs = reactor_step_def reactor_poll_def reactor_accept_def or_throws_def polled_events_def demo_env_defs Let_def

lemma accept_run:
  "exchange_steps accept_turns demo_exchange =
     demo_exchange\<lparr>x_connections := [(1, Connection_new 0 0)], x_next_connection := 2, x_accepted := 1\<rparr>"
  by (simp add: accept_turns_def demo_exchange_eq exchange_new_def reactor_defs)

definition greeted :: Connection where
  "greeted = (Connection_new 0 0)\<lparr>c_input := encode_frame demo_hello, c_client := 5, c_admitted := 1\<rparr>"

lemma read_run:
  "exchange_steps read_turns (demo_exchange\<lparr>x_connections := [(1, Connection_new 0 0)], x_next_connection := 2, x_accepted := 1\<rparr>) =
     demo_exchange\<lparr>x_connections := [(1, greeted)], x_next_connection := 2, x_accepted := 1, x_routes := [(5, 1)],
       x_requests := one_queued \<lparr>env_connection = 1, env_message = demo_hello\<rparr> \<lparr>env_connection = 0, env_message = default_message\<rparr>\<rparr>"
proof -
  have take: "take frame_size (encode_frame demo_hello) = encode_frame demo_hello"
    by (rule take_all) (simp add: frame_size_def)
  have input: "overwrite (replicate frame_size 0) 0 (encode_frame demo_hello) = encode_frame demo_hello"
    by (simp add: overwrite_def frame_size_def)
  have ne: "encode_frame demo_hello \<noteq> []" using length_0_conv [of "encode_frame demo_hello"] by simp
  let ?x = "demo_exchange\<lparr>x_connections := [(1, Connection_new 0 0)], x_next_connection := 2, x_accepted := 1\<rparr>"
  let ?env = "demo_service\<lparr>sv_recv := Recv (encode_frame demo_hello)\<rparr>" and ?c = "Connection_new 0 0"
  let ?pc = "R_Serve [(1, quiet_events)] []"
  have wr: "service_write ?env quiet_events ?c = (False, ?c)"
    by (simp add: service_write_def demo_env_defs)
  have rd: "service_read ?env False ?c = (False, ?c\<lparr>c_input := encode_frame demo_hello, c_used := frame_size\<rparr>)"
    using ne by (simp add: service_read_def Connection_new_def demo_env_defs take input Let_def) (simp add: frame_size_def)
  have frame: "service_frame ?env 1 (?c\<lparr>c_input := encode_frame demo_hello, c_used := frame_size\<rparr>) (?x\<lparr>x_reactor_pc := ?pc\<rparr>) =
      Some (False, greeted, ?x\<lparr>x_reactor_pc := ?pc, x_routes := [(5, 1)],
        x_requests := one_queued \<lparr>env_connection = 1, env_message = demo_hello\<rparr> \<lparr>env_connection = 0, env_message = default_message\<rparr>\<rparr>)"
    by (simp add: service_frame_def decode_encode_ok hello_ok unacceptable_def hello_fields enqueue_request_def demo_exchange_eq
        exchange_new_def Connection_new_def greeted_def Let_def)
  have serve: "service_connection ?env 1 quiet_events (?x\<lparr>x_reactor_pc := ?pc\<rparr>) =
      Some (False, ?x\<lparr>x_reactor_pc := ?pc, x_routes := [(5, 1)], x_connections := [(1, greeted)],
        x_requests := one_queued \<lparr>env_connection = 1, env_message = demo_hello\<rparr> \<lparr>env_connection = 0, env_message = default_message\<rparr>\<rparr>)"
    proof -
    have "service_input ?env 1 quiet_events False ?c (?x\<lparr>x_reactor_pc := ?pc\<rparr>) =
        service_frame ?env 1 (?c\<lparr>c_input := encode_frame demo_hello, c_used := frame_size\<rparr>) (?x\<lparr>x_reactor_pc := ?pc\<rparr>)"
      using rd by (simp add: service_input_def demo_exchange_eq exchange_new_def) (simp add: Connection_new_def quiet_events_def)
    then show ?thesis using wr frame
      by (simp add: service_connection_def) (simp add: put_connection_def count_slow_def greeted_def Connection_new_def too_slow_def finished_def)
  qed
  have polled: "exchange_steps poll_turns ?x = ?x\<lparr>x_reactor_pc := ?pc\<rparr>"
    by (simp add: poll_turns_def demo_exchange_eq exchange_new_def reactor_defs Connection_new_def)
  show ?thesis
    unfolding read_turns_def steps_append polled
    using serve by (simp add: reactor_step_def or_throws_def demo_reactor_def) (simp add: demo_exchange_eq exchange_new_def)
qed

lemma reply_run:
  "map_of (x_connections (exchange_steps reply_turns (demo_exchange\<lparr>x_connections := [(1, greeted)], x_next_connection := 2,
       x_accepted := 1, x_routes := [(5, 1)],
       x_requests := one_queued \<lparr>env_connection = 1, env_message = demo_hello\<rparr> \<lparr>env_connection = 0, env_message = default_message\<rparr>\<rparr>))) 1 =
     Some (greeted\<lparr>c_admitted := 0, c_output := [encode_frame demo_status]\<rparr>)"
proof -
  have new: "e_clients demo_engine = []" "e_response_sequence demo_engine = 0" "e_epoch demo_engine = 7"
    by (simp_all add: demo_engine_def MatchingEngine_new_def default_instruments_def default_rules_def rules_ok_def
        OrderBook_default_def OrderBook_new_def FixedSlotPool_new_def CAPACITY_BYTES_def sizeof_OrderEntry_def)
  have p: "\<exists>e'. engine_process demo_heap demo_hello demo_engine = Some (\<lparr>b_reports = [demo_status], b_updates = []\<rparr>, e')"
    by (simp add: engine_process_def hello_fields engine_last_request_def new engine_report_def demo_status_def Let_def)
      (simp add: demo_hello_def default_message_def)
  then obtain e' where p: "engine_process demo_heap demo_hello demo_engine = Some (\<lparr>b_reports = [demo_status], b_updates = []\<rparr>, e')" by blast
  show ?thesis
    by (simp add: reply_turns_def demo_exchange_eq exchange_new_def reactor_defs engine_step_def serve_request_def hello_fields
        journal_command_def p addressed_def deliver_def response_target_def greeted_def Connection_new_def
        connection_append_def encode_ok hello_ok closes_request_def put_connection_def count_slow_def)
qed

definition hello_turns :: "turn list" where
  "hello_turns = accept_turns @ read_turns @ reply_turns"

lemma hello_run:
  "map_of (x_connections (exchange_steps hello_turns demo_exchange)) 1 =
     Some (greeted\<lparr>c_admitted := 0, c_output := [encode_frame demo_status]\<rparr>)"
  unfolding hello_turns_def steps_append accept_run read_run by (rule reply_run)

lemma demo_commands [simp]: "x_commands demo_exchange = []"
  by (simp add: demo_exchange_eq exchange_new_def)

lemma demo_few: "length (x_commands demo_exchange) + length ts < 2 ^ 64 - 2" if "length ts < 100"
  using that by simp

lemma turns_short: "length hello_turns < 100" "length stop_turns < 100"
  by (simp_all add: hello_turns_def accept_turns_def poll_turns_def read_turns_def reply_turns_def stop_turns_def Let_def)

lemmas hello_case = demo_boots demo_runs demo_few [OF turns_short(1)]
lemmas stop_case = demo_boots demo_runs demo_few [OF turns_short(2)]

section \<open>Theorems\<close>

text \<open>
  C9. Sessions are private. In every state of every run, each frame queued for a connection is a valid
  message, and if it is an execution report it belongs to the client of that connection's session, or it
  is the refusal of a second session. Reports of a request whose connection has gone, or whose number
  could be taken for another connection, reach nobody else.
\<close>

theorem exchange_private:
  assumes "exchange_boots blocks config x0" "exchange_reachable x0 n x" "length (x_commands x0) + n < 2 ^ 64 - 2"
    and "map_of (x_connections x) i = Some c" "f \<in> set (c_output c)"
  shows "\<exists>m. decode f = Some m \<and>
    (m_kind m = Report \<longrightarrow> (c_client c \<noteq> 0 \<and> m_client_id m = c_client c) \<or> m_reject m = Rej_SessionBusy)"
proof -
  have "conn_ok c" using reachable_run_inv [OF assms(2,1,3)] assms(4)
    by (auto simp: run_inv_def session_inv_def core_inv_def keys_ok_def)
  then obtain m where "message_ok m" "f = encode_frame m" "private_to (c_client c) m" using assms(5) by (auto simp: conn_ok_def)
  then show ?thesis using decode_encode_ok [of m] by (auto simp: private_to_def)
qed

theorem exchange_private_witness:
  "\<exists>m. decode (encode_frame demo_status) = Some m \<and> (m_kind m = Report \<longrightarrow> m_client_id m = 5 \<or> m_reject m = Rej_SessionBusy)"
  using exchange_private [OF hello_case hello_run, of "encode_frame demo_status"] by (auto simp: greeted_def)

text \<open>
  C39. A client has at most one session. The routing table maps exactly the clients of open sessions to
  their connections, so two connections never speak for the same client, and a report routed by client
  always finds the connection of that client or none.
\<close>

theorem exchange_sessions:
  assumes "exchange_boots blocks config x0" "exchange_reachable x0 n x" "length (x_commands x0) + n < 2 ^ 64 - 2"
  shows "(map_of (x_routes x) k = Some i \<longleftrightarrow> k \<noteq> 0 \<and> (\<exists>c. map_of (x_connections x) i = Some c \<and> c_client c = k)) \<and>
    (map_of (x_connections x) i = Some c \<longrightarrow> map_of (x_connections x) j = Some d \<longrightarrow> c_client c = c_client d \<longrightarrow>
     c_client c \<noteq> 0 \<longrightarrow> i = j)"
proof -
  have "routes_ok x" using reachable_run_inv [OF assms(2,1,3)] by (simp add: run_inv_def session_inv_def core_inv_def)
  then have r: "map_of (x_routes x) k = Some i \<longleftrightarrow> k \<noteq> 0 \<and> (\<exists>c. map_of (x_connections x) i = Some c \<and> c_client c = k)" for k i
    by (simp add: routes_ok_def)
  have "i = j" if "map_of (x_connections x) i = Some c" "map_of (x_connections x) j = Some d" "c_client c = c_client d" "c_client c \<noteq> 0"
    using r [of "c_client c" i] r [of "c_client c" j] that by auto
  then show ?thesis using r by blast
qed

theorem exchange_sessions_witness:
  "map_of (x_routes (exchange_steps hello_turns demo_exchange)) 5 = Some 1"
  using exchange_sessions [OF hello_case, of 5 1] hello_run by (simp add: greeted_def)

text \<open>
  C40. The exchange stays within its bounds: at most 64 connections, each with at most one frame of input
  and 4096 frames of output, and at most 4096 messages in each of the three queues.
\<close>

theorem exchange_bounded:
  assumes "exchange_boots blocks config x0" "exchange_reachable x0 n x" "length (x_commands x0) + n < 2 ^ 64 - 2"
  shows "length (x_connections x) \<le> 64 \<and>
    list_all (\<lambda>(i, c). c_used c \<le> frame_size \<and> length (c_input c) = frame_size \<and> length (c_output c) \<le> 4096) (x_connections x) \<and>
    length (queued queue_capacity (x_requests x)) \<le> 4096 \<and> length (queued queue_capacity (x_responses x)) \<le> 4096 \<and>
    length (queued queue_capacity (x_updates x)) \<le> 4096"
proof -
  have k: "keys_ok x" "queues_ok x" using reachable_run_inv [OF assms(2,1,3)] by (simp_all add: run_inv_def session_inv_def core_inv_def)
  have "conn_ok c" if "(i, c) \<in> set (x_connections x)" for i c
    using k(1) that om_less.sorted_distinct [of "x_connections x"] by (auto simp: keys_ok_def)
  then show ?thesis
    using k lfq.bounded [of "x_requests x"] lfq.bounded [of "x_responses x"] lfq.bounded [of "x_updates x"]
    by (auto simp: keys_ok_def queues_ok_def conn_ok_def list_all_iff queue_capacity_def)
qed

theorem exchange_bounded_witness:
  "length (x_connections (exchange_steps hello_turns demo_exchange)) \<le> 64"
  using exchange_bounded [OF hello_case] by blast

text \<open>
  C11. The multicast is a faithful feed of the engine. At every point the deltas sent are the first updates
  the engine made since the start, in order, numbered without a gap from the restored sequence; applied to
  the books at the start, all the updates give the books of the engine; a heartbeat names the sequence of
  the last delta sent. Nothing is missing but what is queued or about to be, unless the exchange is failing.
\<close>

theorem exchange_feed:
  assumes "exchange_boots blocks config x0" "exchange_reachable x0 n x" "length (x_commands x0) + n < 2 ^ 64 - 2"
  shows "(\<exists>rest. x_emitted x = published x @ rest \<and>
      (\<not> x_fatal x \<longrightarrow> rest = queued queue_capacity (x_updates x) @ to_publish (x_engine_pc x))) \<and>
    stamps (x_epoch x0) (e_sequence (x_engine x0)) (x_emitted x) \<and>
    feed_run (x_emitted x) (views (e_books (x_engine x0))) = Some (views (e_books (x_engine x))) \<and>
    m_sequence (x_heartbeat x) = e_sequence (x_engine x0) + of_nat (length (published x))"
  using reachable_run_inv [OF assms(2,1,3)] by (auto simp: run_inv_def feed_inv_def on_the_way_def split: if_splits)

theorem exchange_feed_witness:
  "\<exists>rest. x_emitted (exchange_steps hello_turns demo_exchange) = published (exchange_steps hello_turns demo_exchange) @ rest"
  using exchange_feed [OF hello_case] by blast





end
