(* ===== verification/Client_Theorems.thy ===== *)
theory Client_Theorems
  imports Client_Recover Server_Theorems
begin

text \<open>
  What a trading client guarantees to its strategy: the market it shows is a state the exchange went
  through, the reports it hands on are its own, in order and each once, and a command leaves it
  only after the local checks.
\<close>

section \<open>The market view\<close>

lemma market_run:
  "feed_ok fd \<Longrightarrow> exact fd (tc_market c) \<Longrightarrow> \<forall>(call, w) \<in> set calls. feed_world fd w \<Longrightarrow> exact fd (tc_market (client_run calls c))"
proof (induction calls c rule: client_run.induct)
  case (2 call w calls c)
  then have "market_inv fd (c, w)" by (simp add: market_inv_def)
  from mkt.call_inv [OF this, of call] have "exact fd (tc_market (fst (snd (call_act call (c, w)))))"
    by (auto simp: market_inv_def)
  then show ?case using 2 by simp
qed simp

lemma market_new:
  assumes "feed_ok fd" "feed_world fd (w_connections_update tl w)" "TradingClient_new config (c, w) = (Done (), c', w')"
  shows "exact fd (tc_market c')"
proof -
  have "wp (TradingClient_new config) (\<lambda>_. market_inv fd) (\<lambda>_. True) (c, w)"
    by (rule mkt.new_inv)
      (use assms(1,2) feed_world_later in \<open>auto simp: market_inv_def TradingClient_init_def exact_invalid\<close>)
  then show ?thesis using assms(3) by (simp add: wp_def market_inv_def)
qed

section \<open>A client of the exchange\<close>

lemma emitted_grows: "prefix (x_emitted x) (x_emitted (exchange_step t x))"
proof (cases t)
  case (Engine_Turn env)
  have serve: "prefix (x_emitted x') (x_emitted (serve_request env r x'))" for r x'
    by (auto simp: serve_request_def journal_command_def engine_throws_def Let_def split: option.split prod.split if_splits bool.splits)
  have "prefix (x_emitted x) (x_emitted (engine_step env x))"
    using serve [of "x\<lparr>x_requests := q\<rparr>" for q]
    by (auto simp: engine_step_def engine_finish_def engine_throws_def Let_def split: engine_pc.split sum.split option.split prod.split list.split bool.split)
  then show ?thesis using Engine_Turn by simp
next
  case (Reactor_Turn env)
  then show ?thesis using reactor_parts [of x env] by (simp add: reactor_keeps_def engine_part_def)
next
  case (Publisher_Turn env)
  then show ?thesis
    by (auto simp: publisher_step_def publisher_throws_def multicast_def Let_def split: publisher_pc.split option.split prod.split)
qed

lemma emitted_prefix: "exchange_reachable y m x \<Longrightarrow> prefix (x_emitted y) (x_emitted x)"
  by (induction rule: exchange_reachable.induct) (auto intro: prefix_order.trans emitted_grows)

text \<open>
  What reaches a client of the exchange \<open>x\<close>: deltas of its epoch are among those multicast, in any order, any
  number of times or not at all, beside heartbeats and anything unusable; a snapshot connection delivers
  what was sent of the snapshot of the engine at an earlier point of the run.
\<close>

definition exchange_world :: "Exchange \<Rightarrow> nat \<Rightarrow> Exchange \<Rightarrow> world \<Rightarrow> bool" where
  "exchange_world x0 n x w \<longleftrightarrow> blocks_ok (w_blocks w) \<and>
     (\<forall>m. Some m \<in> set (w_market w) \<and> m_kind m = Delta \<and> m_epoch m = x_epoch x0 \<longrightarrow> m \<in> set (published x)) \<and>
     (\<forall>q \<in> set (w_connections w). \<exists>k y. k \<le> n \<and> exchange_reachable x0 k y \<and> exchange_reachable y (n - k) x \<and>
        prefix (arriving (cn_recvs q)) (frames_of (engine_snapshot (x_engine y))))"

definition feed_of :: "Exchange \<Rightarrow> Exchange \<Rightarrow> feed" where
  "feed_of x0 x = \<lparr>fd_updates = x_emitted x, fd_epoch = x_epoch x0, fd_sequence = e_sequence (x_engine x0),
     fd_market = views (e_books (x_engine x0))\<rparr>"

lemma exchange_feeds:
  assumes "exchange_boots blocks config x0" "exchange_reachable x0 n x" "length (x_commands x0) + n < 2 ^ 64 - 2"
    "unat (e_sequence (x_engine x0)) + length (x_emitted x) < 2 ^ 64"
  shows "feed_ok (feed_of x0 x)" "exchange_world x0 n x w \<Longrightarrow> feed_world (feed_of x0 x) w"
proof -
  have inv: "feed_inv (x_epoch x0) (e_sequence (x_engine x0)) (views (e_books (x_engine x0))) x"
    using reachable_run_inv [OF assms(2,1,3)] by (simp add: run_inv_def)
  then show "feed_ok (feed_of x0 x)" using assms(4) by (simp add: feed_ok_def feed_of_def feed_inv_def)
  have engine: "engine_at (feed_of x0 x) (x_engine y)"
    if k: "k \<le> n" "exchange_reachable x0 k y" "exchange_reachable y (n - k) x" for k y
  proof -
    have y: "run_inv blocks (cfg_instruments config) x0 k y" using reachable_run_inv [OF k(2) assms(1)] assms(3) k(1) by simp
    have "eng_inv (x_engine y)" using y reachable_inv by (auto simp: run_inv_def work_inv_def)
    moreover obtain us where "x_emitted x = x_emitted y @ us" using emitted_prefix [OF k(3)] by (auto simp: prefix_def)
    ultimately show ?thesis using y
      by (auto simp: engine_at_def feed_of_def feed_at_def run_inv_def feed_inv_def intro!: exI [of _ "length (x_emitted y)"])
  qed
  have "set (published x) \<subseteq> set (x_emitted x)" using inv by (auto simp: feed_inv_def)
  then show "feed_world (feed_of x0 x) w" if "exchange_world x0 n x w"
    using that engine by (auto simp: feed_world_def exchange_world_def from_feed_def snapshot_stream_def feed_of_def) blast+
qed

text \<open>
  C4. A client never shows a wrong market. Whatever the network does to the datagrams, whenever the client
  recovers, and whatever calls it gets: as long as its replica calls itself synchronized, its books are, order by order and in priority, the books the
  exchange had after the first \<open>k\<close> updates of its run, where \<open>k\<close> belongs to the sequence number the replica shows.
\<close>

theorem client_sees_exchange:
  assumes "exchange_boots blocks config x0" "exchange_reachable x0 n x" "length (x_commands x0) + n < 2 ^ 64 - 2"
    "unat (e_sequence (x_engine x0)) + length (x_emitted x) < 2 ^ 64"
    and "exchange_world x0 n x (w_connections_update tl w)" "TradingClient_new cc (c0, w) = (Done (), c1, w1)"
    and "\<forall>(call, w') \<in> set calls. exchange_world x0 n x w'" "c = client_run calls c1" "r_synchronized (tc_market c)"
  shows "\<exists>k \<le> length (x_emitted x). r_epoch (tc_market c) = x_epoch x0 \<and>
    r_sequence (tc_market c) = e_sequence (x_engine x0) + of_nat k \<and>
    feed_run (take k (x_emitted x)) (views (e_books (x_engine x0))) = Some (views (r_books (tc_market c)))"
proof -
  note feeds = exchange_feeds [OF assms(1-4)]
  have "exact (feed_of x0 x) (tc_market c1)" by (rule market_new [OF feeds(1) feeds(2) [OF assms(5)] assms(6)])
  then have "exact (feed_of x0 x) (tc_market c)" unfolding assms(8)
    by (rule market_run [OF feeds(1)]) (use assms(7) feeds(2) in auto)
  then show ?thesis using assms(9) by (auto simp: exact_def feed_of_def feed_at_def)
qed

lemma demo_sequence: "e_sequence demo_engine = 0" "e_epoch demo_engine = 7"
  by (simp_all add: demo_engine_def MatchingEngine_new_def default_instruments_def default_rules_def rules_ok_def
      OrderBook_default_def OrderBook_new_def FixedSlotPool_new_def CAPACITY_BYTES_def sizeof_OrderEntry_def)

definition demo_client_world :: world where
  "demo_client_world = demo_world [demo_connection (encode_frame demo_status), demo_connection (frames_of (engine_snapshot demo_engine))]"

lemma demo_client_opens:
  "\<exists>c w. TradingClient_new demo_client_config (TradingClient_init demo_client_config 0, demo_client_world) = (Done (), c, w) \<and>
    r_synchronized (tc_market c)"
proof -
  have "wp (TradingClient_new demo_client_config) (\<lambda>_ s. r_synchronized (tc_market (fst s))) (\<lambda>_. False)
      (TradingClient_init demo_client_config 0, demo_client_world)"
  proof -
    let ?c = "(TradingClient_init demo_client_config 0)\<lparr>tc_request_id := 0, tc_epoch := 7\<rparr>"
    let ?w = "(demo_world [demo_connection (frames_of (engine_snapshot demo_engine))])\<lparr>w_clock := [0, 0, 0, 0, 0, 0]\<rparr>"
    have rec: "wp recover (\<lambda>_ s. mirrors (tc_market (fst s)) demo_engine) (\<lambda>_. False) (?c, ?w)"
      by (rule recover_wp [OF demo_inv reachable_epoch [OF demo_engine_reachable] _ demo_answers, where start = 0 and t = 0 and t' = 0 and ts = "[0, 0]" and ?ts2.0 = "[0]"])
        (simp_all add: demo_world_def demo_fits demo_snapshot_length demo_sequence TradingClient_init_def)
    obtain rest where "received [Recv (encode_frame demo_status)] = Inr (demo_status, rest)"
      using received_next [of "[Recv (encode_frame demo_status)]" demo_status "[]"] hello_ok(2)
      by (auto simp: delivers_def encode_frame_ne)
    moreover have "m_request_id demo_status = 0" "m_epoch demo_status = 7" by (simp_all add: demo_status_def demo_hello_def default_message_def)
    ultimately have status: "received [Recv (encode_frame demo_status)] = Inr (demo_status, rest)" "m_request_id demo_status = 0" "m_epoch demo_status = 7"
      by auto
    have "message_ok (default_message\<lparr>m_action := Act_Status, m_client_id := 5\<rparr>)" by (simp add: message_ok_def default_message_def)
    note hello = encode_ok [OF this]
    have threads: "wp start_threads Q E s = (if w_threads (snd s) then Q () s else E s)" for Q E s by (simp add: wp_def start_threads_def)
    have world: "w_connections demo_client_world = [demo_connection (encode_frame demo_status), demo_connection (frames_of (engine_snapshot demo_engine))]"
        "w_clock demo_client_world = [0, 0, 0, 0, 0, 0, 0]" "w_threads demo_client_world"
        "(w_connections_update tl demo_client_world)\<lparr>w_clock := [0, 0, 0, 0, 0, 0]\<rparr> = ?w"
      by (simp_all add: demo_client_world_def demo_world_def)
    show ?thesis
      unfolding TradingClient_new_def connect_def timeout_def send_message_def receive_def
      by (simp add: wp threads world hello status send_frame hello_fields) (rule wp_mono [OF rec], simp add: mirrors_def)
  qed
  then show ?thesis by (cases "TradingClient_new demo_client_config (TradingClient_init demo_client_config 0, demo_client_world)")
      (auto simp: wp_def split: outcome.splits)
qed

lemma demo_start: "x_engine demo_exchange = demo_engine" "x_epoch demo_exchange = 7" "x_emitted demo_exchange = []"
  by (simp_all add: demo_exchange_eq exchange_new_def)

lemma demo_exchange_world: "exchange_world demo_exchange 0 demo_exchange (w_connections_update tl demo_client_world)"
  by (auto simp: exchange_world_def demo_client_world_def demo_world_def demo_connection_def demo_start blocks_ok_def demo_blocks_def block_ok_def
      CAPACITY_BYTES_def sizeof_OrderEntry_def intro!: exI [of _ demo_exchange] exchange_reachable.exchange_start)

theorem client_sees_exchange_witness:
  "\<exists>c w. TradingClient_new demo_client_config (TradingClient_init demo_client_config 0, demo_client_world) = (Done (), c, w) \<and>
    r_epoch (tc_market c) = 7 \<and> views (r_books (tc_market c)) = views (e_books demo_engine)"
proof -
  obtain c w where c: "TradingClient_new demo_client_config (TradingClient_init demo_client_config 0, demo_client_world) = (Done (), c, w)"
      "r_synchronized (tc_market c)" using demo_client_opens by blast
  have seq: "unat (e_sequence (x_engine demo_exchange)) + length (x_emitted demo_exchange) < 2 ^ 64"
    by (simp add: demo_start demo_sequence)
  have "\<exists>k \<le> length (x_emitted demo_exchange). r_epoch (tc_market c) = x_epoch demo_exchange \<and>
      r_sequence (tc_market c) = e_sequence (x_engine demo_exchange) + of_nat k \<and>
      feed_run (take k (x_emitted demo_exchange)) (views (e_books (x_engine demo_exchange))) = Some (views (r_books (tc_market c)))"
    by (rule client_sees_exchange [OF demo_boots exchange_reachable.exchange_start _ seq demo_exchange_world c(1), of "[]"])
      (use c(2) in simp_all)
  then show ?thesis using c(1) by (auto simp: demo_start)
qed

end
