(* ===== verification/Client_Session.thy ===== *)
theory Client_Session
  imports Client_Theorems
begin

text \<open>
  The private side of a client: which reports reach the strategy, which commands leave, and what
  \<open>submit\<close> returns.
\<close>

section \<open>Reports and request numbers\<close>

definition session_ok :: "TradingClient \<Rightarrow> bool" where
  "session_ok c \<longleftrightarrow> list_all (\<lambda>m. own_report m c \<and> m_sequence m \<le> om_last_report (tc_manager c)) (tc_handled c) \<and>
     sorted_wrt (<) (map m_sequence (tc_handled c)) \<and>
     tc_manager c = foldl (\<lambda>M m. snd (manager_consume m M)) manager_new (tc_handled c) \<and>
     (\<exists>ids n. tc_request_id c = of_nat n \<and> sorted_wrt (<) ids \<and> list_all (\<lambda>k. 0 < k \<and> k \<le> n) ids \<and>
        map m_request_id (tc_submitted c) = map of_nat ids) \<and>
     list_all (\<lambda>m. m_kind m = Command \<and> m_client_id m = cc_client_id (tc_config c)) (tc_submitted c)"

lemma consume_sequence:
  "manager_consume m M = (used, M') \<Longrightarrow>
   (used \<longrightarrow> om_last_report M < m_sequence m \<and> om_last_report M' = m_sequence m) \<and> (\<not> used \<longrightarrow> M' = M)"
  by (auto simp: manager_consume_def set_remaining_def Let_def not_le split: if_splits)

lemma session_ok_other:
  "session_ok (c\<lparr>tc_market := R\<rparr>) = session_ok c" "session_ok (c\<lparr>tc_features := F\<rparr>) = session_ok c"
  "session_ok (c\<lparr>tc_last_market := t\<rparr>) = session_ok c" "session_ok (c\<lparr>tc_recoveries := k\<rparr>) = session_ok c"
  "session_ok (c\<lparr>tc_closed := b\<rparr>) = session_ok c"
  by (simp_all add: session_ok_def own_report_def)

lemma session_ok_report:
  assumes "session_ok c" "own_report m c" "manager_consume m (tc_manager c) = (used, M)"
  shows "session_ok (c\<lparr>tc_manager := M, tc_handled := tc_handled c @ (if used then [m] else [])\<rparr>)"
proof -
  note seq = consume_sequence [OF assms(3)]
  have old: "list_all (\<lambda>m. own_report m c \<and> m_sequence m \<le> om_last_report (tc_manager c)) (tc_handled c)"
      "sorted_wrt (<) (map m_sequence (tc_handled c))"
      "foldl (\<lambda>M m. snd (manager_consume m M)) manager_new (tc_handled c) = tc_manager c"
    using assms(1) by (auto simp: session_ok_def)
  have le: "om_last_report (tc_manager c) \<le> om_last_report M" using seq by (cases used) auto
  have "list_all (\<lambda>m. own_report m c \<and> m_sequence m \<le> om_last_report M) (tc_handled c @ (if used then [m] else []))"
    using old(1) le seq assms(2) by (auto simp: list_all_iff)
  moreover have "sorted_wrt (<) (map m_sequence (tc_handled c @ (if used then [m] else [])))"
    using old(1,2) seq by (auto simp: sorted_wrt_append list_all_iff)
  moreover have "M = foldl (\<lambda>M m. snd (manager_consume m M)) manager_new (tc_handled c @ (if used then [m] else []))"
    using old(3) seq assms(3) by auto
  ultimately show ?thesis using assms(1) by (simp add: session_ok_def own_report_def)
qed

lemma session_ok_submit:
  assumes "session_ok c" "ms = [] \<or> ms = [numbered m c]"
  shows "session_ok (c\<lparr>tc_request_id := tc_request_id c + 1, tc_submitted := tc_submitted c @ ms\<rparr>)"
proof -
  obtain ids n where ids: "tc_request_id c = of_nat n" "sorted_wrt (<) ids" "list_all (\<lambda>k. 0 < k \<and> k \<le> n) ids"
      "map m_request_id (tc_submitted c) = map of_nat ids"
    using assms(1) by (auto simp: session_ok_def)
  have "\<exists>ids n. tc_request_id c + 1 = of_nat n \<and> sorted_wrt (<) ids \<and> list_all (\<lambda>k. 0 < k \<and> k \<le> n) ids \<and>
      map m_request_id (tc_submitted c @ ms) = map of_nat ids"
    by (rule exI [of _ "ids @ map (\<lambda>_. Suc n) ms"], rule exI [of _ "Suc n"])
      (use ids assms(2) in \<open>auto simp: numbered_def sorted_wrt_append list_all_iff less_Suc_eq_le add.commute\<close>)
  then show ?thesis using assms by (auto simp: session_ok_def own_report_def numbered_def)
qed

interpretation ses: client_invariant "\<lambda>s. session_ok (fst s)" "\<lambda>_. True" "\<lambda>_. True"
proof (unfold_locales, goal_cases)
  case (11 c w ms m)
  then show ?case using session_ok_submit by simp blast
qed (auto simp: session_ok_other session_ok_report)

lemma session_new:
  assumes "TradingClient_new config (c, w) = (Done (), c', w')"
  shows "session_ok c'"
proof -
  have "wp (TradingClient_new config) (\<lambda>_ s. session_ok (fst s)) (\<lambda>_. True) (c, w)"
    by (rule ses.new_inv) (auto simp: session_ok_def TradingClient_init_def manager_new_def intro: exI [of _ "[]"] exI [of _ 0])
  then show ?thesis using assms by (simp add: wp_def)
qed

lemma session_run: "session_ok c \<Longrightarrow> session_ok (client_run calls c)"
proof (induction calls c rule: client_run.induct)
  case (2 call w calls c)
  then show ?case using ses.call_inv [of c w call] by simp
qed simp



section \<open>Submitting\<close>

text \<open>Following the market and the reports sends nothing.\<close>

definition quiet :: "TradingClient \<Rightarrow> TradingClient \<Rightarrow> bool" where
  "quiet c c' \<longleftrightarrow> tc_submitted c' = tc_submitted c \<and> tc_request_id c' = tc_request_id c \<and> tc_config c' = tc_config c \<and>
     tc_epoch c' = tc_epoch c \<and> tc_closed c' = tc_closed c"

interpretation qui: client_frame "\<lambda>s. quiet c (fst s)" "\<lambda>_. True" "\<lambda>_. True" for c
  by unfold_locales (simp_all add: quiet_def)

text \<open>The part of \<open>submit\<close> before the risk check.\<close>

definition catch_up :: "Message \<Rightarrow> unit act" where
  "catch_up command = (if cancellation command then receive_reports 4096 else client_poll 0)"

lemma catch_up_quiet: "qui.keeps c (catch_up command)"
  unfolding catch_up_def by (intro qui.keeps_cases qui.keeps_reports qui.keeps_poll)

lemma quiet_trans: "quiet a b \<Longrightarrow> quiet b c \<Longrightarrow> quiet a c"
  by (simp add: quiet_def)

lemma quiet_refl [simp]: "quiet c c"
  by (simp add: quiet_def)

lemma send_queues:
  fixes s m
  defines "c \<equiv> (fst s)\<lparr>tc_submitted := tc_submitted (fst s) @ [m]\<rparr>"
  shows "wp (transport_send m) (\<lambda>_ s'. fst s' = c) (\<lambda>s'. fst s' = fst s \<or> fst s' = c) s"
  unfolding transport_send_def
proof (rule wp_after [where P = "\<lambda>_ s'. fst s' = fst s"])
  show "wp now (\<lambda>_ s'. fst s' = fst s) (\<lambda>s'. fst s' = fst s \<or> fst s' = c) s" by (simp add: wp split: list.split)
  fix start and s1 :: "TradingClient \<times> world"
  assume s1: "fst s1 = fst s"
  show "wp (seq (await_room (start + 3000000000)) (\<lambda>_. seq (client (\<lambda>c. c\<lparr>tc_submitted := tc_submitted c @ [m]\<rparr>)) (\<lambda>_.
      seq (ask w_wakes w_wakes_update True) (\<lambda>woken. if woken then check else throw_act Wake_Failed))))
      (\<lambda>_ s'. fst s' = c) (\<lambda>s'. fst s' = fst s \<or> fst s' = c) s1"
  proof (rule wp_after)
    show "wp (await_room (start + 3000000000)) (\<lambda>_ s'. fst s' = fst s) (\<lambda>s'. fst s' = fst s \<or> fst s' = c) s1"
      by (rule wp_mono [OF await_room_waits]) (use s1 in auto)
  qed (simp add: wp check_def c_def)
qed

text \<open>What \<open>await\<close> returns.\<close>

definition reply_to :: "Message \<Rightarrow> TradingClient \<Rightarrow> Message \<Rightarrow> bool" where
  "reply_to command c m \<longleftrightarrow> own_report m c \<and> m_request_id m = m_request_id command"

definition answered :: "Message \<Rightarrow> TradingClient \<Rightarrow> Message list \<Rightarrow> bool" where
  "answered command c ms \<longleftrightarrow> (\<exists>rest m. ms = rest @ [m] \<and> list_all (reply_to command c) ms \<and>
     m_report m = Rpt_Complete \<and> list_all (\<lambda>m. m_report m \<noteq> Rpt_Complete) rest)"

lemma answered_cong: "tc_config c = tc_config c' \<Longrightarrow> tc_epoch c = tc_epoch c' \<Longrightarrow> answered m c ms = answered m c' ms"
  by (simp add: answered_def reply_to_def [abs_def] own_report_def)

lemma report_own:
  assumes "quiet c (fst s)"
  shows "wp (receive_report wait) (\<lambda>r s'. quiet c (fst s') \<and> (\<forall>m. r = Some m \<longrightarrow> own_report m c)) (\<lambda>s'. quiet c (fst s')) s"
proof -
  have own: "wp (consume_report m) (\<lambda>r s'. quiet c (fst s') \<and> (\<forall>m. r = Some m \<longrightarrow> own_report m c)) (\<lambda>s'. quiet c (fst s')) s'"
    if "quiet c (fst s')" for m s'
    using that by (auto simp: consume_report_def own_report_def quiet_def wp split: prod.split)
  show ?thesis unfolding receive_report_def
    by (rule wp_after [OF qui.keepsD [OF qui.keeps_check assms]], rule wp_after [OF qui.keepsD [OF qui.keeps_basic(4)]], assumption,
        rule wp_after [OF qui.keepsD [OF qui.keeps_next]], assumption) (auto simp: wp own split: option.split)
qed

lemma await_answered:
  assumes c: "quiet c (fst s)"
  shows "wp (await command deadline) (\<lambda>ms s'. quiet c (fst s') \<and> answered command c ms) (\<lambda>s'. quiet c (fst s')) s"
  unfolding await_def
proof (rule wp_loop [where I = "\<lambda>ms s'. quiet c (fst s') \<and> list_all (\<lambda>m. reply_to command c m \<and> m_report m \<noteq> Rpt_Complete) ms"], goal_cases)
  case (2 ms s)
  let ?I = "\<lambda>ms s'. quiet c (fst s') \<and> list_all (\<lambda>m. reply_to command c m \<and> m_report m \<noteq> Rpt_Complete) ms"
  let ?Q = "\<lambda>r s'. case r of Inl ms \<Rightarrow> ?I ms s' | Inr ms \<Rightarrow> quiet c (fst s') \<and> answered command c ms"
  let ?own = "\<lambda>r. case r of Some m \<Rightarrow> if m_request_id m = m_request_id command then [m] else [] | None \<Rightarrow> []"
  have drain: "wp (seq (if cancellation command then return_act () else drain_market) (\<lambda>_. return_act (Inl ms'))) ?Q (\<lambda>s'. quiet c (fst s')) s'"
    if "?I ms' s'" for ms' s'
    by (rule wp_after [OF qui.keepsD [OF qui.keeps_cases(1) [OF qui.keeps_basic(1) qui.keeps_drain]]]) (use that in \<open>auto simp: wp\<close>)
  have got: "wp (seq (receive_report 10000000) (\<lambda>r. let own = ?own r in
      if list_ex (\<lambda>m. m_report m = Rpt_Complete) own then return_act (Inr (ms @ own))
      else seq (if cancellation command then return_act () else drain_market) (\<lambda>_. return_act (Inl (ms @ own)))))
      ?Q (\<lambda>s'. quiet c (fst s')) s'" if "?I ms s'" for s'
  proof (rule wp_after [OF report_own], goal_cases)
    case (2 r s2)
    have "\<not> list_ex (\<lambda>m. m_report m = Rpt_Complete) (?own r) \<Longrightarrow> ?I (ms @ ?own r) s2"
      using 2 that by (auto simp: reply_to_def list_all_iff split: option.splits)
    note more = drain [OF this]
    show ?case
    proof (cases "list_ex (\<lambda>m. m_report m = Rpt_Complete) (?own r)")
      case True
      then obtain m where m: "r = Some m" "?own r = [m]" "m_request_id m = m_request_id command" "m_report m = Rpt_Complete"
        by (auto split: option.splits if_splits)
      have "answered command c (ms @ [m])"
        unfolding answered_def by (intro exI [of _ ms] exI [of _ m]) (use 2 m that in \<open>auto simp: reply_to_def list_all_iff\<close>)
      then show ?thesis unfolding Let_def m(2) using 2 m(4) by (simp add: wp)
    next
      case False
      then show ?thesis using more unfolding Let_def by simp
    qed
  qed (use that in simp)
  show ?case unfolding await_round_def
    by (rule wp_after [where P = "\<lambda>_ s'. ?I ms s'"]) (use 2 got in \<open>auto simp: wp split: list.split\<close>)
qed (use c in auto)

lemma dispatch_sends:
  "wp (dispatch command) (\<lambda>ms s'. tc_submitted (fst s') = tc_submitted (fst s) @ [numbered command (fst s)] \<and> \<not> tc_closed (fst s) \<and>
      answered (numbered command (fst s)) (fst s) ms)
    (\<lambda>s'. tc_submitted (fst s') = tc_submitted (fst s) \<or>
      tc_submitted (fst s') = tc_submitted (fst s) @ [numbered command (fst s)] \<and> \<not> tc_closed (fst s)) s"
proof -
  let ?c = "fst s" let ?m = "numbered command ?c"
  let ?c1 = "?c\<lparr>tc_request_id := tc_request_id ?c + 1\<rparr>"
  let ?c2 = "?c1\<lparr>tc_submitted := tc_submitted ?c1 @ [?m]\<rparr>"
  let ?E = "\<lambda>s'. tc_submitted (fst s') = tc_submitted ?c \<or> tc_submitted (fst s') = tc_submitted ?c @ [?m] \<and> \<not> tc_closed ?c"
  let ?Q = "\<lambda>ms s'. tc_submitted (fst s') = tc_submitted ?c @ [?m] \<and> \<not> tc_closed ?c \<and> answered ?m ?c ms"
  have same: "answered ?m ?c2 ms = answered ?m ?c ms" for ms
    by (rule answered_cong) simp_all
  have wait: "wp (seq now (\<lambda>start. await ?m (start + 3000000000))) ?Q ?E s'" if "quiet ?c2 (fst s')" "\<not> tc_closed ?c" for s'
  proof (rule wp_after [where P = "\<lambda>_ s'. quiet ?c2 (fst s')"])
    show "wp now (\<lambda>_ s'. quiet ?c2 (fst s')) ?E s'" using that by (simp add: wp quiet_def split: list.split)
    show "wp (await ?m (start + 3000000000)) ?Q ?E s2" if "quiet ?c2 (fst s2)" for start s2
      by (rule wp_mono [OF await_answered [OF that]]) (use \<open>\<not> tc_closed ?c\<close> in \<open>auto simp: same [simplified] quiet_def\<close>)
  qed
  have send: "wp (seq (transport_send ?m) (\<lambda>_. seq now (\<lambda>start. await ?m (start + 3000000000)))) ?Q ?E (?c1, snd s)" if "\<not> tc_closed ?c"
    by (rule wp_after [where P = "\<lambda>_ s'. fst s' = ?c2"], rule wp_mono [OF send_queues]) (use wait that in auto)
  show ?thesis unfolding dispatch_def wp_seq [of "number_command _"] wp_number wp_seq [of "reading _"] wp_reading
    using send by (auto simp: wp_throw)
qed


definition demo_reply :: Message where
  "demo_reply = default_message\<lparr>m_kind := Report, m_report := Rpt_Complete, m_client_id := 5, m_epoch := 7, m_request_id := 1, m_sequence := 2\<rparr>"

definition demo_submit :: "Message list outcome \<times> TradingClient \<times> world" where
  "demo_submit = client_submit (default_message\<lparr>m_action := Act_CancelAll\<rparr>)
     ((TradingClient_init demo_client_config 0)\<lparr>tc_epoch := 7\<rparr>, (demo_world [])\<lparr>w_reports := [None, Some demo_reply]\<rparr>)"

lemma reports_first: "receive_reports 4096 = seq (receive_report 0) (\<lambda>r. case r of None \<Rightarrow> return_act () | Some _ \<Rightarrow> receive_reports 4095)"
  using receive_reports.simps(2) [of 4095] by simp

lemma demo_submit_runs: "fst demo_submit = Done [demo_reply]"
  by (simp add: demo_submit_def client_submit_def cancellation_def reports_first receive_report_def seq_def check_def ask_def now_def
      next_report_def report_round_def loop_def pop_reports_def return_act_def reading_def manager_check_def dispatch_def number_command_def client_def
      transport_send_def await_room_def room_round_def await_def await_round_def consume_report_def demo_world_def demo_reply_def TradingClient_init_def
      demo_client_config_def default_message_def manager_consume_def manager_new_def Let_def)


end
