(* ===== verification/Client_Live.thy ===== *)
theory Client_Live
  imports Client_Theorems "HOL-Library.Stream"
begin

text \<open>
  Every call of a client comes to an end. The clock is an infinite stream of readings that passes every
  bound and stays above it; then each operation returns or throws after finitely many readings, whatever the
  queues, the sockets and the workers do.
\<close>

section \<open>Ending acts\<close>

definition advancing :: "int stream \<Rightarrow> bool" where
  "advancing C \<longleftrightarrow> (\<forall>b. \<exists>i. \<forall>j \<ge> i. b \<le> C !! j)"

lemma advancing_sdrop: "advancing C \<Longrightarrow> advancing (sdrop k C)"
  unfolding advancing_def sdrop_snth by (meson le_add1 order_trans trans_le_add2)

text \<open>With the first \<open>k\<close> readings the act ends with \<open>r\<close>, and leaves all later readings.\<close>

definition runs :: "'a act \<Rightarrow> TradingClient \<Rightarrow> world \<Rightarrow> int list \<Rightarrow> 'a outcome \<Rightarrow> TradingClient \<Rightarrow> world \<Rightarrow> bool" where
  "runs m c w us r c' w' \<longleftrightarrow> r \<noteq> Cut \<and> (\<forall>ts. m (c, w\<lparr>w_clock := us @ ts\<rparr>) = (r, c', w'\<lparr>w_clock := ts\<rparr>))"

definition ends :: "'a act \<Rightarrow> bool" where
  "ends m \<longleftrightarrow> (\<forall>c w C. advancing C \<longrightarrow> (\<exists>k r c' w'. runs m c w (stake k C) r c' w'))"

text \<open>A round of a loop that goes on only after a reading below the deadline.\<close>

definition bounded :: "int \<Rightarrow> ('l + 'a) act \<Rightarrow> bool" where
  "bounded d m \<longleftrightarrow> (\<forall>c w C. advancing C \<longrightarrow>
     (\<exists>k r c' w'. runs m c w (stake k C) r c' w' \<and> (\<forall>l. r = Done (Inl l) \<longrightarrow> (\<exists>u \<in> set (stake k C). u < d))))"

lemma bounded_ends: "bounded d m \<Longrightarrow> ends m"
  unfolding bounded_def ends_def by blast

lemma runs_seq:
  assumes "runs m c w us (Done x) c1 w1" "runs (f x) c1 w1 vs r c2 w2"
  shows "runs (seq m f) c w (us @ vs) r c2 w2"
  using assms by (simp add: runs_def seq_def)

lemma runs_seq_throw: "runs m c w us (Threw e) c1 w1 \<Longrightarrow> runs (seq m f) c w us (Threw e) c1 w1"
  by (simp add: runs_def seq_def)

lemma endsE:
  assumes "ends m" "advancing C"
  obtains k x c' w' where "runs m c w (stake k C) (Done x) c' w'" | k e c' w' where "runs m c w (stake k C) (Threw e) c' w'"
proof -
  obtain k r c' w' where "runs m c w (stake k C) r c' w'" using assms unfolding ends_def by blast
  then show ?thesis using that by (cases r) (auto simp: runs_def)
qed

lemma bounded_seq:
  assumes "ends m" "\<And>x. bounded d (f x)"
  shows "bounded d (seq m f)"
  unfolding bounded_def
proof (intro allI impI)
  fix c w C
  assume C: "advancing C"
  from assms(1) C show "\<exists>k r c' w'. runs (seq m f) c w (stake k C) r c' w' \<and> (\<forall>l. r = Done (Inl l) \<longrightarrow> (\<exists>u \<in> set (stake k C). u < d))"
  proof (cases rule: endsE [of m C c w])
    case (1 k x c1 w1)
    obtain k' r c2 w2 where f: "runs (f x) c1 w1 (stake k' (sdrop k C)) r c2 w2"
        "\<forall>l. r = Done (Inl l) \<longrightarrow> (\<exists>u \<in> set (stake k' (sdrop k C)). u < d)"
      using assms(2) [of x] advancing_sdrop [OF C] unfolding bounded_def by blast
    have "runs (seq m f) c w (stake (k + k') C) r c2 w2" using runs_seq [where f = f, OF 1 f(1)] unfolding stake_add .
    moreover have "set (stake k' (sdrop k C)) \<subseteq> set (stake (k + k') C)"
      using stake_add [of k C k'] by (metis set_append sup_ge2)
    ultimately show ?thesis using f(2) by blast
  next
    case (2 k e c1 w1)
    from runs_seq_throw [OF this, of f] show ?thesis by blast
  qed
qed

lemma ends_seq:
  assumes "ends m" "\<And>x. ends (f x)"
  shows "ends (seq m f)"
  unfolding ends_def
proof (intro allI impI)
  fix c w C
  assume C: "advancing C"
  from assms(1) C show "\<exists>k r c' w'. runs (seq m f) c w (stake k C) r c' w'"
  proof (cases rule: endsE [of m C c w])
    case (1 k x c1 w1)
    obtain k' r c2 w2 where "runs (f x) c1 w1 (stake k' (sdrop k C)) r c2 w2"
      using assms(2) [of x] advancing_sdrop [OF C] unfolding ends_def by blast
    from runs_seq [where f = f, OF 1 this] show ?thesis unfolding stake_add by blast
  next
    case (2 k e c1 w1)
    from runs_seq_throw [OF this, of f] show ?thesis by blast
  qed
qed

text \<open>Acts that do not read the clock.\<close>

lemma ends_clockless:
  assumes "\<And>c w. \<exists>r c' w'. runs m c w [] r c' w'"
  shows "ends m"
  unfolding ends_def using assms by (metis stake.simps(1))

lemma ends_basic: "ends (return_act x)" "ends (throw_act e)" "ends (reading f)" "ends (client g)"
  by (rule ends_clockless; auto simp: runs_def return_act_def throw_act_def reading_def client_def)+

lemma ends_ask:
  assumes "\<And>w ts. get (w\<lparr>w_clock := ts\<rparr>) = get w" "\<And>w ts. upd tl (w\<lparr>w_clock := ts\<rparr>) = (upd tl w)\<lparr>w_clock := ts\<rparr>"
  shows "ends (ask get upd d)"
  by (rule ends_clockless) (auto simp: runs_def ask_def assms)

lemma ends_now: "ends now"
proof -
  have "runs now c w (stake 1 C) (Done (shd C)) c w" for c w C by (simp add: runs_def now_def)
  then show ?thesis unfolding ends_def by blast
qed

lemma bounded_out: "bounded d (return_act (Inr x))" "bounded d (throw_act e)"
  unfolding bounded_def by (auto simp: runs_def return_act_def throw_act_def intro!: exI [of _ "0 :: nat"])

lemma bounded_now:
  assumes "\<And>t. t < d \<Longrightarrow> ends (f t)" "\<And>t. d \<le> t \<Longrightarrow> bounded d (f t)"
  shows "bounded d (seq now f)"
  unfolding bounded_def
proof (intro allI impI)
  fix c w C
  assume "advancing C"
  then have C: "advancing (sdrop 1 C)" by (rule advancing_sdrop)
  have now: "runs now c w (stake 1 C) (Done (shd C)) c w" by (simp add: runs_def now_def)
  have step: "runs (seq now f) c w (stake (1 + k) C) r c' w'" if "runs (f (shd C)) c w (stake k (sdrop 1 C)) r c' w'" for k r c' w'
    using runs_seq [where f = f, OF now that] unfolding stake_add .
  show "\<exists>k r c' w'. runs (seq now f) c w (stake k C) r c' w' \<and> (\<forall>l. r = Done (Inl l) \<longrightarrow> (\<exists>u \<in> set (stake k C). u < d))"
  proof (cases "shd C < d")
    case True
    obtain k r c' w' where "runs (f (shd C)) c w (stake k (sdrop 1 C)) r c' w'" using assms(1) [OF True] C unfolding ends_def by blast
    moreover have "shd C \<in> set (stake (1 + k) C)" by simp
    ultimately show ?thesis using step True by blast
  next
    case False
    then obtain k r c' w' where k: "runs (f (shd C)) c w (stake k (sdrop 1 C)) r c' w'"
        "\<forall>l. r = Done (Inl l) \<longrightarrow> (\<exists>u \<in> set (stake k (sdrop 1 C)). u < d)"
      using assms(2) [of "shd C"] C unfolding bounded_def by (meson not_less)
    moreover have "set (stake k (sdrop 1 C)) \<subseteq> set (stake (1 + k) C)" by auto
    ultimately show ?thesis using step by blast
  qed
qed

text \<open>Only finitely many readings are below the deadline, so only finitely many rounds go on.\<close>

lemma rounds_end:
  assumes body: "\<And>l. bounded d (body l)"
  shows "advancing C \<Longrightarrow> \<forall>j \<ge> i. d \<le> C !! j \<Longrightarrow>
    \<exists>k r c' w'. \<forall>n > k. runs (rounds n body l) c w (stake k C) r c' w'"
proof (induction i arbitrary: C l c w rule: less_induct)
  case (less i)
  obtain k r c1 w1 where k: "runs (body l) c w (stake k C) r c1 w1" "\<forall>l. r = Done (Inl l) \<longrightarrow> (\<exists>u \<in> set (stake k C). u < d)"
    using body less.prems(1) unfolding bounded_def by blast
  show ?case
  proof (cases "\<exists>l'. r = Done (Inl l')")
    case True
    then obtain l' u where l': "r = Done (Inl l')" "u \<in> set (stake k C)" "u < d" using k(2) by blast
    then obtain j where "j < k" "C !! j < d" by (auto simp: in_set_conv_nth)
    then have less: "i - k < i" "0 < k" using less.prems(2) by (metis diff_less leD le_less_linear less_nat_zero_code neq0_conv not_less_zero)+
    obtain k' r' c2 w2 where rest: "\<forall>n > k'. runs (rounds n body l') c1 w1 (stake k' (sdrop k C)) r' c2 w2"
      using less.IH [OF less(1) advancing_sdrop [OF less.prems(1)]] less.prems(2) by (fastforce simp: sdrop_snth)
    have "runs (rounds n body l) c w (stake (k + k') C) r' c2 w2" if n0: "k + k' < n" for n
    proof -
      obtain n' where n: "n = Suc n'" "k' < n'" using n0 less(2) by (cases n) auto
      show ?thesis unfolding n(1) rounds.simps stake_add [symmetric]
        by (rule runs_seq [OF k(1) [unfolded l'(1)]]) (use rest n(2) in simp)
    qed
    then show ?thesis by blast
  next
    case False
    have "runs (rounds n body l) c w (stake k C) (case r of Done (Inr x) \<Rightarrow> Done x | Threw e \<Rightarrow> Threw e | _ \<Rightarrow> Cut) c1 w1" if n0: "k < n" for n
    proof -
      obtain n' where n: "n = Suc n'" using n0 by (cases n) auto
      show ?thesis using k(1) False unfolding n rounds.simps
        by (auto simp: runs_def seq_def return_act_def split: outcome.split sum.split)
    qed
    then show ?thesis by blast
  qed
qed

lemma ends_loop:
  assumes "\<And>l. bounded d (body l)"
  shows "ends (loop body l)"
  unfolding ends_def
proof (intro allI impI)
  fix c w C
  assume C: "advancing C"
  then obtain i where "\<forall>j \<ge> i. d \<le> C !! j" unfolding advancing_def by blast
  from rounds_end [of d body, OF assms C this] obtain k r c' w' where
      k: "\<And>n. k < n \<Longrightarrow> runs (rounds n body l) c w (stake k C) r c' w'" by metis
  have "runs (loop body l) c w (stake k C) r c' w'"
    using k by (simp add: runs_def loop_def del: rounds.simps) (metis add.commute less_add_Suc2 less_Suc_eq_le le_add1)
  then show "\<exists>k r c' w'. runs (loop body l) c w (stake k C) r c' w'" by blast
qed

lemma ends_cases:
  "ends m \<Longrightarrow> ends n \<Longrightarrow> ends (if b then m else n)" "ends m \<Longrightarrow> (\<And>x. ends (g x)) \<Longrightarrow> ends (case r of None \<Rightarrow> m | Some x \<Rightarrow> g x)"
  by (auto split: option.split)

lemma bounded_cases:
  "bounded d m \<Longrightarrow> bounded d n \<Longrightarrow> bounded d (if b then m else n)"
  "bounded d m \<Longrightarrow> (\<And>x. bounded d (g x)) \<Longrightarrow> bounded d (case r of None \<Rightarrow> m | Some x \<Rightarrow> g x)"
  by (auto split: option.split)

lemmas ends_rules = ends_seq ends_basic ends_now ends_ask ends_cases

lemma bounded_late: "bounded d (seq now (\<lambda>t. return_act (if t < d then Inl l else Inr x)))"
proof (rule bounded_now)
  fix t
  assume "d \<le> t"
  then show "bounded d (return_act (if t < d then Inl l else Inr x))" using bounded_out(1) [of d x] by simp
qed (rule ends_basic)

section \<open>The operations\<close>

lemma ends_check: "ends check"
  unfolding check_def by (intro ends_rules) simp_all

lemma ends_pops: "ends pop_market" "ends pop_reports" "ends poll_reports"
  unfolding pop_market_def pop_reports_def poll_reports_def by (intro ends_rules; simp)+

lemma ends_connect: "ends connect" "ends (timeout q)" "ends (send_message q m)" "ends (receive calls)"
  unfolding connect_def timeout_def send_message_def receive_def
  by (intro ends_rules; simp) (intro ends_rules | simp add: ends_basic split: sum.split)+

lemma ends_market: "ends (restore_market rows)" "ends (apply_market m)" "ends invalidate_market"
proof -
  show "ends (restore_market rows)"
  proof (rule ends_clockless)
    fix c :: TradingClient and w :: world
    obtain e R where R: "replica_restore (w_blocks w) (w_heaps w (w_calls w)) rows (tc_market c) = (e, R)" by force
    show "\<exists>r c' w'. runs (restore_market rows) c w [] r c' w'"
      by (cases e) (use R in \<open>auto simp: runs_def restore_market_def intro!: exI [of _ "w\<lparr>w_calls := Suc (w_calls w)\<rparr>"]\<close>)
  qed
  show "ends (apply_market m)"
  proof (rule ends_clockless)
    fix c :: TradingClient and w :: world
    show "\<exists>r c' w'. runs (apply_market m) c w [] r c' w'"
    proof (cases "replica_consume (w_blocks w) (w_heaps w (w_calls w) 0) m (tc_market c)")
      case None
      then show ?thesis by (auto simp: runs_def apply_market_def Let_def intro!: exI [of _ "w\<lparr>w_calls := Suc (w_calls w)\<rparr>"])
    next
      case (Some r)
      then show ?thesis
        by (cases r) (auto simp: runs_def apply_market_def Let_def intro!: exI [of _ "w\<lparr>w_calls := Suc (w_calls w)\<rparr>"])
    qed
  qed
  show "ends invalidate_market" unfolding invalidate_market_def by (rule ends_basic)
qed

lemma ends_snapshot: "ends (receive_snapshot deadline calls)"
  unfolding receive_snapshot_def
proof (rule ends_loop)
  fix l
  show "bounded deadline (snapshot_round deadline l)"
    unfolding snapshot_round_def
    by (cases l) (auto intro!: bounded_now bounded_out ends_rules ends_connect ends_market simp: Let_def split: prod.split)
qed

lemma ends_suffix: "ends (verify_suffix budget)"
proof (induction budget)
  case (Suc budget)
  show ?case unfolding verify_suffix.simps by (intro ends_rules ends_pops ends_check ends_market Suc)
qed (simp add: ends_basic)

lemma ends_recover: "ends recover"
proof -
  have "bounded d (recover_round d)" for d
    unfolding recover_round_def
    by (rule bounded_now)
      (auto intro!: bounded_out ends_rules ends_connect ends_market ends_snapshot ends_suffix)
  from ends_loop [of _ "\<lambda>_. recover_round _", OF this] show ?thesis
    unfolding recover_def by (intro ends_rules ends_market)
qed

lemma ends_drain: "ends drain_market"
proof -
  have one: "ends drain_one" unfolding drain_one_def by (intro ends_rules ends_pops ends_market)
  have "bounded d (drain_round d)" for d
    unfolding drain_round_def by (rule bounded_now) (auto intro!: bounded_out ends_rules ends_check one)
  from ends_loop [of _ "\<lambda>_. drain_round _", OF this] show ?thesis
    unfolding drain_market_def by (intro ends_rules ends_recover)
qed

lemma ends_report: "ends (receive_report wait)"
proof -
  have "bounded d (seq now (\<lambda>t. if d \<le> t then return_act (Inr None) else seq poll_reports (\<lambda>p. case p of
       RP_Interrupted \<Rightarrow> return_act (Inl ()) | RP_Failed \<Rightarrow> throw_act Report_Poll_Failed
     | RP_Ready readable broken cleared \<Rightarrow>
         if readable \<and> \<not> cleared \<or> broken then throw_act Report_Poll_Failed else return_act (Inl ()))))" for d
    by (rule bounded_now) (auto intro!: bounded_out ends_seq ends_pops split: report_poll.split simp: ends_basic)
  note round = this
  have "bounded d (report_round d)" for d
    unfolding report_round_def
    by (rule bounded_seq [OF ends_pops(2)], rule bounded_cases(2), rule bounded_seq [OF ends_check], rule round, rule bounded_out)
  from ends_loop [of _ "\<lambda>_. report_round _", OF this] have "ends (next_report d)" for d unfolding next_report_def .
  then show ?thesis unfolding receive_report_def consume_report_def by (intro ends_rules ends_check)
qed

lemma ends_reports: "ends (receive_reports budget)"
  by (induction budget) (auto intro!: ends_rules ends_report)

lemma ends_poll: "ends (client_poll duration)"
proof -
  have "bounded d (poll_round d)" for d
    unfolding poll_round_def by (intro bounded_seq bounded_late ends_reports ends_drain ends_now)
  from ends_loop [of _ "\<lambda>_. poll_round _", OF this] show ?thesis unfolding client_poll_def by (intro ends_rules)
qed

lemma ends_send: "ends (transport_send m)"
proof -
  have ask: "ends (ask w_room w_room_update True)" "ends (ask w_stops w_stops_update False)" by (rule ends_ask; simp)+
  have round: "bounded (d + 1) (seq now (\<lambda>t. seq (ask w_stops w_stops_update False) (\<lambda>stopped.
      if d < t \<or> stopped then throw_act Queue_Deadline else return_act (Inl ()))))" for d
  proof (rule bounded_now)
    show "ends (seq (ask w_stops w_stops_update False) (\<lambda>stopped. if d < t \<or> stopped then throw_act Queue_Deadline else return_act (Inl ())))" for t
      by (intro ends_seq ends_cases ends_basic ask)
    show "bounded (d + 1) (seq (ask w_stops w_stops_update False) (\<lambda>stopped. if d < t \<or> stopped then throw_act Queue_Deadline else return_act (Inl ())))"
      if "d + 1 \<le> t" for t by (rule bounded_seq [OF ask(2)]) (use that in \<open>simp add: bounded_out\<close>)
  qed
  have "bounded (d + 1) (room_round d)" for d
    unfolding room_round_def
    by (rule bounded_seq [OF ask(1)], rule bounded_cases(1), rule bounded_out, rule bounded_seq [OF ends_check], rule round)
  from ends_loop [of _ "\<lambda>_. room_round _", OF this] have "ends (await_room d)" for d unfolding await_room_def .
  then show ?thesis unfolding transport_send_def by (intro ends_rules ends_check) simp_all
qed

lemma ends_await: "ends (await command deadline)"
  unfolding await_def
proof (rule ends_loop)
  show "bounded deadline (await_round command deadline l)" for l
    unfolding await_round_def Let_def by (rule bounded_now) (auto intro!: bounded_out ends_rules ends_report ends_drain)
qed

lemma ends_submit: "ends (client_submit command)"
  unfolding client_submit_def dispatch_def number_command_def
  by (intro ends_rules ends_reports ends_poll ends_send ends_await)

lemma ends_call: "ends (call_act call)"
  by (cases call)
    (auto simp: client_close_def intro!: ends_rules ends_recover ends_poll ends_submit ends_check)

lemma ends_new: "ends (TradingClient_new config)"
proof -
  have threads: "ends start_threads" by (rule ends_clockless) (auto simp: runs_def start_threads_def)
  show ?thesis unfolding TradingClient_new_def
    by (intro ends_rules ends_connect) (auto split: prod.split intro!: ends_rules threads ends_recover)
qed

text \<open>
  C14. No call of a client hangs. However the queues, sockets, workers and the exchange behave, if the readings of
  the clock pass every bound for good, then opening a client, recovering, polling, submitting and closing each
  return or throw after finitely many readings of the clock.
\<close>

theorem client_calls_end:
  assumes "\<forall>b. \<exists>i. \<forall>j \<ge> i. b \<le> C !! j"
  shows "(\<exists>k. fst (TradingClient_new config (c, w\<lparr>w_clock := stake k C\<rparr>)) \<noteq> Cut) \<and>
    (\<forall>call. \<exists>k. fst (call_act call (c, w\<lparr>w_clock := stake k C\<rparr>)) \<noteq> Cut)"
proof -
  have C: "advancing C" using assms by (simp add: advancing_def)
  have "\<exists>k. fst (m (c, w\<lparr>w_clock := stake k C\<rparr>)) \<noteq> Cut" if m: "ends m" for m :: "unit act"
  proof -
    obtain k r c' w' where "runs m c w (stake k C) r c' w'" using m C unfolding ends_def by blast
    then have "r \<noteq> Cut" "m (c, w\<lparr>w_clock := stake k C @ []\<rparr>) = (r, c', w'\<lparr>w_clock := []\<rparr>)" unfolding runs_def by blast+
    then show ?thesis by (metis append_Nil2 fst_conv)
  qed
  then show ?thesis using ends_new ends_call by blast
qed

theorem client_calls_end_witness:
  "\<exists>k. fst (call_act (Call_Poll 5) (TradingClient_init demo_client_config 0, (demo_world [])\<lparr>w_clock := stake k (smap int nats)\<rparr>)) \<noteq> Cut"
proof -
  have "b \<le> smap int nats !! j" if "nat b \<le> j" for b j using that by (simp add: nat_le_iff)
  then have "\<forall>b. \<exists>i. \<forall>j \<ge> i. b \<le> smap int nats !! j" by blast
  from client_calls_end [OF this] show ?thesis by blast
qed

end
