(* ===== verification/Logger.thy ===== *)
theory Logger
  imports Core_Types Decimal Queue_Spec
begin

text \<open>
  include/order_book/core/logger.hpp and src/core/logger.cpp: the asynchronous log. One producer thread offers
  records, a worker thread takes them from a queue, formats and writes them; closing joins the worker and
  writes what is left. The two threads interleave freely; a push and a pop are atomic steps (LF_Queue).

  The environment decides the clock, whether \<open>localtime_r\<close> succeeds and the text of the time, and whether the
  file accepts a line, a flush and the close.
\<close>

section \<open>Records\<close>

datatype LogLevel = Level_Debug | Level_Info | Level_Warn | Level_Error | Level_Fatal | Level_Off

fun level_rank :: "LogLevel \<Rightarrow> nat" where
  "level_rank Level_Debug = 0" | "level_rank Level_Info = 1" | "level_rank Level_Warn = 2"
| "level_rank Level_Error = 3" | "level_rank Level_Fatal = 4" | "level_rank Level_Off = 5"

instantiation LogLevel :: linorder
begin

definition less_eq_LogLevel :: "LogLevel \<Rightarrow> LogLevel \<Rightarrow> bool" where
  "less_eq_LogLevel a b \<longleftrightarrow> level_rank a \<le> level_rank b"

definition less_LogLevel :: "LogLevel \<Rightarrow> LogLevel \<Rightarrow> bool" where
  "less_LogLevel a b \<longleftrightarrow> level_rank a < level_rank b"

instance
proof
  fix x y :: LogLevel
  show "x \<le> y \<Longrightarrow> y \<le> x \<Longrightarrow> x = y" by (cases x; cases y) (simp_all add: less_eq_LogLevel_def)
qed (auto simp: less_eq_LogLevel_def less_LogLevel_def)

end

datatype LogEvent = Log_AddOrder | Log_CancelOrder | Log_ExecuteOrder | ReplayStarted | ReplayFinished | ParseFailed
  | InvalidSequence | InvariantFailed | InputOpenFailed | InputReadFailed | TcpListening | TcpConnected | TcpDisconnected
  | TcpFinished | TcpTransportFailed | TcpProtocolFailed | TcpAckSent | TcpAckReceived | UdpJoined | UdpFinished
  | UdpTimeout | UdpProtocolFailed | UdpTransportFailed | UdpStaleDropped | UdpGapDetected | UdpApplyRejected | TradingCommand

fun level_name :: "LogLevel \<Rightarrow> string" where
  "level_name Level_Debug = ''DEBUG''"
| "level_name Level_Info = ''INFO''"
| "level_name Level_Warn = ''WARN''"
| "level_name Level_Error = ''ERROR''"
| "level_name Level_Fatal = ''FATAL''"
| "level_name Level_Off = ''OFF''"

fun event_name :: "LogEvent \<Rightarrow> string" where
  "event_name Log_AddOrder = ''AddOrder''"
| "event_name Log_CancelOrder = ''CancelOrder''"
| "event_name Log_ExecuteOrder = ''ExecuteOrder''"
| "event_name ReplayStarted = ''ReplayStarted''"
| "event_name ReplayFinished = ''ReplayFinished''"
| "event_name ParseFailed = ''ParseFailed''"
| "event_name InvalidSequence = ''InvalidSequence''"
| "event_name InvariantFailed = ''InvariantFailed''"
| "event_name InputOpenFailed = ''InputOpenFailed''"
| "event_name InputReadFailed = ''InputReadFailed''"
| "event_name TcpListening = ''TcpListening''"
| "event_name TcpConnected = ''TcpConnected''"
| "event_name TcpDisconnected = ''TcpDisconnected''"
| "event_name TcpFinished = ''TcpFinished''"
| "event_name TcpTransportFailed = ''TcpTransportFailed''"
| "event_name TcpProtocolFailed = ''TcpProtocolFailed''"
| "event_name TcpAckSent = ''TcpAckSent''"
| "event_name TcpAckReceived = ''TcpAckReceived''"
| "event_name UdpJoined = ''UdpJoined''"
| "event_name UdpFinished = ''UdpFinished''"
| "event_name UdpTimeout = ''UdpTimeout''"
| "event_name UdpProtocolFailed = ''UdpProtocolFailed''"
| "event_name UdpTransportFailed = ''UdpTransportFailed''"
| "event_name UdpStaleDropped = ''UdpStaleDropped''"
| "event_name UdpGapDetected = ''UdpGapDetected''"
| "event_name UdpApplyRejected = ''UdpApplyRejected''"
| "event_name TradingCommand = ''TradingCommand''"

record LogRecord =
  lr_timestamp :: int
  lr_level :: LogLevel
  lr_event :: LogEvent
  lr_file :: string
  lr_source_line :: u32
  lr_sequence :: Sequence
  lr_instrument_id :: InstrumentId
  lr_order_id :: OrderId
  lr_price :: Price
  lr_quantity :: Quantity
  lr_side :: Side
  lr_result :: ApplyResult
  lr_line_number :: u64
  lr_port :: u16
  lr_error_code :: int

definition default_record :: LogRecord where
  "default_record = \<lparr>lr_timestamp = 0, lr_level = Level_Debug, lr_event = Log_AddOrder, lr_file = [], lr_source_line = 0,
     lr_sequence = 0, lr_instrument_id = 0, lr_order_id = 0, lr_price = 0, lr_quantity = 0, lr_side = Bid, lr_result = Ok,
     lr_line_number = 0, lr_port = 0, lr_error_code = 0\<rparr>"

definition event_record :: "MarketEvent \<Rightarrow> ApplyResult \<Rightarrow> LogRecord" where
  "event_record event result =
     (let r = default_record\<lparr>lr_level := (if result = Ok then Level_Debug else if result = AllocationFailed then Level_Error else Level_Warn),
                lr_sequence := ev_sequence event, lr_instrument_id := ev_instrument_id event, lr_result := result\<rparr> in
      case ev_payload event of
        AddOrder oid side price quantity \<Rightarrow>
          r\<lparr>lr_order_id := oid, lr_event := Log_AddOrder, lr_price := price, lr_quantity := quantity, lr_side := side\<rparr>
      | CancelOrder oid \<Rightarrow> r\<lparr>lr_order_id := oid, lr_event := Log_CancelOrder\<rparr>
      | ExecuteOrder oid quantity \<Rightarrow> r\<lparr>lr_order_id := oid, lr_event := Log_ExecuteOrder, lr_quantity := quantity\<rparr>)"

abbreviation shown :: "'a::len word \<Rightarrow> string" where
  "shown x \<equiv> to_string_nat (unat x)"

definition to_string_int :: "int \<Rightarrow> string" where
  "to_string_int x = (if x < 0 then CHR ''-'' # to_string_nat (nat (- x)) else to_string_nat (nat x))"

text \<open>\<open>time\<close> is the local time as text, or \<open>None\<close> where formatting throws.\<close>

definition format_record :: "(int \<Rightarrow> string option) \<Rightarrow> LogRecord \<Rightarrow> string option" where
  "format_record time r = map_option (\<lambda>t.
     ''['' @ t @ ''] ['' @ level_name (lr_level r) @ ''] '' @ lr_file r @ '':'' @ shown (lr_source_line r) @ '' '' @
     event_name (lr_event r) @ '' sequence='' @ shown (lr_sequence r) @ '' instrument_id='' @ shown (lr_instrument_id r) @
     '' order_id='' @ shown (lr_order_id r) @ '' price_ticks='' @ shown (lr_price r) @ '' qty='' @ shown (lr_quantity r) @
     (if lr_event r \<in> {Log_AddOrder, Log_CancelOrder, Log_ExecuteOrder, ParseFailed, TcpAckSent, TcpAckReceived}
      then '' result='' @ result_to_string (lr_result r) else []) @
     '' line='' @ shown (lr_line_number r) @
     (if lr_event r = Log_AddOrder then '' side='' @ side_to_string (lr_side r) else []) @
     (if lr_port r \<noteq> 0 then '' port='' @ shown (lr_port r) else []) @
     (if lr_error_code r \<noteq> 0 then '' error_code='' @ to_string_int (lr_error_code r) else [])) (time (lr_timestamp r))"

section \<open>The two threads\<close>

text \<open>Where the worker and a call of \<open>close\<close> are. \<open>wrote\<close> is the local of \<open>flush\<close>.\<close>

datatype worker_pc = W_Top | W_Flush bool | W_Left

datatype close_pc = L_Open | L_Join | L_Flush bool | L_Shut | L_Closed

text \<open>
  \<open>lg_accepted\<close> are the records \<open>try_log\<close> accepted and \<open>lg_taken\<close> those taken from the queue, with the text each was formatted to.
\<close>

record Logger =
  lg_queue :: "LogRecord LFQueue"
  lg_minimum_level :: LogLevel
  lg_stop :: bool
  lg_dropped :: u64
  lg_write_failed :: bool
  lg_format_failed :: u64
  lg_text :: string
  lg_worker :: worker_pc
  lg_closing :: close_pc
  lg_accepted :: "LogRecord list"
  lg_taken :: "(LogRecord \<times> string option) list"

definition Logger_new :: "bool \<Rightarrow> LogLevel \<Rightarrow> string \<Rightarrow> Logger option" where
  "Logger_new opened minimum_level existing =
     (if \<not> opened then None
      else Some \<lparr>lg_queue = queue_new queue_capacity default_record, lg_minimum_level = minimum_level, lg_stop = False, lg_dropped = 0,
        lg_write_failed = False, lg_format_failed = 0, lg_text = existing, lg_worker = W_Top, lg_closing = L_Open, lg_accepted = [], lg_taken = []\<rparr>)"

definition try_log :: "int \<Rightarrow> string \<times> u32 \<Rightarrow> LogRecord \<Rightarrow> Logger \<Rightarrow> bool \<times> Logger" where
  "try_log now source record l =
     (if lg_stop l \<or> lr_level record = Level_Off \<or> lr_level record < lg_minimum_level l \<or> lg_write_failed l then (False, l)
      else
        let r = record\<lparr>lr_timestamp := now, lr_file := fst source, lr_source_line := snd source\<rparr> in
        case try_push queue_capacity r (lg_queue l) of
          (False, _) \<Rightarrow> (False, l\<lparr>lg_dropped := lg_dropped l + 1\<rparr>)
        | (True, q) \<Rightarrow> (True, l\<lparr>lg_queue := q, lg_accepted := lg_accepted l @ [r]\<rparr>))"

definition log_event :: "int \<Rightarrow> string \<times> u32 \<Rightarrow> MarketEvent \<Rightarrow> ApplyResult \<Rightarrow> Logger \<Rightarrow> Logger" where
  "log_event now source event result l = snd (try_log now source (event_record event result) l)"

text \<open>What the system answers in one step.\<close>

record log_env =
  le_time :: "int \<Rightarrow> string option"
  le_line_ok :: bool
  le_torn :: nat
  le_flush_ok :: bool
  le_close_ok :: bool

text \<open>
  One round of \<open>flush\<close>: the new value of \<open>wrote\<close>, or \<open>None\<close> when it returns. A line that fails leaves the
  first \<open>le_torn\<close> characters.
\<close>

definition flush_round :: "log_env \<Rightarrow> bool \<Rightarrow> Logger \<Rightarrow> bool option \<times> Logger" where
  "flush_round env wrote l =
     (case try_pop queue_capacity (lg_queue l) of
        (None, _) \<Rightarrow> (None, if wrote \<and> \<not> le_flush_ok env then l\<lparr>lg_write_failed := True\<rparr> else l)
      | (Some r, q) \<Rightarrow>
          let l1 = l\<lparr>lg_queue := q, lg_taken := lg_taken l @ [(r, format_record (le_time env) r)]\<rparr> in
          (case format_record (le_time env) r of
             None \<Rightarrow> (Some wrote, l1\<lparr>lg_format_failed := lg_format_failed l + 1\<rparr>)
           | Some t \<Rightarrow>
               if \<not> le_line_ok env
               then (None, l1\<lparr>lg_write_failed := True, lg_text := lg_text l @ take (le_torn env) (t @ [CHR 0x0A])\<rparr>)
               else (Some True, l1\<lparr>lg_text := lg_text l @ t @ [CHR 0x0A]\<rparr>)))"

definition worker_step :: "log_env \<Rightarrow> Logger \<Rightarrow> Logger" where
  "worker_step env l =
     (case lg_worker l of
        W_Top \<Rightarrow> l\<lparr>lg_worker := (if \<not> lg_stop l \<and> \<not> lg_write_failed l then W_Flush False else W_Left)\<rparr>
      | W_Flush wrote \<Rightarrow>
          (case flush_round env wrote l of
             (None, l') \<Rightarrow> l'\<lparr>lg_worker := W_Top\<rparr>
           | (Some wrote', l') \<Rightarrow> l'\<lparr>lg_worker := W_Flush wrote'\<rparr>)
      | W_Left \<Rightarrow> l)"

definition close_step :: "log_env \<Rightarrow> Logger \<Rightarrow> Logger" where
  "close_step env l =
     (case lg_closing l of
        L_Open \<Rightarrow> l\<lparr>lg_stop := True, lg_closing := L_Join\<rparr>
      | L_Join \<Rightarrow> if lg_worker l = W_Left then l\<lparr>lg_closing := (if lg_write_failed l then L_Shut else L_Flush False)\<rparr> else l
      | L_Flush wrote \<Rightarrow>
          (case flush_round env wrote l of
             (None, l') \<Rightarrow> l'\<lparr>lg_closing := L_Shut\<rparr>
           | (Some wrote', l') \<Rightarrow> l'\<lparr>lg_closing := L_Flush wrote'\<rparr>)
      | L_Shut \<Rightarrow> l\<lparr>lg_write_failed := (lg_write_failed l \<or> \<not> le_close_ok env), lg_closing := L_Closed\<rparr>
      | L_Closed \<Rightarrow> l)"

text \<open>A run: the producer logs while the logger is open, then closes it; the worker moves at any time.\<close>

inductive log_run :: "Logger \<Rightarrow> Logger \<Rightarrow> bool" for start where
  log_start: "log_run start start"
| log_try: "log_run start l \<Longrightarrow> log_run start (snd (try_log now source record l))"
| log_work: "log_run start l \<Longrightarrow> log_run start (worker_step env l)"
| log_close: "log_run start l \<Longrightarrow> log_run start (close_step env l)"

section \<open>Nothing accepted is lost\<close>

definition lines_of :: "(LogRecord \<times> string option) list \<Rightarrow> string" where
  "lines_of ts = concat (map (\<lambda>(_, t). case t of None \<Rightarrow> [] | Some t \<Rightarrow> t @ [CHR 0x0A]) ts)"

definition log_inv :: "string \<Rightarrow> Logger \<Rightarrow> bool" where
  "log_inv existing l \<longleftrightarrow> queue_ok queue_capacity (lg_queue l) \<and>
     lg_accepted l = map fst (lg_taken l) @ queued queue_capacity (lg_queue l) \<and>
     list_all (\<lambda>(r, t). \<exists>time. t = format_record time r) (lg_taken l) \<and>
     (\<not> lg_write_failed l \<longrightarrow> lg_text l = existing @ lines_of (lg_taken l)) \<and>
     lg_format_failed l = of_nat (length (filter (\<lambda>(_, t). t = None) (lg_taken l))) \<and>
     (lg_closing l \<noteq> L_Open \<longrightarrow> lg_stop l) \<and>
     (lg_closing l \<in> {L_Shut, L_Closed} \<and> \<not> lg_write_failed l \<longrightarrow> queued queue_capacity (lg_queue l) = []) \<and>
     (lg_closing l \<notin> {L_Open, L_Join} \<longrightarrow> lg_worker l = W_Left)"

lemma lines_of_append [simp]: "lines_of (ts @ us) = lines_of ts @ lines_of us"
  by (simp add: lines_of_def)

lemma lines_of_simps [simp]: "lines_of [] = []" "lines_of [(r, None)] = []" "lines_of [(r, Some t)] = t @ [CHR 0x0A]"
  by (simp_all add: lines_of_def)

text \<open>The part of the invariant a round of \<open>flush\<close> keeps.\<close>

definition log_core :: "string \<Rightarrow> Logger \<Rightarrow> bool" where
  "log_core existing l \<longleftrightarrow> queue_ok queue_capacity (lg_queue l) \<and>
     lg_accepted l = map fst (lg_taken l) @ queued queue_capacity (lg_queue l) \<and>
     list_all (\<lambda>(r, t). \<exists>time. t = format_record time r) (lg_taken l) \<and>
     (\<not> lg_write_failed l \<longrightarrow> lg_text l = existing @ lines_of (lg_taken l)) \<and>
     lg_format_failed l = of_nat (length (filter (\<lambda>(_, t). t = None) (lg_taken l)))"

lemma flush_round_core:
  assumes "log_core existing l" "flush_round env wrote l = (again, l')"
  shows "log_core existing l' \<and> (again = None \<and> \<not> lg_write_failed l' \<longrightarrow> queued queue_capacity (lg_queue l') = []) \<and>
    lg_stop l' = lg_stop l \<and> lg_closing l' = lg_closing l \<and> lg_worker l' = lg_worker l"
proof -
  have q: "queue_ok queue_capacity (lg_queue l)" using assms(1) by (simp add: log_core_def)
  obtain r q' where pop: "try_pop queue_capacity (lg_queue l) = (r, q')" by force
  show ?thesis
  proof (cases r)
    case None
    then show ?thesis using assms pop lfq.pop_refused [OF q, of q'] by (auto simp: flush_round_def log_core_def split: if_splits)
  next
    case (Some x)
    note t = lfq.pop_ok [OF q pop [unfolded Some]]
    show ?thesis
      using assms pop Some t
      by (cases "format_record (le_time env) x") (auto simp: flush_round_def log_core_def Let_def split: if_splits intro!: exI [of _ "le_time env"])
  qed
qed

lemma log_inv_core: "log_inv existing l \<longleftrightarrow> log_core existing l \<and> (lg_closing l \<noteq> L_Open \<longrightarrow> lg_stop l) \<and>
     (lg_closing l \<in> {L_Shut, L_Closed} \<and> \<not> lg_write_failed l \<longrightarrow> queued queue_capacity (lg_queue l) = []) \<and>
     (lg_closing l \<notin> {L_Open, L_Join} \<longrightarrow> lg_worker l = W_Left)"
  by (auto simp: log_inv_def log_core_def)

lemma try_log_inv: "log_inv existing l \<Longrightarrow> log_inv existing (snd (try_log now source record l))"
proof -
  assume inv: "log_inv existing l"
  let ?r = "record\<lparr>lr_timestamp := now, lr_file := fst source, lr_source_line := snd source\<rparr>"
  obtain ok q where push: "try_push queue_capacity ?r (lg_queue l) = (ok, q)" by force
  have "queue_ok queue_capacity (lg_queue l)" using inv by (simp add: log_inv_def)
  then show ?thesis using inv push lfq.push_ok [of "lg_queue l" ?r q]
    by (cases ok) (auto simp: try_log_def log_inv_def Let_def)
qed

lemma worker_inv: "log_inv existing l \<Longrightarrow> log_inv existing (worker_step env l)"
proof (cases "lg_worker l")
  case (W_Flush wrote)
  assume inv: "log_inv existing l"
  obtain again l' where fl: "flush_round env wrote l = (again, l')" by force
  then show ?thesis using inv W_Flush flush_round_core [of existing l env wrote again l']
    unfolding log_inv_core by (cases again) (auto simp: worker_step_def log_core_def)
qed (auto simp: worker_step_def log_inv_def)

lemma close_inv: "log_inv existing l \<Longrightarrow> log_inv existing (close_step env l)"
proof (cases "lg_closing l")
  case (L_Flush wrote)
  assume inv: "log_inv existing l"
  obtain again l' where fl: "flush_round env wrote l = (again, l')" by force
  then show ?thesis using inv L_Flush flush_round_core [of existing l env wrote again l']
    unfolding log_inv_core by (cases again) (auto simp: close_step_def log_core_def)
qed (auto simp: close_step_def log_inv_def)

lemma log_run_inv: "log_run start l \<Longrightarrow> Logger_new opened level existing = Some start \<Longrightarrow> log_inv existing l"
proof (induction rule: log_run.induct)
  case log_start
  then show ?case by (auto simp: Logger_new_def log_inv_def queue_new_ok split: if_splits)
qed (auto intro: try_log_inv worker_inv close_inv)

text \<open>
  C0. The log is complete and in order. In every interleaving of the producer with the worker, once the
  logger is closed and no write has failed, the file holds, after what it held before, exactly one line for each accepted
  record in the order of acceptance, except for those whose formatting failed, and these are counted.
\<close>

theorem logger_complete:
  assumes "Logger_new opened level existing = Some start" "log_run start l" "lg_closing l = L_Closed" "\<not> lg_write_failed l"
  shows "\<exists>texts. length texts = length (lg_accepted l) \<and> list_all2 (\<lambda>r t. \<exists>time. t = format_record time r) (lg_accepted l) texts \<and>
    lg_text l = existing @ concat (map (\<lambda>t. case t of None \<Rightarrow> [] | Some t \<Rightarrow> t @ [CHR 0x0A]) texts) \<and>
    lg_format_failed l = of_nat (length (filter (\<lambda>t. t = None) texts))"
proof -
  have inv: "log_inv existing l" by (rule log_run_inv [OF assms(2,1)])
  have acc: "lg_accepted l = map fst (lg_taken l)" using inv assms(3,4) by (simp add: log_inv_def)
  have "list_all2 (\<lambda>r t. \<exists>time. t = format_record time r) (map fst ts) (map snd ts)"
    if "list_all (\<lambda>(r, t). \<exists>time. t = format_record time r) ts" for ts using that by (induction ts) auto
  then show ?thesis using inv acc assms(4)
    by (intro exI [of _ "map snd (lg_taken l)"]) (auto simp: log_inv_def lines_of_def comp_def filter_map case_prod_unfold)
qed

definition demo_log_env :: log_env where
  "demo_log_env = \<lparr>le_time = (\<lambda>_. Some ''now''), le_line_ok = True, le_torn = 0, le_flush_ok = True, le_close_ok = True\<rparr>"

definition demo_logged :: "Logger \<Rightarrow> Logger" where
  "demo_logged l =
     (let close = close_step demo_log_env; work = worker_step demo_log_env;
          record = default_record\<lparr>lr_level := Level_Info, lr_event := ReplayStarted\<rparr> in
      close (close (close (close (work (work (close (snd (try_log 0 (''replay.cpp'', 20) record l)))))))))"

lemma one_record:
  "\<exists>q1 q2. try_push queue_capacity r (queue_new queue_capacity x) = (True, q1) \<and> try_pop queue_capacity q1 = (Some r, q2) \<and>
    try_pop queue_capacity q2 = (None, q2)"
proof -
  obtain ok q1 where push: "try_push queue_capacity r (queue_new queue_capacity x) = (ok, q1)" by force
  have ok: ok using push lfq.push_refused [OF queue_new_ok, of r x q1] by (cases ok) (auto simp: queue_capacity_def)
  note p = lfq.push_ok [OF queue_new_ok push [unfolded ok [THEN eqTrueI]]]
  obtain y q2 where pop: "try_pop queue_capacity q1 = (y, q2)" by force
  then have y: "y = Some r" "queue_ok queue_capacity q2" "queued queue_capacity q2 = []"
    using p lfq.pop_refused [of q1 q2] lfq.pop_ok [of q1 _ q2] by (cases y; auto)+
  show ?thesis using push ok pop y lfq.pop_none [OF y(2,3)] by auto
qed

theorem logger_complete_witness:
  "\<exists>start. Logger_new True Level_Debug ''old'' = Some start \<and> lg_closing (demo_logged start) = L_Closed \<and>
    length (lg_accepted (demo_logged start)) = 1 \<and> (\<exists>text. lg_text (demo_logged start) = ''old'' @ text)"
proof -
  obtain start where start: "Logger_new True Level_Debug ''old'' = Some start" by (simp add: Logger_new_def)
  have run: "log_run start (demo_logged start)" unfolding demo_logged_def Let_def by (intro log_run.intros)
  have fin: "lg_closing (demo_logged start) = L_Closed" "\<not> lg_write_failed (demo_logged start)" "length (lg_accepted (demo_logged start)) = 1"
  proof -
    let ?r = "default_record\<lparr>lr_level := Level_Info, lr_event := ReplayStarted, lr_timestamp := 0, lr_file := ''replay.cpp'', lr_source_line := 20\<rparr>"
    obtain q1 q2 where q: "try_push queue_capacity ?r (queue_new queue_capacity default_record) = (True, q1)"
        "try_pop queue_capacity q1 = (Some ?r, q2)" "try_pop queue_capacity q2 = (None, q2)" using one_record [of ?r default_record] by (elim exE conjE)
    obtain t where t: "format_record (\<lambda>_. Some ''now'') ?r = Some t" unfolding format_record_def by (simp only: option.map)
    have s: "start = \<lparr>lg_queue = queue_new queue_capacity default_record, lg_minimum_level = Level_Debug, lg_stop = False, lg_dropped = 0,
        lg_write_failed = False, lg_format_failed = 0, lg_text = ''old'', lg_worker = W_Top, lg_closing = L_Open, lg_accepted = [], lg_taken = []\<rparr>"
      using start by (simp add: Logger_new_def)
    let ?l = "\<lambda>q stop worker closing str ts. \<lparr>lg_queue = q, lg_minimum_level = Level_Debug, lg_stop = stop, lg_dropped = 0,
        lg_write_failed = False, lg_format_failed = 0, lg_text = str, lg_worker = worker, lg_closing = closing, lg_accepted = [?r], lg_taken = ts\<rparr>"
    let ?e = demo_log_env and ?str = "''old'' @ t @ [CHR 0x0A]"
    have "snd (try_log 0 (''replay.cpp'', 20) (default_record\<lparr>lr_level := Level_Info, lr_event := ReplayStarted\<rparr>) start) = ?l q1 False W_Top L_Open ''old'' []"
      unfolding s by (simp add: try_log_def less_LogLevel_def q)
    moreover have "close_step ?e (?l q1 False W_Top L_Open ''old'' []) = ?l q1 True W_Top L_Join ''old'' []" by (simp add: close_step_def)
    moreover have "worker_step ?e (?l q1 True W_Top L_Join ''old'' []) = ?l q1 True W_Left L_Join ''old'' []"
        "worker_step ?e (?l q1 True W_Left L_Join ''old'' []) = ?l q1 True W_Left L_Join ''old'' []" by (simp_all add: worker_step_def)
    moreover have "close_step ?e (?l q1 True W_Left L_Join ''old'' []) = ?l q1 True W_Left (L_Flush False) ''old'' []" by (simp add: close_step_def)
    moreover have "close_step ?e (?l q1 True W_Left (L_Flush False) ''old'' []) = ?l q2 True W_Left (L_Flush True) ?str [(?r, Some t)]"
      by (simp add: close_step_def flush_round_def q t demo_log_env_def)
    moreover have "close_step ?e (?l q2 True W_Left (L_Flush True) ?str [(?r, Some t)]) = ?l q2 True W_Left L_Shut ?str [(?r, Some t)]"
      by (simp add: close_step_def flush_round_def q demo_log_env_def)
    moreover have "close_step ?e (?l q2 True W_Left L_Shut ?str [(?r, Some t)]) = ?l q2 True W_Left L_Closed ?str [(?r, Some t)]"
      by (simp add: close_step_def demo_log_env_def)
    ultimately have "demo_logged start = ?l q2 True W_Left L_Closed ?str [(?r, Some t)]" unfolding demo_logged_def Let_def by (simp only:)
    then show "lg_closing (demo_logged start) = L_Closed" "\<not> lg_write_failed (demo_logged start)" "length (lg_accepted (demo_logged start)) = 1"
      by simp_all
  qed
  obtain str where "lg_text (demo_logged start) = ''old'' @ str" using logger_complete [OF start run fin(1,2)] by (elim exE conjE)
  then show ?thesis using start fin by (intro exI [of _ start] conjI exI [of _ str])
qed

end
