(* ===== verification/Spec2Isabelle.thy ===== *)
theory Spec2Isabelle
  imports Order_Registry Journal Net_Protocol Replica_Restore LF_Queue Event_IO Feed_Pitch Feed_Books Feed_Input
    Strategy Features Config Client_Session Client_Live Logger
begin

text \<open>
  A verification of the limit order book and trading system of this repository. This theory is the root: it
  imports the whole development and describes it.

  \<^bold>\<open>The program.\<close> At the centre is a price-time priority book (\<open>OrderBook\<close>) whose orders and price levels
  live in a fixed pool of slots. Four programs are built on it. The registry keeps one book per instrument
  and applies numbered market events that are read from text lines or received as frames. The feed tools decode exchange
  archives (ITCH 5.0, PITCH) and rebuild the books of selected symbols. The exchange runs a
  matching engine behind three threads: a reactor for the client connections, an engine thread that
  journals each command before it matches it, and a publisher that multicasts every change of a book. A
  trading client keeps a replica of the market from a snapshot and the multicast updates, and an order manager and
  features from its private reports. Threads exchange messages through single-producer single-consumer queues.

  \<^bold>\<open>Conventions.\<close> Machine integers are words of their width. Where the code computes in a signed type, the model uses
  \<open>int\<close> and a theorem shows the range, or an operation out of range is a value of its own. \<open>long double\<close> is a
  rational number: rounding is not modelled. \<open>std::map\<close> and \<open>std::unordered_map\<close> are association lists with distinct keys,
  sorted by the key where the code iterates. An exception is a value (\<open>None\<close>, \<open>Inl\<close>, or a
  constructor) and the state it leaves behind is part of the result where the object survives it. An enumeration that the code checks
  has one more constructor for all values that no enumerator names. What lies outside of the program
  (allocations, pool addresses, system calls, the clock, thread scheduling, zlib) is an argument that the theorems quantify over; where a
  theorem needs something of it, that is a premise with a witness.

  \<^bold>\<open>Foundations.\<close> \<open>Prelude\<close>: types, maps, the collections of rewrite rules. \<open>Core_Types\<close>: core/types.hpp and
  core/events.hpp. \<open>Decimal\<close>: \<open>std::to_string\<close> and \<open>std::from_chars\<close>. \<open>Wire_Bytes\<close>: big-endian integers and the
  checksum, with the lemma that a single changed byte changes it. \<open>Slot_Pool\<close>: memory/fixed_slot_pool.hpp and
  allocator_adaptor.hpp; allocations are aligned, inside the block and disjoint.

  \<^bold>\<open>The order book.\<close> \<open>Order_Book\<close> translates core/order_book.cpp statement by statement: levels as ordered maps, queues of
  nodes, the index by order id, each allocation that can throw. \<open>Order_Book_Inv\<close> has the
  structural invariant, \<open>Order_Book_Ops\<close> that every operation keeps it, \<open>Order_Book_Spec\<close> an abstract book (two
  lists in priority order) and the refinement, and the locale \<open>price_time_book\<close> that clients of a book use. \<open>Order_Book_Theorems\<close>
  and \<open>Order_Book_Check\<close> state the results for every reachable book and the run-time check. \<open>Order_Registry\<close>
  is core/order_registry.hpp on top of that locale.

  \<^bold>\<open>The matching engine.\<close> \<open>Messages\<close>: trading/messages.cpp, the frame codec and its round trip. \<open>Engine\<close>: trading/engine.cpp,
  every action of \<open>process\<close>. \<open>Engine_Inv\<close>, \<open>Engine_Fill\<close>, \<open>Engine_Plan\<close>, \<open>Engine_Commit\<close> and \<open>Engine_Step\<close> prove that
  no step of a command fails in a consistent engine and that it stays consistent, uncrossed and within its position limits.
  \<open>Engine_Theorems\<close> and \<open>Engine_Orders\<close> state this for reachable engines, with the matching rule, the
  outcome of each kind of order, conservation and idempotent resends; \<open>Engine_Check\<close> covers the run-time check and the
  snapshot. \<open>Engine_Stream\<close>: the published updates determine the books. \<open>Engine_Replay\<close>: replaying the commands
  rebuilds the engine. \<open>Config\<close>: the instrument rules file and its fingerprint.

  \<^bold>\<open>The exchange.\<close> \<open>Journal\<close> and \<open>Journal_Layout\<close>: trading/journal.cpp over the bytes of the file, with every failure of a
  system call; round trip, detection of a changed byte, crash safety. \<open>LF_Queue\<close>: core/lfqueue.hpp with each atomic access a step
  of its own. \<open>Queue_Spec\<close>: the queue contract (locale \<open>bounded_queue\<close>) and its interpretation. \<open>Poll_IO\<close>: net/poll_io.hpp.
  \<open>Server\<close>: trading/server.cpp, the reactor, the engine thread and the publisher as programs whose steps
  interleave in any order. \<open>Server_Inv\<close>, \<open>Server_Run\<close>, \<open>Server_Feed\<close> and \<open>Server_Stop\<close> hold the invariants by
  induction over the steps, \<open>Server_Theorems\<close> the results: private and exclusive sessions, bounded buffers, a gapless feed, recovery from
  the journal and complete shutdown.

  \<^bold>\<open>The client.\<close> \<open>Replica\<close> and \<open>Replica_Restore\<close>: trading/replica.cpp; a replica restored from a snapshot mirrors
  the engine and follows its updates, or declares itself unsynchronized. \<open>Strategy\<close>: trading/strategy.cpp, order
  manager, local risk check and quotes. \<open>Features\<close>: trading/features.cpp.

  \<^bold>\<open>Feeds and text.\<close> \<open>Net_Protocol\<close>: net/protocol.cpp. \<open>Event_IO\<close>: io/event_io.cpp. \<open>Feed_Decode\<close>, \<open>Feed_Pitch\<close>, \<open>Feed_Books\<close> and
  \<open>Feed_Input\<close>: the decoders, the books rebuilt from them and the archive reader of src/feed.

  \<^bold>\<open>Bounds and termination.\<close> Theorems over reachable engines count the commands, since ids and sequence numbers are 64-bit
  counters: fewer than \<open>2 ^ 64 - 1\<close>. The consistency checks sum 32-bit quantities in 64 bits, hence at most \<open>2 ^ 32\<close> orders.
  Queues hold 4096 messages, an exchange 64 connections, the quoting arithmetic stays in range for inventories up to \<open>2 ^ 30\<close>. Every
  definition is total: a loop of the code that waits for another thread or for the system is a single step that may be
  taken again, or it recurses over the results the environment delivers; no fuel is chosen.

  \<^bold>\<open>Not modelled.\<close> Creation and options of sockets and the multicast calls (net/socket.cpp, net/udp.cpp, most of
  net/tcp.cpp) are operating system calls without state of the program. The programs under tools and benchmarks
  parse arguments, print and measure. Destructors, formatting of diagnostics, and
  orderings weaker than the acquire and release pairs of the queue are left out.
\<close>

end
